(* ===== verification/Grease_Prelude.thy ===== *)
theory Grease_Prelude
  imports Main "HOL-Library.Word"
begin

text \<open>
  Shared vocabulary of the development: the machine types of the C sources, byte buffers with
  the bounds of the C library's copy routines written out, the little-endian layout of the
  32-bit and 64-bit fields that cross the sink socket, and the generic lemmas on lists and
  modular arithmetic that the component theories use.
\<close>

unbundle bit_operations_syntax

section \<open>Types\<close>

type_synonym u8 = "8 word"
type_synonym u32 = "32 word"
type_synonym u64 = "64 word"
type_synonym bytes = "u8 list"

text \<open>The identifiers of \<open>grease_client.h\<close>.\<close>

type_synonym FilterHash = u64
type_synonym FilterId = u32
type_synonym TargetId = u32
type_synonym SinkId = u32
type_synonym OriginId = u32
type_synonym TagId = u32
type_synonym LevelMask = u32

named_theorems buf_simps \<open>lengths and contents of byte buffers\<close>
named_theorems ring_simps \<open>index arithmetic of the circular queue\<close>
named_theorems filter_simps \<open>filter tables and masks\<close>

section \<open>Byte buffers\<close>

text \<open>
  A C buffer is the list of its bytes. \<open>buf_write b off s\<close> is \<^verbatim>\<open>memcpy(b+off,s,n)\<close> of all of
  \<open>s\<close>; a copy that does not fit is undefined behaviour in C and \<open>None\<close> here.
\<close>

definition buf_write :: "'a list \<Rightarrow> nat \<Rightarrow> 'a list \<Rightarrow> 'a list option" where
  "buf_write b off s =
     (if off + length s \<le> length b
      then Some (take off b @ s @ drop (off + length s) b) else None)"

definition buf_read :: "'a list \<Rightarrow> nat \<Rightarrow> nat \<Rightarrow> 'a list option" where
  "buf_read b off n = (if off + n \<le> length b then Some (take n (drop off b)) else None)"

lemma buf_write_Some [buf_simps]:
  "off + length s \<le> length b \<Longrightarrow>
   buf_write b off s = Some (take off b @ s @ drop (off + length s) b)"
  by (simp add: buf_write_def)

lemma buf_write_None_iff [buf_simps]: "buf_write b off s = None \<longleftrightarrow> length b < off + length s"
  by (auto simp: buf_write_def)

lemma buf_write_length: "buf_write b off s = Some b' \<Longrightarrow> length b' = length b"
  by (auto simp: buf_write_def split: if_splits)

lemma buf_write_nth:
  assumes "buf_write b off s = Some b'" "k < length b"
  shows "b' ! k = (if off \<le> k \<and> k < off + length s then s ! (k - off) else b ! k)"
  using assms by (auto simp: buf_write_def nth_append min_def split: if_splits)

lemma buf_read_write:
  "buf_write b off s = Some b' \<Longrightarrow> buf_read b' off (length s) = Some s"
  by (auto simp: buf_write_def buf_read_def min_def split: if_splits)

lemma take_buf_write:
  "buf_write b off s = Some b' \<Longrightarrow> take (off + length s) b' = take off b @ s"
  by (auto simp: buf_write_def min_def split: if_splits) (metis add_cancel_right_right le_antisym le_trans le_add1 list.size(3) length_0_conv)

section \<open>Text in a buffer\<close>

text \<open>\<open>at mem i xs\<close>: the text \<open>xs\<close> stands in the buffer at \<open>i\<close>.\<close>

definition at :: "bytes \<Rightarrow> nat \<Rightarrow> bytes \<Rightarrow> bool" where
  "at mem i xs \<longleftrightarrow> i + length xs \<le> length mem \<and> take (length xs) (drop i mem) = xs"

lemma at_Nil [simp]: "at mem i [] \<longleftrightarrow> i \<le> length mem"
  by (simp add: at_def)

lemma at_Cons: "at mem i (x # xs) \<longleftrightarrow> i < length mem \<and> mem ! i = x \<and> at mem (Suc i) xs"
proof (cases "i < length mem")
  case True
  then have "drop i mem = mem ! i # drop (Suc i) mem" by (simp add: Cons_nth_drop_Suc)
  then show ?thesis using True by (auto simp: at_def)
qed (simp add: at_def)

lemma at_append: "at mem i (xs @ ys) \<longleftrightarrow> at mem i xs \<and> at mem (i + length xs) ys"
proof (induction xs arbitrary: i)
  case Nil
  then show ?case by (auto simp: at_def)
next
  case (Cons x xs)
  then show ?case by (simp add: at_Cons)
qed

lemma at_update: "j < i \<Longrightarrow> at (mem[j := c]) i xs = at mem i xs"
  by (simp add: at_def)

lemma at_read:
  assumes "at mem i xs" "k \<le> length xs"
  shows "buf_read mem i k = Some (take k xs)"
proof -
  have xs: "take (length xs) (drop i mem) = xs" using assms(1) by (simp add: at_def)
  have "take k xs = take k (take (length xs) (drop i mem))" by (simp only: xs)
  then show ?thesis using assms by (simp add: at_def buf_read_def min_def)
qed

section \<open>Little-endian words\<close>

definition le32 :: "u32 \<Rightarrow> bytes" where
  "le32 w = map (\<lambda>k. ucast (drop_bit (8 * k) w)) [0, 1, 2, 3]"

fun of_le32 :: "bytes \<Rightarrow> u32 option" where
  "of_le32 (a # b # c # d # _) =
     Some (ucast a OR push_bit 8 (ucast b) OR push_bit 16 (ucast c) OR push_bit 24 (ucast d))"
| "of_le32 _ = None"

definition le64 :: "u64 \<Rightarrow> bytes" where
  "le64 w = le32 (ucast w) @ le32 (ucast (drop_bit 32 w))"

definition of_le64 :: "bytes \<Rightarrow> u64 option" where
  "of_le64 bs =
     (case of_le32 bs of None \<Rightarrow> None
      | Some lo \<Rightarrow> (case of_le32 (drop 4 bs) of None \<Rightarrow> None
         | Some hi \<Rightarrow> Some (ucast lo OR push_bit 32 (ucast hi))))"

lemma length_le32 [simp, buf_simps]: "length (le32 w) = 4"
  by (simp add: le32_def)

lemma length_le64 [simp, buf_simps]: "length (le64 w) = 8"
  by (simp add: le64_def)

lemma word32_bytes:
  "(ucast (ucast w :: u8) :: u32) OR push_bit 8 (ucast (ucast (drop_bit 8 w) :: u8))
     OR push_bit 16 (ucast (ucast (drop_bit 16 w) :: u8))
     OR push_bit 24 (ucast (ucast (drop_bit 24 w) :: u8)) = w" for w :: u32
proof (rule bit_word_eqI)
  fix n assume n: "n < LENGTH(32)"
  then consider "n < 8" | "8 \<le> n" "n < 16" | "16 \<le> n" "n < 24" | "24 \<le> n" "n < 32"
    by force
  then show "bit ((ucast (ucast w :: u8) :: u32) OR push_bit 8 (ucast (ucast (drop_bit 8 w) :: u8))
     OR push_bit 16 (ucast (ucast (drop_bit 16 w) :: u8))
     OR push_bit 24 (ucast (ucast (drop_bit 24 w) :: u8))) n = bit w n"
    using n by cases (auto simp: bit_simps)
qed

lemma of_le32_le32 [simp]: "of_le32 (le32 w @ rest) = Some w"
  by (simp add: le32_def word32_bytes)

lemma of_le32_le32_Nil [simp]: "of_le32 (le32 w) = Some w"
  using of_le32_le32 [of w "[]"] by simp

lemma word64_halves: "(ucast (ucast w :: u32) :: u64) OR push_bit 32 (ucast (ucast (drop_bit 32 w) :: u32)) = w"
  for w :: u64
proof (rule bit_word_eqI)
  fix n assume n: "n < LENGTH(64)"
  then consider "n < 32" | "32 \<le> n" "n < 64" by force
  then show "bit ((ucast (ucast w :: u32) :: u64)
     OR push_bit 32 (ucast (ucast (drop_bit 32 w) :: u32))) n = bit w n"
    using n by cases (auto simp: bit_simps)
qed

lemma of_le64_le64 [simp]: "of_le64 (le64 w @ rest) = Some w"
  by (simp add: of_le64_def le64_def word64_halves)

lemma of_le64_le64_Nil [simp]: "of_le64 (le64 w) = Some w"
  using of_le64_le64 [of w "[]"] by simp

section \<open>Steps around a ring\<close>

lemma ring_up [ring_simps]:
  fixes a n :: int
  assumes "-1 \<le> a" "a < n" "0 < n"
  shows "(if n \<le> a + 1 then 0 else a + 1) = (a + 1) mod n"
  using assms by (cases "a + 1 = n") (auto simp: mod_pos_pos_trivial)

lemma ring_down [ring_simps]:
  fixes a n :: int
  assumes "0 \<le> a" "a < n"
  shows "(if a - 1 < 0 then n - 1 else a - 1) = (a - 1) mod n"
  using assms by (cases "a = 0") (auto simp: zmod_minus1)

section \<open>Lists\<close>

lemma map_upt_Suc_shift: "map f [0..<Suc n] = f 0 # map (\<lambda>k. f (Suc k)) [0..<n]"
  by (simp add: upt_conv_Cons map_Suc_upt [symmetric] del: upt_Suc)

lemma foldl_snoc_invariant:
  assumes "P s" "\<And>s x. P s \<Longrightarrow> P (f s x)"
  shows "P (foldl f s xs)"
  using assms(1) by (induction xs arbitrary: s) (auto intro: assms(2))

end
