(* ===== verification/Tw_Circular.thy ===== *)
theory Tw_Circular
  imports Grease_Prelude
begin

text \<open>
  The circular queue \<open>tw_safeCircular\<close> of TWlib (\<open>tw_circular.h\<close>) over the two-way semaphore
  \<open>TW_SemaTwoWay\<close> (\<open>tw_sema2.h\<close>). Every queue of the logger is one of these: the pool of
  master buffers, the internal and external command queues, the callback queues, the buffer
  banks of a target and the list of rotated files.

  A call holds the semaphore's mutex for its whole body, so the model makes each call one
  atomic step. A blocking call that would wait is \<open>None\<close>; a wait with a timeout that finds no
  room returns \<open>False\<close>. The queue is shown to implement a bounded first-in first-out list
  (the locale \<open>bounded_fifo\<close>), and \<open>reverse\<close> to reverse that list.
\<close>

section \<open>The semaphore\<close>

record sema =
  sema_cnt :: int
  sema_size :: int

definition sema_new :: "int \<Rightarrow> sema" where
  "sema_new n = \<lparr>sema_cnt = n, sema_size = n\<rparr>"

definition sema_reset :: "sema \<Rightarrow> sema" where
  "sema_reset s = s\<lparr>sema_cnt := sema_size s\<rparr>"

text \<open>\<open>acquireAndKeepLock\<close>: waits while the count is below one, then decrements it.\<close>

definition acquireAndKeepLock :: "sema \<Rightarrow> sema option" where
  "acquireAndKeepLock s =
     (if sema_cnt s \<ge> 1 then Some (s\<lparr>sema_cnt := sema_cnt s - 1\<rparr>) else None)"

definition acquireAndKeepLockNoBlock :: "sema \<Rightarrow> bool \<times> sema" where
  "acquireAndKeepLockNoBlock s =
     (if sema_cnt s \<ge> 1 then (True, s\<lparr>sema_cnt := sema_cnt s - 1\<rparr>) else (False, s))"

definition releaseWithoutLock :: "sema \<Rightarrow> sema" where
  "releaseWithoutLock s = s\<lparr>sema_cnt := sema_cnt s + 1\<rparr>"

section \<open>The queue\<close>

record 'a circ =
  isObjects :: bool
  rev_flag :: bool            \<comment> \<open>\<open>_reverse\<close>\<close>
  sema :: sema
  enabled :: bool
  nextIn :: int
  nextOut :: int
  csize :: int                \<comment> \<open>\<open>_size\<close>\<close>
  cdata :: "'a list"          \<comment> \<open>\<open>data\<close>, an array of \<open>_size\<close> elements\<close>

text \<open>The constructor; \<open>d\<close> is what an element of the fresh array holds.\<close>

definition circ_new :: "'a \<Rightarrow> int \<Rightarrow> bool \<Rightarrow> 'a circ" where
  "circ_new d n initobj =
     \<lparr>isObjects = initobj, rev_flag = False, sema = sema_new n, enabled = True,
      nextIn = -1, nextOut = 0, csize = n, cdata = replicate (nat n) d\<rparr>"

definition circ_remain :: "'a circ \<Rightarrow> int" where
  "circ_remain c = csize c - sema_cnt (sema c)"

definition circ_full :: "'a circ \<Rightarrow> bool" where
  "circ_full c \<longleftrightarrow> sema_cnt (sema c) = 0"

definition nextNextIn :: "'a circ \<Rightarrow> int" where
  "nextNextIn c =
     (if rev_flag c
      then (if nextIn c - 1 < 0 then csize c - 1 else nextIn c - 1)
      else (if nextIn c + 1 \<ge> csize c then 0 else nextIn c + 1))"

definition nextNextOut :: "'a circ \<Rightarrow> int" where
  "nextNextOut c =
     (if rev_flag c
      then (if nextOut c - 1 < 0 then csize c - 1 else nextOut c - 1)
      else (if nextOut c + 1 \<ge> csize c then 0 else nextOut c + 1))"

text \<open>\<open>nextIn = nextNextIn(); data[nextIn] = the_d\<close>, the part the four \<open>add\<close> calls share.\<close>

definition circ_store :: "'a circ \<Rightarrow> 'a \<Rightarrow> 'a circ" where
  "circ_store c x =
     (let i = nextNextIn c in c\<lparr>nextIn := i, cdata := (cdata c)[nat i := x]\<rparr>)"

definition circ_add :: "'a circ \<Rightarrow> 'a \<Rightarrow> 'a circ option" where
  "circ_add c x =
     (case acquireAndKeepLock (sema c) of
        None \<Rightarrow> None
      | Some s \<Rightarrow> Some (circ_store (c\<lparr>sema := s\<rparr>) x))"

definition circ_addIfRoom :: "'a circ \<Rightarrow> 'a \<Rightarrow> bool \<times> 'a circ" where
  "circ_addIfRoom c x =
     (let (ok, s) = acquireAndKeepLockNoBlock (sema c)
      in if ok then (True, circ_store (c\<lparr>sema := s\<rparr>) x) else (False, c))"

text \<open>\<open>add(the_d, usec_wait)\<close>: at the end of the wait there is room, or the call gives up.\<close>

definition circ_add_wait :: "'a circ \<Rightarrow> 'a \<Rightarrow> bool \<times> 'a circ" where
  "circ_add_wait c x =
     (case acquireAndKeepLock (sema c) of
        Some s \<Rightarrow> (True, circ_store (c\<lparr>sema := s\<rparr>) x)
      | None \<Rightarrow> (False, c))"

definition circ_remove :: "'a circ \<Rightarrow> ('a \<times> 'a circ) option" where
  "circ_remove c =
     (let r = circ_remain c in
      if r > 0 then
        let fill = cdata c ! nat (nextOut c);
            c1 = c\<lparr>sema := releaseWithoutLock (sema c), nextOut := nextNextOut c\<rparr>
        in Some (fill,
             if r = 1 then c1\<lparr>nextIn := -1, nextOut := 0, rev_flag := False\<rparr> else c1)
      else None)"

definition circ_reverse :: "'a circ \<Rightarrow> 'a circ" where
  "circ_reverse c =
     (if circ_remain c < 1 then c
      else c\<lparr>rev_flag := \<not> rev_flag c, nextOut := nextIn c, nextIn := nextOut c\<rparr>)"

definition circ_clear :: "'a \<Rightarrow> 'a circ \<Rightarrow> 'a circ" where
  "circ_clear d c =
     c\<lparr>cdata := (if isObjects c then replicate (nat (csize c)) d else cdata c),
       nextIn := -1, nextOut := 0, rev_flag := False, enabled := True,
       sema := sema_reset (sema c)\<rparr>"

text \<open>
  \<open>transferFrom\<close>: \<open>this\<close> takes over the contents of \<open>other\<close>. The new array is allocated
  raw and filled only for a queue of objects; \<open>raw\<close> is what the allocation holds otherwise.
  The moved-from elements of \<open>other\<close> stay in its array, unreachable, and its \<open>_reverse\<close> flag
  is not touched.
\<close>

definition circ_transferFrom :: "'a list \<Rightarrow> 'a circ \<Rightarrow> 'a circ \<Rightarrow> 'a circ \<times> 'a circ" where
  "circ_transferFrom raw this other =
     (this\<lparr>sema := sema other, nextIn := nextIn other, nextOut := nextOut other,
        csize := csize other, isObjects := isObjects other, rev_flag := rev_flag other,
        enabled := enabled other,
        cdata := (if isObjects other then cdata other else raw)\<rparr>,
      other\<lparr>sema := sema_reset (sema other), nextIn := -1, nextOut := 0\<rparr>)"

text \<open>
  The array-like read \<open>get(n, d)\<close>. The loop advances \<open>p\<close> and wraps it before the increment,
  so it can leave the loop at \<open>_size\<close>; the read is then past the end of \<open>data\<close> and \<open>None\<close>
  here. \<open>Some None\<close> is the index check failing, \<open>Some (Some x)\<close> a value.
\<close>

fun get_walk :: "int \<Rightarrow> nat \<Rightarrow> int \<Rightarrow> int" where
  "get_walk sz 0 p = p"
| "get_walk sz (Suc n) p = get_walk sz n ((if p \<ge> sz then 0 else p) + 1)"

definition circ_get :: "'a circ \<Rightarrow> int \<Rightarrow> 'a option option" where
  "circ_get c n =
     (if n \<ge> 0 \<and> n < circ_remain c then
        let p0 = (if rev_flag c then (if nextIn c - 2 < 0 then csize c - 1 else nextIn c - 2)
                  else nextOut c - 1) + 1;
            p = get_walk (csize c) (nat n) p0
        in if 0 \<le> p \<and> p < int (length (cdata c)) then Some (Some (cdata c ! nat p)) else None
      else Some None)"

section \<open>Invariant and abstraction\<close>

text \<open>The position of the \<open>k\<close>-th element from the front.\<close>

definition slot :: "'a circ \<Rightarrow> int \<Rightarrow> int" where
  "slot c k = (if rev_flag c then nextOut c - k else nextOut c + k) mod csize c"

definition circ_inv :: "'a circ \<Rightarrow> bool" where
  "circ_inv c \<longleftrightarrow>
     sema_size (sema c) = csize c \<and> 0 \<le> sema_cnt (sema c) \<and> sema_cnt (sema c) \<le> csize c \<and>
     int (length (cdata c)) = csize c \<and>
     (if circ_remain c = 0 then nextIn c = -1 \<and> nextOut c = 0 \<and> \<not> rev_flag c
      else 0 \<le> nextOut c \<and> nextOut c < csize c \<and> nextIn c = slot c (circ_remain c - 1))"

definition circ_list :: "'a circ \<Rightarrow> 'a list" where
  "circ_list c = map (\<lambda>k. cdata c ! nat (slot c (int k))) [0..<nat (circ_remain c)]"

lemma length_circ_list [ring_simps]: "length (circ_list c) = nat (circ_remain c)"
  by (simp add: circ_list_def)

lemma circ_inv_remain: "circ_inv c \<Longrightarrow> 0 \<le> circ_remain c \<and> circ_remain c \<le> csize c"
  by (simp add: circ_inv_def circ_remain_def)

lemma slot_bounds:
  assumes "0 < csize c"
  shows "0 \<le> slot c k" "slot c k < csize c"
  using assms by (simp_all add: slot_def)

lemma slot_inj:
  assumes "slot c i = slot c j" "0 \<le> i" "i < csize c" "0 \<le> j" "j < csize c"
  shows "i = j"
proof -
  have "csize c dvd i - j"
  proof (cases "rev_flag c")
    case True
    then have "csize c dvd (nextOut c - i) - (nextOut c - j)"
      using assms(1) by (simp only: slot_def mod_eq_dvd_iff if_True)
    then have "csize c dvd - (i - j)" by simp
    then show ?thesis by (simp only: dvd_minus_iff)
  next
    case False
    then have "csize c dvd (nextOut c + i) - (nextOut c + j)"
      using assms(1) by (simp only: slot_def mod_eq_dvd_iff if_False)
    then show ?thesis by simp
  qed
  moreover have "\<bar>i - j\<bar> < csize c" using assms by auto
  ultimately show ?thesis using zdvd_not_zless [of "\<bar>i - j\<bar>" "csize c"] by auto
qed

lemma nextNextIn_slot:
  assumes "circ_inv c" "0 < sema_cnt (sema c)"
  shows "nextNextIn c = slot c (circ_remain c)"
proof (cases "circ_remain c = 0")
  case True
  with assms show ?thesis by (auto simp: circ_inv_def circ_remain_def nextNextIn_def slot_def)
next
  case False
  with assms have n: "0 < csize c" "nextIn c = slot c (circ_remain c - 1)"
    by (auto simp: circ_inv_def circ_remain_def)
  have b: "0 \<le> nextIn c" "nextIn c < csize c" using n slot_bounds [of c] by auto
  show ?thesis
  proof (cases "rev_flag c")
    case True
    have "nextNextIn c = (nextIn c - 1) mod csize c"
      using True b ring_down [of "nextIn c" "csize c"] by (simp add: nextNextIn_def)
    also have "\<dots> = slot c (circ_remain c)"
      using True n(2) by (simp add: slot_def mod_diff_left_eq algebra_simps)
    finally show ?thesis .
  next
    case False
    have "nextNextIn c = (nextIn c + 1) mod csize c"
      using False b n(1) ring_up [of "nextIn c" "csize c"] by (simp add: nextNextIn_def)
    also have "\<dots> = slot c (circ_remain c)"
      using False n(2) mod_add_left_eq [of "nextOut c + circ_remain c - 1" "csize c" 1]
      by (simp add: slot_def algebra_simps)
    finally show ?thesis .
  qed
qed

lemma nextNextOut_slot:
  assumes "circ_inv c" "0 < circ_remain c"
  shows "nextNextOut c = slot c 1"
  using assms ring_down [of "nextOut c" "csize c"] ring_up [of "nextOut c" "csize c"]
  by (auto simp: nextNextOut_def slot_def circ_inv_def split del: if_split cong: if_cong)
    (auto split: if_splits)

section \<open>Every operation acts on the list\<close>

lemma circ_store_abs:
  assumes "circ_inv c" "0 < sema_cnt (sema c)"
    and c'_def: "c' = circ_store (c\<lparr>sema := (sema c)\<lparr>sema_cnt := sema_cnt (sema c) - 1\<rparr>\<rparr>) x"
  shows "circ_inv c'" "circ_list c' = circ_list c @ [x]" "csize c' = csize c"
proof -
  let ?r = "circ_remain c"
  have r: "0 \<le> ?r" "?r < csize c" "int (length (cdata c)) = csize c"
    using assms by (auto simp: circ_inv_def circ_remain_def)
  have nn: "nextNextIn (c\<lparr>sema := s\<rparr>) = slot c ?r" for s
    unfolding nextNextIn_slot [OF assms(1,2), symmetric] by (simp add: nextNextIn_def)
  have sl: "slot c' k = slot c k" for k
    by (simp add: c'_def circ_store_def slot_def Let_def)
  have rm: "circ_remain c' = ?r + 1"
    by (simp add: c'_def circ_store_def circ_remain_def Let_def)
  have dt: "cdata c' = (cdata c)[nat (slot c ?r) := x]" "nextIn c' = slot c ?r"
      "nextOut c' = nextOut c" "rev_flag c' = rev_flag c" "csize c' = csize c"
    using nn by (simp_all add: c'_def circ_store_def Let_def)
  show "csize c' = csize c" by (rule dt)
  have o: "0 \<le> nextOut c" "nextOut c < csize c"
    using assms(1) r by (auto simp: circ_inv_def split: if_splits)
  show "circ_inv c'"
    unfolding circ_inv_def rm sl dt length_list_update using r o assms
    by (simp add: circ_inv_def circ_remain_def c'_def circ_store_def Let_def)
  have b: "0 \<le> slot c k" "nat (slot c k) < length (cdata c)" for k
    using slot_bounds [of c k] r by auto
  have ne: "nat (slot c ?r) \<noteq> nat (slot c (int k))" if "k < nat ?r" for k
  proof -
    have "int k < ?r" using that by linarith
    then show ?thesis using slot_inj [of c ?r "int k"] b(1) r by (auto simp: eq_nat_nat_iff)
  qed
  have "nat (?r + 1) = Suc (nat ?r)" using r by simp
  then show "circ_list c' = circ_list c @ [x]"
    using b r ne by (auto simp: circ_list_def rm sl dt nth_list_update_neq)
qed

lemma circ_remove_abs:
  assumes "circ_inv c" "circ_remove c = Some (x, c')"
  shows "circ_inv c'" "circ_list c = x # circ_list c'" "csize c' = csize c"
proof -
  let ?r = "circ_remain c"
  have r: "0 < ?r" "?r \<le> csize c" "int (length (cdata c)) = csize c" and
    o: "0 \<le> nextOut c" "nextOut c < csize c" "nextIn c = slot c (?r - 1)"
    using assms by (auto simp: circ_remove_def Let_def circ_inv_def circ_remain_def split: if_splits)
  have x: "x = cdata c ! nat (slot c 0)"
    using assms(2) r o by (auto simp: circ_remove_def Let_def slot_def)
  show cs: "csize c' = csize c"
    using assms(2) r by (auto simp: circ_remove_def Let_def)
  have rm: "circ_remain c' = ?r - 1"
    using assms(2) r by (auto simp: circ_remove_def Let_def circ_remain_def releaseWithoutLock_def)
  have fr: "cdata c' = cdata c" "sema_size (sema c') = sema_size (sema c)"
    using assms(2) r by (auto simp: circ_remove_def Let_def releaseWithoutLock_def)
  have big: "slot c' k = slot c (k + 1)" "nextIn c' = nextIn c" "nextOut c' = slot c 1"
    if "?r \<noteq> 1" for k
  proof -
    have f: "nextOut c' = slot c 1" "rev_flag c' = rev_flag c" "nextIn c' = nextIn c"
      using assms r that nextNextOut_slot [OF assms(1)] by (auto simp: circ_remove_def Let_def)
    show "slot c' k = slot c (k + 1)"
      using cs mod_diff_left_eq [of "nextOut c - 1" "csize c" k]
        mod_add_left_eq [of "nextOut c + 1" "csize c" k]
      unfolding slot_def f(2) unfolding f(1) unfolding slot_def by (auto simp: algebra_simps)
    show "nextIn c' = nextIn c" "nextOut c' = slot c 1" by (rule f)+
  qed
  have small: "nextIn c' = -1" "nextOut c' = 0" "\<not> rev_flag c'" if "?r = 1"
    using assms(2) that by (auto simp: circ_remove_def Let_def)
  show "circ_inv c'"
  proof (cases "?r = 1")
    case True
    show ?thesis using small [OF True] assms(1) rm fr cs True
      by (simp add: circ_inv_def circ_remain_def)
  next
    case False
    have "0 < csize c" "circ_remain c - 1 - 1 + 1 = circ_remain c - 1" using r by simp_all
    moreover have "sema_cnt (sema c') = sema_cnt (sema c) + 1"
      using rm cs by (simp add: circ_remain_def)
    ultimately show ?thesis
      using big [OF False] assms(1) fr cs False r o slot_bounds [of c 1]
      unfolding circ_inv_def rm by (simp add: circ_remain_def)
  qed
  show "circ_list c = x # circ_list c'"
  proof (cases "?r = 1")
    case True
    then show ?thesis by (simp add: circ_list_def rm x)
  next
    case False
    have e: "nat ?r = Suc (nat (?r - 1))" using r by simp
    show ?thesis
      unfolding circ_list_def e rm map_upt_Suc_shift fr(1)
      by (simp add: x big(1) [OF False] algebra_simps)
  qed
qed

lemma circ_add_Some:
  "circ_add c x = Some c' \<Longrightarrow>
   0 < sema_cnt (sema c) \<and>
   c' = circ_store (c\<lparr>sema := (sema c)\<lparr>sema_cnt := sema_cnt (sema c) - 1\<rparr>\<rparr>) x"
  by (auto simp: circ_add_def acquireAndKeepLock_def split: if_splits)

lemma circ_add_abs:
  assumes "circ_inv c" "circ_add c x = Some c'"
  shows "circ_inv c'" "circ_list c' = circ_list c @ [x]" "csize c' = csize c"
  using circ_store_abs [OF assms(1)] circ_add_Some [OF assms(2)] by blast+

lemma circ_add_None_iff:
  assumes "circ_inv c"
  shows "circ_add c x = None \<longleftrightarrow> length (circ_list c) = nat (csize c)"
  using assms by (auto simp: circ_add_def acquireAndKeepLock_def circ_inv_def length_circ_list
      circ_remain_def split: if_splits)

text \<open>The three forms of \<open>add\<close> agree on what they store.\<close>

lemma circ_addIfRoom_add:
  "circ_addIfRoom c x = (case circ_add c x of Some c' \<Rightarrow> (True, c') | None \<Rightarrow> (False, c))"
  by (simp add: circ_addIfRoom_def circ_add_def acquireAndKeepLock_def
      acquireAndKeepLockNoBlock_def)

lemma circ_add_wait_add:
  "circ_add_wait c x = (case circ_add c x of Some c' \<Rightarrow> (True, c') | None \<Rightarrow> (False, c))"
  by (simp add: circ_add_wait_def circ_add_def split: option.splits)

lemma circ_remove_None_iff:
  assumes "circ_inv c"
  shows "circ_remove c = None \<longleftrightarrow> circ_list c = []"
  using circ_inv_remain [OF assms]
  by (auto simp: circ_remove_def Let_def circ_list_def split: if_splits)

lemma circ_new_abs:
  assumes "0 \<le> n"
  shows "circ_inv (circ_new d n b)" "circ_list (circ_new d n b) = []"
  using assms by (simp_all add: circ_new_def circ_inv_def circ_list_def circ_remain_def
      sema_new_def)

lemma circ_clear_abs:
  assumes "circ_inv c"
  shows "circ_inv (circ_clear d c)" "circ_list (circ_clear d c) = []"
  using assms by (simp_all add: circ_clear_def circ_inv_def circ_list_def circ_remain_def
      sema_reset_def)

lemma circ_reverse_abs:
  assumes "circ_inv c"
  shows "circ_inv (circ_reverse c)" "circ_list (circ_reverse c) = rev (circ_list c)"
proof -
  let ?r = "circ_remain c" and ?c = "circ_reverse c"
  have r0: "0 \<le> ?r" using circ_inv_remain [OF assms] by simp
  have triv: "?c = c" "circ_list c = []" if "?r = 0"
    using that by (simp_all add: circ_reverse_def circ_list_def)
  have o: "0 \<le> nextOut c" "nextOut c < csize c" "nextIn c = slot c (?r - 1)" if "?r \<noteq> 0"
    using assms that by (auto simp: circ_inv_def)
  have rm: "circ_remain ?c = ?r" "cdata ?c = cdata c"
    by (simp_all add: circ_reverse_def circ_remain_def)
  have sl: "slot ?c k = slot c (?r - 1 - k)" if "?r \<noteq> 0" for k
    using that r0 o mod_diff_left_eq [of "nextOut c + (?r - 1)" "csize c" k]
        mod_add_left_eq [of "nextOut c - (?r - 1)" "csize c" k]
    by (simp add: circ_reverse_def slot_def algebra_simps)
  show "circ_inv ?c"
  proof (cases "?r = 0")
    case False
    have "slot c 0 = nextOut c" using o [OF False] by (simp add: slot_def)
    moreover have "0 \<le> nextIn c" "nextIn c < csize c"
      using o [OF False] slot_bounds [of c "?r - 1"] by auto
    ultimately show ?thesis
      using assms False r0 sl [OF False, of "?r - 1"] rm
      by (simp add: circ_inv_def) (simp add: circ_reverse_def)
  qed (use triv assms in simp)
  show "circ_list ?c = rev (circ_list c)"
  proof (cases "?r = 0")
    case False
    show ?thesis
    proof (rule nth_equalityI)
      fix i assume "i < length (circ_list ?c)"
      then have i: "i < nat ?r" by (simp add: length_circ_list rm)
      have "int (nat ?r - Suc i) = ?r - 1 - int i" using i r0 by linarith
      then show "circ_list ?c ! i = rev (circ_list c) ! i"
        using i sl [OF False] by (simp add: circ_list_def rm rev_nth del: of_nat_diff)
    qed (simp add: length_circ_list rm)
  qed (use triv in simp)
qed

section \<open>The contract: a bounded first-in first-out list\<close>

text \<open>The loop \<^verbatim>\<open>while(q.remove(x))\<close> of the queue's clients, for at most \<open>n\<close> rounds.\<close>

fun drain_n :: "('q \<Rightarrow> ('a \<times> 'q) option) \<Rightarrow> nat \<Rightarrow> 'q \<Rightarrow> 'a list \<times> 'q" where
  "drain_n get 0 q = ([], q)"
| "drain_n get (Suc n) q =
     (case get q of
        None \<Rightarrow> ([], q)
      | Some (x, q') \<Rightarrow> (let (xs, q'') = drain_n get n q' in (x # xs, q'')))"

fun put_all :: "('q \<Rightarrow> 'a \<Rightarrow> 'q option) \<Rightarrow> 'a list \<Rightarrow> 'q \<Rightarrow> 'q option" where
  "put_all put [] q = Some q"
| "put_all put (x # xs) q = Option.bind (put q x) (put_all put xs)"

locale bounded_fifo =
  fixes put :: "'q \<Rightarrow> 'a \<Rightarrow> 'q option"
    and get :: "'q \<Rightarrow> ('a \<times> 'q) option"
    and view :: "'q \<Rightarrow> 'a list"
    and cap :: "'q \<Rightarrow> nat"
    and invar :: "'q \<Rightarrow> bool"
  assumes put_None_iff: "invar q \<Longrightarrow> put q x = None \<longleftrightarrow> length (view q) = cap q"
    and put_view: "invar q \<Longrightarrow> put q x = Some q' \<Longrightarrow>
      invar q' \<and> view q' = view q @ [x] \<and> cap q' = cap q"
    and get_None_iff: "invar q \<Longrightarrow> get q = None \<longleftrightarrow> view q = []"
    and get_view: "invar q \<Longrightarrow> get q = Some (x, q') \<Longrightarrow>
      invar q' \<and> view q = x # view q' \<and> cap q' = cap q"
    and view_cap: "invar q \<Longrightarrow> length (view q) \<le> cap q"
begin

lemma drain_view:
  assumes "invar q" "length (view q) \<le> n"
  shows "\<exists>q'. drain_n get n q = (view q, q') \<and> invar q' \<and> view q' = [] \<and> cap q' = cap q"
  using assms
proof (induction n arbitrary: q)
  case (Suc n)
  show ?case
  proof (cases "get q")
    case None
    then show ?thesis using Suc.prems get_None_iff [OF Suc.prems(1)] by simp
  next
    case (Some xq)
    obtain x q1 where xq: "xq = (x, q1)" by force
    have v: "invar q1" "view q = x # view q1" "cap q1 = cap q"
      using get_view [OF Suc.prems(1)] Some xq by auto
    then show ?thesis using Suc.IH [of q1] Suc.prems(2) Some xq by auto
  qed
qed auto

lemma put_all_view:
  assumes "invar q" "length (view q) + length xs \<le> cap q"
  shows "\<exists>q'. put_all put xs q = Some q' \<and> invar q' \<and> view q' = view q @ xs \<and> cap q' = cap q"
  using assms
proof (induction xs arbitrary: q)
  case (Cons x xs)
  then obtain q1 where q1: "put q x = Some q1"
    using put_None_iff [of q x] by (cases "put q x") auto
  from put_view [OF Cons.prems(1) q1] Cons.IH [of q1] Cons.prems(2) q1 show ?case by auto
qed auto

lemma put_all_overflow:
  assumes "invar q" "cap q < length (view q) + length xs"
  shows "put_all put xs q = None"
  using assms
proof (induction xs arbitrary: q)
  case Nil
  then show ?case using view_cap by fastforce
next
  case (Cons x xs)
  show ?case
  proof (cases "put q x")
    case (Some q1)
    then show ?thesis using put_view [OF Cons.prems(1) Some] Cons.IH [of q1] Cons.prems(2) by auto
  qed auto
qed

end

interpretation circ_fifo: bounded_fifo circ_add circ_remove circ_list "\<lambda>c. nat (csize c)" circ_inv
proof unfold_locales
  show "circ_add q x = None \<longleftrightarrow> length (circ_list q) = nat (csize q)" if "circ_inv q"
    for q :: "'a circ" and x by (rule circ_add_None_iff [OF that])
  show "circ_inv q' \<and> circ_list q' = circ_list q @ [x] \<and> nat (csize q') = nat (csize q)"
    if "circ_inv q" "circ_add q x = Some q'" for q q' :: "'a circ" and x
    using circ_add_abs [OF that] by simp
  show "circ_remove q = None \<longleftrightarrow> circ_list q = []" if "circ_inv q"
    for q :: "'a circ" by (rule circ_remove_None_iff [OF that])
  show "circ_inv q' \<and> circ_list q = x # circ_list q' \<and> nat (csize q') = nat (csize q)"
    if "circ_inv q" "circ_remove q = Some (x, q')" for q q' :: "'a circ" and x
    using circ_remove_abs [OF that] by simp
  show "length (circ_list q) \<le> nat (csize q)" if "circ_inv q" for q :: "'a circ"
    using circ_inv_remain [OF that] by (simp add: length_circ_list nat_mono)
qed

section \<open>Moving a queue, and the indexed read\<close>

lemma circ_transferFrom_abs:
  assumes "circ_inv src" "isObjects src" "circ_transferFrom raw t src = (t', src')"
  shows "circ_inv t'" "circ_list t' = circ_list src" "circ_list src' = []"
    "\<not> rev_flag src \<Longrightarrow> circ_inv src'"
  using assms by (auto simp: circ_transferFrom_def circ_inv_def circ_list_def slot_def
      circ_remain_def sema_reset_def)

lemma get_walk_nowrap: "p + int n \<le> sz \<Longrightarrow> get_walk sz n p = p + int n"
  by (induction n arbitrary: p) auto

lemma circ_get_nowrap:
  assumes "circ_inv c" "\<not> rev_flag c" "k < length (circ_list c)" "nextOut c + int k < csize c"
  shows "circ_get c (int k) = Some (Some (circ_list c ! k))"
proof -
  have r: "int k < circ_remain c" using assms(3) by (simp add: length_circ_list)
  then have "0 \<le> nextOut c" "int (length (cdata c)) = csize c"
    using assms(1) by (auto simp: circ_inv_def split: if_splits)
  then show ?thesis
    using assms r get_walk_nowrap [of "nextOut c" k "csize c"]
    by (simp add: circ_get_def Let_def circ_list_def slot_def)
qed

lemma circ_get_edge:
  assumes "circ_inv c" "\<not> rev_flag c" "k < length (circ_list c)" "nextOut c + int k = csize c"
  shows "circ_get c (int k) = None"
proof -
  have r: "int k < circ_remain c" using assms(3) by (simp add: length_circ_list)
  then have l: "0 \<le> nextOut c" "nextOut c < csize c" "int (length (cdata c)) = csize c"
    using assms(1) by (auto simp: circ_inv_def split: if_splits)
  then show ?thesis
    using assms r get_walk_nowrap [of "nextOut c" k "csize c"]
    by (simp add: circ_get_def Let_def)
qed

section \<open>Properties of the queue\<close>

text \<open>What is put into a queue comes out in the order it went in: adding \<open>xs\<close> to a queue
  that has room for all of it succeeds, and the \<open>remove\<close> loop then returns the old contents
  followed by \<open>xs\<close>, and leaves the queue empty.\<close>

lemma circ_fifo_order:
  assumes "circ_inv c" "length (circ_list c) + length xs \<le> nat (csize c)"
  shows "\<exists>c'. put_all circ_add xs c = Some c' \<and>
     (\<exists>c''. drain_n circ_remove (nat (csize c)) c' = (circ_list c @ xs, c'') \<and>
            circ_inv c'' \<and> circ_list c'' = [])"
proof -
  obtain c' where c': "put_all circ_add xs c = Some c'" "circ_inv c'"
      "circ_list c' = circ_list c @ xs" "nat (csize c') = nat (csize c)"
    using circ_fifo.put_all_view [OF assms] by auto
  then show ?thesis using circ_fifo.drain_view [OF c'(2), of "nat (csize c)"] assms(2) by auto
qed

lemma circ_fifo_order_example:
  "\<exists>c'. put_all circ_add [1, 2, 3 :: nat] (circ_new 0 3 False) = Some c' \<and>
     (\<exists>c''. drain_n circ_remove (nat (csize (circ_new (0 :: nat) 3 False))) c' =
            (circ_list (circ_new 0 3 False) @ [1, 2, 3], c'') \<and>
            circ_inv c'' \<and> circ_list c'' = [])"
  by (rule circ_fifo_order) (simp_all add: circ_new_abs, simp add: circ_new_def)

text \<open>A queue never holds more than its size: adding a run of elements longer than the room
  left blocks, \<open>addIfRoom\<close> refuses exactly when the queue is full, and then changes
  nothing.\<close>

lemma circ_capacity:
  assumes "circ_inv c"
  shows "(nat (csize c) < length (circ_list c) + length xs \<longrightarrow> put_all circ_add xs c = None) \<and>
     (fst (circ_addIfRoom c x) \<longleftrightarrow> length (circ_list c) < nat (csize c)) \<and>
     (\<not> fst (circ_addIfRoom c x) \<longrightarrow> snd (circ_addIfRoom c x) = c) \<and>
     (fst (circ_addIfRoom c x) \<longrightarrow>
        circ_list (snd (circ_addIfRoom c x)) = circ_list c @ [x] \<and>
        circ_inv (snd (circ_addIfRoom c x)))"
  using circ_fifo.put_all_overflow [OF assms, of xs] circ_add_None_iff [OF assms, of x]
    circ_fifo.view_cap [OF assms] circ_add_abs [OF assms, of x]
  by (auto simp: circ_addIfRoom_add split: option.splits)

lemma circ_capacity_example:
  "fst (circ_addIfRoom (circ_new 0 0 False) (1 :: nat)) \<longleftrightarrow>
   length (circ_list (circ_new (0 :: nat) 0 False)) < nat (csize (circ_new (0 :: nat) 0 False))"
  using circ_capacity [of "circ_new (0 :: nat) 0 False" "[]" 1] by (simp add: circ_new_abs)

text \<open>\<open>reverse\<close> reverses what \<open>remove\<close> will return, and the queue stays well formed.\<close>

lemma circ_reverse_drain:
  assumes "circ_inv c"
  shows "fst (drain_n circ_remove (nat (csize c)) (circ_reverse c)) = rev (circ_list c)"
proof -
  have "nat (csize (circ_reverse c)) = nat (csize c)" by (simp add: circ_reverse_def)
  then show ?thesis
    using circ_fifo.drain_view [OF circ_reverse_abs(1) [OF assms], of "nat (csize c)"]
      circ_fifo.view_cap [OF assms] circ_reverse_abs(2) [OF assms] by auto
qed

lemma circ_reverse_drain_example:
  "fst (drain_n circ_remove 4 (circ_reverse (snd (circ_addIfRoom
      (snd (circ_addIfRoom (circ_new 0 4 True) 7)) (8 :: nat))))) = [8, 7]"
proof -
  let ?c = "snd (circ_addIfRoom (snd (circ_addIfRoom (circ_new 0 4 True) 7)) (8 :: nat))"
  have "circ_inv ?c" "nat (csize ?c) = 4" "circ_list ?c = [7, 8]" by code_simp+
  from circ_reverse_drain [OF this(1)] this(2,3) show ?thesis by simp
qed

text \<open>Every index the queue's calls use lies inside its array: \<open>add\<close> stores and \<open>remove\<close> loads
  at a position between 0 and the size, whatever sequence of calls came before.\<close>

lemma circ_index_safe:
  assumes "circ_inv c"
  shows "(circ_add c x \<noteq> None \<longrightarrow> 0 \<le> nextNextIn c \<and> nat (nextNextIn c) < length (cdata c)) \<and>
     (circ_remove c \<noteq> None \<longrightarrow> 0 \<le> nextOut c \<and> nat (nextOut c) < length (cdata c))"
proof -
  have l: "int (length (cdata c)) = csize c" using assms by (simp add: circ_inv_def)
  have "0 < sema_cnt (sema c)" "0 < csize c" if "circ_add c x \<noteq> None"
    using that assms circ_add_Some [of c x] by (auto simp: circ_inv_def)
  moreover have "circ_remain c \<noteq> 0" if "circ_remove c \<noteq> None"
    using that by (auto simp: circ_remove_def)
  ultimately show ?thesis
    using l slot_bounds [of c "circ_remain c"] nextNextIn_slot [OF assms] assms
    by (auto simp: circ_inv_def nat_less_iff)
qed

lemma circ_index_safe_example:
  "0 \<le> nextNextIn (circ_new (0 :: nat) 1 False) \<and>
   nat (nextNextIn (circ_new (0 :: nat) 1 False)) < length (cdata (circ_new (0 :: nat) 1 False))"
proof -
  have "circ_add (circ_new (0 :: nat) 1 False) 5 \<noteq> None" by code_simp
  then show ?thesis
    using circ_index_safe [of "circ_new (0 :: nat) 1 False" 5] by (simp add: circ_new_abs)
qed

end
