(* ===== verification/Grease_Meta.thy ===== *)
theory Grease_Meta
  imports Grease_Prelude
begin

text \<open>
  The metadata of a log entry, \<open>logMeta\<close> of \<open>grease_client.h\<close>: its fields, the macros on its
  filter cache, the predefined metadata of \<open>grease_client.c\<close>, the level maps, and the memory
  image of the structure, which is what the client puts on the socket (five 32-bit words, four
  bytes of padding, three 64-bit hashes and four 64-bit pointers, little-endian: 80 bytes).
\<close>

section \<open>Constants\<close>

datatype grease_ret =
    GREASE_OK | GREASE_FAILED | GREASE_NO_BUFFER | GREASE_INVALID_PARAMS
  | GREASE_OVERFLOW | GREASE_SINK_FAILURE

definition GREASE_MAX_MESSAGE_SIZE :: nat where "GREASE_MAX_MESSAGE_SIZE = 65535"
definition GREASE_MAX_PREFIX_HEADER :: nat where "GREASE_MAX_PREFIX_HEADER = 128"
definition SINK_LOG_PREAMBLE :: u32 where "SINK_LOG_PREAMBLE = 0xF00DFEED"
definition SINK_LOG_PING :: u32 where "SINK_LOG_PING = 0xF00DF00D"
definition SINK_LOG_PING_ACK :: u32 where "SINK_LOG_PING_ACK = 0xF00DF11D"
definition GREASE_CLIENT_HEADER_SIZE :: nat where "GREASE_CLIENT_HEADER_SIZE = 8"
definition MAX_IGNORE_LIST :: nat where "MAX_IGNORE_LIST = 10"

definition GREASE_LEVEL_LOG :: LevelMask where "GREASE_LEVEL_LOG = 0x01"
definition GREASE_LEVEL_ERROR :: LevelMask where "GREASE_LEVEL_ERROR = 0x02"
definition GREASE_LEVEL_WARN :: LevelMask where "GREASE_LEVEL_WARN = 0x04"
definition GREASE_LEVEL_DEBUG :: LevelMask where "GREASE_LEVEL_DEBUG = 0x08"
definition GREASE_LEVEL_DEBUG2 :: LevelMask where "GREASE_LEVEL_DEBUG2 = 0x10"
definition GREASE_LEVEL_DEBUG3 :: LevelMask where "GREASE_LEVEL_DEBUG3 = 0x20"
definition GREASE_LEVEL_USER1 :: LevelMask where "GREASE_LEVEL_USER1 = 0x40"
definition GREASE_LEVEL_USER2 :: LevelMask where "GREASE_LEVEL_USER2 = 0x80"
definition GREASE_LEVEL_SUCCESS :: LevelMask where "GREASE_LEVEL_SUCCESS = 0x100"
definition GREASE_LEVEL_INFO :: LevelMask where "GREASE_LEVEL_INFO = 0x0100"
definition GREASE_LEVEL_TRACE :: LevelMask where "GREASE_LEVEL_TRACE = 0x200"

lemmas level_defs = GREASE_LEVEL_LOG_def GREASE_LEVEL_ERROR_def GREASE_LEVEL_WARN_def
  GREASE_LEVEL_DEBUG_def GREASE_LEVEL_DEBUG2_def GREASE_LEVEL_DEBUG3_def GREASE_LEVEL_USER1_def
  GREASE_LEVEL_USER2_def GREASE_LEVEL_SUCCESS_def GREASE_LEVEL_INFO_def GREASE_LEVEL_TRACE_def

definition GLOG_DEFAULT_TAG :: TagId where "GLOG_DEFAULT_TAG = 0xFFF3"

section \<open>The structure and its cache\<close>

record logMeta =
  m_tag :: TagId
  m_level :: LevelMask
  m_origin :: OriginId
  m_target :: TargetId
  m_extras :: u32
  cached_hash :: "FilterHash list"   \<comment> \<open>three hashes\<close>
  cached_lists :: "u64 list"         \<comment> \<open>four pointers to filter lists, 0 is \<open>NULL\<close>\<close>

text \<open>\<open>extra_logMeta\<close>: the metadata and a list of \<open>MAX_IGNORE_LIST + 1\<close> target ids.\<close>

record extra_logMeta =
  em_m :: logMeta
  ignore_list :: "TargetId list"

definition wf_meta :: "logMeta \<Rightarrow> bool" where
  "wf_meta m \<longleftrightarrow> length (cached_hash m) = 3 \<and> length (cached_lists m) = 4"

definition no_hash :: FilterHash where "no_hash = 0xFFFFFFFFFFFFFFFF"

definition DECL_LOG_META :: "TagId \<Rightarrow> LevelMask \<Rightarrow> OriginId \<Rightarrow> logMeta" where
  "DECL_LOG_META tag level origin =
     \<lparr>m_tag = tag, m_level = level, m_origin = origin, m_target = 0, m_extras = 0,
      cached_hash = [no_hash, 0, 0], cached_lists = [0, 0, 0, 0]\<rparr>"

definition LOG_META_RESET_CACHE :: "logMeta \<Rightarrow> logMeta" where
  "LOG_META_RESET_CACHE m = m\<lparr>cached_hash := [no_hash, 0, 0], cached_lists := [0, 0, 0, 0]\<rparr>"

definition META_HAS_CACHE :: "logMeta \<Rightarrow> bool" where
  "META_HAS_CACHE m \<longleftrightarrow> cached_hash m ! 0 \<noteq> no_hash"

definition META_HAS_IGNORES :: "logMeta \<Rightarrow> bool" where
  "META_HAS_IGNORES m \<longleftrightarrow> m_extras m \<noteq> 0"

definition META_SET_LIST :: "logMeta \<Rightarrow> nat \<Rightarrow> u64 \<Rightarrow> logMeta" where
  "META_SET_LIST m n p = m\<lparr>cached_lists := (cached_lists m)[n := p]\<rparr>"

definition noMetaData :: logMeta where "noMetaData = DECL_LOG_META GLOG_DEFAULT_TAG 0 0"
definition meta_logdefault :: logMeta where
  "meta_logdefault = DECL_LOG_META GLOG_DEFAULT_TAG GREASE_LEVEL_LOG 0"
definition meta_info :: logMeta where
  "meta_info = DECL_LOG_META GLOG_DEFAULT_TAG GREASE_LEVEL_INFO 0"
definition meta_error :: logMeta where
  "meta_error = DECL_LOG_META GLOG_DEFAULT_TAG GREASE_LEVEL_ERROR 0"
definition meta_warn :: logMeta where
  "meta_warn = DECL_LOG_META GLOG_DEFAULT_TAG GREASE_LEVEL_WARN 0"
definition meta_debug :: logMeta where
  "meta_debug = DECL_LOG_META GLOG_DEFAULT_TAG GREASE_LEVEL_DEBUG 0"
definition meta_debug2 :: logMeta where
  "meta_debug2 = DECL_LOG_META GLOG_DEFAULT_TAG GREASE_LEVEL_DEBUG2 0"
definition meta_debug3 :: logMeta where
  "meta_debug3 = DECL_LOG_META GLOG_DEFAULT_TAG GREASE_LEVEL_DEBUG3 0"
definition meta_user1 :: logMeta where
  "meta_user1 = DECL_LOG_META GLOG_DEFAULT_TAG GREASE_LEVEL_USER1 0"
definition meta_user2 :: logMeta where
  "meta_user2 = DECL_LOG_META GLOG_DEFAULT_TAG GREASE_LEVEL_USER2 0"
definition meta_success :: logMeta where
  "meta_success = DECL_LOG_META GLOG_DEFAULT_TAG GREASE_LEVEL_SUCCESS 0"
definition meta_trace :: logMeta where
  "meta_trace = DECL_LOG_META GLOG_DEFAULT_TAG GREASE_LEVEL_TRACE 0"

section \<open>Level maps\<close>

definition GREASE_SYSLOGPRI_TO_LEVEL_MAP :: "LevelMask list" where
  "GREASE_SYSLOGPRI_TO_LEVEL_MAP =
     [GREASE_LEVEL_ERROR, GREASE_LEVEL_ERROR, GREASE_LEVEL_ERROR, GREASE_LEVEL_ERROR,
      GREASE_LEVEL_WARN, GREASE_LEVEL_WARN, GREASE_LEVEL_INFO, GREASE_LEVEL_DEBUG]"

definition GREASE_KLOGLEVEL_TO_LEVEL_MAP :: "LevelMask list" where
  "GREASE_KLOGLEVEL_TO_LEVEL_MAP =
     [GREASE_LEVEL_ERROR, GREASE_LEVEL_ERROR, GREASE_LEVEL_ERROR, GREASE_LEVEL_ERROR,
      GREASE_LEVEL_WARN, GREASE_LEVEL_WARN, GREASE_LEVEL_INFO, GREASE_LEVEL_DEBUG,
      GREASE_LEVEL_DEBUG, GREASE_LEVEL_DEBUG, GREASE_LEVEL_DEBUG, GREASE_LEVEL_DEBUG,
      GREASE_LEVEL_INFO, GREASE_LEVEL_DEBUG, GREASE_LEVEL_DEBUG, GREASE_LEVEL_DEBUG,
      GREASE_LEVEL_DEBUG, GREASE_LEVEL_DEBUG, GREASE_LEVEL_DEBUG, GREASE_LEVEL_DEBUG]"

definition GREASE_KLOG_DEFAULT_LEVEL :: LevelMask where
  "GREASE_KLOG_DEFAULT_LEVEL = GREASE_LEVEL_INFO"

section \<open>The memory image\<close>

definition sizeof_logMeta :: nat where "sizeof_logMeta = 80"

definition meta_bytes :: "logMeta \<Rightarrow> bytes" where
  "meta_bytes m =
     le32 (m_tag m) @ le32 (m_level m) @ le32 (m_origin m) @ le32 (m_target m) @ le32 (m_extras m)
     @ [0, 0, 0, 0] @ concat (map le64 (cached_hash m)) @ concat (map le64 (cached_lists m))"

fun rd64s :: "nat \<Rightarrow> bytes \<Rightarrow> u64 list option" where
  "rd64s 0 bs = Some []"
| "rd64s (Suc n) bs =
     (case of_le64 bs of
        None \<Rightarrow> None
      | Some w \<Rightarrow> map_option ((#) w) (rd64s n (drop 8 bs)))"

fun rd32s :: "nat \<Rightarrow> bytes \<Rightarrow> u32 list option" where
  "rd32s 0 bs = Some []"
| "rd32s (Suc n) bs =
     (case of_le32 bs of
        None \<Rightarrow> None
      | Some w \<Rightarrow> map_option ((#) w) (rd32s n (drop 4 bs)))"

text \<open>Reading \<^verbatim>\<open>*(logMeta *)p\<close>.\<close>

definition meta_of_bytes :: "bytes \<Rightarrow> logMeta option" where
  "meta_of_bytes bs =
     (case (rd32s 5 bs, rd64s 7 (drop 24 bs)) of
        (Some ws, Some qs) \<Rightarrow>
          Some \<lparr>m_tag = ws ! 0, m_level = ws ! 1, m_origin = ws ! 2, m_target = ws ! 3,
                m_extras = ws ! 4, cached_hash = take 3 qs, cached_lists = drop 3 qs\<rparr>
      | _ \<Rightarrow> None)"

lemma wf_DECL [simp]: "wf_meta (DECL_LOG_META t l g)"
  by (simp add: wf_meta_def DECL_LOG_META_def)

lemma wf_META_SET_LIST [simp]: "wf_meta (META_SET_LIST m n p) = wf_meta m"
  by (simp add: wf_meta_def META_SET_LIST_def)

lemma DECL_no_cache [simp]: "\<not> META_HAS_CACHE (DECL_LOG_META t l g)"
  by (simp add: META_HAS_CACHE_def DECL_LOG_META_def)

lemma length_concat_le64 [buf_simps]: "length (concat (map le64 ws)) = 8 * length ws"
  by (induction ws) auto

lemma length_meta_bytes [buf_simps]: "wf_meta m \<Longrightarrow> length (meta_bytes m) = sizeof_logMeta"
  by (simp add: meta_bytes_def wf_meta_def length_concat_le64 sizeof_logMeta_def)

lemma rd64s_le64: "rd64s (length ws) (concat (map le64 ws) @ rest) = Some ws"
  by (induction ws) auto

lemma meta_of_bytes_meta_bytes:
  assumes "wf_meta m"
  shows "meta_of_bytes (meta_bytes m @ rest) = Some m"
proof -
  let ?hs = "cached_hash m @ cached_lists m"
  have d: "drop 24 (meta_bytes m @ rest) = concat (map le64 ?hs) @ rest"
    by (simp add: meta_bytes_def)
  have "rd64s 7 (concat (map le64 ?hs) @ rest) = Some ?hs"
    using rd64s_le64 [of ?hs rest] assms by (simp add: wf_meta_def)
  moreover have "rd32s 5 (meta_bytes m @ rest) =
      Some [m_tag m, m_level m, m_origin m, m_target m, m_extras m]"
    by (simp add: meta_bytes_def numeral_eq_Suc)
  ultimately show ?thesis using assms d by (simp add: meta_of_bytes_def wf_meta_def)
qed

lemma meta_of_bytes_wf: "meta_of_bytes bs = Some m \<Longrightarrow> wf_meta m"
proof -
  have len: "rd64s n bs = Some qs \<Longrightarrow> length qs = n" for n bs qs
    by (induction n arbitrary: bs qs) (auto split: option.splits)
  assume "meta_of_bytes bs = Some m"
  then show ?thesis using len [of 7 "drop 24 bs"]
    by (auto simp: meta_of_bytes_def wf_meta_def split: option.splits)
qed

end
