(* ===== verification/Local_Str.thy ===== *)
theory Local_Str
  imports Grease_Prelude
begin

text \<open>
  The string routines of \<open>local_strdup.c\<close>: the bounded duplicates and the copy that escapes a
  message for a JSON string. A C string is the list of its bytes before the terminating NUL,
  and \<open>None\<close> is the null pointer. The escaping loop reads \<open>mem\<close>, all the memory that is readable
  from \<open>in\<close> on, so that a read past the message is visible: running off \<open>mem\<close> is \<open>None\<close>.
\<close>

definition MAX_STRDUP :: nat where "MAX_STRDUP = 4096"

definition local_strdup_safe :: "bytes option \<Rightarrow> bytes option" where
  "local_strdup_safe s =
     (case s of
        None \<Rightarrow> None
      | Some b \<Rightarrow>
          let n = length b; n' = (if n > MAX_STRDUP then MAX_STRDUP else n) in Some (take n' b))"

definition local_strcat_safe :: "bytes option \<Rightarrow> bytes option \<Rightarrow> bytes option" where
  "local_strcat_safe one two =
     (case (one, two) of
        (Some a, Some b) \<Rightarrow> if length a + length b > MAX_STRDUP then None else Some (a @ b)
      | _ \<Rightarrow> None)"

section \<open>Escaping for JSON\<close>

datatype json_state = LOOKING | ANSI_ESCAPE | ESCAPE

text \<open>\<open>MEMCPY_STATIC_STRING_APPEND\<close>: copies while there is space.\<close>

definition static_append :: "bytes \<Rightarrow> bytes \<times> nat \<Rightarrow> bytes \<times> nat" where
  "static_append lit p = (case p of (out, space) \<Rightarrow> (out @ take space lit, space - length lit))"

text \<open>What the \<open>switch\<close> does with one byte below 0x80, and what the high bytes get.\<close>

definition json_byte :: "u8 \<Rightarrow> bytes \<times> nat \<Rightarrow> bytes \<times> nat" where
  "json_byte c p =
     (if c = 0x0A then static_append [0x5C, 0x6E] p
      else if c = 0x09 then static_append [0x5C, 0x6E] p
      else if c = 0x5C then static_append [0x5C, 0x5C] p
      else if c = 0x0D then static_append [0x5C, 0x72] p
      else if c = 0x0C then static_append [0x5C, 0x66] p
      else if c = 0x22 then static_append [0x5C, 0x22] p
      else if c = 0x2F then static_append [0x5C, 0x2F] p
      else if c \<ge> 0x20 then static_append [c] p
      else p)"

fun json_loop ::
  "json_state \<Rightarrow> bytes \<Rightarrow> nat \<Rightarrow> bytes \<times> nat \<Rightarrow> (nat \<times> bytes \<times> nat) option" where
  "json_loop st mem in_remain (out, space) =
     (if in_remain = 0 \<or> space = 0 then Some (in_remain, out, space)
      else case mem of
        [] \<Rightarrow> None
      | c # mem' \<Rightarrow>
          if st = ESCAPE \<and> c = 0x5B then json_loop ANSI_ESCAPE mem' (in_remain + 1) (out, space)
          else if st = ANSI_ESCAPE then
            (if (c \<ge> 0x30 \<and> c \<le> 0x39) \<or> c = 0x3B
             then json_loop ANSI_ESCAPE mem' (in_remain + 1) (out, space)
             else json_loop LOOKING mem' (in_remain + 1) (out, space))
          else if c = 0x1B then json_loop ESCAPE mem' (in_remain + 1) (out, space)
          else json_loop LOOKING mem' (in_remain - 1) (json_byte c (out, space)))"

declare json_loop.simps [simp del]

text \<open>
  The whole routine: the return value, the bytes written to \<open>out\<close> (with the terminator when there
  is room for it) and the new \<open>*out_len\<close>.
\<close>

definition memcpy_and_json_escape :: "bytes \<Rightarrow> nat \<Rightarrow> nat \<Rightarrow> (int \<times> bytes \<times> nat) option" where
  "memcpy_and_json_escape mem in_len out_len =
     (case json_loop LOOKING mem in_len ([], out_len) of
        None \<Rightarrow> None
      | Some (in_remain, out, space) \<Rightarrow>
          Some (if in_remain > 0 then -1 else 0,
                if space > 0 then out @ [0] else out, length out))"

section \<open>Reference: escape per byte, and its inverse\<close>

definition json_esc :: "u8 \<Rightarrow> bytes" where
  "json_esc c = fst (json_byte c ([], 2))"


lemma json_byte_space: "json_byte c (out, sp) = (out @ take sp (json_esc c), sp - length (json_esc c))"
  by (simp add: json_byte_def static_append_def json_esc_def)

lemma json_byte_conserves:
  "json_byte c (out, sp) = (out', sp') \<Longrightarrow> length out' + sp' = length out + sp"
  by (auto simp: json_byte_space)

lemma json_loop_conserves:
  "json_loop st mem r (out, sp) = Some (r', out', sp') \<Longrightarrow> length out' + sp' = length out + sp"
proof (induction st mem r "(out, sp)" arbitrary: out sp rule: json_loop.induct)
  case (1 st mem r out sp)
  note IH = "1.hyps" and prem = "1.prems"
  show ?case
  proof (cases "r = 0 \<or> sp = 0")
    case True
    then show ?thesis using prem by (simp add: json_loop.simps)
  next
    case False
    then obtain c m where mem: "mem = c # m" using prem by (cases mem) (auto simp: json_loop.simps)
    obtain o2 s2 where jb: "json_byte c (out, sp) = (o2, s2)" by force
    show ?thesis
      using prem False IH(1) [OF False mem] IH(2) [OF False mem] IH(3) [OF False mem]
        IH(4) [OF False mem] IH(5) [OF False mem _ _ _ jb] json_byte_conserves [OF jb] mem jb
      by (subst (asm) json_loop.simps) (auto split: if_splits)
  qed
qed

lemma length_json_esc: "length (json_esc c) \<le> 2"
  by (simp add: json_esc_def json_byte_def static_append_def)

lemma json_loop_plain:
  assumes "0x1B \<notin> set xs" "n \<le> length xs"
  shows "\<exists>r' sp'. json_loop LOOKING (xs @ rest) n (out, sp) =
       Some (r', out @ take sp (concat (map json_esc (take n xs))), sp') \<and>
     (length (concat (map json_esc (take n xs))) < sp \<longrightarrow> r' = 0)"
  using assms
proof (induction xs arbitrary: n out sp)
  case Nil
  then show ?case by (simp add: json_loop.simps)
next
  case (Cons x xs)
  show ?case
  proof (cases "n = 0 \<or> sp = 0")
    case True
    then show ?thesis by (auto simp: json_loop.simps)
  next
    case False
    then obtain k where n: "n = Suc k" by (cases n) auto
    have step: "json_loop LOOKING ((x # xs) @ rest) n (out, sp) =
        json_loop LOOKING (xs @ rest) k (out @ take sp (json_esc x), sp - length (json_esc x))"
      using False Cons.prems n by (subst json_loop.simps) (auto simp: json_byte_space)
    show ?thesis
      using Cons.IH [of k "out @ take sp (json_esc x)" "sp - length (json_esc x)"] Cons.prems n step
      by auto
  qed
qed

lemma json_loop_overrun:
  "length mem < r \<Longrightarrow> 2 * length mem < sp \<Longrightarrow> json_loop st mem r (out, sp) = None"
proof (induction mem arbitrary: st r out sp)
  case Nil
  then show ?case by (simp add: json_loop.simps)
next
  case (Cons c mem)
  have "2 * length mem < sp - length (json_esc c)"
    using length_json_esc [of c] Cons.prems(2) by simp
  then show ?case using Cons by (subst json_loop.simps) (auto simp: json_byte_space)
qed

lemma json_loop_escape_overrun:
  assumes "0x1B \<in> set s" "2 * length s < sp"
  shows "json_loop LOOKING s (length s) (out, sp) = None"
  using assms
proof (induction s arbitrary: out sp)
  case (Cons c s)
  have sp: "2 * length s < sp - length (json_esc c)" "2 * length s < sp"
    using length_json_esc [of c] Cons.prems(2) by simp_all
  show ?case
  proof (cases "c = 0x1B")
    case True
    then show ?thesis using Cons.prems sp json_loop_overrun [of s "Suc (Suc (length s))" sp]
      by (subst json_loop.simps) simp
  next
    case False
    then show ?thesis using Cons.prems sp Cons.IH
      by (subst json_loop.simps) (auto simp: json_byte_space)
  qed
qed simp


section \<open>Properties of the escaping copy\<close>

text \<open>Whatever the message, the escaping copy writes at most \<open>*out_len\<close> bytes, reports at most
  that many, and writes the terminator exactly when there is room left for it.\<close>

lemma json_escape_bounds:
  assumes "memcpy_and_json_escape mem in_len out_len = Some (r, written, k)"
  shows "length written \<le> out_len \<and> k \<le> out_len \<and>
    (k < out_len \<longrightarrow> length written = k + 1 \<and> last written = 0)"
  using assms json_loop_conserves [of LOOKING mem in_len "[]" out_len]
  by (auto simp: memcpy_and_json_escape_def split: option.splits)

lemma json_escape_bounds_example:
  "length [0x5C, 0x6E :: u8] \<le> 2 \<and> (2 :: nat) \<le> 2"
proof -
  have "memcpy_and_json_escape [0x0A] 1 2 = Some (0, [0x5C, 0x6E], 2)" by code_simp
  from json_escape_bounds [OF this] show ?thesis by simp
qed

text \<open>A message without the escape byte 0x1B is copied byte by byte through the escape table,
  cut at the space there is, without reading past its end; when the escaped form is shorter than
  the buffer the call returns 0 and the buffer holds all of it and a terminator.\<close>

lemma json_escape_plain:
  assumes "0x1B \<notin> set s"
  shows "\<exists>r written. memcpy_and_json_escape (s @ rest) (length s) out_len =
       Some (r, written, min out_len (length (concat (map json_esc s)))) \<and>
     take (min out_len (length (concat (map json_esc s)))) written
       = take out_len (concat (map json_esc s)) \<and>
     (length (concat (map json_esc s)) < out_len \<longrightarrow>
        r = 0 \<and> written = concat (map json_esc s) @ [0])"
proof -
  let ?f = "concat (map json_esc s)"
  obtain r' sp' where j: "json_loop LOOKING (s @ rest) (length s) ([], out_len)
      = Some (r', take out_len ?f, sp')" "length ?f < out_len \<longrightarrow> r' = 0"
    using json_loop_plain [OF assms, of "length s" rest "[]" out_len] by auto
  then have "min out_len (length ?f) + sp' = out_len"
    using json_loop_conserves [OF j(1)] by (simp add: min.commute)
  then show ?thesis using j
    by (cases "length ?f < out_len") (auto simp: memcpy_and_json_escape_def min_def)
qed

lemma json_escape_plain_example:
  "\<exists>r written. memcpy_and_json_escape ([0x61, 0x22] @ []) (length [0x61, 0x22 :: u8]) 9 =
       Some (r, written, 3) \<and> r = 0 \<and> written = [0x61, 0x5C, 0x22, 0]"
proof -
  have "concat (map json_esc [0x61, 0x22]) = [0x61, 0x5C, 0x22]" by code_simp
  then show ?thesis using json_escape_plain [of "[0x61, 0x22]" "[]" 9] by auto
qed






text \<open>When the space ends inside an escape the call still returns 0: the caller sees no sign that the
  text was cut.\<close>

lemma json_escape_cut_unnoticed: "memcpy_and_json_escape [0x0A] 1 1 = Some (0, [0x5C], 1)"
  by code_simp

text \<open>A message with an ANSI escape is read past its end: each byte of the escape sequence adds
  to the count of bytes remaining instead of taking one away, so with the message at the end of
  readable memory and space in the buffer the copy always leaves the message.\<close>

lemma json_escape_overread:
  assumes "0x1B \<in> set s" "2 * length s < out_len"
  shows "memcpy_and_json_escape s (length s) out_len = None"
  using json_loop_escape_overrun [OF assms] by (simp add: memcpy_and_json_escape_def)

lemma json_escape_overread_example:
  "memcpy_and_json_escape [0x1B, 0x5B, 0x6D] (length [0x1B, 0x5B, 0x6D :: u8]) 256 = None"
  by (rule json_escape_overread) simp_all

end
