(* ===== verification/Heap_Buf.thy ===== *)
theory Heap_Buf
  imports Grease_Meta Local_Str
begin

text \<open>
  The buffers that carry a message between threads (\<open>logger.h\<close>): \<open>heapBuf\<close>, a heap block with a
  length and a fill count; \<open>singleLog\<close>, a message with its metadata and a reference count;
  \<open>overflowWriteOut\<close>, the up to four blocks of a message too large for a target's buffer;
  \<open>logLabel\<close> and \<open>delim_data\<close>. An access outside a block, which C leaves undefined, is \<open>None\<close>.
  Fresh memory is modelled as zeroes; no theorem speaks of bytes that were not written.
\<close>

section \<open>heapBuf\<close>

record heapBuf =
  hb_base :: "bytes option"        \<comment> \<open>\<open>handle.base\<close>, a block of \<open>handle.len\<close> bytes or \<open>NULL\<close>\<close>
  hb_len :: nat                    \<comment> \<open>\<open>handle.len\<close>\<close>
  hb_used :: nat
  hb_return_cb :: "nat option"     \<comment> \<open>the manager to hand the buffer back to\<close>

definition LMALLOC :: "nat \<Rightarrow> bytes" where "LMALLOC n = replicate n 0"

definition heapBuf_empty :: heapBuf where
  "heapBuf_empty = \<lparr>hb_base = None, hb_len = 0, hb_used = 0, hb_return_cb = None\<rparr>"

definition heapBuf_new :: "nat \<Rightarrow> heapBuf" where
  "heapBuf_new n =
     \<lparr>hb_base = (if n > 0 then Some (LMALLOC n) else None), hb_len = n, hb_used = 0,
      hb_return_cb = None\<rparr>"

definition heapBuf_from :: "bytes \<Rightarrow> nat \<Rightarrow> heapBuf option" where
  "heapBuf_from d n =
     map_option (\<lambda>b. \<lparr>hb_base = Some b, hb_len = n, hb_used = 0, hb_return_cb = None\<rparr>)
       (buf_read d 0 n)"

text \<open>\<open>sprintf\<close>: \<open>f\<close> is the whole formatted text; the local array holds its first 511 bytes and a NUL.\<close>

definition hb_sprintf :: "heapBuf \<Rightarrow> bytes \<Rightarrow> heapBuf option" where
  "hb_sprintf h f =
     (let buffer = take 511 f @ replicate (512 - min 511 (length f)) 0; len = length f
      in map_option (\<lambda>b. h\<lparr>hb_base := Some b, hb_len := len, hb_used := len\<rparr>)
           (buf_read buffer 0 len))"

definition hb_malloc :: "heapBuf \<Rightarrow> nat \<Rightarrow> heapBuf" where
  "hb_malloc h n = h\<lparr>hb_base := Some (LMALLOC n), hb_len := n, hb_used := 0\<rparr>"

text \<open>The move constructor and move assignment: the new buffer, and what is left of \<open>o\<close>.\<close>

definition hb_move :: "heapBuf \<Rightarrow> heapBuf \<times> heapBuf" where
  "hb_move src = (src, \<lparr>hb_base = None, hb_len = 0, hb_used = 0, hb_return_cb = None\<rparr>)"

definition hb_memcpy :: "heapBuf \<Rightarrow> bytes \<Rightarrow> nat \<Rightarrow> bytes option \<Rightarrow> (nat \<times> heapBuf) option" where
  "hb_memcpy h s l append_str =
     (case hb_base h of
        None \<Rightarrow> Some (0, h)
      | Some base \<Rightarrow>
          (case append_str of
             Some app \<Rightarrow>
               if l > hb_len h then
                 (if hb_len h < length app then None
                  else let l' = hb_len h - length app in
                    Option.bind (buf_write base l' app) (\<lambda>b1.
                    Option.bind (buf_read s 0 l') (\<lambda>d.
                    Option.bind (buf_write b1 0 d) (\<lambda>b2.
                      Some (l', h\<lparr>hb_base := Some b2, hb_used := l' + length app\<rparr>)))))
               else
                 Option.bind (buf_read s 0 l) (\<lambda>d.
                 Option.bind (buf_write base 0 d) (\<lambda>b1.
                   Some (l, h\<lparr>hb_base := Some b1, hb_used := l\<rparr>)))
           | None \<Rightarrow>
               let l' = (if l > hb_len h then hb_len h else l) in
                 Option.bind (buf_read s 0 l') (\<lambda>d.
                 Option.bind (buf_write base 0 d) (\<lambda>b1.
                   Some (l', h\<lparr>hb_base := Some b1, hb_used := l'\<rparr>)))))"

text \<open>\<open>memcpyJsonEscape\<close>, in the form without an appended string, the only one that is called.\<close>

definition hb_memcpyJsonEscape :: "heapBuf \<Rightarrow> bytes \<Rightarrow> nat \<Rightarrow> (nat \<times> heapBuf) option" where
  "hb_memcpyJsonEscape h s l =
     (case hb_base h of
        None \<Rightarrow> Some (0, h)
      | Some base \<Rightarrow>
          let l' = (if l > hb_len h then hb_len h else l) in
            Option.bind (memcpy_and_json_escape s l' (hb_len h)) (\<lambda>(r, w, out_len).
            Option.bind (buf_write base 0 w) (\<lambda>b1.
              Some (l', h\<lparr>hb_base := Some b1, hb_used := out_len\<rparr>))))"

definition hb_duplicate :: "heapBuf \<Rightarrow> heapBuf" where
  "hb_duplicate h =
     (case hb_base h of
        None \<Rightarrow> heapBuf_empty\<lparr>hb_return_cb := hb_return_cb h\<rparr>
      | Some b \<Rightarrow> \<lparr>hb_base = Some b, hb_len = hb_len h, hb_used = hb_used h,
                   hb_return_cb = hb_return_cb h\<rparr>)"

definition hb_empty :: "heapBuf \<Rightarrow> bool" where
  "hb_empty h \<longleftrightarrow> hb_base h = None"

text \<open>\<open>assign\<close>; it leaves \<open>used\<close> as it is, and \<open>handle.len\<close> too when \<open>o\<close> is empty.\<close>

definition hb_assign :: "heapBuf \<Rightarrow> heapBuf \<Rightarrow> heapBuf" where
  "hb_assign h src =
     (case hb_base src of
        Some b \<Rightarrow> if hb_len src > 0 then h\<lparr>hb_base := Some b, hb_len := hb_len src\<rparr>
                  else h\<lparr>hb_base := None\<rparr>
      | None \<Rightarrow> h\<lparr>hb_base := None\<rparr>)"

definition hb_ok :: "heapBuf \<Rightarrow> bool" where
  "hb_ok h \<longleftrightarrow> (case hb_base h of None \<Rightarrow> True
                 | Some b \<Rightarrow> length b = hb_len h \<and> hb_used h \<le> hb_len h)"

section \<open>logLabel and delim_data\<close>

type_synonym logLabel = heapBuf

definition logLabel_new :: "(bytes \<Rightarrow> bytes \<Rightarrow> bytes) \<Rightarrow> bytes \<Rightarrow> bytes option \<Rightarrow> logLabel option" where
  "logLabel_new format_s s fmt =
     (case fmt of
        Some f \<Rightarrow> hb_sprintf heapBuf_empty (format_s f s)
      | None \<Rightarrow> hb_sprintf heapBuf_empty s)"

definition logLabel_length :: "logLabel \<Rightarrow> nat" where "logLabel_length l = hb_len l"

definition logLabel_setUTF8 :: "logLabel \<Rightarrow> bytes \<Rightarrow> nat \<Rightarrow> logLabel option" where
  "logLabel_setUTF8 l s len = map_option snd (hb_memcpy (hb_malloc l (len + 1)) s len None)"

definition logLabel_fromUTF8 :: "bytes \<Rightarrow> nat \<Rightarrow> logLabel option" where
  "logLabel_fromUTF8 s len =
     map_option snd (hb_memcpy (hb_malloc heapBuf_empty (len + 1)) s len None)"

record delim_data =
  dd_delim :: heapBuf
  dd_output :: heapBuf

definition delim_empty :: delim_data where
  "delim_empty = \<lparr>dd_delim = heapBuf_empty, dd_output = heapBuf_empty\<rparr>"

definition setDelim :: "delim_data \<Rightarrow> bytes \<Rightarrow> nat \<Rightarrow> delim_data option" where
  "setDelim d s l =
     map_option (\<lambda>r. d\<lparr>dd_delim := snd r\<rparr>) (hb_memcpy (hb_malloc (dd_delim d) l) s l None)"

definition setOutputDelim :: "delim_data \<Rightarrow> bytes \<Rightarrow> nat \<Rightarrow> delim_data option" where
  "setOutputDelim d s l =
     map_option (\<lambda>r. d\<lparr>dd_output := snd r\<rparr>) (hb_memcpy (hb_malloc (dd_output d) l) s l None)"

definition delim_duplicate :: "delim_data \<Rightarrow> delim_data" where
  "delim_duplicate d = \<lparr>dd_delim = hb_duplicate (dd_delim d), dd_output = hb_duplicate (dd_output d)\<rparr>"

section \<open>singleLog\<close>

record singleLog =
  ref_cnt :: int
  sl_meta :: extra_logMeta
  sl_buf :: heapBuf

definition NOT_REFED :: int where "NOT_REFED = -2"
definition INIT_REF :: int where "INIT_REF = 1"

definition fresh_extra :: "logMeta \<Rightarrow> extra_logMeta" where
  "fresh_extra m = \<lparr>em_m = m, ignore_list = replicate (MAX_IGNORE_LIST + 1) 0\<rparr>"

definition singleLog_new :: "nat \<Rightarrow> singleLog" where
  "singleLog_new len =
     \<lparr>ref_cnt = NOT_REFED, sl_meta = fresh_extra noMetaData, sl_buf = heapBuf_new len\<rparr>"

definition singleLog_from :: "bytes \<Rightarrow> nat \<Rightarrow> logMeta \<Rightarrow> singleLog option" where
  "singleLog_from d l m =
     map_option (\<lambda>b. \<lparr>ref_cnt = NOT_REFED, sl_meta = fresh_extra m, sl_buf = b\<rparr>)
       (heapBuf_from d l)"

definition newSingleLogAsJsonEscape :: "bytes \<Rightarrow> nat \<Rightarrow> logMeta \<Rightarrow> singleLog option" where
  "newSingleLogAsJsonEscape d l m =
     map_option (\<lambda>r. \<lparr>ref_cnt = NOT_REFED, sl_meta = fresh_extra m, sl_buf = snd r\<rparr>)
       (hb_memcpyJsonEscape (heapBuf_new (l * 2)) d l)"

definition heapSingleLog :: "nat \<Rightarrow> singleLog" where
  "heapSingleLog len = (singleLog_new len)\<lparr>ref_cnt := INIT_REF\<rparr>"

definition heapSingleLog_from :: "bytes \<Rightarrow> nat \<Rightarrow> logMeta \<Rightarrow> singleLog option" where
  "heapSingleLog_from d l m = map_option (\<lambda>s. s\<lparr>ref_cnt := INIT_REF\<rparr>) (singleLog_from d l m)"

definition singleLog_clear :: "singleLog \<Rightarrow> singleLog" where
  "singleLog_clear s =
     s\<lparr>sl_buf := (sl_buf s)\<lparr>hb_used := 0\<rparr>, ref_cnt := 1,
       sl_meta := (sl_meta s)\<lparr>em_m := noMetaData\<rparr>\<rparr>"

text \<open>The store of the live \<open>singleLog\<close> objects; a call on a dead one is \<open>None\<close>.\<close>

type_synonym sl_heap = "nat \<rightharpoonup> singleLog"

definition incRef :: "sl_heap \<Rightarrow> nat \<Rightarrow> sl_heap option" where
  "incRef hp a =
     (case hp a of
        None \<Rightarrow> None
      | Some s \<Rightarrow> Some (if ref_cnt s \<noteq> NOT_REFED
                        then hp(a \<mapsto> s\<lparr>ref_cnt := ref_cnt s + 1\<rparr>) else hp))"

definition decRef :: "sl_heap \<Rightarrow> nat \<Rightarrow> sl_heap option" where
  "decRef hp a =
     (case hp a of
        None \<Rightarrow> None
      | Some s \<Rightarrow>
          Some (if ref_cnt s \<noteq> NOT_REFED then
                  (if ref_cnt s - 1 < 1 then hp(a := None)
                   else hp(a \<mapsto> s\<lparr>ref_cnt := ref_cnt s - 1\<rparr>))
                else hp))"

section \<open>overflowWriteOut\<close>

definition MAX_OVERFLOW_BUFFERS :: nat where "MAX_OVERFLOW_BUFFERS = 4"

record overflowWriteOut =
  ov_N :: nat
  ov_bufs :: "nat option list"    \<comment> \<open>addresses of \<open>singleLog\<close> objects\<close>

definition overflow_new :: overflowWriteOut where
  "overflow_new = \<lparr>ov_N = 0, ov_bufs = replicate MAX_OVERFLOW_BUFFERS None\<rparr>"

definition addBuffer :: "overflowWriteOut \<Rightarrow> nat \<Rightarrow> overflowWriteOut option" where
  "addBuffer w a =
     (if ov_N w < MAX_OVERFLOW_BUFFERS
      then Some (w\<lparr>ov_bufs := (ov_bufs w)[ov_N w := Some a], ov_N := ov_N w + 1\<rparr>)
      else None)"

text \<open>The objects behind the pointers that are set; a dangling one is \<open>None\<close>.\<close>

fun ov_logs :: "sl_heap \<Rightarrow> nat option list \<Rightarrow> singleLog list option" where
  "ov_logs hp [] = Some []"
| "ov_logs hp (None # bs) = ov_logs hp bs"
| "ov_logs hp (Some a # bs) =
     (case hp a of
        None \<Rightarrow> None
      | Some s \<Rightarrow> map_option ((#) s) (ov_logs hp bs))"

definition totalSize :: "sl_heap \<Rightarrow> overflowWriteOut \<Rightarrow> nat option" where
  "totalSize hp w =
     map_option (\<lambda>ls. sum_list (map (\<lambda>l. hb_len (sl_buf l)) ls)) (ov_logs hp (ov_bufs w))"

text \<open>\<open>copyAllTo\<close>: \<open>walk\<close> is advanced but every block is copied to \<open>d\<close>, the start.\<close>

definition copy_block :: "singleLog \<Rightarrow> bytes option \<Rightarrow> bytes option" where
  "copy_block l acc =
     Option.bind acc (\<lambda>d. case hb_base (sl_buf l) of
        None \<Rightarrow> (if hb_len (sl_buf l) = 0 then Some d else None)
      | Some b \<Rightarrow> Option.bind (buf_read b 0 (hb_len (sl_buf l))) (buf_write d 0))"

definition copyAllTo :: "sl_heap \<Rightarrow> overflowWriteOut \<Rightarrow> bytes \<Rightarrow> bytes option" where
  "copyAllTo hp w d =
     Option.bind (ov_logs hp (ov_bufs w)) (\<lambda>ls. fold copy_block ls (Some d))"

text \<open>The destructor.\<close>

fun ov_decRef :: "sl_heap \<Rightarrow> nat option list \<Rightarrow> sl_heap option" where
  "ov_decRef hp [] = Some hp"
| "ov_decRef hp (None # bs) = ov_decRef hp bs"
| "ov_decRef hp (Some a # bs) = Option.bind (decRef hp a) (\<lambda>hp'. ov_decRef hp' bs)"

definition overflow_delete :: "sl_heap \<Rightarrow> overflowWriteOut \<Rightarrow> sl_heap option" where
  "overflow_delete hp w = ov_decRef hp (ov_bufs w)"

section \<open>Lemmas\<close>

lemma buf_read_Some [buf_simps]: "n \<le> length s \<Longrightarrow> buf_read s 0 n = Some (take n s)"
  by (simp add: buf_read_def)

lemma hb_ok_heapBuf_new [simp]: "hb_ok (heapBuf_new n)"
  by (simp add: hb_ok_def heapBuf_new_def LMALLOC_def)

lemma hb_ok_malloc [simp]: "hb_ok (hb_malloc h n)"
  by (simp add: hb_ok_def hb_malloc_def LMALLOC_def)

lemma hb_ok_duplicate [simp]: "hb_ok h \<Longrightarrow> hb_ok (hb_duplicate h)"
  by (simp add: hb_ok_def hb_duplicate_def heapBuf_empty_def split: option.splits)

lemma hb_memcpy_plain:
  assumes "hb_ok h" "hb_base h = Some base" "min l (hb_len h) \<le> length s"
  shows "hb_memcpy h s l None =
    Some (min l (hb_len h),
      h\<lparr>hb_base := Some (take (min l (hb_len h)) s @ drop (min l (hb_len h)) base),
        hb_used := min l (hb_len h)\<rparr>)"
  using assms by (auto simp: hb_memcpy_def hb_ok_def Let_def buf_read_def buf_write_def min_def)

lemma hb_memcpy_ending:
  assumes "hb_ok h" "hb_base h = Some base" "hb_len h < l" "length app \<le> hb_len h"
    "hb_len h - length app \<le> length s"
  shows "hb_memcpy h s l (Some app) =
    Some (hb_len h - length app,
      h\<lparr>hb_base := Some (take (hb_len h - length app) s @ app), hb_used := hb_len h\<rparr>)"
  using assms by (auto simp: hb_memcpy_def hb_ok_def Let_def buf_read_def buf_write_def min_def)

lemma hb_memcpy_short:
  assumes "l \<le> hb_len h"
  shows "hb_memcpy h s l (Some app) = hb_memcpy h s l None"
  using assms by (simp add: hb_memcpy_def split: option.splits)

lemma hb_sprintf_fits:
  "length f \<le> 511 \<Longrightarrow> hb_sprintf h f = Some (h\<lparr>hb_base := Some f, hb_len := length f, hb_used := length f\<rparr>)"
  by (simp add: hb_sprintf_def Let_def buf_read_def)

lemma hb_sprintf_overread: "512 < length f \<Longrightarrow> hb_sprintf h f = None"
  by (simp add: hb_sprintf_def Let_def buf_read_def)

text \<open>A run of reference count calls: \<open>True\<close> is \<open>incRef\<close>, \<open>False\<close> is \<open>decRef\<close>.\<close>

fun ref_run :: "nat \<Rightarrow> bool list \<Rightarrow> sl_heap \<Rightarrow> sl_heap option" where
  "ref_run a [] hp = Some hp"
| "ref_run a (b # bs) hp = Option.bind (if b then incRef hp a else decRef hp a) (ref_run a bs)"

fun ref_delta :: "bool list \<Rightarrow> int" where
  "ref_delta [] = 0"
| "ref_delta (b # bs) = (if b then 1 else -1) + ref_delta bs"

lemma ref_run_alive:
  assumes "hp a = Some s" "ref_cnt s \<ge> 1"
    "\<forall>k \<le> length bs. 1 \<le> ref_cnt s + ref_delta (take k bs)"
  shows "ref_run a bs hp = Some (hp(a \<mapsto> s\<lparr>ref_cnt := ref_cnt s + ref_delta bs\<rparr>))"
  using assms
proof (induction bs arbitrary: hp s)
  case Nil
  then show ?case by (simp add: fun_upd_idem)
next
  case (Cons b bs)
  let ?d = "if b then 1 else -1 :: int" let ?s = "s\<lparr>ref_cnt := ref_cnt s + ?d\<rparr>"
  have d: "1 \<le> ref_cnt s + ?d" using Cons.prems(3) [rule_format, of 1] by (simp split: if_splits)
  have step: "(if b then incRef hp a else decRef hp a) = Some (hp(a \<mapsto> ?s))"
    using Cons.prems(1,2) d by (auto simp: incRef_def decRef_def NOT_REFED_def)
  have pre: "\<forall>k \<le> length bs. 1 \<le> ref_cnt ?s + ref_delta (take k bs)"
  proof (intro allI impI)
    fix k assume "k \<le> length bs"
    then show "1 \<le> ref_cnt ?s + ref_delta (take k bs)"
      using Cons.prems(3) [rule_format, of "Suc k"] by (simp add: algebra_simps)
  qed
  have "ref_run a bs (hp(a \<mapsto> ?s)) = Some ((hp(a \<mapsto> ?s))(a \<mapsto> ?s\<lparr>ref_cnt := ref_cnt ?s + ref_delta bs\<rparr>))"
    by (rule Cons.IH) (use d pre in auto)
  moreover have "ref_cnt ?s + ref_delta bs = ref_cnt s + ref_delta (b # bs)" by simp
  ultimately show ?case using step by (cases b) (auto simp: fun_upd_def)
qed

section \<open>Properties of the buffers\<close>

text \<open>C27: Reference counting frees a message exactly once and never early: a counted message lives
  through every run of \<open>incRef\<close> and \<open>decRef\<close> whose prefixes keep the count positive, the next
  \<open>decRef\<close> at count one deletes it, and a further call would be a use after free.\<close>

theorem singleLog_refcount:
  assumes "hp a = Some s" "1 \<le> ref_cnt s"
    "\<forall>k \<le> length bs. 1 \<le> ref_cnt s + ref_delta (take k bs)"
  shows "ref_run a bs hp = Some (hp(a \<mapsto> s\<lparr>ref_cnt := ref_cnt s + ref_delta bs\<rparr>)) \<and>
    (ref_cnt s + ref_delta bs = 1 \<longrightarrow>
       decRef (hp(a \<mapsto> s\<lparr>ref_cnt := ref_cnt s + ref_delta bs\<rparr>)) a = Some (hp(a := None)) \<and>
       incRef (hp(a := None)) a = None \<and> decRef (hp(a := None)) a = None)"
  using ref_run_alive [of hp a s bs] assms by (auto simp: decRef_def incRef_def NOT_REFED_def)

theorem singleLog_refcount_witness:
  "ref_run 0 [True, False] [0 \<mapsto> heapSingleLog 3] = Some [0 \<mapsto> heapSingleLog 3] \<and>
   decRef [0 \<mapsto> heapSingleLog 3] 0 = Some Map.empty"
proof -
  have "\<forall>k \<le> length [True, False]. 1 \<le> ref_cnt (heapSingleLog 3) + ref_delta (take k [True, False])"
  proof (intro allI impI)
    fix k :: nat assume "k \<le> length [True, False]"
    then have "k = 0 \<or> k = 1 \<or> k = 2" by auto
    then show "1 \<le> ref_cnt (heapSingleLog 3) + ref_delta (take k [True, False])"
      by (auto simp: heapSingleLog_def INIT_REF_def)
  qed
  then show ?thesis
    using singleLog_refcount [of "[0 \<mapsto> heapSingleLog 3]" 0 "heapSingleLog 3" "[True, False]"]
    by (simp add: heapSingleLog_def INIT_REF_def)
qed

text \<open>Copying a message into a block never writes outside it: the block keeps the first
  \<open>min l len\<close> bytes of the message, and when a message is too long and an ending is given the
  block is full and ends in that ending.\<close>

lemma heapBuf_memcpy:
  assumes "hb_ok h" "hb_base h = Some base" "l \<le> length s"
  shows "(\<exists>h' b'. hb_memcpy h s l None = Some (min l (hb_len h), h') \<and> hb_ok h' \<and>
       hb_base h' = Some b' \<and> length b' = length base \<and> hb_used h' = min l (hb_len h) \<and>
       take (hb_used h') b' = take (hb_used h') s) \<and>
    (hb_len h < l \<and> length app \<le> hb_len h \<longrightarrow>
       (\<exists>n h'. hb_memcpy h s l (Some app) = Some (n, h') \<and> hb_ok h' \<and>
         hb_base h' = Some (take (hb_len h - length app) s @ app) \<and> hb_used h' = hb_len h))"
proof (intro conjI impI)
  have lb: "length base = hb_len h" using assms by (simp add: hb_ok_def)
  show "\<exists>h' b'. hb_memcpy h s l None = Some (min l (hb_len h), h') \<and> hb_ok h' \<and>
       hb_base h' = Some b' \<and> length b' = length base \<and> hb_used h' = min l (hb_len h) \<and>
       take (hb_used h') b' = take (hb_used h') s"
    using hb_memcpy_plain [OF assms(1,2), of l s] assms(3) lb
    by (auto simp: hb_ok_def min_def)
  assume "hb_len h < l \<and> length app \<le> hb_len h"
  then show "\<exists>n h'. hb_memcpy h s l (Some app) = Some (n, h') \<and> hb_ok h' \<and>
         hb_base h' = Some (take (hb_len h - length app) s @ app) \<and> hb_used h' = hb_len h"
    using hb_memcpy_ending [OF assms(1,2), of l app s] assms(3) by (auto simp: hb_ok_def)
qed

lemma heapBuf_memcpy_example:
  "\<exists>n h'. hb_memcpy (heapBuf_new 4) [1, 2, 3, 4, 5] 5 (Some [9]) = Some (n, h') \<and> hb_ok h' \<and>
     hb_base h' = Some [1, 2, 3, 9] \<and> hb_used h' = 4"
  using heapBuf_memcpy [of "heapBuf_new 4" "[0, 0, 0, 0]" 5 "[1, 2, 3, 4, 5]" "[9]"]
  by (simp add: heapBuf_new_def LMALLOC_def hb_ok_def numeral_eq_Suc)

end
