(* ===== verification/Filters.thy ===== *)
theory Filters
  imports Heap_Buf
begin

text \<open>
  The filters (\<open>logger.h\<close>, \<open>logger.cc\<close>, \<open>grease_lib.cc\<close>): the hash of a tag and an origin, the
  lists of at most sixteen filters that share one, the table from hashes to lists, \<open>sift\<close>, which
  decides whether a message is logged and caches the list that applies to it, and the calls of
  the library that add, find, enable and disable filters and mask levels. The table
  \<open>filterHashTable\<close> (a khash) is a map from hashes to the addresses of lists, and \<open>fl_heap\<close> the
  lists that were allocated; the address that \<open>new FilterList()\<close> returns is an argument.
\<close>

section \<open>Hashes\<close>

definition filterhash :: "TagId \<Rightarrow> OriginId \<Rightarrow> FilterHash" where
  "filterhash tag origin =
     ((0xFFFFFFFF00000000 AND push_bit 32 (ucast origin)) OR ucast tag)"

definition getHashes :: "TagId \<Rightarrow> OriginId \<Rightarrow> FilterHash list" where
  "getHashes tag origin =
     (let h = filterhash tag origin
      in [h, h AND 0xFFFFFFFF00000000, h AND 0x00000000FFFFFFFF])"

section \<open>Filters and lists of filters\<close>

record Filter =
  f_disabled :: bool
  f_id :: FilterId               \<comment> \<open>0 means an empty filter\<close>
  f_levelMask :: LevelMask
  f_targetId :: TargetId
  f_preFormat :: logLabel
  f_postFormatPreMsg :: logLabel
  f_postFormat :: logLabel

definition Filter_empty :: Filter where
  "Filter_empty =
     \<lparr>f_disabled = False, f_id = 0, f_levelMask = 0, f_targetId = 0,
      f_preFormat = heapBuf_empty, f_postFormatPreMsg = heapBuf_empty,
      f_postFormat = heapBuf_empty\<rparr>"

definition Filter_new :: "FilterId \<Rightarrow> LevelMask \<Rightarrow> TargetId \<Rightarrow> Filter" where
  "Filter_new i lm t = Filter_empty\<lparr>f_id := i, f_levelMask := lm, f_targetId := t\<rparr>"

text \<open>\<open>operator=\<close> of \<open>Filter\<close>, which leaves \<open>_disabled\<close> alone.\<close>

definition Filter_assign :: "Filter \<Rightarrow> Filter \<Rightarrow> Filter" where
  "Filter_assign f src =
     f\<lparr>f_id := f_id src, f_levelMask := f_levelMask src, f_targetId := f_targetId src,
       f_preFormat := hb_assign (f_preFormat f) (f_preFormat src),
       f_postFormatPreMsg := hb_assign (f_postFormatPreMsg f) (f_postFormatPreMsg src),
       f_postFormat := hb_assign (f_postFormat f) (f_postFormat src)\<rparr>"

definition MAX_IDENTICAL_FILTERS :: nat where "MAX_IDENTICAL_FILTERS = 16"

record FilterList =
  fl_list :: "Filter list"
  fl_bloom :: LevelMask
  fl_filterOut :: bool

definition FilterList_new :: FilterList where
  "FilterList_new =
     \<lparr>fl_list = replicate MAX_IDENTICAL_FILTERS Filter_empty, fl_bloom = 0, fl_filterOut = False\<rparr>"

definition FilterList_valid :: "FilterList \<Rightarrow> LevelMask \<Rightarrow> bool" where
  "FilterList_valid l m \<longleftrightarrow> (fl_bloom l AND m) \<noteq> 0"

fun first_id :: "FilterId \<Rightarrow> Filter list \<Rightarrow> nat option" where
  "first_id i [] = None"
| "first_id i (f # fs) = (if f_id f = i then Some 0 else map_option Suc (first_id i fs))"

definition FilterList_add :: "FilterList \<Rightarrow> Filter \<Rightarrow> bool \<times> FilterList" where
  "FilterList_add l f =
     (case first_id 0 (fl_list l) of
        None \<Rightarrow> (False, l)
      | Some n \<Rightarrow>
          (True, l\<lparr>fl_bloom := fl_bloom l OR f_levelMask f,
                   fl_list := (fl_list l)[n := Filter_assign (fl_list l ! n) f]\<rparr>))"

definition FilterList_find :: "FilterList \<Rightarrow> FilterId \<Rightarrow> nat option" where
  "FilterList_find l i = first_id i (fl_list l)"

section \<open>The table\<close>

record filter_state =
  filterHashTable :: "FilterHash \<rightharpoonup> u64"
  fl_heap :: "u64 \<rightharpoonup> FilterList"
  nextFilterId :: FilterId
  levelFilterOutMask :: LevelMask
  defaultFilterOut :: bool

definition filter_state_init :: filter_state where
  "filter_state_init =
     \<lparr>filterHashTable = Map.empty, fl_heap = Map.empty, nextFilterId = 1,
      levelFilterOutMask = 0, defaultFilterOut = False\<rparr>"

definition set_label :: "logLabel option \<Rightarrow> logLabel \<Rightarrow> logLabel" where
  "set_label l old = (case l of None \<Rightarrow> old | Some b \<Rightarrow> if hb_empty b then old else hb_assign old b)"

definition addFilter_internal ::
  "u64 \<Rightarrow> filter_state \<Rightarrow> TargetId \<Rightarrow> OriginId \<Rightarrow> TagId \<Rightarrow> LevelMask \<Rightarrow>
   logLabel option \<Rightarrow> logLabel option \<Rightarrow> logLabel option \<Rightarrow> bool \<times> FilterId \<times> filter_state" where
  "addFilter_internal a st t origin tag level preformat postformatpremsg postformat =
     (let hash = filterhash tag origin;
          i = nextFilterId st;
          st1 = st\<lparr>nextFilterId := nextFilterId st + 1\<rparr>;
          (p, st2) = (case filterHashTable st1 hash of
              Some p \<Rightarrow> (p, st1)
            | None \<Rightarrow> (a, st1\<lparr>filterHashTable := (filterHashTable st1)(hash \<mapsto> a),
                              fl_heap := (fl_heap st1)(a \<mapsto> FilterList_new)\<rparr>));
          f0 = Filter_new i level t;
          f = f0\<lparr>f_preFormat := set_label preformat (f_preFormat f0),
                 f_postFormatPreMsg := set_label postformatpremsg (f_postFormatPreMsg f0),
                 f_postFormat := set_label postformat (f_postFormat f0)\<rparr>
      in case fl_heap st2 p of
           None \<Rightarrow> (False, i, st2)
         | Some l \<Rightarrow>
             (let (ret, l') = FilterList_add l f
              in (ret, i, st2\<lparr>fl_heap := (fl_heap st2)(p \<mapsto> l')\<rparr>)))"

text \<open>\<open>_lookupFilter\<close>: the list and the position in it.\<close>

definition lookupFilter :: "filter_state \<Rightarrow> OriginId \<Rightarrow> TagId \<Rightarrow> FilterId \<Rightarrow> (u64 \<times> nat) option" where
  "lookupFilter st origin tag i =
     (case filterHashTable st (filterhash tag origin) of
        None \<Rightarrow> None
      | Some p \<Rightarrow> (case fl_heap st p of
           None \<Rightarrow> None
         | Some l \<Rightarrow> map_option (Pair p) (FilterList_find l i)))"

section \<open>Sifting\<close>

definition find_list :: "filter_state \<Rightarrow> FilterHash list \<Rightarrow> (nat \<times> u64) option" where
  "find_list st hs =
     (case filterHashTable st (hs ! 0) of Some p \<Rightarrow> Some (0, p) | None \<Rightarrow>
     (case filterHashTable st (hs ! 1) of Some p \<Rightarrow> Some (1, p) | None \<Rightarrow>
     (case filterHashTable st (hs ! 2) of Some p \<Rightarrow> Some (2, p) | None \<Rightarrow>
     (case filterHashTable st 0 of Some p \<Rightarrow> Some (3, p) | None \<Rightarrow> None))))"

definition sift :: "filter_state \<Rightarrow> logMeta \<Rightarrow> bool \<times> logMeta" where
  "sift st f =
     (if (levelFilterOutMask st AND m_level f) \<noteq> 0 then (False, f)
      else if \<not> META_HAS_CACHE f then
        (let f1 = f\<lparr>cached_hash := getHashes (m_tag f) (m_origin f)\<rparr>
         in case find_list st (cached_hash f1) of
              Some (n, p) \<Rightarrow> (True, META_SET_LIST f1 n p)
            | None \<Rightarrow> (\<not> defaultFilterOut st, f1))
      else (True, f))"

section \<open>The library's calls\<close>

datatype lib_ret = GREASE_LIB_OK | GREASE_LIB_NOT_FOUND | LIB_INVALID_PARAMS | LIB_FAILED

definition maskOutByLevel :: "u32 \<Rightarrow> filter_state \<Rightarrow> filter_state" where
  "maskOutByLevel val st = st\<lparr>levelFilterOutMask := levelFilterOutMask st OR val\<rparr>"

text \<open>\<^verbatim>\<open>!val | mask\<close>: the logical negation, 0 or 1.\<close>

definition unmaskOutByLevel :: "u32 \<Rightarrow> filter_state \<Rightarrow> filter_state" where
  "unmaskOutByLevel val st =
     st\<lparr>levelFilterOutMask := (if val = 0 then 1 else 0) OR levelFilterOutMask st\<rparr>"

record GreaseLibFilter =
  lf_origin :: OriginId
  lf_tag :: TagId
  lf_target :: TargetId
  lf_mask :: LevelMask
  lf_id :: FilterId
  lf_format_pre :: "bytes option"
  lf_format_pre_len :: nat
  lf_format_post :: "bytes option"
  lf_format_post_len :: nat
  lf_format_post_pre_msg :: "bytes option"
  lf_format_post_pre_msg_len :: nat
  lf_enabledFlags :: u32

definition GreaseLibFilter_new :: GreaseLibFilter where
  "GreaseLibFilter_new =
     \<lparr>lf_origin = 0, lf_tag = 0, lf_target = 0, lf_mask = 0, lf_id = 0,
      lf_format_pre = None, lf_format_pre_len = 0, lf_format_post = None, lf_format_post_len = 0,
      lf_format_post_pre_msg = None, lf_format_post_pre_msg_len = 0, lf_enabledFlags = 0\<rparr>"

definition setvalue_GreaseLibFilter :: "GreaseLibFilter \<Rightarrow> u32 \<Rightarrow> u32 \<Rightarrow> GreaseLibFilter" where
  "setvalue_GreaseLibFilter f flag val =
     (if flag = 1 then f\<lparr>lf_origin := val, lf_enabledFlags := lf_enabledFlags f OR 1\<rparr>
      else if flag = 2 then f\<lparr>lf_tag := val, lf_enabledFlags := lf_enabledFlags f OR 2\<rparr>
      else if flag = 4 then f\<lparr>lf_target := val, lf_enabledFlags := lf_enabledFlags f OR 4\<rparr>
      else if flag = 8 then f\<lparr>lf_mask := val, lf_enabledFlags := lf_enabledFlags f OR 8\<rparr>
      else f)"

definition lib_label :: "bytes option \<Rightarrow> nat \<Rightarrow> logLabel option option" where
  "lib_label s len =
     (case s of None \<Rightarrow> Some None | Some b \<Rightarrow> map_option Some (logLabel_fromUTF8 b len))"

definition lib_addFilter ::
  "u64 \<Rightarrow> filter_state \<Rightarrow> GreaseLibFilter option \<Rightarrow>
   (lib_ret \<times> GreaseLibFilter option \<times> filter_state) option" where
  "lib_addFilter a st flt =
     (case flt of
        None \<Rightarrow> Some (LIB_INVALID_PARAMS, None, st)
      | Some f \<Rightarrow>
          Option.bind (lib_label (lf_format_post f) (lf_format_post_len f)) (\<lambda>post.
          Option.bind (lib_label (lf_format_pre f) (lf_format_pre_len f)) (\<lambda>pre.
          Option.bind (lib_label (lf_format_post_pre_msg f) (lf_format_post_pre_msg_len f)) (\<lambda>ppm.
            let (ok, i, st') =
              addFilter_internal a st (lf_target f) (lf_origin f) (lf_tag f) (lf_mask f) pre ppm post
            in Some (if ok then (GREASE_LIB_OK, Some (f\<lparr>lf_id := i\<rparr>), st')
                     else (LIB_FAILED, Some f, st'))))))"

definition set_disabled :: "bool \<Rightarrow> filter_state \<Rightarrow> GreaseLibFilter \<Rightarrow> lib_ret \<times> filter_state" where
  "set_disabled b st f =
     (case lookupFilter st (lf_origin f) (lf_tag f) (lf_id f) of
        None \<Rightarrow> (GREASE_LIB_NOT_FOUND, st)
      | Some (p, n) \<Rightarrow>
          (case fl_heap st p of
             None \<Rightarrow> (GREASE_LIB_NOT_FOUND, st)
           | Some l \<Rightarrow>
               (GREASE_LIB_OK, st\<lparr>fl_heap := (fl_heap st)(p \<mapsto>
                  l\<lparr>fl_list := (fl_list l)[n := (fl_list l ! n)\<lparr>f_disabled := b\<rparr>]\<rparr>)\<rparr>)))"

definition lib_disableFilter :: "filter_state \<Rightarrow> GreaseLibFilter \<Rightarrow> lib_ret \<times> filter_state" where
  "lib_disableFilter = set_disabled True"

definition lib_enableFilter :: "filter_state \<Rightarrow> GreaseLibFilter \<Rightarrow> lib_ret \<times> filter_state" where
  "lib_enableFilter = set_disabled False"

section \<open>Invariant\<close>

text \<open>
  A list is a run of filters with an id followed by empty ones, and its bloom mask covers every
  level its filters log.
\<close>

definition active :: "FilterList \<Rightarrow> Filter list" where
  "active l = takeWhile (\<lambda>f. f_id f \<noteq> 0) (fl_list l)"

definition fl_inv :: "FilterList \<Rightarrow> bool" where
  "fl_inv l \<longleftrightarrow>
     length (fl_list l) = MAX_IDENTICAL_FILTERS \<and>
     (\<forall>f \<in> set (dropWhile (\<lambda>f. f_id f \<noteq> 0) (fl_list l)). f = Filter_empty) \<and>
     (\<forall>f \<in> set (active l). f_levelMask f AND fl_bloom l = f_levelMask f)"

definition filter_inv :: "filter_state \<Rightarrow> bool" where
  "filter_inv st \<longleftrightarrow>
     (\<forall>h p. filterHashTable st h = Some p \<longrightarrow>
        p \<noteq> 0 \<and> (\<exists>l. fl_heap st p = Some l \<and> fl_inv l)) \<and>
     (\<forall>h h' p. filterHashTable st h = Some p \<and> filterHashTable st h' = Some p \<longrightarrow> h = h') \<and>
     (\<forall>p l. fl_heap st p = Some l \<longrightarrow> (\<forall>f \<in> set (active l). f_id f < nextFilterId st))"

text \<open>The filters that a hash selects, in the order they were added.\<close>

definition filters_at :: "filter_state \<Rightarrow> FilterHash \<Rightarrow> Filter list" where
  "filters_at st h =
     (case filterHashTable st h of
        None \<Rightarrow> []
      | Some p \<Rightarrow> (case fl_heap st p of None \<Rightarrow> [] | Some l \<Rightarrow> active l))"

lemma bit_hi_mask: "bit (0xFFFFFFFF00000000 :: u64) n \<longleftrightarrow> 32 \<le> n \<and> n < 64"
proof -
  have m: "(0xFFFFFFFF00000000 :: u64) = push_bit 32 (mask 32)"
    by (simp add: mask_eq_exp_minus_1 push_bit_eq_mult)
  show ?thesis unfolding m by (auto simp: bit_simps)
qed

lemma bit_lo_mask: "bit (0x00000000FFFFFFFF :: u64) n \<longleftrightarrow> n < 32"
proof -
  have m: "(0x00000000FFFFFFFF :: u64) = mask 32" by (simp add: mask_eq_exp_minus_1)
  show ?thesis unfolding m by (auto simp: bit_simps)
qed

lemma bit_filterhash:
  "bit (filterhash tag origin) n \<longleftrightarrow>
     (if n < 32 then bit tag n else n < 64 \<and> bit origin (n - 32))"
proof -
  have t: "bit tag n \<Longrightarrow> n < 32" and g: "bit origin (n - 32) \<Longrightarrow> n < 64" if "32 \<le> n"
    using that bit_imp_le_length [of tag n] bit_imp_le_length [of origin "n - 32"] by auto
  show ?thesis
    unfolding filterhash_def bit_or_iff bit_and_iff bit_hi_mask
    using t g bit_imp_le_length [of tag n] by (auto simp: bit_simps not_less)
qed

lemma filterhash_inj: "filterhash t g = filterhash t' g' \<longleftrightarrow> t = t' \<and> g = g'"
proof
  assume h: "filterhash t g = filterhash t' g'"
  have "bit t n = bit t' n" if "n < 32" for n
    using arg_cong [OF h, of "\<lambda>w. bit w n"] that by (simp add: bit_filterhash)
  moreover have "bit g n = bit g' n" if "n < 32" for n
    using arg_cong [OF h, of "\<lambda>w. bit w (n + 32)"] that by (simp add: bit_filterhash)
  ultimately show "t = t' \<and> g = g'" by (auto intro!: bit_word_eqI)
qed auto

lemma filterhash_zero: "filterhash t g = 0 \<longleftrightarrow> t = 0 \<and> g = 0"
  using filterhash_inj [of t g 0 0] by (simp add: filterhash_def)

lemma filterhash_no_hash: "filterhash t g = no_hash \<longleftrightarrow> t = - 1 \<and> g = - 1"
proof -
  have "filterhash (- 1) (- 1) = no_hash" 
  proof (rule bit_word_eqI)
    fix n assume n: "n < LENGTH(64)"
    have m: "no_hash = - 1" by (simp add: no_hash_def)
    show "bit (filterhash (- 1) (- 1)) n = bit no_hash n"
      using n unfolding m bit_filterhash by auto
  qed
  then show ?thesis using filterhash_inj [of t g "- 1" "- 1"] by simp
qed

text \<open>The second and third hash are the hashes of the origin alone and of the tag alone.\<close>

lemma getHashes_parts:
  "getHashes tag origin = [filterhash tag origin, filterhash 0 origin, filterhash tag 0]"
proof -
  have "filterhash tag origin AND 0xFFFFFFFF00000000 = filterhash 0 origin"
    by (rule bit_word_eqI) (simp only: bit_and_iff bit_hi_mask bit_filterhash, auto)
  moreover have "filterhash tag origin AND 0x00000000FFFFFFFF = filterhash tag 0"
    by (rule bit_word_eqI) (simp only: bit_and_iff bit_lo_mask bit_filterhash, auto)
  ultimately show ?thesis by (simp add: getHashes_def Let_def)
qed

section \<open>Lists of filters keep their invariant\<close>

lemma first_id_takeWhile:
  "first_id i fs =
     (if i \<in> f_id ` set fs then Some (length (takeWhile (\<lambda>f. f_id f \<noteq> i) fs)) else None)"
  by (induction fs) auto

lemma first_id_Some:
  "first_id i fs = Some n \<Longrightarrow> n < length fs \<and> f_id (fs ! n) = i"
  by (induction fs arbitrary: n) (auto split: if_splits)

text \<open>The contract of a list with a fixed number of places that only grows.\<close>

locale capped_list =
  fixes add :: "'l \<Rightarrow> 'f \<Rightarrow> bool \<times> 'l"
    and items :: "'l \<Rightarrow> 'g list"
    and conv :: "'f \<Rightarrow> 'g"
    and ok :: "'f \<Rightarrow> bool"
    and cap :: nat
    and invar :: "'l \<Rightarrow> bool"
  assumes add_room: "invar l \<Longrightarrow> ok f \<Longrightarrow> length (items l) < cap \<Longrightarrow>
      \<exists>l'. add l f = (True, l') \<and> invar l' \<and> items l' = items l @ [conv f]"
    and add_full: "invar l \<Longrightarrow> ok f \<Longrightarrow> cap \<le> length (items l) \<Longrightarrow> add l f = (False, l)"
    and items_cap: "invar l \<Longrightarrow> length (items l) \<le> cap"
begin

lemma add_invar: "invar l \<Longrightarrow> ok f \<Longrightarrow> invar (snd (add l f))"
  using add_room [of l f] add_full [of l f] by (cases "length (items l) < cap") auto

lemma add_iff: "invar l \<Longrightarrow> ok f \<Longrightarrow> fst (add l f) \<longleftrightarrow> length (items l) < cap"
  using add_room [of l f] add_full [of l f] by (cases "length (items l) < cap") auto

lemma add_many:
  assumes "invar l" "\<forall>f \<in> set fs. ok f"
  shows "invar (foldl (\<lambda>l f. snd (add l f)) l fs) \<and>
     items (foldl (\<lambda>l f. snd (add l f)) l fs) = take cap (items l @ map conv fs)"
  using assms
proof (induction fs arbitrary: l)
  case Nil
  then show ?case using items_cap by simp
next
  case (Cons f fs)
  have inv: "invar (snd (add l f))" using add_invar Cons.prems by simp
  have "take cap (items (snd (add l f)) @ map conv fs) = take cap (items l @ map conv (f # fs))"
    using add_room [of l f] add_full [of l f] Cons.prems
    by (cases "length (items l) < cap") (auto simp: take_Cons' Suc_diff_Suc)
  then show ?case using Cons.IH [OF inv] Cons.prems(2) by simp
qed

end

lemma active_split:
  assumes "fl_inv l"
  shows "fl_list l = active l @ replicate (MAX_IDENTICAL_FILTERS - length (active l)) Filter_empty"
    "length (active l) \<le> MAX_IDENTICAL_FILTERS"
proof -
  let ?d = "dropWhile (\<lambda>f. f_id f \<noteq> 0) (fl_list l)"
  have e: "active l @ ?d = fl_list l" by (simp add: active_def)
  have len: "length (active l) + length ?d = MAX_IDENTICAL_FILTERS"
    using assms arg_cong [OF e, of length] by (simp add: fl_inv_def)
  have "?d = replicate (length ?d) Filter_empty"
    using assms by (intro replicate_eqI) (auto simp: fl_inv_def)
  then show "fl_list l = active l @ replicate (MAX_IDENTICAL_FILTERS - length (active l)) Filter_empty"
    using e len by (metis add_diff_cancel_left')
  show "length (active l) \<le> MAX_IDENTICAL_FILTERS" using len by simp
qed

lemma active_ids: "f \<in> set (active l) \<Longrightarrow> f_id f \<noteq> 0"
  unfolding active_def by (metis set_takeWhileD)

lemma Filter_empty_id [simp]: "f_id Filter_empty = 0"
  by (simp add: Filter_empty_def)

lemma Filter_assign_sel [simp]:
  "f_id (Filter_assign f src) = f_id src" "f_levelMask (Filter_assign f src) = f_levelMask src"
  "f_targetId (Filter_assign f src) = f_targetId src"
  "f_disabled (Filter_assign f src) = f_disabled f"
  by (simp_all add: Filter_assign_def)

lemma fl_invI:
  assumes "fl_list l = as @ replicate (MAX_IDENTICAL_FILTERS - length as) Filter_empty"
    "length as \<le> MAX_IDENTICAL_FILTERS" "\<forall>f \<in> set as. f_id f \<noteq> 0"
    "\<forall>f \<in> set as. f_levelMask f AND fl_bloom l = f_levelMask f"
  shows "fl_inv l" "active l = as"
proof -
  show act: "active l = as" using assms by (simp add: active_def)
  then show "fl_inv l" using assms by (auto simp: fl_inv_def)
qed

lemma bloom_grow: "(m AND b = m) \<Longrightarrow> m AND (b OR c) = m" for m b c :: u32
  by (simp add: bit.conj_disj_distrib word_ao_absorbs)

lemma FilterList_add_room:
  assumes "fl_inv l" "f_id f \<noteq> 0" "length (active l) < MAX_IDENTICAL_FILTERS"
  shows "\<exists>l'. FilterList_add l f = (True, l') \<and> fl_inv l' \<and>
    active l' = active l @ [Filter_assign Filter_empty f]"
proof -
  let ?n = "length (active l)" let ?k = "MAX_IDENTICAL_FILTERS - Suc ?n"
  have sp: "fl_list l = active l @ Filter_empty # replicate ?k Filter_empty"
    using active_split(1) [OF assms(1)] assms(3)
    by (metis Suc_diff_Suc replicate_Suc)
  have "0 \<in> f_id ` set (fl_list l)" unfolding sp by (simp add: image_iff)
  then have fi: "first_id 0 (fl_list l) = Some ?n"
    by (simp add: first_id_takeWhile active_def)
  let ?l = "l\<lparr>fl_bloom := fl_bloom l OR f_levelMask f,
     fl_list := (active l @ [Filter_assign Filter_empty f]) @ replicate ?k Filter_empty\<rparr>"
  have "FilterList_add l f = (True, ?l)"
    using fi by (simp add: FilterList_add_def sp)
  moreover have "\<forall>g \<in> set (active l). f_levelMask g AND fl_bloom l = f_levelMask g"
    using assms(1) by (simp add: fl_inv_def)
  then have "\<forall>g \<in> set (active l @ [Filter_assign Filter_empty f]). f_levelMask g AND fl_bloom ?l = f_levelMask g"
    by (auto simp: bloom_grow bit.conj_disj_distrib word_ao_absorbs)
  then have "fl_inv ?l" "active ?l = active l @ [Filter_assign Filter_empty f]"
    using assms(2,3) active_ids [of _ l]
      fl_invI [of ?l "active l @ [Filter_assign Filter_empty f]"] by auto
  ultimately show ?thesis by blast
qed

lemma FilterList_add_full:
  assumes "fl_inv l" "MAX_IDENTICAL_FILTERS \<le> length (active l)"
  shows "FilterList_add l f = (False, l)"
proof -
  have "fl_list l = active l" using active_split [OF assms(1)] assms(2) by simp
  then have "0 \<notin> f_id ` set (fl_list l)" using active_ids [of _ l] by force
  then show ?thesis by (simp add: FilterList_add_def first_id_takeWhile)
qed

interpretation filter_list: capped_list FilterList_add active "Filter_assign Filter_empty"
  "\<lambda>f. f_id f \<noteq> 0" MAX_IDENTICAL_FILTERS fl_inv
  by unfold_locales (auto simp: FilterList_add_room FilterList_add_full active_split(2))

lemma fl_inv_new [simp]: "fl_inv FilterList_new" "active FilterList_new = []"
  by (simp_all add: fl_inv_def active_def FilterList_new_def)

section \<open>The table keeps its invariant\<close>

lemma word_less_Suc:
  assumes "n + 1 \<noteq> (0 :: u32)"
  shows "y < n + 1 \<longleftrightarrow> y \<le> n"
  using assms unatSuc [of n] by (simp add: word_less_nat_alt word_le_nat_alt add.commute less_Suc_eq_le)

definition put_list :: "filter_state \<Rightarrow> FilterHash \<Rightarrow> u64 \<Rightarrow> FilterList \<Rightarrow> filter_state" where
  "put_list st h p l =
     st\<lparr>nextFilterId := nextFilterId st + 1, filterHashTable := (filterHashTable st)(h \<mapsto> p),
        fl_heap := (fl_heap st)(p \<mapsto> l)\<rparr>"

definition may_hold :: "filter_state \<Rightarrow> FilterHash \<Rightarrow> u64 \<Rightarrow> bool" where
  "may_hold st h p \<longleftrightarrow> filterHashTable st h = Some p \<or>
     (filterHashTable st h = None \<and> p \<notin> dom (fl_heap st) \<and> p \<noteq> 0)"

lemma put_list_inv:
  assumes inv: "filter_inv st" and p: "may_hold st h p" and l: "fl_inv l"
    and ids: "\<forall>f \<in> set (active l). f_id f < nextFilterId st + 1"
    and nw: "nextFilterId st + 1 \<noteq> 0"
  shows "filter_inv (put_list st h p l)" "filters_at (put_list st h p l) h = active l"
    "\<And>h'. h' \<noteq> h \<Longrightarrow> filters_at (put_list st h p l) h' = filters_at st h'"
proof -
  have other: "q \<noteq> p" if "filterHashTable st k = Some q" "k \<noteq> h" for k q
    using that inv p unfolding filter_inv_def may_hold_def by (metis domI)
  have pz: "p \<noteq> 0" using inv p by (auto simp: filter_inv_def may_hold_def)
  show "filters_at (put_list st h p l) h = active l" by (simp add: filters_at_def put_list_def)
  show "filters_at (put_list st h p l) h' = filters_at st h'" if "h' \<noteq> h" for h'
    using that other [of h'] by (auto simp: filters_at_def put_list_def split: option.splits)
  have old: "f_id f < nextFilterId st + 1" if "fl_heap st q = Some k" "f \<in> set (active k)" for q k f
    using that inv word_less_Suc [OF nw] by (auto simp: filter_inv_def intro: less_imp_le)
  have "q \<noteq> 0 \<and> (\<exists>l'. fl_heap (put_list st h p l) q = Some l' \<and> fl_inv l')"
    if "filterHashTable (put_list st h p l) k = Some q" for k q
    using that inv l pz by (auto simp: put_list_def filter_inv_def split: if_splits)
  moreover have "k = k'" if "filterHashTable (put_list st h p l) k = Some q"
      "filterHashTable (put_list st h p l) k' = Some q" for k k' q
    using that inv other by (auto simp: put_list_def filter_inv_def split: if_splits)
  moreover have "\<forall>f \<in> set (active k). f_id f < nextFilterId (put_list st h p l)"
    if "fl_heap (put_list st h p l) q = Some k" for q k
    using that ids old by (auto simp: put_list_def split: if_splits)
  ultimately show "filter_inv (put_list st h p l)" unfolding filter_inv_def by blast
qed

lemma addFilter_internal_put:
  assumes "filter_inv st" "a \<notin> dom (fl_heap st)" "a \<noteq> 0" "nextFilterId st \<noteq> 0"
  shows "\<exists>p l l' f. may_hold st (filterhash tag origin) p \<and> fl_inv l \<and>
     active l = filters_at st (filterhash tag origin) \<and>
     f_id f = nextFilterId st \<and> f_levelMask f = level \<and> f_targetId f = t \<and>
     FilterList_add l f = (fst (FilterList_add l f), l') \<and>
     addFilter_internal a st t origin tag level pre ppm post =
       (fst (FilterList_add l f), nextFilterId st, put_list st (filterhash tag origin) p l')"
proof -
  let ?h = "filterhash tag origin" let ?i = "nextFilterId st"
  let ?f0 = "Filter_new ?i level t"
  let ?f = "?f0\<lparr>f_preFormat := set_label pre (f_preFormat ?f0),
     f_postFormatPreMsg := set_label ppm (f_postFormatPreMsg ?f0),
     f_postFormat := set_label post (f_postFormat ?f0)\<rparr>"
  have fs: "f_id ?f = ?i" "f_levelMask ?f = level" "f_targetId ?f = t"
    by (simp_all add: Filter_new_def)
  show ?thesis
  proof (cases "filterHashTable st ?h")
    case None
    have "addFilter_internal a st t origin tag level pre ppm post =
        (fst (FilterList_add FilterList_new ?f), ?i,
         put_list st ?h a (snd (FilterList_add FilterList_new ?f)))"
      using None by (simp add: addFilter_internal_def put_list_def Let_def case_prod_beta)
    then show ?thesis
      using None assms fs
      by (intro exI [of _ a] exI [of _ FilterList_new]
          exI [of _ "snd (FilterList_add FilterList_new ?f)"] exI [of _ ?f])
        (simp add: may_hold_def filters_at_def)
  next
    case (Some p)
    then obtain l where l: "fl_heap st p = Some l" "fl_inv l"
      using assms(1) unfolding filter_inv_def by blast
    have "addFilter_internal a st t origin tag level pre ppm post =
        (fst (FilterList_add l ?f), ?i, put_list st ?h p (snd (FilterList_add l ?f)))"
      using Some l by (simp add: addFilter_internal_def put_list_def Let_def case_prod_beta map_upd_triv)
    then show ?thesis
      using Some l fs
      by (intro exI [of _ p] exI [of _ l] exI [of _ "snd (FilterList_add l ?f)"] exI [of _ ?f])
        (simp add: may_hold_def filters_at_def)
  qed
qed

lemma first_id_active:
  assumes "fl_inv l" "active l = as @ [f]" "\<forall>g \<in> set as. f_id g \<noteq> f_id f"
  shows "first_id (f_id f) (fl_list l) = Some (length as)"
proof -
  obtain r where "fl_list l = as @ f # r" using active_split(1) [OF assms(1)] assms(2) by auto
  then show ?thesis using assms(3) by (simp add: first_id_takeWhile)
qed

lemma lookupFilter_put:
  assumes "first_id i (fl_list l) = Some n"
  shows "lookupFilter (put_list st (filterhash tag origin) p l) origin tag i = Some (p, n)"
  using assms by (simp add: lookupFilter_def put_list_def FilterList_find_def)

lemma filters_at_ids:
  assumes "filter_inv st" "f \<in> set (filters_at st h)"
  shows "f_id f < nextFilterId st"
proof -
  obtain p l where "fl_heap st p = Some l" "f \<in> set (active l)"
    using assms(2) by (force simp: filters_at_def split: option.splits)
  then show ?thesis using assms(1) unfolding filter_inv_def by blast
qed

lemma first_id_nonzero:
  assumes "fl_inv l" "i \<noteq> 0"
  shows "first_id i (fl_list l) = first_id i (active l)"
proof -
  have "first_id i (as @ replicate k Filter_empty) = first_id i as" for as k
    using assms(2) by (induction as) (auto simp: first_id_takeWhile)
  then show ?thesis using active_split(1) [OF assms(1)] by metis
qed

lemma fl_inv_disable:
  assumes "fl_inv l" "n < length (active l)"
    and l'_def: "l' = l\<lparr>fl_list := (fl_list l)[n := (fl_list l ! n)\<lparr>f_disabled := b\<rparr>]\<rparr>"
  shows "fl_inv l'" "active l' = (active l)[n := (active l ! n)\<lparr>f_disabled := b\<rparr>]"
proof -
  let ?as = "(active l)[n := (active l ! n)\<lparr>f_disabled := b\<rparr>]"
  have n: "fl_list l ! n = active l ! n"
    using active_split(1) [OF assms(1)] assms(2) by (metis nth_append)
  have 1: "fl_list l' = ?as @ replicate (MAX_IDENTICAL_FILTERS - length ?as) Filter_empty"
    unfolding l'_def n using active_split(1) [OF assms(1)] assms(2)
    by (simp add: list_update_append1)
  have sub: "\<exists>g \<in> set (active l). f_id f = f_id g \<and> f_levelMask f = f_levelMask g" if "f \<in> set ?as" for f
    using that set_update_subset_insert [of "active l" n] nth_mem [OF assms(2)] by force
  have 2: "\<forall>f \<in> set ?as. f_id f \<noteq> 0" using sub active_ids by metis
  have 3: "\<forall>f \<in> set ?as. f_levelMask f AND fl_bloom l' = f_levelMask f"
    using sub assms(1) by (force simp: fl_inv_def l'_def)
  show "fl_inv l'" "active l' = ?as"
    using fl_invI [OF 1 _ 2 3] active_split(2) [OF assms(1)] by simp_all
qed

section \<open>Properties of the filters\<close>

lemma addFilter_spec:
  assumes "filter_inv st" "a \<notin> dom (fl_heap st)" "a \<noteq> 0" "nextFilterId st \<noteq> 0"
    "nextFilterId st + 1 \<noteq> 0"
    "addFilter_internal a st t origin tag level pre ppm post = (ok, i, st')"
  shows "filter_inv st' \<and> i = nextFilterId st \<and> nextFilterId st' = nextFilterId st + 1 \<and>
    (ok \<longleftrightarrow> length (filters_at st (filterhash tag origin)) < MAX_IDENTICAL_FILTERS) \<and>
    (\<forall>h. h \<noteq> filterhash tag origin \<longrightarrow> filters_at st' h = filters_at st h) \<and>
    (\<not> ok \<longrightarrow> filters_at st' (filterhash tag origin) = filters_at st (filterhash tag origin)) \<and>
    (ok \<longrightarrow> (\<exists>f p. filters_at st' (filterhash tag origin) =
                   filters_at st (filterhash tag origin) @ [f] \<and>
         f_id f = i \<and> f_levelMask f = level \<and> f_targetId f = t \<and> \<not> f_disabled f \<and>
         lookupFilter st' origin tag i =
           Some (p, length (filters_at st (filterhash tag origin)))))"
proof -
  let ?h = "filterhash tag origin"
  obtain p l l' f where *: "may_hold st ?h p" "fl_inv l" "active l = filters_at st ?h"
      "f_id f = nextFilterId st" "f_levelMask f = level" "f_targetId f = t"
      "FilterList_add l f = (ok, l')" "i = nextFilterId st" "st' = put_list st ?h p l'"
    using addFilter_internal_put [OF assms(1-4), of tag origin level t pre ppm post] assms(6) by auto
  have f0: "f_id f \<noteq> 0" using *(4) assms(4) by simp
  have ok: "ok \<longleftrightarrow> length (active l) < MAX_IDENTICAL_FILTERS" and inv: "fl_inv l'"
    using filter_list.add_iff [OF *(2) f0] filter_list.add_invar [OF *(2) f0] *(7) by auto
  have act: "active l' = active l @ [Filter_assign Filter_empty f]" if ok
    using FilterList_add_room [OF *(2) f0] that ok *(7) by auto
  have same: "l' = l" if "\<not> ok" using FilterList_add_full [OF *(2)] that ok *(7) by auto
  have old: "\<forall>g \<in> set (active l). f_id g < i" using filters_at_ids [OF assms(1)] *(3,8) by simp
  have ids: "\<forall>g \<in> set (active l'). f_id g < nextFilterId st + 1"
    using old act same *(4,8) by (cases ok) (auto simp: word_less_Suc [OF assms(5)] intro: less_imp_le)
  note put = put_list_inv [OF assms(1) *(1) inv ids assms(5)]
  have "lookupFilter st' origin tag i = Some (p, length (active l))" if ok
  proof -
    have "first_id i (fl_list l') = Some (length (active l))"
      using first_id_active [OF inv act [OF that]] old *(4,8) by force
    then show ?thesis using *(9) by (simp add: lookupFilter_put)
  qed
  moreover have "\<not> f_disabled (Filter_assign Filter_empty f)" by (simp add: Filter_empty_def)
  ultimately show ?thesis
    using put act same ok *(3-6,8,9) by (auto simp: put_list_def)
qed

text \<open>C26: Adding a filter registers it: the call succeeds exactly while fewer than sixteen filters
  share the tag and origin, takes the next id, appends the filter with its level mask and target
  to those of its tag and origin and to no others, makes it findable under its id, and keeps
  the table well formed; a refused call changes no list.\<close>

theorem addFilter_registers:
  assumes "filter_inv st" "a \<notin> dom (fl_heap st)" "a \<noteq> 0" "nextFilterId st \<noteq> 0"
    "nextFilterId st + 1 \<noteq> 0"
    "addFilter_internal a st t origin tag level pre ppm post = (ok, i, st')"
  shows "filter_inv st' \<and> i = nextFilterId st \<and> nextFilterId st' = nextFilterId st + 1 \<and>
    (ok \<longleftrightarrow> length (filters_at st (filterhash tag origin)) < MAX_IDENTICAL_FILTERS) \<and>
    (\<forall>h. h \<noteq> filterhash tag origin \<longrightarrow> filters_at st' h = filters_at st h) \<and>
    (\<not> ok \<longrightarrow> filters_at st' (filterhash tag origin) = filters_at st (filterhash tag origin)) \<and>
    (ok \<longrightarrow> (\<exists>f p. filters_at st' (filterhash tag origin) =
                   filters_at st (filterhash tag origin) @ [f] \<and>
         f_id f = i \<and> f_levelMask f = level \<and> f_targetId f = t \<and> \<not> f_disabled f \<and>
         lookupFilter st' origin tag i =
           Some (p, length (filters_at st (filterhash tag origin)))))"
  by (rule addFilter_spec [OF assms])

theorem addFilter_registers_witness:
  "filters_at (snd (snd (addFilter_internal 4096 filter_state_init 7 2 3 0x04 None None None)))
     (filterhash 3 2) = [(Filter_new 1 0x04 7)] \<and>
   filter_inv (snd (snd (addFilter_internal 4096 filter_state_init 7 2 3 0x04 None None None)))"
proof -
  let ?r = "addFilter_internal 4096 filter_state_init 7 2 3 0x04 None None None"
  have inv: "filter_inv filter_state_init"
    by (simp add: filter_inv_def filter_state_init_def)
  have "filters_at (snd (snd ?r)) (filterhash 3 2) = [(Filter_new 1 0x04 7)]" by code_simp
  moreover have "filter_inv (snd (snd ?r))"
    using addFilter_registers [OF inv, of 4096 7 2 3 "0x04" None None None "fst ?r" "fst (snd ?r)"
        "snd (snd ?r)"] by (simp add: filter_state_init_def)
  ultimately show ?thesis by blast
qed

text \<open>What \<open>sift\<close> should select: the first of the hash of tag and origin, of the origin alone, of
  the tag alone, and zero, that has a list.\<close>

definition selected :: "filter_state \<Rightarrow> logMeta \<Rightarrow> FilterHash option" where
  "selected st m =
     find (\<lambda>h. filterHashTable st h \<noteq> None)
       [filterhash (m_tag m) (m_origin m), filterhash 0 (m_origin m), filterhash (m_tag m) 0, 0]"

text \<open>The filters that the cached pointers of a message lead to.\<close>

definition listed :: "filter_state \<Rightarrow> logMeta \<Rightarrow> Filter list" where
  "listed st m =
     concat (map (\<lambda>p. if p = 0 then []
       else (case fl_heap st p of None \<Rightarrow> [] | Some l \<Rightarrow> active l)) (cached_lists m))"

lemma find_list_selected:
  "find_list st (getHashes (m_tag m) (m_origin m)) =
     (case selected st m of
        None \<Rightarrow> None
      | Some h \<Rightarrow> (case filterHashTable st h of None \<Rightarrow> None
         | Some p \<Rightarrow> Some (if h = filterhash (m_tag m) (m_origin m) then 0
                          else if h = filterhash 0 (m_origin m) then 1
                          else if h = filterhash (m_tag m) 0 then 2 else 3, p)))"
  by (auto simp: find_list_def selected_def getHashes_parts split: option.splits)

lemma find_list_index: "find_list st hs = Some (n, p) \<Longrightarrow> n < 4"
  by (auto simp: find_list_def split: option.splits)

lemma listed_set_one:
  assumes "n < 4"
  shows "listed st (META_SET_LIST (m\<lparr>cached_hash := hs, cached_lists := [0, 0, 0, 0]\<rparr>) n p) =
    (if p = 0 then [] else (case fl_heap st p of None \<Rightarrow> [] | Some l \<Rightarrow> active l))"
proof -
  have "n = 0 \<or> n = 1 \<or> n = 2 \<or> n = 3" using assms by auto
  then show ?thesis by (auto simp: listed_def META_SET_LIST_def split: option.splits)
qed

lemma sift_spec:
  assumes "filter_inv st" "cached_lists m = [0, 0, 0, 0]" "\<not> META_HAS_CACHE m"
    "sift st m = (ok, m')"
  shows "(levelFilterOutMask st AND m_level m \<noteq> 0 \<longrightarrow> \<not> ok \<and> m' = m) \<and>
    (levelFilterOutMask st AND m_level m = 0 \<longrightarrow>
       (ok \<longleftrightarrow> selected st m \<noteq> None \<or> \<not> defaultFilterOut st) \<and>
       listed st m' = (case selected st m of None \<Rightarrow> [] | Some h \<Rightarrow> filters_at st h) \<and>
       m_level m' = m_level m \<and> m_tag m' = m_tag m \<and> m_origin m' = m_origin m)"
proof (cases "levelFilterOutMask st AND m_level m = 0")
  case False
  then show ?thesis using assms by (simp add: sift_def)
next
  case True
  let ?hs = "getHashes (m_tag m) (m_origin m)" let ?m = "m\<lparr>cached_hash := ?hs\<rparr>"
  have m0: "?m = m\<lparr>cached_hash := ?hs, cached_lists := [0, 0, 0, 0]\<rparr>" using assms(2) by simp
  show ?thesis
  proof (cases "selected st m")
    case None
    then have "find_list st ?hs = None" by (simp add: find_list_selected)
    then show ?thesis using True None assms by (auto simp: sift_def Let_def listed_def)
  next
    case (Some h)
    then obtain p where p: "filterHashTable st h = Some p"
      by (auto simp: selected_def split: if_splits)
    then obtain n where n: "find_list st ?hs = Some (n, p)" "n < 4"
      using Some find_list_index by (fastforce simp: find_list_selected)
    have pz: "p \<noteq> 0" using p assms(1) unfolding filter_inv_def by blast
    have e: "ok" "m' = META_SET_LIST ?m n p"
      using True assms(3,4) n by (auto simp: sift_def Let_def)
    have "listed st m' = listed st (META_SET_LIST (m\<lparr>cached_hash := ?hs, cached_lists := [0, 0, 0, 0]\<rparr>) n p)"
      using e(2) m0 by simp
    then have "listed st m' = filters_at st h"
      using pz p listed_set_one [OF n(2)] by (simp add: filters_at_def)
    then show ?thesis using True Some e by (simp add: META_SET_LIST_def)
  qed
qed

text \<open>The second hash has the origin and no tag, the third the tag and no origin; with lists for both, a
  message takes the one of its origin.\<close>

lemma origin_before_tag:
  "getHashes tag origin ! 1 = filterhash 0 origin" "getHashes tag origin ! 2 = filterhash tag 0"
  "filterHashTable st (filterhash tag origin) = None \<Longrightarrow> filterHashTable st (filterhash 0 origin) \<noteq> None \<Longrightarrow>
     selected st (DECL_LOG_META tag level origin) = Some (filterhash 0 origin)"
  using getHashes_parts [of tag origin] by (simp_all add: selected_def DECL_LOG_META_def)

text \<open>C23: A message whose level is not masked and that has no cached list is logged exactly when a
  list applies to it or messages pass by default, and the lists it is then routed through hold
  exactly the filters of the first match: its tag and origin, else its origin alone, else its
  tag alone, else the filters for everything. A masked level is never logged. The order of the two middle
  ones is the code's and not that of its comments: \<open>sift\<close> says "check just tag" where it looks up the second
  hash and "check just origin" where it looks up the third, while \<open>getHashes\<close> puts the half of the
  origin in the second and that of the tag in the third (lemma \<open>origin_before_tag\<close>).\<close>

theorem sift_selects:
  assumes "filter_inv st" "cached_lists m = [0, 0, 0, 0]" "\<not> META_HAS_CACHE m"
    "sift st m = (ok, m')"
  shows "(levelFilterOutMask st AND m_level m \<noteq> 0 \<longrightarrow> \<not> ok \<and> m' = m) \<and>
    (levelFilterOutMask st AND m_level m = 0 \<longrightarrow>
       (ok \<longleftrightarrow> selected st m \<noteq> None \<or> \<not> defaultFilterOut st) \<and>
       listed st m' = (case selected st m of None \<Rightarrow> [] | Some h \<Rightarrow> filters_at st h) \<and>
       m_level m' = m_level m \<and> m_tag m' = m_tag m \<and> m_origin m' = m_origin m)"
  by (rule sift_spec [OF assms])

theorem sift_selects_witness:
  "sift (filter_state_init\<lparr>defaultFilterOut := True\<rparr>) (DECL_LOG_META 3 4 2) =
     (False, (DECL_LOG_META 3 4 2)\<lparr>cached_hash := getHashes 3 2\<rparr>) \<and>
   \<not> (selected (filter_state_init\<lparr>defaultFilterOut := True\<rparr>) (DECL_LOG_META 3 4 2) \<noteq> None)"
proof -
  let ?st = "filter_state_init\<lparr>defaultFilterOut := True\<rparr>"
  have inv: "filter_inv ?st" by (simp add: filter_inv_def filter_state_init_def)
  have s: "sift ?st (DECL_LOG_META 3 4 2) =
     (False, (DECL_LOG_META 3 4 2)\<lparr>cached_hash := getHashes 3 2\<rparr>)"
    by (simp add: sift_def filter_state_init_def find_list_def DECL_LOG_META_def META_HAS_CACHE_def)
  show ?thesis using sift_selects [OF inv _ _ s] s
    by (simp add: DECL_LOG_META_def META_HAS_CACHE_def filter_state_init_def)
qed

text \<open>A message whose cache is filled passes \<open>sift\<close> whatever the default: a second call with the
  metadata of a message that was filtered out by default lets it through.\<close>

lemma sift_cached_passes:
  assumes "levelFilterOutMask st AND m_level m = 0" "\<not> META_HAS_CACHE m"
    "m_tag m \<noteq> - 1 \<or> m_origin m \<noteq> - 1"
  shows "\<exists>m'. sift st (snd (sift st m)) = (True, m') \<and> m' = snd (sift st m)"
proof -
  let ?m = "snd (sift st m)"
  have "cached_hash ?m ! 0 = filterhash (m_tag m) (m_origin m)" "m_level ?m = m_level m"
    using assms(1,2) by (auto simp: sift_def Let_def META_SET_LIST_def getHashes_parts
        split: option.splits prod.splits)
  then have "META_HAS_CACHE ?m" "m_level ?m = m_level m"
    using assms(3) by (auto simp: META_HAS_CACHE_def filterhash_no_hash)
  then show ?thesis using assms(1) by (simp add: sift_def)
qed

lemma sift_cached_passes_example:
  "fst (sift (filter_state_init\<lparr>defaultFilterOut := True\<rparr>) (DECL_LOG_META 3 4 2)) = False \<and>
   fst (sift (filter_state_init\<lparr>defaultFilterOut := True\<rparr>)
     (snd (sift (filter_state_init\<lparr>defaultFilterOut := True\<rparr>) (DECL_LOG_META 3 4 2)))) = True"
  using sift_cached_passes [of "filter_state_init\<lparr>defaultFilterOut := True\<rparr>" "DECL_LOG_META 3 4 2"]
  by (auto simp: filter_state_init_def DECL_LOG_META_def sift_def find_list_def META_HAS_CACHE_def)

text \<open>Masking a level keeps every message of that level from being logged; unmasking, as it is
  written, never lets a level through again, for it can only set bits of the mask.\<close>

lemma mask_monotone:
  assumes "val AND m_level m \<noteq> 0"
  shows "\<not> fst (sift (maskOutByLevel val st) m) \<and>
    \<not> fst (sift (unmaskOutByLevel val' (maskOutByLevel val st)) m)"
proof -
  have "(w OR val) AND m_level m \<noteq> 0" "(c OR (w OR val)) AND m_level m \<noteq> 0" for c w :: u32
    using assms by (simp_all add: bit.conj_disj_distrib2 or_eq_0_iff)
  then show ?thesis by (simp add: sift_def maskOutByLevel_def unmaskOutByLevel_def)
qed

lemma mask_monotone_example:
  "\<not> fst (sift (unmaskOutByLevel 0x08 (maskOutByLevel 0x08 filter_state_init)) meta_debug)"
  using mask_monotone [of "0x08" meta_debug filter_state_init "0x08"]
  by (simp add: meta_debug_def DECL_LOG_META_def level_defs)

text \<open>Disabling or enabling a filter that was added finds it under its id and changes its flag and
  nothing else; an id that no filter of the tag and origin has is reported as not found and
  changes nothing.\<close>

lemma set_disabled_effect:
  assumes "filter_inv st" "lf_id f \<noteq> 0" "set_disabled b st f = (r, st')"
  defines "h \<equiv> filterhash (lf_tag f) (lf_origin f)"
  shows "(r = GREASE_LIB_OK \<longleftrightarrow> lf_id f \<in> f_id ` set (filters_at st h)) \<and>
    (r \<noteq> GREASE_LIB_OK \<longrightarrow> r = GREASE_LIB_NOT_FOUND \<and> st' = st) \<and>
    (r = GREASE_LIB_OK \<longrightarrow>
       (\<exists>n < length (filters_at st h). f_id (filters_at st h ! n) = lf_id f \<and>
          filters_at st' h =
            (filters_at st h)[n := (filters_at st h ! n)\<lparr>f_disabled := b\<rparr>]) \<and>
       (\<forall>h'. h' \<noteq> h \<longrightarrow> filters_at st' h' = filters_at st h'))"
proof (cases "filterHashTable st h")
  case None
  then show ?thesis using assms(3)
    by (simp add: set_disabled_def lookupFilter_def filters_at_def h_def)
next
  case (Some p)
  then obtain l where l: "fl_heap st p = Some l" "fl_inv l"
    using assms(1) unfolding filter_inv_def by blast
  have at: "filters_at st h = active l" using Some l by (simp add: filters_at_def)
  have look: "lookupFilter st (lf_origin f) (lf_tag f) (lf_id f) =
      map_option (Pair p) (first_id (lf_id f) (active l))"
    using Some l first_id_nonzero [OF l(2) assms(2)]
    by (simp add: lookupFilter_def h_def FilterList_find_def)
  show ?thesis
  proof (cases "first_id (lf_id f) (active l)")
    case None
    then show ?thesis using assms(3) look at
      by (auto simp: set_disabled_def first_id_takeWhile split: if_splits)
  next
    case n: (Some n)
    note nb = first_id_Some [OF n]
    let ?l = "l\<lparr>fl_list := (fl_list l)[n := (fl_list l ! n)\<lparr>f_disabled := b\<rparr>]\<rparr>"
    have r: "r = GREASE_LIB_OK" "st' = st\<lparr>fl_heap := (fl_heap st)(p \<mapsto> ?l)\<rparr>"
      using assms(3) look l n by (auto simp: set_disabled_def)
    have "lf_id f \<in> f_id ` set (active l)" using nb by (metis image_eqI nth_mem)
    moreover have "filters_at st' h = active ?l" using Some r by (simp add: filters_at_def)
    moreover have "filters_at st' h' = filters_at st h'" if "h' \<noteq> h" for h'
    proof -
      have "filterHashTable st h' \<noteq> Some p"
        using that Some assms(1) unfolding filter_inv_def by blast
      then show ?thesis using r by (auto simp: filters_at_def split: option.splits)
    qed
    ultimately show ?thesis
      using r nb at fl_inv_disable(2) [OF l(2), of n ?l b] by auto
  qed
qed

lemma set_disabled_effect_example:
  "fst (lib_disableFilter filter_state_init (GreaseLibFilter_new\<lparr>lf_id := 4\<rparr>))
     = GREASE_LIB_NOT_FOUND"
proof -
  have inv: "filter_inv filter_state_init"
    by (simp add: filter_inv_def filter_state_init_def)
  let ?r = "lib_disableFilter filter_state_init (GreaseLibFilter_new\<lparr>lf_id := 4\<rparr>)"
  show ?thesis
    using set_disabled_effect [OF inv, of "GreaseLibFilter_new\<lparr>lf_id := 4\<rparr>" True "fst ?r" "snd ?r"]
    by (simp add: lib_disableFilter_def filters_at_def filter_state_init_def)
qed

text \<open>With id 0 the search stops at the first free place of the list and marks it, and the filter
  that is added there later starts out disabled.\<close>

lemma disable_unadded_filter:
  "let st1 = snd (snd (addFilter_internal 4096 filter_state_init 7 2 3 0x04 None None None));
       st2 = snd (lib_disableFilter st1 (GreaseLibFilter_new\<lparr>lf_origin := 2, lf_tag := 3\<rparr>));
       st3 = snd (snd (addFilter_internal 8192 st2 9 2 3 0x04 None None None))
   in map f_disabled (filters_at st3 (filterhash 3 2)) = [False, True]"
  by code_simp

end
