(* ===== verification/Log_Buf.thy ===== *)
theory Log_Buf
  imports Heap_Buf
begin

text \<open>
  \<open>logBuf\<close> of \<open>logger.h\<close>: one bank of a target, a block of \<open>space\<close> bytes filled up to
  \<open>handle.len\<close>, which adds the target's delimiter behind a message. A failed \<open>assert\<close> and a
  copy outside the block are \<open>None\<close>.
\<close>

record logBuf =
  lb_base :: bytes
  lb_len :: nat
  lb_id :: nat
  lb_space :: nat
  lb_delim :: delim_data
  lb_tempBuffer :: bool

definition logBuf_new :: "nat \<Rightarrow> nat \<Rightarrow> delim_data \<Rightarrow> logBuf" where
  "logBuf_new s i d =
     \<lparr>lb_base = LMALLOC s, lb_len = 0, lb_id = i, lb_space = s, lb_delim = d, lb_tempBuffer = False\<rparr>"

text \<open>Appending a block at \<open>handle.len\<close>.\<close>

definition lb_append :: "logBuf \<Rightarrow> bytes \<Rightarrow> logBuf option" where
  "lb_append b s =
     map_option (\<lambda>base. b\<lparr>lb_base := base, lb_len := lb_len b + length s\<rparr>)
       (buf_write (lb_base b) (lb_len b) s)"

text \<open>The delimiter as bytes; the block behind \<open>delim.delim\<close> is read for \<open>handle.len\<close> bytes.\<close>

definition lb_delim_bytes :: "logBuf \<Rightarrow> bytes option" where
  "lb_delim_bytes b =
     (case hb_base (dd_delim (lb_delim b)) of
        None \<Rightarrow> Some []
      | Some d \<Rightarrow> buf_read d 0 (hb_len (dd_delim (lb_delim b))))"

definition lb_append_delim :: "logBuf \<Rightarrow> bool \<Rightarrow> logBuf option" where
  "lb_append_delim b use_delim =
     (if \<not> hb_empty (dd_delim (lb_delim b)) \<and> use_delim
      then Option.bind (lb_delim_bytes b) (lb_append b) else Some b)"

definition copyIn :: "logBuf \<Rightarrow> bytes \<Rightarrow> nat \<Rightarrow> bool \<Rightarrow> logBuf option" where
  "copyIn b s n use_delim =
     (if n > 0 then
        (if \<not> n \<le> lb_space b then None
         else if lb_len b > lb_space b then Some (b\<lparr>lb_len := lb_space b\<rparr>)
         else Option.bind (buf_read s 0 n) (\<lambda>d.
              Option.bind (lb_append b d) (\<lambda>b1. lb_append_delim b1 use_delim)))
      else Some b)"

text \<open>The escaping copy is told that the whole block is free, not what is left of it.\<close>

definition copyInJsonEscape :: "logBuf \<Rightarrow> bytes \<Rightarrow> nat \<Rightarrow> bool \<Rightarrow> logBuf option" where
  "copyInJsonEscape b s n use_delim =
     (if n > 0 then
        (if \<not> n \<le> lb_space b \<or> \<not> lb_len b \<le> lb_space b then None
         else Option.bind (memcpy_and_json_escape s n (lb_space b)) (\<lambda>(r, w, out_len).
              Option.bind (buf_write (lb_base b) (lb_len b) w) (\<lambda>base.
              lb_append_delim (b\<lparr>lb_base := base, lb_len := lb_len b + out_len\<rparr>) use_delim)))
      else Some b)"

definition lb_clear :: "logBuf \<Rightarrow> logBuf" where
  "lb_clear b = b\<lparr>lb_len := 0\<rparr>"

definition lb_isEmpty :: "logBuf \<Rightarrow> bool" where
  "lb_isEmpty b \<longleftrightarrow> lb_len b = 0"

definition lb_remain :: "logBuf \<Rightarrow> int" where
  "lb_remain b =
     (let ret = int (lb_space b) - int (lb_len b);
          ret' = (if \<not> hb_empty (dd_delim (lb_delim b))
                  then ret - int (hb_len (dd_delim (lb_delim b))) else ret)
      in if ret' < 0 then 0 else ret')"

section \<open>Contents\<close>

definition content :: "logBuf \<Rightarrow> bytes" where
  "content b = take (lb_len b) (lb_base b)"

definition dbytes :: "delim_data \<Rightarrow> bytes" where
  "dbytes d = (case hb_base (dd_delim d) of None \<Rightarrow> [] | Some b \<Rightarrow> take (hb_len (dd_delim d)) b)"

abbreviation delim_of :: "logBuf \<Rightarrow> bytes" where
  "delim_of b \<equiv> dbytes (lb_delim b)"

definition lb_ok :: "logBuf \<Rightarrow> bool" where
  "lb_ok b \<longleftrightarrow> length (lb_base b) = lb_space b \<and> lb_len b \<le> lb_space b \<and>
     hb_ok (dd_delim (lb_delim b))"

lemma lb_ok_new: "hb_ok (dd_delim d) \<Longrightarrow> lb_ok (logBuf_new s i d)" "content (logBuf_new s i d) = []"
  by (simp_all add: lb_ok_def logBuf_new_def LMALLOC_def content_def)

lemma lb_ok_clear [simp]: "lb_ok b \<Longrightarrow> lb_ok (lb_clear b)"
  by (simp add: lb_ok_def lb_clear_def)

lemma lb_clear_sel [simp]:
  "content (lb_clear b) = []" "lb_space (lb_clear b) = lb_space b"
  "lb_delim (lb_clear b) = lb_delim b" "lb_len (lb_clear b) = 0"
  by (simp_all add: content_def lb_clear_def)

lemma length_content: "lb_ok b \<Longrightarrow> length (content b) = lb_len b"
  by (simp add: content_def lb_ok_def)

lemma lb_append_Some:
  assumes "lb_ok b" "lb_len b + length s \<le> lb_space b"
  shows "\<exists>b'. lb_append b s = Some b' \<and> lb_ok b' \<and> content b' = content b @ s \<and>
    lb_space b' = lb_space b \<and> lb_delim b' = lb_delim b \<and> lb_len b' = lb_len b + length s"
proof -
  obtain base where w: "buf_write (lb_base b) (lb_len b) s = Some base"
    using assms by (simp add: lb_ok_def buf_write_def)
  then show ?thesis
    using assms buf_write_length [OF w] take_buf_write [OF w]
    by (simp add: lb_append_def lb_ok_def content_def)
qed

lemma lb_delim_bytes_ok: "lb_ok b \<Longrightarrow> lb_delim_bytes b = Some (delim_of b)"
  by (auto simp: lb_delim_bytes_def dbytes_def lb_ok_def hb_ok_def buf_read_def
      split: option.splits)

lemma lb_append_delim_Some:
  assumes "lb_ok b" "\<not> use_delim \<or> lb_len b + length (delim_of b) \<le> lb_space b"
  shows "\<exists>b'. lb_append_delim b use_delim = Some b' \<and> lb_ok b' \<and>
    content b' = content b @ (if use_delim then delim_of b else []) \<and>
    lb_space b' = lb_space b \<and> lb_delim b' = lb_delim b \<and>
    lb_len b' = lb_len b + (if use_delim then length (delim_of b) else 0)"
proof (cases "\<not> hb_empty (dd_delim (lb_delim b)) \<and> use_delim")
  case True
  then show ?thesis
    using lb_append_Some [OF assms(1), of "delim_of b"] assms
    by (simp add: lb_append_delim_def lb_delim_bytes_ok)
next
  case False
  then have "use_delim \<Longrightarrow> delim_of b = []" by (simp add: dbytes_def hb_empty_def)
  then show ?thesis using False assms(1) by (auto simp: lb_append_delim_def)
qed

lemma copyIn_Some:
  assumes "lb_ok b" "n \<le> length s" "0 < n"
    "lb_len b + n + (if use_delim then length (delim_of b) else 0) \<le> lb_space b"
  shows "\<exists>b'. copyIn b s n use_delim = Some b' \<and> lb_ok b' \<and>
    content b' = content b @ take n s @ (if use_delim then delim_of b else []) \<and>
    lb_space b' = lb_space b \<and> lb_delim b' = lb_delim b \<and>
    lb_len b' = lb_len b + n + (if use_delim then length (delim_of b) else 0)"
proof -
  obtain b1 where b1: "lb_append b (take n s) = Some b1" "lb_ok b1"
      "content b1 = content b @ take n s" "lb_space b1 = lb_space b" "lb_delim b1 = lb_delim b"
      "lb_len b1 = lb_len b + n"
    using lb_append_Some [OF assms(1), of "take n s"] assms(2,4) by auto
  have d: "delim_of b1 = delim_of b" using b1(5) by simp
  obtain b2 where "lb_append_delim b1 use_delim = Some b2" "lb_ok b2"
      "content b2 = content b1 @ (if use_delim then delim_of b else [])"
      "lb_space b2 = lb_space b1" "lb_delim b2 = lb_delim b1"
      "lb_len b2 = lb_len b1 + (if use_delim then length (delim_of b) else 0)"
    using lb_append_delim_Some [OF b1(2), of use_delim] assms(4) b1(4,6) d
    by (auto split: if_splits)
  then show ?thesis using assms b1 by (simp add: copyIn_def buf_read_def lb_ok_def)
qed

lemma copyIn_zero [simp]: "copyIn b s 0 use_delim = Some b"
  by (simp add: copyIn_def)

lemma lb_remain_room:
  assumes "lb_ok b" "int k \<le> lb_remain b" "0 < k"
  shows "lb_len b + k + length (delim_of b) \<le> lb_space b"
  using assms by (auto simp: lb_remain_def Let_def dbytes_def hb_empty_def lb_ok_def hb_ok_def
      split: if_splits option.splits)

text \<open>Whatever is copied, a buffer that comes back stays inside its block.\<close>

lemma lb_append_ok:
  assumes "lb_ok b" "lb_append b s = Some b'"
  shows "lb_ok b' \<and> lb_space b' = lb_space b \<and> lb_delim b' = lb_delim b"
  using assms by (auto simp: lb_append_def lb_ok_def buf_write_def split: if_splits)

lemma lb_append_delim_ok:
  assumes "lb_ok b" "lb_append_delim b u = Some b'"
  shows "lb_ok b' \<and> lb_space b' = lb_space b \<and> lb_delim b' = lb_delim b"
  using assms lb_append_ok [OF assms(1)]
  by (auto simp: lb_append_delim_def bind_eq_Some_conv split: if_splits)

lemma copyIn_ok:
  assumes "lb_ok b" "copyIn b s n u = Some b'"
  shows "lb_ok b' \<and> lb_space b' = lb_space b \<and> lb_delim b' = lb_delim b"
proof (cases "n > 0")
  case True
  then obtain d b1 where "lb_append b d = Some b1" "lb_append_delim b1 u = Some b'"
    using assms by (auto simp: copyIn_def lb_ok_def bind_eq_Some_conv split: if_splits)
  then show ?thesis using lb_append_ok [OF assms(1)] lb_append_delim_ok [of b1] by metis
qed (use assms in simp)

lemma json_written:
  assumes "memcpy_and_json_escape s n k = Some (r, w, out_len)"
  shows "out_len \<le> length w"
  using assms by (auto simp: memcpy_and_json_escape_def split: option.splits)

lemma copyInJsonEscape_ok:
  assumes "lb_ok b" "copyInJsonEscape b s n u = Some b'"
  shows "lb_ok b' \<and> lb_space b' = lb_space b \<and> lb_delim b' = lb_delim b"
proof (cases "n > 0")
  case True
  then obtain r w ol base where j: "memcpy_and_json_escape s n (lb_space b) = Some (r, w, ol)"
      "buf_write (lb_base b) (lb_len b) w = Some base"
      "lb_append_delim (b\<lparr>lb_base := base, lb_len := lb_len b + ol\<rparr>) u = Some b'"
    using assms by (auto simp: copyInJsonEscape_def bind_eq_Some_conv split: if_splits)
  have "lb_len b + length w \<le> lb_space b" "length base = lb_space b"
    using j(2) assms(1) buf_write_length [OF j(2)] by (auto simp: buf_write_def lb_ok_def split: if_splits)
  then have "lb_ok (b\<lparr>lb_base := base, lb_len := lb_len b + ol\<rparr>)"
    using json_written [OF j(1)] assms(1) by (simp add: lb_ok_def)
  from lb_append_delim_ok [OF this j(3)] show ?thesis by simp
qed (use assms in \<open>simp add: copyInJsonEscape_def\<close>)

end
