(* ===== verification/Log_Target.thy ===== *)
theory Log_Target
  imports Tw_Circular Filters Log_Buf "HOL-Library.Multiset"
begin

text \<open>
  \<open>logTarget\<close> of \<open>logger.h\<close> and its three kinds (terminal, file, callback): the header and footer
  put around a message, the banks of buffers that go round between the current buffer, the
  available ones, those waiting to be written, those being written and those lent to a
  callback, and the operations \<open>write\<close>, \<open>rotate\<close>, \<open>flushAll\<close>, \<open>returnBuffer\<close> and
  \<open>writeOverflow\<close>. A bank is named by its index in \<open>_buffers\<close>.

  The part of \<open>GreaseLogger\<close> that targets use is the record \<open>grease_env\<close>: the command queue, the
  callback queue, the count that keeps the logger thread alive, the messages on the heap and the
  label tables. Handing a buffer to the device is one step (\<open>flush\<close>), and the completion of the
  write another (\<open>write_cb\<close>); \<open>t_out\<close> is what was handed to the device so far. Rotation
  of the files behind a file target is in \<open>File_Rotation\<close>.

  \<open>render\<close>, an argument, is the text that \<open>snprintf\<close> makes of a format and its arguments before
  any truncation; the truncation is modelled.
\<close>

section \<open>Commands and callbacks\<close>

datatype internalCommand =
    INTERNALNOOP | NEW_LOG | TARGET_ROTATE_BUFFER | WRITE_TARGET_OVERFLOW | INTERNAL_SHUTDOWN

record internalCmdReq =
  rq_c :: internalCommand
  rq_d :: u32
  rq_aux :: "nat option"       \<comment> \<open>address of a \<open>singleLog\<close>\<close>
  rq_auxInt :: int

definition cmdReq :: "internalCommand \<Rightarrow> u32 \<Rightarrow> internalCmdReq" where
  "cmdReq c d = \<lparr>rq_c = c, rq_d = d, rq_aux = None, rq_auxInt = 0\<rparr>"

record writeCBData =
  cb_overflow :: "overflowWriteOut option"
  cb_t :: TargetId
  cb_b :: "nat option"
  cb_nocallback :: bool

record grease_env =
  internalCmdQueue :: "internalCmdReq circ"
  callerLogCallbacks :: "writeCBData circ"
  needGreaseThread :: nat
  timer_on :: bool                 \<comment> \<open>the flush timer, referenced and running\<close>
  logs :: sl_heap
  next_log :: nat                  \<comment> \<open>the next address of a new \<open>singleLog\<close>\<close>
  levelLabels :: "u32 \<rightharpoonup> logLabel"
  tagLabels :: "u32 \<rightharpoonup> logLabel"
  originLabels :: "u32 \<rightharpoonup> logLabel"
  header_buffer :: bytes           \<comment> \<open>the static buffers of \<open>write\<close>\<close>
  footer_buffer :: bytes

definition refGreaseInGrease :: "grease_env \<Rightarrow> grease_env" where
  "refGreaseInGrease e =
     (let e1 = (if needGreaseThread e = 0 then e\<lparr>timer_on := True\<rparr> else e)
      in e1\<lparr>needGreaseThread := needGreaseThread e1 + 1\<rparr>)"

definition unrefGreaseInGrease :: "grease_env \<Rightarrow> grease_env option" where
  "unrefGreaseInGrease e =
     (if needGreaseThread e > 0 then
        (let e1 = e\<lparr>needGreaseThread := needGreaseThread e - 1\<rparr>
         in Some (if needGreaseThread e1 < 1 then e1\<lparr>timer_on := False\<rparr> else e1))
      else None)"

section \<open>The target\<close>

datatype target_kind = TtyTarget | FileTarget | CallbackTarget

record logTarget =
  t_kind :: target_kind
  t_disabled :: bool
  logCallbackSet :: bool
  t_delim :: delim_data
  numBanks :: nat
  t_buffers :: "logBuf list"           \<comment> \<open>\<open>_buffers\<close>\<close>
  availBuffers :: "nat circ"
  writeOutBuffers :: "nat circ"
  currentBuffer :: nat
  bankSize :: nat
  myId :: TargetId
  t_flags :: u32
  timeFormat :: logLabel
  tagFormat :: logLabel
  originFormat :: logLabel
  levelFormat :: logLabel
  t_preFormat :: logLabel
  t_postFormat :: logLabel
  preMsgFormat :: logLabel
  t_inflight :: "nat list"             \<comment> \<open>handed to the device, write not completed\<close>
  t_lent :: "nat list"                 \<comment> \<open>handed to the user's callback\<close>
  t_overflow :: "overflowWriteOut list"  \<comment> \<open>large messages being written by the device\<close>
  t_out :: bytes                       \<comment> \<open>bytes handed to the device\<close>

definition logTarget_new ::
  "target_kind \<Rightarrow> nat \<Rightarrow> TargetId \<Rightarrow> delim_data \<Rightarrow> nat \<Rightarrow> logTarget option" where
  "logTarget_new kind buffer_size i d num_banks =
     map_option (\<lambda>av.
       \<lparr>t_kind = kind, t_disabled = False, logCallbackSet = False, t_delim = d,
        numBanks = num_banks,
        t_buffers = map (\<lambda>n. logBuf_new buffer_size n (delim_duplicate d)) [0..<num_banks],
        availBuffers = av, writeOutBuffers = circ_new 0 (int num_banks - 1) False,
        currentBuffer = 0, bankSize = buffer_size, myId = i, t_flags = 0,
        timeFormat = heapBuf_empty, tagFormat = heapBuf_empty, originFormat = heapBuf_empty,
        levelFormat = heapBuf_empty, t_preFormat = heapBuf_empty, t_postFormat = heapBuf_empty,
        preMsgFormat = heapBuf_empty, t_inflight = [], t_lent = [], t_overflow = [], t_out = []\<rparr>)
       (put_all circ_add [1..<num_banks] (circ_new 0 (int num_banks) False))"

definition cur :: "logTarget \<Rightarrow> logBuf" where
  "cur t = t_buffers t ! currentBuffer t"

definition set_bank :: "logTarget \<Rightarrow> nat \<Rightarrow> logBuf \<Rightarrow> logTarget" where
  "set_bank t n b = t\<lparr>t_buffers := (t_buffers t)[n := b]\<rparr>"

definition disableWrites :: "bool \<Rightarrow> logTarget \<Rightarrow> logTarget" where
  "disableWrites v t = t\<lparr>t_disabled := v\<rparr>"

definition setFlag :: "u32 \<Rightarrow> logTarget \<Rightarrow> logTarget" where
  "setFlag f t = t\<lparr>t_flags := t_flags t OR f\<rparr>"

definition setCallback :: "bool \<Rightarrow> logTarget \<Rightarrow> logTarget" where
  "setCallback cb t = (if cb then t\<lparr>logCallbackSet := True\<rparr> else t)"

definition setTimeFormat :: "bytes \<Rightarrow> nat \<Rightarrow> logTarget \<Rightarrow> logTarget option" where
  "setTimeFormat s len t = map_option (\<lambda>l. t\<lparr>timeFormat := l\<rparr>) (logLabel_setUTF8 (timeFormat t) s len)"
definition setTagFormat :: "bytes \<Rightarrow> nat \<Rightarrow> logTarget \<Rightarrow> logTarget option" where
  "setTagFormat s len t = map_option (\<lambda>l. t\<lparr>tagFormat := l\<rparr>) (logLabel_setUTF8 (tagFormat t) s len)"
definition setOriginFormat :: "bytes \<Rightarrow> nat \<Rightarrow> logTarget \<Rightarrow> logTarget option" where
  "setOriginFormat s len t = map_option (\<lambda>l. t\<lparr>originFormat := l\<rparr>) (logLabel_setUTF8 (originFormat t) s len)"
definition setLevelFormat :: "bytes \<Rightarrow> nat \<Rightarrow> logTarget \<Rightarrow> logTarget option" where
  "setLevelFormat s len t = map_option (\<lambda>l. t\<lparr>levelFormat := l\<rparr>) (logLabel_setUTF8 (levelFormat t) s len)"
definition setPreFormat :: "bytes \<Rightarrow> nat \<Rightarrow> logTarget \<Rightarrow> logTarget option" where
  "setPreFormat s len t = map_option (\<lambda>l. t\<lparr>t_preFormat := l\<rparr>) (logLabel_setUTF8 (t_preFormat t) s len)"
definition setPostFormat :: "bytes \<Rightarrow> nat \<Rightarrow> logTarget \<Rightarrow> logTarget option" where
  "setPostFormat s len t = map_option (\<lambda>l. t\<lparr>t_postFormat := l\<rparr>) (logLabel_setUTF8 (t_postFormat t) s len)"
definition setPreMsgFormat :: "bytes \<Rightarrow> nat \<Rightarrow> logTarget \<Rightarrow> logTarget option" where
  "setPreMsgFormat s len t = map_option (\<lambda>l. t\<lparr>preMsgFormat := l\<rparr>) (logLabel_setUTF8 (preMsgFormat t) s len)"

section \<open>Headers and footers\<close>

datatype fmt_arg = AStr bytes | AInt int

type_synonym renderer = "bytes \<Rightarrow> fmt_arg list \<Rightarrow> bytes"

text \<open>A label's block as a C string.\<close>

definition cstr :: "logLabel \<Rightarrow> bytes" where
  "cstr l = (case hb_base l of None \<Rightarrow> [] | Some b \<Rightarrow> takeWhile (\<lambda>c. c \<noteq> 0) b)"

text \<open>
  \<^verbatim>\<open>n = snprintf(mem + off, space, ...); space = space - n\<close>. The state is the block and the number
  of bytes used, \<open>remain - space\<close>. \<open>snprintf\<close> returns the length of the whole text, so more can be
  used than there is; \<open>space\<close>, a \<open>size_t\<close>, has then wrapped around to a huge value and the next
  call does not truncate. A write outside the block is \<open>None\<close>.
\<close>

definition snp :: "nat \<Rightarrow> nat \<Rightarrow> bytes \<Rightarrow> bytes \<times> nat \<Rightarrow> (bytes \<times> nat) option" where
  "snp remain off text st =
     (case st of (mem, used) \<Rightarrow>
        if used = remain then Some (mem, used + length text)
        else map_option (\<lambda>m. (m, used + length text))
               (buf_write mem off
                  ((if used < remain then take (remain - used - 1) text else text) @ [0])))"

text \<open>
  A part of a header: whether it is printed only while there is space, whether it is wanted at all,
  and its text.
\<close>

type_synonym part = "bool \<times> bool \<times> bytes"

fun puts_parts :: "nat \<Rightarrow> part list \<Rightarrow> bytes \<times> nat \<Rightarrow> (bytes \<times> nat) option" where
  "puts_parts remain [] st = Some st"
| "puts_parts remain ((guarded, wanted, text) # ps) st =
     (if wanted \<and> (guarded \<longrightarrow> snd st \<noteq> remain)
      then Option.bind (snp remain (snd st) text st) (puts_parts remain ps)
      else puts_parts remain ps st)"

definition empty_label :: bytes where "empty_label = [0x2D, 0x2D]"

definition label_arg :: "(u32 \<rightharpoonup> logLabel) \<Rightarrow> u32 \<Rightarrow> bytes option" where
  "label_arg tbl k =
     (case tbl k of None \<Rightarrow> None | Some l \<Rightarrow> if logLabel_length l > 0 then Some (cstr l) else None)"

text \<open>\<open>putsHeader\<close>; \<open>tm\<close> is what \<open>ftime\<close> returns, seconds and milliseconds.\<close>

definition header_parts ::
  "renderer \<Rightarrow> int \<times> int \<Rightarrow> grease_env \<Rightarrow> logTarget \<Rightarrow> logMeta \<Rightarrow> Filter \<Rightarrow> part list" where
  "header_parts render tm e t m flt =
     [(False, \<not> hb_empty (f_preFormat flt), render (cstr (f_preFormat flt)) []),
      (True, logLabel_length (t_preFormat t) > 0, render (cstr (t_preFormat t)) []),
      (True, logLabel_length (timeFormat t) > 0,
         render (cstr (timeFormat t)) [AInt (fst tm), AInt (snd tm)]),
      (True, logLabel_length (levelFormat t) > 0 \<and> label_arg (levelLabels e) (m_level m) \<noteq> None,
         render (cstr (levelFormat t)) [AStr (the (label_arg (levelLabels e) (m_level m)))]),
      (True, logLabel_length (tagFormat t) > 0,
         render (cstr (tagFormat t))
           [AStr (if m_tag m > 0 \<and> label_arg (tagLabels e) (m_tag m) \<noteq> None
                  then the (label_arg (tagLabels e) (m_tag m)) else empty_label)]),
      (True, logLabel_length (originFormat t) > 0,
         render (cstr (originFormat t))
           [AStr (if m_origin m > 0 \<and> label_arg (originLabels e) (m_origin m) \<noteq> None
                  then the (label_arg (originLabels e) (m_origin m)) else empty_label)]),
      (True, logLabel_length (preMsgFormat t) > 0, render (cstr (preMsgFormat t)) []),
      (False, \<not> hb_empty (f_postFormatPreMsg flt), render (cstr (f_postFormatPreMsg flt)) [])]"

definition putsHeader ::
  "renderer \<Rightarrow> int \<times> int \<Rightarrow> grease_env \<Rightarrow> logTarget \<Rightarrow> bytes \<Rightarrow> nat \<Rightarrow> logMeta \<Rightarrow> Filter \<Rightarrow>
   (bytes \<times> nat) option" where
  "putsHeader render tm e t mem remain m flt =
     puts_parts remain (header_parts render tm e t m flt) (mem, 0)"

text \<open>\<open>putsFooter\<close> prints both footers to the start of the block.\<close>

definition putsFooter ::
  "renderer \<Rightarrow> logTarget \<Rightarrow> bytes \<Rightarrow> nat \<Rightarrow> Filter \<Rightarrow> (bytes \<times> nat) option" where
  "putsFooter render t mem remain flt =
     Option.bind (if \<not> hb_empty (f_postFormat flt)
        then snp remain 0 (render (cstr (f_postFormat flt)) []) (mem, 0) else Some (mem, 0)) (\<lambda>s1.
       if logLabel_length (t_postFormat t) > 0 \<and> snd s1 \<noteq> remain
       then snp remain 0 (render (cstr (t_postFormat t)) []) s1 else Some s1)"

text \<open>\<^verbatim>\<open>(size_t) GREASE_MAX_PREFIX_HEADER - len_header_buffer\<close>.\<close>

definition size_t_sub :: "nat \<Rightarrow> nat \<Rightarrow> nat" where
  "size_t_sub a b = (if b \<le> a then a - b else 2 ^ 64 + a - b)"

section \<open>Buffers go round\<close>

definition returnBuffer ::
  "grease_env \<Rightarrow> logTarget \<Rightarrow> nat \<Rightarrow> bool \<Rightarrow> bool \<Rightarrow> (grease_env \<times> logTarget) option" where
  "returnBuffer e t b sync nocallback =
     (let isempty = lb_isEmpty (t_buffers t ! b);
          to_avail = (\<lambda>e1. map_option (\<lambda>av.
             (e1, (set_bank t b (lb_clear (t_buffers t ! b)))\<lparr>availBuffers := av\<rparr>))
             (circ_add (availBuffers t) b))
      in Option.bind (if \<not> isempty then unrefGreaseInGrease e else Some e) (\<lambda>e1.
         if \<not> nocallback \<and> logCallbackSet t \<and> \<not> isempty then
           (let cbdat = \<lparr>cb_overflow = None, cb_t = myId t, cb_b = Some b, cb_nocallback = False\<rparr>
            in if sync then Some (e1, t\<lparr>t_lent := t_lent t @ [b]\<rparr>)
               else (let (ok, q) = circ_addIfRoom (callerLogCallbacks e1) cbdat
                     in if ok then Some (e1\<lparr>callerLogCallbacks := q\<rparr>, t) else to_avail e1))
         else to_avail e1))"

text \<open>\<open>finalizeV8Callback\<close>, the end of a loan.\<close>

definition finalizeV8Callback :: "logTarget \<Rightarrow> nat \<Rightarrow> logTarget" where
  "finalizeV8Callback t b =
     (let t1 = set_bank t b (lb_clear (t_buffers t ! b));
          (ok, av) = circ_addIfRoom (availBuffers t1) b
      in t1\<lparr>availBuffers := av, t_lent := remove1 b (t_lent t1)\<rparr>)"

text \<open>\<open>rotate\<close>: \<open>True\<close> when the current buffer went to the queue of buffers to write out.\<close>

definition rotate_bank :: "logTarget \<Rightarrow> bool \<times> logTarget" where
  "rotate_bank t =
     (if lb_len (cur t) > 0 then
        (case circ_remove (availBuffers t) of
           Some (nx, av) \<Rightarrow>
             (let (ok, wo) = circ_addIfRoom (writeOutBuffers t) (currentBuffer t)
              in if ok
                 then (True, t\<lparr>availBuffers := av, writeOutBuffers := wo, currentBuffer := nx\<rparr>)
                 else (False, set_bank (t\<lparr>availBuffers := snd (circ_addIfRoom av nx)\<rparr>)
                                (currentBuffer t) (lb_clear (cur t))))
         | None \<Rightarrow> (False, set_bank t (currentBuffer t) (lb_clear (cur t))))
      else (False, t))"

definition GREASE_JSON_ESCAPE_STRINGS :: u32 where "GREASE_JSON_ESCAPE_STRINGS = 1"

text \<open>The three copies of a message into the current buffer.\<close>

definition put_message ::
  "logTarget \<Rightarrow> bytes \<Rightarrow> nat \<Rightarrow> bytes \<Rightarrow> nat \<Rightarrow> bytes \<Rightarrow> nat \<Rightarrow> logTarget option" where
  "put_message t hdr hn s len ftr fn =
     (let no_footer = (\<not> fn > 0) in
      Option.bind (copyIn (cur t) hdr hn False) (\<lambda>b1.
      Option.bind (if t_flags t AND GREASE_JSON_ESCAPE_STRINGS \<noteq> 0
                   then copyInJsonEscape b1 s len no_footer else copyIn b1 s len no_footer) (\<lambda>b2.
      Option.bind (if \<not> no_footer then copyIn b2 ftr fn True else Some b2) (\<lambda>b3.
        Some (set_bank t (currentBuffer t) b3)))))"

definition new_log :: "grease_env \<Rightarrow> singleLog \<Rightarrow> nat \<times> grease_env" where
  "new_log e l = (next_log e, e\<lparr>logs := (logs e)(next_log e \<mapsto> l), next_log := next_log e + 1\<rparr>)"

definition delete_log :: "grease_env \<Rightarrow> nat \<Rightarrow> grease_env" where
  "delete_log e a = e\<lparr>logs := (logs e)(a := None)\<rparr>"

text \<open>A message too large for a bank becomes a request of its own; \<open>s\<close> is the memory that is readable
  from the message on, \<open>len\<close> the message's length.\<close>

definition write_huge ::
  "grease_env \<Rightarrow> logTarget \<Rightarrow> bytes \<Rightarrow> nat \<Rightarrow> logMeta \<Rightarrow> grease_env option" where
  "write_huge e t s len m =
     (case (if t_flags t AND GREASE_JSON_ESCAPE_STRINGS \<noteq> 0
            then newSingleLogAsJsonEscape s len m else singleLog_from s len m) of
        None \<Rightarrow> None
      | Some B \<Rightarrow>
          (let (a, e1) = new_log e B;
               (ok, q) = circ_addIfRoom (internalCmdQueue e1)
                 ((cmdReq WRITE_TARGET_OVERFLOW (myId t))\<lparr>rq_aux := Some a\<rparr>)
           in Some (if ok then e1\<lparr>internalCmdQueue := q\<rparr> else delete_log e1 a)))"

text \<open>The message with its header and footer goes to the current buffer, or to the next one.\<close>

definition write_framed ::
  "grease_env \<Rightarrow> logTarget \<Rightarrow> bytes \<Rightarrow> nat \<Rightarrow> bytes \<Rightarrow> nat \<Rightarrow> bytes \<Rightarrow> nat \<Rightarrow>
   (grease_env \<times> logTarget) option" where
  "write_framed e t hdr hn s len ftr fn =
     (if lb_remain (cur t) \<ge> int (len + hn + fn) then
        (let e1 = (if lb_isEmpty (cur t) then refGreaseInGrease e else e)
         in map_option (Pair e1) (put_message t hdr hn s len ftr fn))
      else
        (let (rotated, t1) = rotate_bank t in
         if rotated then
           (let (ok, q) = circ_addIfRoom (internalCmdQueue e) (cmdReq TARGET_ROTATE_BUFFER (myId t))
            in if ok then map_option (Pair (refGreaseInGrease (e\<lparr>internalCmdQueue := q\<rparr>)))
                            (put_message t1 hdr hn s len ftr fn)
               else Some (e, t1))
         else Some (e, t1)))"

definition target_write ::
  "renderer \<Rightarrow> int \<times> int \<Rightarrow> grease_env \<Rightarrow> logTarget \<Rightarrow> bytes \<Rightarrow> nat \<Rightarrow> logMeta \<Rightarrow> Filter \<Rightarrow>
   (grease_env \<times> logTarget) option" where
  "target_write render tm e t s len m flt =
     (if t_disabled t then Some (e, t)
      else if bankSize t < len + GREASE_MAX_PREFIX_HEADER
        then map_option (\<lambda>e1. (e1, t)) (write_huge e t s len m)
      else
        (case putsHeader render tm e t (header_buffer e) GREASE_MAX_PREFIX_HEADER m flt of
           None \<Rightarrow> None
         | Some (hdr, hn) \<Rightarrow>
             (case putsFooter render t (footer_buffer e)
                     (size_t_sub GREASE_MAX_PREFIX_HEADER hn) flt of
                None \<Rightarrow> None
              | Some (ftr, fn) \<Rightarrow>
                  write_framed (e\<lparr>header_buffer := hdr, footer_buffer := ftr\<rparr>)
                    t hdr hn s len ftr fn)))"

section \<open>Flushing\<close>

text \<open>
  \<open>flush\<close> of the three kinds: a terminal and a file start an asynchronous write of the buffer,
  and a callback target passes it on at once.
\<close>

definition flush ::
  "grease_env \<Rightarrow> logTarget \<Rightarrow> nat \<Rightarrow> bool \<Rightarrow> (grease_env \<times> logTarget) option" where
  "flush e t b nocallbacks =
     (case t_kind t of
        CallbackTarget \<Rightarrow> returnBuffer e t b False nocallbacks
      | _ \<Rightarrow> Some (e, t\<lparr>t_out := t_out t @ content (t_buffers t ! b),
                       t_inflight := t_inflight t @ [b]\<rparr>))"

text \<open>\<open>write_cb\<close>: the device is done with the buffer.\<close>

definition write_cb ::
  "grease_env \<Rightarrow> logTarget \<Rightarrow> nat \<Rightarrow> bool \<Rightarrow> (grease_env \<times> logTarget) option" where
  "write_cb e t b nocallback =
     (if b \<in> set (t_inflight t)
      then returnBuffer e (t\<lparr>t_inflight := remove1 b (t_inflight t)\<rparr>) b False nocallback
      else None)"

text \<open>The loop of \<open>flushAll\<close>, for at most \<open>k\<close> buffers.\<close>

fun flush_loop ::
  "nat \<Rightarrow> grease_env \<Rightarrow> logTarget \<Rightarrow> bool \<Rightarrow> (grease_env \<times> logTarget) option" where
  "flush_loop 0 e t nocallbacks = Some (e, t)"
| "flush_loop (Suc k) e t nocallbacks =
     (case circ_remove (writeOutBuffers t) of
        None \<Rightarrow> Some (e, t)
      | Some (b, wo) \<Rightarrow>
          Option.bind (flush e (t\<lparr>writeOutBuffers := wo\<rparr>) b nocallbacks)
            (\<lambda>(e1, t1). flush_loop k e1 t1 nocallbacks))"

definition flushAll ::
  "grease_env \<Rightarrow> logTarget \<Rightarrow> bool \<Rightarrow> bool \<Rightarrow> (grease_env \<times> logTarget) option" where
  "flushAll e t do_rotate nocallbacks =
     (let t1 = (if do_rotate then snd (rotate_bank t) else t)
      in flush_loop (numBanks t1) e t1 nocallbacks)"

text \<open>
  \<open>flushSync\<close>. The terminal's version takes the buffer's mutex and then calls \<open>returnBuffer\<close>, which
  asks \<open>isEmpty\<close> and takes the same mutex again: it never comes back, which is \<open>None\<close>.
\<close>

definition flushSync ::
  "grease_env \<Rightarrow> logTarget \<Rightarrow> nat \<Rightarrow> bool \<Rightarrow> (grease_env \<times> logTarget) option" where
  "flushSync e t b nocallbacks =
     (case t_kind t of
        TtyTarget \<Rightarrow> None
      | FileTarget \<Rightarrow> returnBuffer e (t\<lparr>t_out := t_out t @ content (t_buffers t ! b)\<rparr>) b True nocallbacks
      | CallbackTarget \<Rightarrow> returnBuffer e t b True nocallbacks)"

fun flushSync_loop ::
  "nat \<Rightarrow> grease_env \<Rightarrow> logTarget \<Rightarrow> bool \<Rightarrow> (grease_env \<times> logTarget) option" where
  "flushSync_loop 0 e t nocallbacks = Some (e, t)"
| "flushSync_loop (Suc k) e t nocallbacks =
     (case circ_remove (writeOutBuffers t) of
        None \<Rightarrow> Some (e, t)
      | Some (b, wo) \<Rightarrow>
          Option.bind (flushSync e (t\<lparr>writeOutBuffers := wo\<rparr>) b nocallbacks)
            (\<lambda>(e1, t1). flushSync_loop k e1 t1 nocallbacks))"

definition target_flushAllSync ::
  "grease_env \<Rightarrow> logTarget \<Rightarrow> bool \<Rightarrow> bool \<Rightarrow> (grease_env \<times> logTarget) option" where
  "target_flushAllSync e t do_rotate nocallbacks =
     (let t1 = (if do_rotate then snd (rotate_bank t) else t)
      in flushSync_loop (numBanks t1) e t1 nocallbacks)"

section \<open>Invariant: no buffer is lost or shared\<close>

fun cb_banks :: "TargetId \<Rightarrow> writeCBData list \<Rightarrow> nat list" where
  "cb_banks i [] = []"
| "cb_banks i (c # cs) =
     (case cb_b c of
        Some b \<Rightarrow> (if cb_t c = i then b # cb_banks i cs else cb_banks i cs)
      | None \<Rightarrow> cb_banks i cs)"

text \<open>Every place a bank of the target can be in.\<close>

definition owned :: "grease_env \<Rightarrow> logTarget \<Rightarrow> nat list" where
  "owned e t =
     currentBuffer t # circ_list (availBuffers t) @ circ_list (writeOutBuffers t)
       @ t_inflight t @ t_lent t @ cb_banks (myId t) (circ_list (callerLogCallbacks e))"

definition target_inv :: "grease_env \<Rightarrow> logTarget \<Rightarrow> bool" where
  "target_inv e t \<longleftrightarrow>
     circ_inv (availBuffers t) \<and> csize (availBuffers t) = int (numBanks t) \<and>
     circ_inv (writeOutBuffers t) \<and> csize (writeOutBuffers t) = int (numBanks t) - 1 \<and>
     circ_inv (callerLogCallbacks e) \<and>
     length (t_buffers t) = numBanks t \<and>
     (\<forall>b \<in> set (t_buffers t). lb_ok b \<and> lb_space b = bankSize t \<and> delim_of b = dbytes (t_delim t)) \<and>
     (\<forall>n \<in> set (circ_list (availBuffers t)). lb_isEmpty (t_buffers t ! n)) \<and>
     mset (owned e t) = mset [0..<numBanks t]"

lemma cb_banks_append [simp]: "cb_banks i (xs @ ys) = cb_banks i xs @ cb_banks i ys"
  by (induction xs) (auto split: option.splits)

lemma owned_facts:
  assumes "target_inv e t"
  shows "distinct (owned e t)" "set (owned e t) = {0..<numBanks t}" "length (owned e t) = numBanks t"
proof -
  have m: "mset (owned e t) = mset [0..<numBanks t]" using assms by (simp add: target_inv_def)
  show "distinct (owned e t)" using m by (metis distinct_upt mset_eq_imp_distinct_iff)
  show "set (owned e t) = {0..<numBanks t}" using mset_eq_setD [OF m] by simp
  show "length (owned e t) = numBanks t" using mset_eq_length [OF m] by simp
qed

lemma current_bound:
  assumes "target_inv e t"
  shows "currentBuffer t < numBanks t" "cur t \<in> set (t_buffers t)" "lb_ok (cur t)"
    "lb_space (cur t) = bankSize t" "delim_of (cur t) = dbytes (t_delim t)"
proof -
  have "currentBuffer t \<in> set (owned e t)" by (simp add: owned_def)
  then show c: "currentBuffer t < numBanks t" using owned_facts(2) [OF assms] by auto
  then show "cur t \<in> set (t_buffers t)" using assms by (simp add: cur_def target_inv_def)
  then show "lb_ok (cur t)" "lb_space (cur t) = bankSize t" "delim_of (cur t) = dbytes (t_delim t)"
    using assms by (auto simp: target_inv_def)
qed

lemma set_bank_inv:
  assumes "target_inv e t" "lb_ok b" "lb_space b = bankSize t" "delim_of b = dbytes (t_delim t)"
    "n \<notin> set (circ_list (availBuffers t))"
  shows "target_inv e (set_bank t n b)"
proof -
  have "\<forall>b' \<in> set ((t_buffers t)[n := b]). lb_ok b' \<and> lb_space b' = bankSize t \<and>
      delim_of b' = dbytes (t_delim t)"
    using assms set_update_subset_insert [of "t_buffers t" n b] by (auto simp: target_inv_def)
  moreover have "\<forall>k \<in> set (circ_list (availBuffers t)). lb_isEmpty ((t_buffers t)[n := b] ! k)"
  proof
    fix k assume k: "k \<in> set (circ_list (availBuffers t))"
    then have "k \<noteq> n" using assms(5) by auto
    then show "lb_isEmpty ((t_buffers t)[n := b] ! k)" using k assms(1) by (simp add: target_inv_def)
  qed
  ultimately show ?thesis using assms by (simp add: target_inv_def set_bank_def owned_def)
qed

lemma current_not_avail:
  assumes "target_inv e t"
  shows "currentBuffer t \<notin> set (circ_list (availBuffers t))"
  using owned_facts(1) [OF assms] by (simp add: owned_def)

text \<open>When a buffer is available there is room for the current one in the queue.\<close>

lemma writeOut_room:
  assumes "target_inv e t" "circ_list (availBuffers t) \<noteq> []"
  shows "length (circ_list (writeOutBuffers t)) < nat (csize (writeOutBuffers t))"
proof -
  have "length (owned e t) = numBanks t" by (rule owned_facts(3) [OF assms(1)])
  moreover have "0 < length (circ_list (availBuffers t))" using assms(2) by simp
  ultimately have "Suc (length (circ_list (writeOutBuffers t))) < numBanks t"
    by (simp add: owned_def del: length_greater_0_conv)
  moreover have "csize (writeOutBuffers t) = int (numBanks t) - 1"
    using assms(1) by (simp add: target_inv_def)
  ultimately show ?thesis by linarith
qed

lemma circ_addIfRoom_ok:
  assumes "circ_inv q" "length (circ_list q) < nat (csize q)"
  shows "\<exists>q'. circ_addIfRoom q x = (True, q') \<and> circ_inv q' \<and> circ_list q' = circ_list q @ [x] \<and>
    csize q' = csize q"
proof -
  obtain q' where "circ_add q x = Some q'"
    using assms circ_add_None_iff [OF assms(1), of x] by (cases "circ_add q x") auto
  then show ?thesis using circ_add_abs [OF assms(1)] by (auto simp: circ_addIfRoom_add)
qed

lemma rotate_success:
  assumes "target_inv e t" "0 < lb_len (cur t)" "circ_list (availBuffers t) = nx # av"
  shows "\<exists>t'. rotate_bank t = (True, t') \<and> target_inv e t' \<and> currentBuffer t' = nx \<and>
    circ_list (availBuffers t') = av \<and>
    circ_list (writeOutBuffers t') = circ_list (writeOutBuffers t) @ [currentBuffer t] \<and>
    (\<exists>aq wq. t' = t\<lparr>availBuffers := aq, writeOutBuffers := wq, currentBuffer := nx\<rparr>)"
proof -
  have inv: "circ_inv (availBuffers t)" "circ_inv (writeOutBuffers t)"
    using assms(1) by (auto simp: target_inv_def)
  obtain aq where aq: "circ_remove (availBuffers t) = Some (nx, aq)"
  proof (cases "circ_remove (availBuffers t)")
    case None
    then show ?thesis using circ_remove_None_iff [OF inv(1)] assms(3) by simp
  next
    case (Some p)
    then show ?thesis using that circ_remove_abs(2) [OF inv(1)] assms(3) by (cases p) auto
  qed
  note av = circ_remove_abs [OF inv(1) aq]
  obtain wo where wo: "circ_addIfRoom (writeOutBuffers t) (currentBuffer t) = (True, wo)"
      "circ_inv wo" "circ_list wo = circ_list (writeOutBuffers t) @ [currentBuffer t]"
      "csize wo = csize (writeOutBuffers t)"
    using circ_addIfRoom_ok [OF inv(2) writeOut_room [OF assms(1)]] assms(3) by auto
  let ?t = "t\<lparr>availBuffers := aq, writeOutBuffers := wo, currentBuffer := nx\<rparr>"
  have "rotate_bank t = (True, ?t)" using assms(2) aq wo(1) by (simp add: rotate_bank_def)
  moreover have "mset (owned e ?t) = mset (owned e t)"
    using av(2) wo(3) assms(3) by (simp add: owned_def)
  then have "target_inv e ?t" using assms(1) av wo by (auto simp: target_inv_def)
  ultimately show ?thesis using av(2) wo(3) assms(3) by (intro exI [of _ ?t]) force
qed

lemma rotate_no_buffer:
  assumes "target_inv e t" "0 < lb_len (cur t)" "circ_list (availBuffers t) = []"
  shows "rotate_bank t = (False, set_bank t (currentBuffer t) (lb_clear (cur t)))"
    "target_inv e (snd (rotate_bank t))"
proof -
  have "circ_inv (availBuffers t)" using assms(1) by (simp add: target_inv_def)
  then have "circ_remove (availBuffers t) = None" using circ_remove_None_iff assms(3) by blast
  then show r: "rotate_bank t = (False, set_bank t (currentBuffer t) (lb_clear (cur t)))"
    using assms(2) by (simp add: rotate_bank_def)
  show "target_inv e (snd (rotate_bank t))"
    using set_bank_inv [OF assms(1)] current_bound [OF assms(1)] current_not_avail [OF assms(1)]
    by (simp add: r)
qed

lemma rotate_inv:
  assumes "target_inv e t"
  shows "target_inv e (snd (rotate_bank t))"
proof (cases "0 < lb_len (cur t)")
  case True
  show ?thesis
  proof (cases "circ_list (availBuffers t)")
    case Nil
    then show ?thesis using rotate_no_buffer [OF assms True] by simp
  next
    case (Cons nx av)
    then show ?thesis using rotate_success [OF assms True Cons] by auto
  qed
next
  case False
  then show ?thesis using assms by (simp add: rotate_bank_def)
qed

section \<open>Returning buffers\<close>

text \<open>
  The buffers that still count for the logger thread: the current one, those queued and those
  being written, as long as they hold data. \<open>k\<close> is what the other targets hold.
\<close>

definition held :: "logTarget \<Rightarrow> nat list" where
  "held t = currentBuffer t # circ_list (writeOutBuffers t) @ t_inflight t"

definition busy :: "logTarget \<Rightarrow> nat" where
  "busy t = length (filter (\<lambda>b. \<not> lb_isEmpty (t_buffers t ! b)) (held t))"

definition ref_inv :: "nat \<Rightarrow> grease_env \<Rightarrow> logTarget \<Rightarrow> bool" where
  "ref_inv k e t \<longleftrightarrow> busy t + k \<le> needGreaseThread e"

text \<open>A target from which the bank \<open>b\<close> was taken for a moment.\<close>

definition lacks :: "nat \<Rightarrow> grease_env \<Rightarrow> logTarget \<Rightarrow> bool" where
  "lacks b e t \<longleftrightarrow> target_inv e (t\<lparr>t_lent := b # t_lent t\<rparr>)"

lemma lacksD:
  assumes "lacks b e t"
  shows "b < numBanks t" "b \<notin> set (owned e t)" "Suc (length (owned e t)) = numBanks t"
    "lb_ok (t_buffers t ! b)" "lb_space (t_buffers t ! b) = bankSize t"
    "delim_of (t_buffers t ! b) = dbytes (t_delim t)"
proof -
  let ?t = "t\<lparr>t_lent := b # t_lent t\<rparr>"
  have inv: "target_inv e ?t" using assms by (simp add: lacks_def)
  have m: "mset (owned e ?t) = mset (b # owned e t)" by (simp add: owned_def)
  have d: "distinct (b # owned e t)"
    using owned_facts(1) [OF inv] mset_eq_imp_distinct_iff [OF m] by simp
  then show "b \<notin> set (owned e t)" by simp
  show "Suc (length (owned e t)) = numBanks t"
    using owned_facts(3) [OF inv] mset_eq_length [OF m] by simp
  have "b \<in> set (owned e ?t)" by (simp add: owned_def)
  then show b: "b < numBanks t" using owned_facts(2) [OF inv] by simp
  then have "t_buffers t ! b \<in> set (t_buffers t)" using inv by (simp add: target_inv_def)
  then show "lb_ok (t_buffers t ! b)" "lb_space (t_buffers t ! b) = bankSize t"
    "delim_of (t_buffers t ! b) = dbytes (t_delim t)"
    using inv by (auto simp: target_inv_def)
qed

lemma lacks_avail_room:
  assumes "lacks b e t"
  shows "\<exists>av. circ_add (availBuffers t) b = Some av \<and> circ_inv av \<and>
    circ_list av = circ_list (availBuffers t) @ [b] \<and> csize av = csize (availBuffers t)"
proof -
  have inv: "circ_inv (availBuffers t)" "csize (availBuffers t) = int (numBanks t)"
    using assms by (auto simp: lacks_def target_inv_def)
  have "length (circ_list (availBuffers t)) < numBanks t"
    using lacksD(3) [OF assms] by (simp add: owned_def)
  then obtain av where av: "circ_add (availBuffers t) b = Some av"
    using circ_add_None_iff [OF inv(1), of b] inv(2) by (cases "circ_add (availBuffers t) b") auto
  then show ?thesis using circ_add_abs [OF inv(1) av] by simp
qed

lemma to_avail_inv:
  assumes "lacks b e t" "circ_add (availBuffers t) b = Some av"
    "callerLogCallbacks e' = callerLogCallbacks e"
  shows "target_inv e' ((set_bank t b (lb_clear (t_buffers t ! b)))\<lparr>availBuffers := av\<rparr>)"
proof -
  let ?t = "(set_bank t b (lb_clear (t_buffers t ! b)))\<lparr>availBuffers := av\<rparr>"
  have inv: "target_inv e (t\<lparr>t_lent := b # t_lent t\<rparr>)" using assms(1) by (simp add: lacks_def)
  have av: "circ_inv av" "circ_list av = circ_list (availBuffers t) @ [b]"
      "csize av = csize (availBuffers t)"
    using lacks_avail_room [OF assms(1)] assms(2) by auto
  have "\<forall>b' \<in> set (t_buffers ?t). lb_ok b' \<and> lb_space b' = bankSize t \<and>
      delim_of b' = dbytes (t_delim t)"
    using inv lacksD(4-6) [OF assms(1)]
      set_update_subset_insert [of "t_buffers t" b "lb_clear (t_buffers t ! b)"]
    by (auto simp: target_inv_def set_bank_def)
  moreover have "\<forall>k \<in> set (circ_list av). lb_isEmpty (t_buffers ?t ! k)"
  proof
    fix k assume "k \<in> set (circ_list av)"
    then show "lb_isEmpty (t_buffers ?t ! k)"
      using inv lacksD(1) [OF assms(1)] av(2)
      by (cases "k = b") (auto simp: target_inv_def set_bank_def lb_isEmpty_def)
  qed
  moreover have "mset (owned e' ?t) = mset (owned e (t\<lparr>t_lent := b # t_lent t\<rparr>))"
    using av(2) assms(3) by (simp add: owned_def set_bank_def)
  ultimately show ?thesis using inv av assms(3) by (simp add: target_inv_def set_bank_def)
qed

lemma unref_Some:
  assumes "0 < needGreaseThread e"
  shows "\<exists>e1. unrefGreaseInGrease e = Some e1 \<and> needGreaseThread e1 = needGreaseThread e - 1 \<and>
    callerLogCallbacks e1 = callerLogCallbacks e \<and> internalCmdQueue e1 = internalCmdQueue e \<and>
    logs e1 = logs e \<and> timer_on e1 = (timer_on e \<and> 1 < needGreaseThread e)"
  using assms by (auto simp: unrefGreaseInGrease_def Let_def)

lemma lacks_env: "callerLogCallbacks e' = callerLogCallbacks e \<Longrightarrow> lacks b e' t = lacks b e t"
  by (simp add: lacks_def target_inv_def owned_def)

text \<open>Handing a buffer back neither fails, nor blocks, nor loses the buffer.\<close>

lemma returnBuffer_inv:
  assumes "lacks b e t" "lb_isEmpty (t_buffers t ! b) \<or> 0 < needGreaseThread e"
  shows "\<exists>e' t'. returnBuffer e t b sync nocallback = Some (e', t') \<and> target_inv e' t' \<and>
    needGreaseThread e' =
      (if lb_isEmpty (t_buffers t ! b) then needGreaseThread e else needGreaseThread e - 1) \<and>
    held t' = held t \<and> (\<forall>k. k \<noteq> b \<longrightarrow> t_buffers t' ! k = t_buffers t ! k) \<and>
    t_out t' = t_out t \<and> currentBuffer t' = currentBuffer t \<and>
    writeOutBuffers t' = writeOutBuffers t \<and> numBanks t' = numBanks t \<and> t_kind t' = t_kind t"
proof -
  obtain e1 where e1: "(if \<not> lb_isEmpty (t_buffers t ! b) then unrefGreaseInGrease e else Some e) = Some e1"
      "callerLogCallbacks e1 = callerLogCallbacks e"
      "needGreaseThread e1 = (if lb_isEmpty (t_buffers t ! b) then needGreaseThread e
                              else needGreaseThread e - 1)"
    using assms(2) unref_Some [of e] by (cases "lb_isEmpty (t_buffers t ! b)") auto
  have l1: "lacks b e1 t" using assms(1) lacks_env [OF e1(2)] by simp
  obtain av where av: "circ_add (availBuffers t) b = Some av" using lacks_avail_room [OF l1] by auto
  let ?ta = "(set_bank t b (lb_clear (t_buffers t ! b)))\<lparr>availBuffers := av\<rparr>"
  have toav: "target_inv e1 ?ta" by (rule to_avail_inv [OF l1 av refl])
  let ?cb = "\<lparr>cb_overflow = None, cb_t = myId t, cb_b = Some b, cb_nocallback = False\<rparr>"
  obtain ok q where q: "circ_addIfRoom (callerLogCallbacks e1) ?cb = (ok, q)" by force
  have lent: "target_inv e1 (t\<lparr>t_lent := t_lent t @ [b]\<rparr>)"
  proof -
    have "mset (owned e1 (t\<lparr>t_lent := t_lent t @ [b]\<rparr>)) = mset (owned e1 (t\<lparr>t_lent := b # t_lent t\<rparr>))"
      by (simp add: owned_def)
    then show ?thesis using l1 by (simp add: lacks_def target_inv_def)
  qed
  have queued: "target_inv (e1\<lparr>callerLogCallbacks := q\<rparr>) t" if ok
  proof -
    have ci: "circ_inv (callerLogCallbacks e1)" using l1 by (simp add: lacks_def target_inv_def)
    have "circ_inv q" "circ_list q = circ_list (callerLogCallbacks e1) @ [?cb]"
      using q that circ_add_abs [OF ci, of ?cb] by (auto simp: circ_addIfRoom_add split: option.splits)
    then have "mset (owned (e1\<lparr>callerLogCallbacks := q\<rparr>) t) = mset (owned e1 (t\<lparr>t_lent := b # t_lent t\<rparr>))"
      "circ_inv q" by (simp_all add: owned_def)
    then show ?thesis using l1 by (simp add: lacks_def target_inv_def)
  qed
  show ?thesis
    using e1 av q toav lent queued
    by (auto simp: returnBuffer_def Let_def held_def set_bank_def)
qed

lemma lacks_taken:
  assumes "target_inv e t" "mset (owned e (t0\<lparr>t_lent := b # t_lent t0\<rparr>)) = mset (owned e t)"
    "availBuffers t0 = availBuffers t" "circ_inv (writeOutBuffers t0)"
    "csize (writeOutBuffers t0) = csize (writeOutBuffers t)" "numBanks t0 = numBanks t"
    "t_buffers t0 = t_buffers t" "bankSize t0 = bankSize t" "t_delim t0 = t_delim t"
  shows "lacks b e t0"
  using assms by (simp add: lacks_def target_inv_def)

lemma busy_mset: "busy t = size (filter_mset (\<lambda>b. \<not> lb_isEmpty (t_buffers t ! b)) (mset (held t)))"
  by (simp add: busy_def flip: mset_filter)

lemma busy_remove:
  assumes "mset (held t) = add_mset b (mset (held t0))" "t_buffers t0 = t_buffers t"
  shows "busy t = busy t0 + (if lb_isEmpty (t_buffers t ! b) then 0 else 1)"
  using assms by (simp add: busy_mset)

lemma busy_same:
  assumes "mset (held t) = mset (held t0)" "t_buffers t0 = t_buffers t"
  shows "busy t = busy t0"
  using assms by (simp add: busy_mset)

lemma busy_cong:
  assumes "held t' = held t" "\<forall>b \<in> set (held t). t_buffers t' ! b = t_buffers t ! b"
  shows "busy t' = busy t"
proof -
  have "filter (\<lambda>b. \<not> lb_isEmpty (t_buffers t' ! b)) (held t) =
    filter (\<lambda>b. \<not> lb_isEmpty (t_buffers t ! b)) (held t)"
    using assms(2) by (intro filter_cong) auto
  then show ?thesis using assms(1) by (simp add: busy_def)
qed

lemma held_owned: "set (held t) \<subseteq> set (owned e t)"
  by (auto simp: held_def owned_def)

text \<open>Taking a held buffer out and handing it back keeps both invariants.\<close>

lemma return_held:
  assumes "target_inv e t" "ref_inv k e t" "lacks b e t0"
    "mset (held t) = add_mset b (mset (held t0))" "t_buffers t0 = t_buffers t"
  shows "\<exists>e' t'. returnBuffer e t0 b sync nocallback = Some (e', t') \<and>
    target_inv e' t' \<and> ref_inv k e' t' \<and> held t' = held t0 \<and>
    (\<forall>n. n \<noteq> b \<longrightarrow> t_buffers t' ! n = t_buffers t0 ! n) \<and> t_out t' = t_out t0 \<and>
    currentBuffer t' = currentBuffer t0 \<and> writeOutBuffers t' = writeOutBuffers t0 \<and>
    numBanks t' = numBanks t0 \<and> t_kind t' = t_kind t0"
proof -
  note bz = busy_remove [OF assms(4,5)]
  have "lb_isEmpty (t_buffers t0 ! b) \<or> 0 < needGreaseThread e"
    using bz assms(2,5) by (auto simp: ref_inv_def split: if_splits)
  from returnBuffer_inv [OF assms(3) this, of sync nocallback]
  obtain e' t' where r: "returnBuffer e t0 b sync nocallback = Some (e', t')" "target_inv e' t'"
      "needGreaseThread e' = (if lb_isEmpty (t_buffers t0 ! b) then needGreaseThread e
         else needGreaseThread e - 1)"
      "held t' = held t0" "\<forall>k. k \<noteq> b \<longrightarrow> t_buffers t' ! k = t_buffers t0 ! k"
      "t_out t' = t_out t0" "currentBuffer t' = currentBuffer t0"
      "writeOutBuffers t' = writeOutBuffers t0" "numBanks t' = numBanks t0" "t_kind t' = t_kind t0"
    by blast
  have "b \<notin> set (held t0)" using lacksD(2) [OF assms(3)] held_owned by fastforce
  then have "busy t' = busy t0" using busy_cong [OF r(4)] r(5) by metis
  then have "ref_inv k e' t'" using bz assms(2,5) r(3) by (auto simp: ref_inv_def)
  then show ?thesis using r by blast
qed

lemma write_cb_inv:
  assumes "target_inv e t" "ref_inv k e t" "b \<in> set (t_inflight t)"
  shows "\<exists>e' t'. write_cb e t b nocallback = Some (e', t') \<and> target_inv e' t' \<and> ref_inv k e' t' \<and>
    t_inflight t' = remove1 b (t_inflight t) \<and> t_out t' = t_out t"
proof -
  let ?u = "t\<lparr>t_inflight := remove1 b (t_inflight t)\<rparr>"
  obtain M where M: "mset (t_inflight t) = add_mset b M"
    using assms(3) by (metis multi_member_split in_multiset_in_set)
  have o: "mset (owned e (?u\<lparr>t_lent := b # t_lent ?u\<rparr>)) = mset (owned e t)"
    by (simp add: owned_def M)
  have "circ_inv (writeOutBuffers t)" using assms(1) by (simp add: target_inv_def)
  then have l: "lacks b e ?u" by (intro lacks_taken [OF assms(1) o]) simp_all
  have h: "mset (held t) = add_mset b (mset (held ?u))" by (simp add: held_def M)
  from return_held [OF assms(1,2) l h, of False nocallback]
  obtain e' t' where r: "returnBuffer e ?u b False nocallback = Some (e', t')" "target_inv e' t'"
      "ref_inv k e' t'" "held t' = held ?u" "t_out t' = t_out t"
      "writeOutBuffers t' = writeOutBuffers t" by auto
  have "t_inflight t' = remove1 b (t_inflight t)" using r(4,6) by (simp add: held_def)
  then show ?thesis using r assms(3) by (simp add: write_cb_def)
qed

definition pending :: "logTarget \<Rightarrow> bytes" where
  "pending t = concat (map (\<lambda>b. content (t_buffers t ! b)) (circ_list (writeOutBuffers t)))"

lemma flush_device:
  assumes "t_kind t \<noteq> CallbackTarget"
  shows "flush e t b nocallbacks = Some (e, t\<lparr>t_out := t_out t @ content (t_buffers t ! b),
     t_inflight := t_inflight t @ [b]\<rparr>)"
  unfolding flush_def using assms by (simp split: target_kind.split)

lemma flush_step:
  assumes "target_inv e t" "ref_inv k e t" "circ_remove (writeOutBuffers t) = Some (b, wo)"
  shows "\<exists>e' t'. flush e (t\<lparr>writeOutBuffers := wo\<rparr>) b nocallbacks = Some (e', t') \<and>
    target_inv e' t' \<and> ref_inv k e' t' \<and> writeOutBuffers t' = wo \<and> t_kind t' = t_kind t \<and>
    currentBuffer t' = currentBuffer t \<and> numBanks t' = numBanks t \<and> cur t' = cur t \<and>
    (t_kind t \<noteq> CallbackTarget \<longrightarrow> t_out t' @ pending t' = t_out t @ pending t)"
proof -
  let ?u = "t\<lparr>writeOutBuffers := wo\<rparr>"
  have inv: "circ_inv (writeOutBuffers t)" using assms(1) by (simp add: target_inv_def)
  note wo = circ_remove_abs [OF inv assms(3)]
  have l: "lacks b e ?u"
    using wo by (intro lacks_taken [OF assms(1)]) (auto simp: owned_def)
  have h: "mset (held t) = add_mset b (mset (held ?u))" using wo(2) by (simp add: held_def)
  show ?thesis
  proof (cases "t_kind t = CallbackTarget")
    case True
    from return_held [OF assms(1,2) l h, of False nocallbacks]
    obtain e' t' where r: "returnBuffer e ?u b False nocallbacks = Some (e', t')" "target_inv e' t'"
        "ref_inv k e' t'" "\<forall>n. n \<noteq> b \<longrightarrow> t_buffers t' ! n = t_buffers t ! n"
        "currentBuffer t' = currentBuffer t" "writeOutBuffers t' = wo" "numBanks t' = numBanks t"
        "t_kind t' = t_kind t" by auto
    have "currentBuffer t \<noteq> b" using owned_facts(1) [OF assms(1)] wo(2) by (auto simp: owned_def)
    then have "cur t' = cur t" using r(4,5) by (simp add: cur_def)
    then show ?thesis using r True by (auto simp: flush_def)
  next
    case False
    let ?t = "?u\<lparr>t_out := t_out t @ content (t_buffers t ! b), t_inflight := t_inflight t @ [b]\<rparr>"
    have "flush e ?u b nocallbacks = Some (e, ?t)"
      using False by (rule flush_device [of ?u e b nocallbacks, simplified])
    moreover have "mset (owned e ?t) = mset (owned e t)" using wo(2) by (simp add: owned_def)
    then have "target_inv e ?t" using assms(1) wo by (simp add: target_inv_def)
    moreover have "mset (held ?t) = mset (held t)" using wo(2) by (simp add: held_def)
    then have "busy ?t = busy t" by (rule busy_same) simp
    then have "ref_inv k e ?t" using assms(2) by (simp add: ref_inv_def)
    ultimately show ?thesis using wo(2) by (simp add: pending_def cur_def)
  qed
qed

lemma flush_loop_inv:
  assumes "target_inv e t" "ref_inv k e t" "length (circ_list (writeOutBuffers t)) \<le> n"
  shows "\<exists>e' t'. flush_loop n e t nocallbacks = Some (e', t') \<and> target_inv e' t' \<and>
    ref_inv k e' t' \<and> circ_list (writeOutBuffers t') = [] \<and> currentBuffer t' = currentBuffer t \<and>
    cur t' = cur t \<and> (t_kind t \<noteq> CallbackTarget \<longrightarrow> t_out t' = t_out t @ pending t)"
  using assms
proof (induction n arbitrary: e t)
  case 0
  then show ?case by (simp add: pending_def)
next
  case (Suc n)
  have inv: "circ_inv (writeOutBuffers t)" using Suc.prems(1) by (simp add: target_inv_def)
  show ?case
  proof (cases "circ_remove (writeOutBuffers t)")
    case None
    then show ?thesis using Suc.prems circ_remove_None_iff [OF inv] by (simp add: pending_def)
  next
    case (Some p)
    obtain b wo where p: "p = (b, wo)" by force
    from flush_step [OF Suc.prems(1,2) Some [unfolded p], of nocallbacks]
    obtain e1 t1 where s: "flush e (t\<lparr>writeOutBuffers := wo\<rparr>) b nocallbacks = Some (e1, t1)"
        "target_inv e1 t1" "ref_inv k e1 t1" "writeOutBuffers t1 = wo" "t_kind t1 = t_kind t"
        "currentBuffer t1 = currentBuffer t" "cur t1 = cur t"
        "t_kind t \<noteq> CallbackTarget \<longrightarrow> t_out t1 @ pending t1 = t_out t @ pending t" by blast
    have "length (circ_list (writeOutBuffers t1)) \<le> n"
      using circ_remove_abs(2) [OF inv Some [unfolded p]] s(4) Suc.prems(3) by simp
    from Suc.IH [OF s(2,3) this] show ?thesis using s Some p by auto
  qed
qed

section \<open>Writing a message\<close>

text \<open>Everything the target was given and has not dropped, in order.\<close>

definition stream :: "logTarget \<Rightarrow> bytes" where
  "stream t = t_out t @ pending t @ content (cur t)"

definition line :: "logTarget \<Rightarrow> bytes \<Rightarrow> nat \<Rightarrow> bytes \<Rightarrow> nat \<Rightarrow> bytes \<Rightarrow> nat \<Rightarrow> bytes" where
  "line t hdr hn s len ftr fn =
     take hn hdr @ take len s @ take fn ftr @ dbytes (t_delim t)"

lemma copyIn_nodelim:
  assumes "lb_ok b" "n \<le> length s" "lb_len b + n \<le> lb_space b"
  shows "\<exists>b'. copyIn b s n False = Some b' \<and> lb_ok b' \<and> content b' = content b @ take n s \<and>
    lb_space b' = lb_space b \<and> lb_delim b' = lb_delim b \<and> lb_len b' = lb_len b + n"
  using copyIn_Some [of b n s False] assms by (cases "n = 0") auto

lemma put_message_ok:
  assumes inv: "target_inv e t" and plain: "t_flags t AND GREASE_JSON_ESCAPE_STRINGS = 0"
    and len: "0 < len" "len \<le> length s" "hn \<le> length hdr" "fn \<le> length ftr"
    and room: "lb_len (cur t) + hn + len + fn + length (dbytes (t_delim t)) \<le> bankSize t"
  shows "\<exists>b. put_message t hdr hn s len ftr fn = Some (set_bank t (currentBuffer t) b) \<and>
    content b = content (cur t) @ line t hdr hn s len ftr fn \<and> \<not> lb_isEmpty b \<and>
    target_inv e (set_bank t (currentBuffer t) b)"
proof -
  note c = current_bound [OF inv]
  obtain b1 where b1: "copyIn (cur t) hdr hn False = Some b1" "lb_ok b1"
      "content b1 = content (cur t) @ take hn hdr" "lb_space b1 = lb_space (cur t)"
      "lb_delim b1 = lb_delim (cur t)" "lb_len b1 = lb_len (cur t) + hn"
    using copyIn_nodelim [OF c(3) len(3)] room c(4) by auto
  have d1: "delim_of b1 = dbytes (t_delim t)" using b1(5) c(5) by simp
  let ?nf = "\<not> fn > 0"
  obtain b2 where b2: "copyIn b1 s len ?nf = Some b2" "lb_ok b2"
      "content b2 = content b1 @ take len s @ (if ?nf then dbytes (t_delim t) else [])"
      "lb_space b2 = lb_space b1" "lb_delim b2 = lb_delim b1"
      "lb_len b2 = lb_len b1 + len + (if ?nf then length (dbytes (t_delim t)) else 0)"
    using copyIn_Some [OF b1(2) len(2,1), of ?nf, unfolded d1] room b1(4,6) c(4)
    by (cases "fn = 0") auto
  obtain b3 where b3: "(if \<not> ?nf then copyIn b2 ftr fn True else Some b2) = Some b3" "lb_ok b3"
      "content b3 = content (cur t) @ line t hdr hn s len ftr fn"
      "lb_space b3 = bankSize t" "lb_delim b3 = lb_delim (cur t)" "0 < lb_len b3"
  proof (cases "fn > 0")
    case True
    then show ?thesis
      using that copyIn_Some [OF b2(2) len(4) True, of True] room b1 b2 c(4,5) len(1)
      by (auto simp: line_def)
  next
    case False
    then show ?thesis using that b1 b2 c(4) len(1) by (auto simp: line_def)
  qed
  have "put_message t hdr hn s len ftr fn = Some (set_bank t (currentBuffer t) b3)"
    using b1(1) b2(1) b3(1) plain by (simp add: put_message_def Let_def)
  moreover have "target_inv e (set_bank t (currentBuffer t) b3)"
    using set_bank_inv [OF inv b3(2,4)] b3(5) c(5) current_not_avail [OF inv] by simp
  ultimately show ?thesis using b3 by (auto simp: lb_isEmpty_def)
qed

lemma cur_set_bank:
  assumes "target_inv e t"
  shows "cur (set_bank t (currentBuffer t) b) = b"
  using assms current_bound(1) [OF assms] by (simp add: cur_def set_bank_def target_inv_def)

lemma pending_set_current:
  assumes "target_inv e t"
  shows "pending (set_bank t (currentBuffer t) b) = pending t"
proof -
  have "currentBuffer t \<notin> set (circ_list (writeOutBuffers t))"
    using owned_facts(1) [OF assms] by (simp add: owned_def)
  then have "map (\<lambda>n. content ((t_buffers t)[currentBuffer t := b] ! n)) (circ_list (writeOutBuffers t))
    = map (\<lambda>n. content (t_buffers t ! n)) (circ_list (writeOutBuffers t))"
    by (intro map_cong refl) (metis nth_list_update_neq)
  then show ?thesis by (simp add: pending_def set_bank_def del: map_eq_conv)
qed

lemma stream_set_current:
  assumes "target_inv e t"
  shows "stream (set_bank t (currentBuffer t) b) = t_out t @ pending t @ content b"
  using cur_set_bank [OF assms] pending_set_current [OF assms] by (simp add: stream_def set_bank_def)

lemma rotate_stream:
  assumes "target_inv e t" "0 < lb_len (cur t)" "circ_list (availBuffers t) \<noteq> []"
  shows "\<exists>t'. rotate_bank t = (True, t') \<and> target_inv e t' \<and> stream t' = stream t \<and>
    lb_len (cur t') = 0 \<and> busy t' = busy t \<and>
    (\<exists>aq wq nx. t' = t\<lparr>availBuffers := aq, writeOutBuffers := wq, currentBuffer := nx\<rparr>)"
proof -
  obtain nx av where l: "circ_list (availBuffers t) = nx # av"
    using assms(3) by (cases "circ_list (availBuffers t)") auto
  obtain t' aq wq where r: "rotate_bank t = (True, t')" "target_inv e t'"
      "circ_list (writeOutBuffers t') = circ_list (writeOutBuffers t) @ [currentBuffer t]"
      and t': "t' = t\<lparr>availBuffers := aq, writeOutBuffers := wq, currentBuffer := nx\<rparr>"
    using rotate_success [OF assms(1,2) l] by blast
  have e: "lb_isEmpty (t_buffers t ! nx)" using assms(1) l by (simp add: target_inv_def)
  then have c: "lb_len (cur t') = 0" "content (cur t') = []"
    by (simp_all add: t' cur_def lb_isEmpty_def content_def)
  have "pending t' = pending t @ content (cur t)"
    using r(3) by (simp add: t' pending_def cur_def)
  moreover have "busy t' = busy t" using r(3) e by (simp add: busy_def held_def t')
  ultimately show ?thesis using r(1,2) c t' by (auto simp: stream_def)
qed

lemma target_inv_env:
  "callerLogCallbacks e' = callerLogCallbacks e \<Longrightarrow> target_inv e' t = target_inv e t"
  by (simp add: target_inv_def owned_def)

lemma refGrease_sel [simp]:
  "callerLogCallbacks (refGreaseInGrease e) = callerLogCallbacks e"
  "needGreaseThread (refGreaseInGrease e) = needGreaseThread e + 1"
  by (simp_all add: refGreaseInGrease_def Let_def)

lemma busy_set_current:
  assumes "target_inv e t" "\<not> lb_isEmpty b"
  shows "busy (set_bank t (currentBuffer t) b) = busy t + (if lb_isEmpty (cur t) then 1 else 0)"
proof -
  let ?r = "circ_list (writeOutBuffers t) @ t_inflight t"
  have nin: "currentBuffer t \<notin> set ?r" using owned_facts(1) [OF assms(1)] by (auto simp: owned_def)
  have "filter (\<lambda>n. \<not> lb_isEmpty ((t_buffers t)[currentBuffer t := b] ! n)) ?r =
      filter (\<lambda>n. \<not> lb_isEmpty (t_buffers t ! n)) ?r"
    using nin by (intro filter_cong refl) (metis nth_list_update_neq)
  moreover have "currentBuffer t < length (t_buffers t)"
    using current_bound(1) [OF assms(1)] assms(1) by (simp add: target_inv_def)
  ultimately show ?thesis
    using assms(2) by (simp add: busy_def held_def set_bank_def cur_def)
qed

lemma busy_set_current_le:
  assumes "target_inv e t"
  shows "busy (set_bank t (currentBuffer t) b) \<le>
    (if lb_isEmpty b then busy t else busy t + (if lb_isEmpty (cur t) then 1 else 0))"
proof (cases "lb_isEmpty b")
  case True
  have "filter (\<lambda>n. \<not> lb_isEmpty ((t_buffers t)[currentBuffer t := b] ! n)) (held t) =
     filter (\<lambda>n. \<not> lb_isEmpty (t_buffers t ! n) \<and> n \<noteq> currentBuffer t) (held t)"
    using True current_bound(1) [OF assms] assms
    by (intro filter_cong) (auto simp: nth_list_update target_inv_def)
  moreover have "length (filter (\<lambda>n. \<not> lb_isEmpty (t_buffers t ! n) \<and> n \<noteq> currentBuffer t) (held t))
     \<le> length (filter (\<lambda>n. \<not> lb_isEmpty (t_buffers t ! n)) (held t))"
    unfolding filter_filter [symmetric] by (rule length_filter_le)
  ultimately show ?thesis using True by (simp add: busy_def set_bank_def held_def)
qed (use busy_set_current [OF assms] in simp)

text \<open>The header and footer of a message fit in front of and behind it.\<close>

definition framed ::
  "renderer \<Rightarrow> int \<times> int \<Rightarrow> grease_env \<Rightarrow> logTarget \<Rightarrow> logMeta \<Rightarrow> Filter \<Rightarrow>
   bytes \<Rightarrow> nat \<Rightarrow> bytes \<Rightarrow> nat \<Rightarrow> bool" where
  "framed render tm e t m flt hdr hn ftr fn \<longleftrightarrow>
     putsHeader render tm e t (header_buffer e) GREASE_MAX_PREFIX_HEADER m flt = Some (hdr, hn) \<and>
     putsFooter render t (footer_buffer e) (size_t_sub GREASE_MAX_PREFIX_HEADER hn) flt
       = Some (ftr, fn) \<and>
     hn \<le> length hdr \<and> fn \<le> length ftr \<and>
     hn + fn + length (dbytes (t_delim t)) \<le> GREASE_MAX_PREFIX_HEADER"

lemma remain_short_nonempty:
  assumes "target_inv e t" "len + GREASE_MAX_PREFIX_HEADER \<le> bankSize t"
    "hn + fn + length (dbytes (t_delim t)) \<le> GREASE_MAX_PREFIX_HEADER"
    "\<not> lb_remain (cur t) \<ge> int (len + hn + fn)"
  shows "0 < lb_len (cur t)"
proof (rule ccontr)
  assume "\<not> 0 < lb_len (cur t)"
  then have "lb_remain (cur t) \<ge> int (bankSize t) - int (length (dbytes (t_delim t)))"
    using current_bound(3-5) [OF assms(1)]
    by (auto simp: lb_remain_def Let_def dbytes_def hb_empty_def lb_ok_def hb_ok_def
        split: option.splits)
  then show False using assms(2-4) by linarith
qed

lemma put_message_stream:
  assumes inv: "target_inv e t" and plain: "t_flags t AND GREASE_JSON_ESCAPE_STRINGS = 0"
    and len: "0 < len" "len \<le> length s" "hn \<le> length hdr" "fn \<le> length ftr"
    and room: "lb_len (cur t) + hn + len + fn + length (dbytes (t_delim t)) \<le> bankSize t"
  shows "\<exists>t'. put_message t hdr hn s len ftr fn = Some t' \<and> target_inv e t' \<and>
    stream t' = stream t @ line t hdr hn s len ftr fn \<and>
    busy t' = busy t + (if lb_isEmpty (cur t) then 1 else 0)"
proof -
  obtain b where b: "put_message t hdr hn s len ftr fn = Some (set_bank t (currentBuffer t) b)"
      "content b = content (cur t) @ line t hdr hn s len ftr fn" "\<not> lb_isEmpty b"
      "target_inv e (set_bank t (currentBuffer t) b)"
    using put_message_ok [OF assms] by auto
  then show ?thesis
    using stream_set_current [OF inv, of b] busy_set_current [OF inv b(3)] by (simp add: stream_def)
qed

lemma write_room:
  assumes "target_inv e t" "ref_inv k e t" "\<not> t_disabled t"
    "t_flags t AND GREASE_JSON_ESCAPE_STRINGS = 0" "0 < len" "len \<le> length s"
    "len + GREASE_MAX_PREFIX_HEADER \<le> bankSize t" "framed render tm e t m flt hdr hn ftr fn"
    "lb_remain (cur t) \<ge> int (len + hn + fn)"
  shows "\<exists>e' t'. target_write render tm e t s len m flt = Some (e', t') \<and> target_inv e' t' \<and>
    ref_inv k e' t' \<and> stream t' = stream t @ line t hdr hn s len ftr fn"
proof -
  let ?e1 = "e\<lparr>header_buffer := hdr, footer_buffer := ftr\<rparr>"
  let ?e2 = "if lb_isEmpty (cur t) then refGreaseInGrease ?e1 else ?e1"
  have room: "lb_len (cur t) + hn + len + fn + length (dbytes (t_delim t)) \<le> bankSize t"
    using lb_remain_room [OF current_bound(3) [OF assms(1)] assms(9)] assms(5)
      current_bound(4,5) [OF assms(1)] by simp
  have l: "hn \<le> length hdr" "fn \<le> length ftr" using assms(8) by (auto simp: framed_def)
  obtain t' where t': "put_message t hdr hn s len ftr fn = Some t'" "target_inv e t'"
      "stream t' = stream t @ line t hdr hn s len ftr fn"
      "busy t' = busy t + (if lb_isEmpty (cur t) then 1 else 0)"
    using put_message_stream [OF assms(1,4-6) l room] by blast
  have "target_write render tm e t s len m flt = Some (?e2, t')"
    using assms(3,7,8,9) t'(1) by (simp add: target_write_def write_framed_def framed_def Let_def)
  moreover have "target_inv ?e2 t'" using t'(2) target_inv_env [of ?e2 e t'] by simp
  moreover have "ref_inv k ?e2 t'" using assms(2) t'(4) by (simp add: ref_inv_def)
  ultimately show ?thesis using t'(3) by blast
qed

lemma write_rotate:
  assumes "target_inv e t" "ref_inv k e t" "\<not> t_disabled t"
    "t_flags t AND GREASE_JSON_ESCAPE_STRINGS = 0" "0 < len" "len \<le> length s"
    "len + GREASE_MAX_PREFIX_HEADER \<le> bankSize t" "framed render tm e t m flt hdr hn ftr fn"
    "\<not> lb_remain (cur t) \<ge> int (len + hn + fn)" "circ_list (availBuffers t) \<noteq> []"
    "circ_inv (internalCmdQueue e)"
    "length (circ_list (internalCmdQueue e)) < nat (csize (internalCmdQueue e))"
  shows "\<exists>e' t'. target_write render tm e t s len m flt = Some (e', t') \<and> target_inv e' t' \<and>
    ref_inv k e' t' \<and> stream t' = stream t @ line t hdr hn s len ftr fn \<and>
    circ_list (internalCmdQueue e') =
      circ_list (internalCmdQueue e) @ [cmdReq TARGET_ROTATE_BUFFER (myId t)]"
proof -
  let ?e1 = "e\<lparr>header_buffer := hdr, footer_buffer := ftr\<rparr>"
  have fr: "hn \<le> length hdr" "fn \<le> length ftr"
      "hn + fn + length (dbytes (t_delim t)) \<le> GREASE_MAX_PREFIX_HEADER"
    using assms(8) by (auto simp: framed_def)
  have ne: "0 < lb_len (cur t)" by (rule remain_short_nonempty [OF assms(1,7) fr(3) assms(9)])
  obtain t1 aq wq nx where r: "rotate_bank t = (True, t1)" "target_inv e t1" "stream t1 = stream t"
      "lb_len (cur t1) = 0" "busy t1 = busy t"
      "t1 = t\<lparr>availBuffers := aq, writeOutBuffers := wq, currentBuffer := nx\<rparr>"
    using rotate_stream [OF assms(1) ne assms(10)] by blast
  obtain q where q: "circ_addIfRoom (internalCmdQueue e) (cmdReq TARGET_ROTATE_BUFFER (myId t)) = (True, q)"
      "circ_list q = circ_list (internalCmdQueue e) @ [cmdReq TARGET_ROTATE_BUFFER (myId t)]"
    using circ_addIfRoom_ok [OF assms(11,12)] by blast
  have t1: "t_flags t1 = t_flags t" "t_delim t1 = t_delim t" "bankSize t1 = bankSize t"
    by (simp_all add: r(6))
  have "lb_len (cur t1) + hn + len + fn + length (dbytes (t_delim t1)) \<le> bankSize t1"
    using r(4) t1 fr(3) assms(7) by simp
  then obtain t' where t': "put_message t1 hdr hn s len ftr fn = Some t'" "target_inv e t'"
      "stream t' = stream t1 @ line t1 hdr hn s len ftr fn" "busy t' = busy t1 + 1"
    using put_message_stream [OF r(2) _ assms(5,6) fr(1,2)] assms(4) t1 r(4)
    by (auto simp: lb_isEmpty_def)
  let ?e2 = "refGreaseInGrease (?e1\<lparr>internalCmdQueue := q\<rparr>)"
  have "target_write render tm e t s len m flt = Some (?e2, t')"
    using assms(3,7,8,9) t'(1) r(1) q(1) by (simp add: target_write_def write_framed_def framed_def Let_def)
  moreover have "target_inv ?e2 t'" using t'(2) target_inv_env [of ?e2 e t'] by simp
  moreover have "ref_inv k ?e2 t'" using assms(2) t'(4) r(5) by (simp add: ref_inv_def)
  moreover have "internalCmdQueue ?e2 = q" by (simp add: refGreaseInGrease_def Let_def)
  ultimately show ?thesis using t'(3) r(3) t1 q(2) by (auto simp: line_def)
qed

section \<open>The life of a target as a step relation\<close>

lemma put_message_inv:
  assumes "target_inv e t" "put_message t hdr hn s len ftr fn = Some t'"
  shows "target_inv e t'" "busy t' \<le> busy t + (if lb_isEmpty (cur t) then 1 else 0)"
proof -
  note c = current_bound [OF assms(1)]
  obtain b1 b2 b3 where b: "copyIn (cur t) hdr hn False = Some b1"
      "(if t_flags t AND GREASE_JSON_ESCAPE_STRINGS \<noteq> 0 then copyInJsonEscape b1 s len (\<not> fn > 0)
        else copyIn b1 s len (\<not> fn > 0)) = Some b2"
      "(if \<not> (\<not> fn > 0) then copyIn b2 ftr fn True else Some b2) = Some b3"
      "Some (set_bank t (currentBuffer t) b3) = Some t'"
    using assms(2) unfolding put_message_def Let_def bind_eq_Some_conv by blast
  then have t': "t' = set_bank t (currentBuffer t) b3" by simp
  have 1: "lb_ok b1 \<and> lb_space b1 = bankSize t \<and> lb_delim b1 = lb_delim (cur t)"
    using copyIn_ok [OF c(3) b(1)] c(4) by simp
  have 2: "lb_ok b2 \<and> lb_space b2 = bankSize t \<and> lb_delim b2 = lb_delim (cur t)"
    using copyIn_ok [of b1] copyInJsonEscape_ok [of b1] b(2) 1 by (metis (no_types))
  have 3: "lb_ok b3 \<and> lb_space b3 = bankSize t \<and> lb_delim b3 = lb_delim (cur t)"
    using copyIn_ok [of b2] b(3) 2 by (metis (no_types) option.inject)
  show "target_inv e t'"
    unfolding t' using 3 c(5) current_not_avail [OF assms(1)] by (intro set_bank_inv [OF assms(1)]) auto
  show "busy t' \<le> busy t + (if lb_isEmpty (cur t) then 1 else 0)"
    unfolding t' using busy_set_current_le [OF assms(1), of b3] by (auto split: if_splits)
qed

lemma rotate_ref:
  assumes "target_inv e t"
  shows "busy (snd (rotate_bank t)) \<le> busy t"
    "fst (rotate_bank t) \<Longrightarrow> lb_isEmpty (cur (snd (rotate_bank t)))"
proof -
  consider "lb_len (cur t) = 0" | "0 < lb_len (cur t)" "circ_list (availBuffers t) = []"
    | "0 < lb_len (cur t)" "circ_list (availBuffers t) \<noteq> []" by blast
  then have "busy (snd (rotate_bank t)) \<le> busy t \<and>
      (fst (rotate_bank t) \<longrightarrow> lb_isEmpty (cur (snd (rotate_bank t))))"
  proof cases
    case 1
    then show ?thesis by (simp add: rotate_bank_def)
  next
    case 2
    then show ?thesis
      using rotate_no_buffer(1) [OF assms 2] busy_set_current_le [OF assms, of "lb_clear (cur t)"]
      by (simp add: lb_isEmpty_def)
  next
    case 3
    then show ?thesis using rotate_stream [OF assms 3] by (auto simp: lb_isEmpty_def)
  qed
  then show "busy (snd (rotate_bank t)) \<le> busy t"
    "fst (rotate_bank t) \<Longrightarrow> lb_isEmpty (cur (snd (rotate_bank t)))" by blast+
qed

text \<open>What \<open>write\<close> can do to the target and to the reference count.\<close>

lemma write_cases:
  assumes "target_write render tm e t s len m flt = Some (e', t')"
  obtains (off) "t' = t" "callerLogCallbacks e' = callerLogCallbacks e"
        "needGreaseThread e' = needGreaseThread e"
    | (put) hdr hn ftr fn where "put_message t hdr hn s len ftr fn = Some t'"
        "callerLogCallbacks e' = callerLogCallbacks e"
        "needGreaseThread e' = needGreaseThread e + (if lb_isEmpty (cur t) then 1 else 0)"
    | (rot) t1 hdr hn ftr fn where "rotate_bank t = (True, t1)"
        "put_message t1 hdr hn s len ftr fn = Some t'"
        "callerLogCallbacks e' = callerLogCallbacks e"
        "needGreaseThread e' = needGreaseThread e + 1"
    | (drop) "t' = snd (rotate_bank t)" "callerLogCallbacks e' = callerLogCallbacks e"
        "needGreaseThread e' = needGreaseThread e"
proof (cases "t_disabled t \<or> bankSize t < len + GREASE_MAX_PREFIX_HEADER")
  case True
  have "callerLogCallbacks e1 = callerLogCallbacks e \<and> needGreaseThread e1 = needGreaseThread e"
    if "write_huge e t s len m = Some e1" for e1
    using that by (auto simp: write_huge_def Let_def new_log_def delete_log_def case_prod_beta
        split: option.splits if_splits)
  then show ?thesis using True off assms by (auto simp: target_write_def split: if_splits)
next
  case False
  then obtain hdr hn ftr fn where
    f: "write_framed (e\<lparr>header_buffer := hdr, footer_buffer := ftr\<rparr>) t hdr hn s len ftr fn = Some (e', t')"
    using assms by (auto simp: target_write_def split: option.splits)
  obtain rd t1 where r: "rotate_bank t = (rd, t1)" by force
  obtain ok q where q: "circ_addIfRoom (internalCmdQueue e) (cmdReq TARGET_ROTATE_BUFFER (myId t)) = (ok, q)"
    by force
  consider "lb_remain (cur t) \<ge> int (len + hn + fn)"
    | "\<not> lb_remain (cur t) \<ge> int (len + hn + fn)" "rd \<and> ok"
    | "\<not> lb_remain (cur t) \<ge> int (len + hn + fn)" "\<not> (rd \<and> ok)" by blast
  then show ?thesis
  proof cases
    case 1
    then show ?thesis using f put [of hdr hn ftr fn] by (auto simp: write_framed_def Let_def)
  next
    case 2
    then show ?thesis using f r q rot [of t1 hdr hn ftr fn] by (auto simp: write_framed_def)
  next
    case 3
    then show ?thesis using f r q drop by (auto simp: write_framed_def split: if_splits)
  qed
qed

lemma write_inv:
  assumes "target_inv e t" "ref_inv k e t" "target_write render tm e t s len m flt = Some (e', t')"
  shows "target_inv e' t' \<and> ref_inv k e' t'"
  using assms(3)
proof (cases rule: write_cases)
  case off
  then show ?thesis using assms(1,2) target_inv_env [OF off(2)] by (simp add: ref_inv_def)
next
  case put
  then show ?thesis
    using put_message_inv [OF assms(1) put(1)] target_inv_env [OF put(2)] assms(2)
    by (auto simp: ref_inv_def)
next
  case (rot t1 hdr hn ftr fn)
  have r: "target_inv e t1" "busy t1 \<le> busy t" "lb_isEmpty (cur t1)"
    using rotate_inv [OF assms(1)] rotate_ref [OF assms(1)] rot(1) by auto
  show ?thesis
    using put_message_inv [OF r(1) rot(2)] target_inv_env [OF rot(3)] assms(2) r rot(4)
    by (auto simp: ref_inv_def)
next
  case drop
  then show ?thesis
    using rotate_inv [OF assms(1)] rotate_ref(1) [OF assms(1)] target_inv_env [OF drop(2)] assms(2)
    by (auto simp: ref_inv_def)
qed

lemma flushAll_inv:
  assumes "target_inv e t" "ref_inv k e t"
  shows "\<exists>e' t'. flushAll e t rot nocallbacks = Some (e', t') \<and> target_inv e' t' \<and>
    ref_inv k e' t' \<and> circ_list (writeOutBuffers t') = []"
proof -
  define t1 where "t1 = (if rot then snd (rotate_bank t) else t)"
  have i: "target_inv e t1" "ref_inv k e t1"
    using assms rotate_inv [OF assms(1)] rotate_ref(1) [OF assms(1)] by (auto simp: t1_def ref_inv_def)
  have "length (circ_list (writeOutBuffers t1)) \<le> numBanks t1"
    using owned_facts(3) [OF i(1)] by (simp add: owned_def)
  from flush_loop_inv [OF i this, of nocallbacks] show ?thesis
    by (auto simp: flushAll_def t1_def)
qed

lemma flushSync_step:
  assumes "target_inv e t" "ref_inv k e t" "circ_remove (writeOutBuffers t) = Some (b, wo)"
    "flushSync e (t\<lparr>writeOutBuffers := wo\<rparr>) b nocallbacks = Some (e', t')"
  shows "target_inv e' t' \<and> ref_inv k e' t'"
proof -
  have inv: "circ_inv (writeOutBuffers t)" using assms(1) by (simp add: target_inv_def)
  note wo = circ_remove_abs [OF inv assms(3)]
  obtain x where r: "returnBuffer e (t\<lparr>writeOutBuffers := wo, t_out := x\<rparr>) b True nocallbacks = Some (e', t')"
  proof (cases "t_kind t")
    case FileTarget
    then show ?thesis using assms(4) that by (simp add: flushSync_def)
  next
    case CallbackTarget
    have "t\<lparr>writeOutBuffers := wo\<rparr> = t\<lparr>writeOutBuffers := wo, t_out := t_out t\<rparr>" by simp
    then show ?thesis using assms(4) that [of "t_out t"] CallbackTarget by (simp add: flushSync_def)
  qed (use assms(4) in \<open>simp add: flushSync_def\<close>)
  let ?u = "t\<lparr>writeOutBuffers := wo, t_out := x\<rparr>"
  have l: "lacks b e ?u" using wo by (intro lacks_taken [OF assms(1)]) (auto simp: owned_def)
  have h: "mset (held t) = add_mset b (mset (held ?u))" using wo(2) by (simp add: held_def)
  from return_held [OF assms(1,2) l h, of True nocallbacks] r show ?thesis by auto
qed

lemma flushSync_loop_inv:
  "flushSync_loop n e t nocallbacks = Some (e', t') \<Longrightarrow> target_inv e t \<Longrightarrow> ref_inv k e t \<Longrightarrow>
   target_inv e' t' \<and> ref_inv k e' t'"
proof (induction n arbitrary: e t)
  case (Suc n)
  show ?case
  proof (cases "circ_remove (writeOutBuffers t)")
    case (Some p)
    obtain b wo where p: "p = (b, wo)" by force
    obtain e1 t1 where s: "flushSync e (t\<lparr>writeOutBuffers := wo\<rparr>) b nocallbacks = Some (e1, t1)"
        "flushSync_loop n e1 t1 nocallbacks = Some (e', t')"
      using Suc.prems(1) Some p by (auto simp: bind_eq_Some_conv)
    from flushSync_step [OF Suc.prems(2,3) Some [unfolded p] s(1)] Suc.IH [OF s(2)] show ?thesis by blast
  qed (use Suc.prems in simp)
qed simp

lemma flushAllSync_inv:
  assumes "target_inv e t" "ref_inv k e t" "target_flushAllSync e t rot nocallbacks = Some (e', t')"
  shows "target_inv e' t' \<and> ref_inv k e' t'"
proof -
  let ?t = "if rot then snd (rotate_bank t) else t"
  have "target_inv e ?t" "ref_inv k e ?t"
    using assms rotate_inv [OF assms(1)] rotate_ref(1) [OF assms(1)] by (auto simp: ref_inv_def)
  then show ?thesis using flushSync_loop_inv assms(3) by (simp add: target_flushAllSync_def Let_def)
qed

lemma finalize_inv:
  assumes "target_inv e t" "ref_inv k e t" "b \<in> set (t_lent t)"
  shows "target_inv e (finalizeV8Callback t b) \<and> ref_inv k e (finalizeV8Callback t b)"
proof -
  let ?u = "t\<lparr>t_lent := remove1 b (t_lent t)\<rparr>"
  obtain M where M: "mset (t_lent t) = add_mset b M"
    using assms(3) by (metis multi_member_split in_multiset_in_set)
  have o: "mset (owned e (?u\<lparr>t_lent := b # t_lent ?u\<rparr>)) = mset (owned e t)"
    by (simp add: owned_def M)
  have "circ_inv (writeOutBuffers t)" using assms(1) by (simp add: target_inv_def)
  then have l: "lacks b e ?u" by (intro lacks_taken [OF assms(1) o]) simp_all
  obtain av where av: "circ_add (availBuffers t) b = Some av"
    using lacks_avail_room [OF l] by auto
  have f: "finalizeV8Callback t b = (set_bank ?u b (lb_clear (t_buffers ?u ! b)))\<lparr>availBuffers := av\<rparr>"
    using av by (simp add: finalizeV8Callback_def set_bank_def circ_addIfRoom_add)
  have inv: "target_inv e (finalizeV8Callback t b)"
    unfolding f by (rule to_avail_inv [OF l _ refl]) (simp add: av)
  have "b \<notin> set (held t)" using lacksD(2) [OF l] by (auto simp: held_def owned_def)
  then have "\<forall>n \<in> set (held t). (t_buffers t)[b := lb_clear (t_buffers t ! b)] ! n = t_buffers t ! n"
    by (metis nth_list_update_neq)
  then have "busy (finalizeV8Callback t b) = busy t"
    unfolding f by (intro busy_cong) (simp_all add: held_def set_bank_def)
  then show ?thesis using inv assms(2) by (simp add: ref_inv_def)
qed

section \<open>Callbacks are queued only for a target that has one\<close>

text \<open>What an operation may do to the queue of callbacks: add to it if the target has a callback.\<close>

definition cb_kept :: "grease_env \<times> logTarget \<Rightarrow> grease_env \<times> logTarget \<Rightarrow> bool" where
  "cb_kept s s' \<longleftrightarrow> logCallbackSet (snd s') = logCallbackSet (snd s) \<and> myId (snd s') = myId (snd s) \<and>
     (callerLogCallbacks (fst s') = callerLogCallbacks (fst s) \<or> logCallbackSet (snd s))"

lemma cb_kept_trans: "cb_kept a b \<Longrightarrow> cb_kept b c \<Longrightarrow> cb_kept a c"
  by (auto simp: cb_kept_def)

lemma cb_kept_bind:
  "Option.bind x (\<lambda>(e, t). f e t) = Some r \<Longrightarrow> (\<And>e t. x = Some (e, t) \<Longrightarrow> cb_kept s (e, t)) \<Longrightarrow>
   (\<And>e t. f e t = Some r \<Longrightarrow> cb_kept (e, t) r) \<Longrightarrow> cb_kept s r"
  by (auto simp: bind_eq_Some_conv intro: cb_kept_trans)

lemma returnBuffer_cb: "returnBuffer e t b sync nocb = Some r \<Longrightarrow> cb_kept (e, t) r"
  by (auto simp: returnBuffer_def cb_kept_def Let_def set_bank_def unrefGreaseInGrease_def bind_eq_Some_conv
      case_prod_beta split: if_splits)

lemma rotate_cb: "logCallbackSet (snd (rotate_bank t)) = logCallbackSet t" "myId (snd (rotate_bank t)) = myId t"
  by (auto simp: rotate_bank_def set_bank_def case_prod_beta Let_def split: option.splits)

lemma put_message_cb:
  "put_message t hdr hn s len ftr fn = Some t' \<Longrightarrow> logCallbackSet t' = logCallbackSet t \<and> myId t' = myId t"
  by (auto simp: put_message_def Let_def set_bank_def bind_eq_Some_conv split: if_splits)

lemma write_cb_kept: "target_write render tm e t s len m flt = Some (e', t') \<Longrightarrow> cb_kept (e, t) (e', t')"
  using rotate_cb [of t] by (elim write_cases) (auto simp: cb_kept_def dest!: put_message_cb)

lemma flush_cb: "flush e t b nocb = Some r \<Longrightarrow> cb_kept (e, t) r"
  by (auto simp: flush_def cb_kept_def split: target_kind.splits dest: returnBuffer_cb)

lemma flushSync_cb: "flushSync e t b nocb = Some r \<Longrightarrow> cb_kept (e, t) r"
  by (auto simp: flushSync_def cb_kept_def split: target_kind.splits dest!: returnBuffer_cb)

lemma cb_kept_taken: "cb_kept (e, t\<lparr>writeOutBuffers := wo\<rparr>) s = cb_kept (e, t) s"
  by (simp add: cb_kept_def)

lemma flush_loop_cb: "flush_loop n e t nocb = Some r \<Longrightarrow> cb_kept (e, t) r"
proof (induction n arbitrary: e t)
  case (Suc n)
  then show ?case
    by (auto split: option.splits elim!: cb_kept_bind dest: flush_cb simp: cb_kept_taken) (simp add: cb_kept_def)
qed (simp add: cb_kept_def)

lemma flushSync_loop_cb: "flushSync_loop n e t nocb = Some r \<Longrightarrow> cb_kept (e, t) r"
proof (induction n arbitrary: e t)
  case (Suc n)
  then show ?case
    by (auto split: option.splits elim!: cb_kept_bind dest: flushSync_cb simp: cb_kept_taken) (simp add: cb_kept_def)
qed (simp add: cb_kept_def)

lemma flushAll_cb:
  "flushAll e t rot nocb = Some r \<Longrightarrow> cb_kept (e, t) r"
  "target_flushAllSync e t rot nocb = Some r \<Longrightarrow> cb_kept (e, t) r"
  by (auto simp: flushAll_def target_flushAllSync_def Let_def cb_kept_def rotate_cb
      dest!: flush_loop_cb flushSync_loop_cb split: if_splits)

section \<open>The life of a target\<close>

text \<open>What the program may set on a target: its flags, its callback and its formats.\<close>

inductive tsetup :: "logTarget \<Rightarrow> logTarget \<Rightarrow> bool" where
  su_flag: "tsetup t (setFlag fl t)"
| su_callback: "tsetup t (setCallback cb t)"
| su_time: "setTimeFormat s len t = Some t' \<Longrightarrow> tsetup t t'"
| su_tag: "setTagFormat s len t = Some t' \<Longrightarrow> tsetup t t'"
| su_origin: "setOriginFormat s len t = Some t' \<Longrightarrow> tsetup t t'"
| su_level: "setLevelFormat s len t = Some t' \<Longrightarrow> tsetup t t'"
| su_pre: "setPreFormat s len t = Some t' \<Longrightarrow> tsetup t t'"
| su_post: "setPostFormat s len t = Some t' \<Longrightarrow> tsetup t t'"
| su_pre_msg: "setPreMsgFormat s len t = Some t' \<Longrightarrow> tsetup t t'"

lemmas setter_defs = setFlag_def setCallback_def setTimeFormat_def setTagFormat_def setOriginFormat_def
  setLevelFormat_def setPreFormat_def setPostFormat_def setPreMsgFormat_def

lemma tsetup_keeps:
  assumes "tsetup t t'"
  shows "target_inv e t' = target_inv e t" "busy t' = busy t" "owned e t' = owned e t" "t_overflow t' = t_overflow t"
    "myId t' = myId t" "logCallbackSet t \<longrightarrow> logCallbackSet t'"
  using assms by (induction rule: tsetup.induct)
    (auto simp: setter_defs target_inv_def owned_def busy_def held_def)

text \<open>
  One step of the world around a target: the program sets it up, its callback included, a message is
  written, the buffers are flushed (a request, the timer or the user), flushed synchronously (the
  shutdown), the device completes a write, the logger takes an entry off the queue of callbacks and,
  if the target has a callback, hands its bank to the user, the user returns a bank that was handed
  out, writes are switched off or on, and the logger thread takes a command off its queue.
\<close>

inductive tstep :: "grease_env \<times> logTarget \<Rightarrow> grease_env \<times> logTarget \<Rightarrow> bool" where
  t_setup: "tsetup t t' \<Longrightarrow> tstep (e, t) (e, t')"
| t_write: "target_write render tm e t s len m flt = Some (e', t') \<Longrightarrow> tstep (e, t) (e', t')"
| t_flush: "flushAll e t rot nocb = Some (e', t') \<Longrightarrow> tstep (e, t) (e', t')"
| t_flushSync: "target_flushAllSync e t rot nocb = Some (e', t') \<Longrightarrow> tstep (e, t) (e', t')"
| t_done: "write_cb e t b nocb = Some (e', t') \<Longrightarrow> tstep (e, t) (e', t')"
| t_callback: "circ_remove (callerLogCallbacks e) = Some (d, q) \<Longrightarrow>
    tstep (e, t) (e\<lparr>callerLogCallbacks := q\<rparr>,
      (if cb_t d = myId t \<and> logCallbackSet t
       then t\<lparr>t_lent := t_lent t @ (case cb_b d of None \<Rightarrow> [] | Some b \<Rightarrow> [b])\<rparr> else t))"
| t_return: "b \<in> set (t_lent t) \<Longrightarrow> tstep (e, t) (e, finalizeV8Callback t b)"
| t_disable: "tstep (e, t) (e, disableWrites v t)"
| t_command: "circ_remove (internalCmdQueue e) = Some (r, q) \<Longrightarrow>
    tstep (e, t) (e\<lparr>internalCmdQueue := q\<rparr>, t)"

text \<open>The invariant of a target's life: its banks, the reference count, and callbacks only if there is one.\<close>

definition life_inv :: "nat \<Rightarrow> grease_env \<Rightarrow> logTarget \<Rightarrow> bool" where
  "life_inv k e t \<longleftrightarrow> target_inv e t \<and> ref_inv k e t \<and>
     (logCallbackSet t \<or> cb_banks (myId t) (circ_list (callerLogCallbacks e)) = [])"

lemma life_invI:
  "life_inv k e t \<Longrightarrow> target_inv e' t' \<and> ref_inv k e' t' \<Longrightarrow> cb_kept (e, t) (e', t') \<Longrightarrow> life_inv k e' t'"
  by (auto simp: life_inv_def cb_kept_def)

lemma callback_inv:
  assumes "life_inv k e t" "circ_remove (callerLogCallbacks e) = Some (d, q)"
  shows "life_inv k (e\<lparr>callerLogCallbacks := q\<rparr>)
    (if cb_t d = myId t \<and> logCallbackSet t
     then t\<lparr>t_lent := t_lent t @ (case cb_b d of None \<Rightarrow> [] | Some b \<Rightarrow> [b])\<rparr> else t)" (is "life_inv k ?e ?t")
proof -
  have i: "target_inv e t" "ref_inv k e t" using assms(1) by (simp_all add: life_inv_def)
  have ci: "circ_inv (callerLogCallbacks e)" using i(1) by (simp add: target_inv_def)
  note q = circ_remove_abs [OF ci assms(2)]
  have "mset (owned ?e ?t) = mset (owned e t)"
    using q(2) assms(1) by (auto simp: owned_def life_inv_def split: option.splits if_splits)
  moreover have "busy ?t = busy t" by (simp add: busy_def held_def)
  moreover have "logCallbackSet ?t \<or> cb_banks (myId ?t) (circ_list q) = []"
    using q(2) assms(1) by (auto simp: life_inv_def split: option.splits if_splits)
  ultimately show ?thesis using i q by (auto simp: life_inv_def target_inv_def ref_inv_def)
qed

lemma tstep_inv:
  assumes "tstep (e, t) (e', t')" "life_inv k e t"
  shows "life_inv k e' t'"
proof -
  have i: "target_inv e t" "ref_inv k e t" using assms(2) by (simp_all add: life_inv_def)
  show ?thesis
    using assms(1)
  proof cases
    case t_setup
    then show ?thesis using assms(2) tsetup_keeps [OF t_setup(2)] by (auto simp: life_inv_def ref_inv_def)
  next
    case t_write
    then show ?thesis using life_invI [OF assms(2) write_inv [OF i]] write_cb_kept by blast
  next
    case (t_flush rot nocb)
    then show ?thesis using life_invI [OF assms(2) _ flushAll_cb(1)] flushAll_inv [OF i, of rot nocb] by auto
  next
    case t_flushSync
    then show ?thesis using life_invI [OF assms(2) flushAllSync_inv [OF i] flushAll_cb(2)] by blast
  next
    case (t_done b nocb)
    then have "b \<in> set (t_inflight t)" "cb_kept (e, t) (e', t')"
      by (auto simp: write_cb_def cb_kept_def split: if_splits dest!: returnBuffer_cb)
    then show ?thesis using life_invI [OF assms(2)] write_cb_inv [OF i, of b nocb] t_done by auto
  next
    case (t_callback d q)
    then show ?thesis using callback_inv assms(2) by blast
  next
    case (t_return b)
    then show ?thesis using life_invI [OF assms(2)] finalize_inv [OF i, of b]
      by (auto simp: cb_kept_def finalizeV8Callback_def set_bank_def Let_def case_prod_beta)
  next
    case t_disable
    then show ?thesis using assms(2)
      by (simp add: life_inv_def disableWrites_def target_inv_def owned_def ref_inv_def busy_def held_def)
  next
    case t_command
    then show ?thesis using assms(2) target_inv_env [of e' e t] by (simp add: life_inv_def ref_inv_def)
  qed
qed

lemma tsteps_inv:
  assumes "tstep\<^sup>*\<^sup>* (e, t) (e', t')" "life_inv k e t"
  shows "life_inv k e' t'"
  using assms(1)
proof (induction "(e', t')" arbitrary: e' t' rule: rtranclp_induct)
  case base
  then show ?case using assms(2) by simp
next
  case (step y)
  obtain e1 t1 where y: "y = (e1, t1)" by force
  show ?case using tstep_inv [of e1 t1 e' t'] step y by blast
qed

text \<open>A new target, and the part of the logger it starts with.\<close>

definition env_new :: grease_env where
  "env_new =
     \<lparr>internalCmdQueue = circ_new (cmdReq INTERNALNOOP 0) 200 True,
      callerLogCallbacks =
        circ_new \<lparr>cb_overflow = None, cb_t = 0, cb_b = None, cb_nocallback = False\<rparr> 10 True,
      needGreaseThread = 0, timer_on = False, logs = Map.empty, next_log = 0,
      levelLabels = Map.empty, tagLabels = Map.empty, originLabels = Map.empty,
      header_buffer = LMALLOC GREASE_MAX_PREFIX_HEADER,
      footer_buffer = LMALLOC GREASE_MAX_PREFIX_HEADER\<rparr>"

lemma dbytes_duplicate: "dbytes (delim_duplicate d) = dbytes d"
  by (auto simp: dbytes_def delim_duplicate_def hb_duplicate_def heapBuf_empty_def split: option.splits)

lemma logTarget_new_ready:
  assumes "0 < n" "hb_ok (dd_delim d)" "circ_inv (callerLogCallbacks e)"
    "cb_banks i (circ_list (callerLogCallbacks e)) = []"
  shows "\<exists>t. logTarget_new kind sz i d n = Some t \<and> target_inv e t \<and> busy t = 0"
proof -
  have c: "circ_inv (circ_new (0 :: nat) (int n) False)" "circ_list (circ_new (0 :: nat) (int n) False) = []"
      "nat (csize (circ_new (0 :: nat) (int n) False)) = n" "csize (circ_new (0 :: nat) (int n) False) = int n"
    using circ_new_abs [of "int n" "0 :: nat" False] by (simp_all add: circ_new_def)
  obtain av where av: "put_all circ_add [1..<n] (circ_new 0 (int n) False) = Some av" "circ_inv av"
      "circ_list av = [1..<n]" "nat (csize av) = n"
    using circ_fifo.put_all_view [OF c(1), of "[1..<n]"] c(2,3) by auto
  have w: "circ_inv (circ_new (0 :: nat) (int n - 1) False)"
      "circ_list (circ_new (0 :: nat) (int n - 1) False) = []"
      "csize (circ_new (0 :: nat) (int n - 1) False) = int n - 1"
    using assms(1) circ_new_abs [of "int n - 1" "0 :: nat" False] by (simp_all add: circ_new_def)
  have cs: "csize av = int n" using av(2,4) assms(1) by (simp add: circ_inv_def)
  have d: "hb_ok (dd_delim (delim_duplicate d))" using assms(2) by (simp add: delim_duplicate_def)
  have o: "0 # [1..<n] = [0..<n]" using assms(1) by (simp add: upt_conv_Cons)
  have ok: "lb_ok (logBuf_new sz j (delim_duplicate d))" for j by (rule lb_ok_new(1) [OF d])
  obtain t where t: "logTarget_new kind sz i d n = Some t"
      "availBuffers t = av" "writeOutBuffers t = circ_new 0 (int n - 1) False" "numBanks t = n"
      "t_buffers t = map (\<lambda>j. logBuf_new sz j (delim_duplicate d)) [0..<n]" "currentBuffer t = 0"
      "t_inflight t = []" "t_lent t = []" "bankSize t = sz" "t_delim t = d" "myId t = i"
    using that by (simp add: logTarget_new_def av(1) [simplified])
  have "target_inv e t"
    using av w cs assms o ok t
    by (simp add: target_inv_def owned_def dbytes_duplicate logBuf_new_def lb_isEmpty_def)
  moreover have "busy t = 0"
    using t w(2) assms(1) by (simp add: busy_def held_def lb_isEmpty_def logBuf_new_def)
  ultimately show ?thesis using t(1) by blast
qed

lemma logTarget_new_inv:
  assumes "0 < n" "hb_ok (dd_delim d)" "circ_inv (callerLogCallbacks e)"
    "circ_list (callerLogCallbacks e) = []"
  shows "\<exists>t. logTarget_new kind sz i d n = Some t \<and> target_inv e t \<and> busy t = 0"
  using logTarget_new_ready [OF assms(1-3)] assms(4) by simp

section \<open>The header\<close>

text \<open>\<open>holds remain done_txt st\<close>: the block of \<open>remain\<close> bytes starts with \<open>done_txt\<close>, which is all that is used.\<close>

definition holds :: "nat \<Rightarrow> bytes \<Rightarrow> bytes \<times> nat \<Rightarrow> bool" where
  "holds remain done_txt st \<longleftrightarrow>
     length (fst st) = remain \<and> snd st = length done_txt \<and> take (length done_txt) (fst st) = done_txt"

definition parts_text :: "part list \<Rightarrow> bytes" where
  "parts_text ps = concat (map (\<lambda>(g, c, text). if c then text else []) ps)"

lemma snp_holds:
  assumes "holds remain done_txt st" "length done_txt + length text < remain"
  shows "\<exists>st'. snp remain (snd st) text st = Some st' \<and> holds remain (done_txt @ text) st'"
proof -
  obtain mem used where st: "st = (mem, used)" by force
  have h: "length mem = remain" "used = length done_txt" "take used mem = done_txt"
    using assms(1) by (auto simp: holds_def st)
  have "used + length (text @ [0]) \<le> length mem" using assms(2) h by simp
  then obtain mem' where m: "buf_write mem used (text @ [0]) = Some mem'" by (simp add: buf_write_def)
  have "take (used + length text) (take (used + length (text @ [0])) mem') =
      take (used + length text) (done_txt @ text @ [0])"
    using take_buf_write [OF m] h(3) by simp
  then have "take (used + length text) mem' = done_txt @ text" using h(2) by simp
  moreover have "snp remain used text st = Some (mem', used + length text)"
    using assms(2) h m by (simp add: snp_def st)
  ultimately show ?thesis
    using buf_write_length [OF m] h st by (auto simp: holds_def)
qed

lemma puts_parts_holds:
  assumes "holds remain done_txt st" "length done_txt + length (parts_text ps) < remain"
  shows "\<exists>st'. puts_parts remain ps st = Some st' \<and> holds remain (done_txt @ parts_text ps) st'"
  using assms
proof (induction ps arbitrary: done_txt st)
  case Nil
  then show ?case by (simp add: parts_text_def)
next
  case (Cons p ps)
  obtain g c tx where p: "p = (g, c, tx)" by (cases p) auto
  have ne: "snd st \<noteq> remain" using Cons.prems by (auto simp: holds_def)
  show ?case
  proof (cases c)
    case True
    then obtain st1 where "snp remain (snd st) tx st = Some st1" "holds remain (done_txt @ tx) st1"
      using snp_holds [OF Cons.prems(1), of tx] Cons.prems(2) p by (auto simp: parts_text_def)
    then show ?thesis
      using Cons.IH [of "done_txt @ tx" st1] Cons.prems(2) True p ne by (simp add: parts_text_def)
  next
    case False
    then show ?thesis using Cons.IH [OF Cons.prems(1)] Cons.prems(2) p by (simp add: parts_text_def)
  qed
qed

section \<open>Properties of targets\<close>

text \<open>A target for the witnesses: a terminal with four banks of 200 bytes and a newline delimiter.\<close>

definition ex_delim :: delim_data where
  "ex_delim = the (setDelim delim_empty [0x0A] 1)"

definition ex_target :: "target_kind \<Rightarrow> logTarget" where
  "ex_target kind = the (logTarget_new kind 200 1 ex_delim 4)"

definition ex_render :: renderer where
  "ex_render f as = f"

lemma env_new_cb: "circ_inv (callerLogCallbacks env_new)" "circ_list (callerLogCallbacks env_new) = []"
  by (simp_all add: env_new_def circ_new_abs)

lemma ex_delim_ok: "hb_ok (dd_delim ex_delim)" "dbytes ex_delim = [0x0A]"
  by code_simp+

lemma ex_target_inv:
  "logTarget_new kind 200 1 ex_delim 4 = Some (ex_target kind)" "target_inv env_new (ex_target kind)"
  "ref_inv 0 env_new (ex_target kind)"
  using logTarget_new_inv [of 4 ex_delim env_new kind 200 1, OF _ ex_delim_ok(1) env_new_cb]
  by (auto simp: ex_target_def ref_inv_def)

lemma life_inv_new:
  assumes "0 < n" "hb_ok (dd_delim d)" "logTarget_new kind sz i d n = Some t0"
  shows "life_inv 0 env_new t0"
  using logTarget_new_inv [OF assms(1,2) env_new_cb, of kind sz i] assms(3) env_new_cb
  by (auto simp: ref_inv_def life_inv_def)

text \<open>C5: No bank of a target is ever lost or in two places. After any sequence of settings (the callback
  included), writes, flushes, synchronous flushes, completed device writes, entries of the callback queue handed
  to the program and banks it returns that were handed to it, every bank of the target is exactly
  one of current, available, queued, being written, waiting for the callback or lent to the program,
  and every bank is inside its block; while no callback is set, none waits for one.\<close>

theorem banks_conserved:
  assumes "0 < n" "hb_ok (dd_delim d)" "logTarget_new kind sz i d n = Some t0"
    "tstep\<^sup>*\<^sup>* (env_new, t0) (e, t)"
  shows "mset (owned e t) = mset [0..<numBanks t] \<and>
    (\<forall>b \<in> set (t_buffers t). lb_len b \<le> lb_space b \<and> length (lb_base b) = lb_space b) \<and>
    (\<not> logCallbackSet t \<longrightarrow> cb_banks (myId t) (circ_list (callerLogCallbacks e)) = [])"
  using tsteps_inv [OF assms(4) life_inv_new [OF assms(1-3)]]
  by (auto simp: life_inv_def target_inv_def lb_ok_def)

text \<open>A callback target with its callback set: a message is written and flushed, so bank 0 waits for the
  callback, and is then handed to the program.\<close>

definition ex_cb_target :: logTarget where "ex_cb_target = setCallback True (ex_target CallbackTarget)"

definition ex_cb_written :: "grease_env \<times> logTarget" where
  "ex_cb_written = the (target_write ex_render (0, 0) env_new ex_cb_target [0x61, 0x62, 0x63] 3 meta_info Filter_empty)"

definition ex_cb_flushed :: "grease_env \<times> logTarget" where
  "ex_cb_flushed = the (flushAll (fst ex_cb_written) (snd ex_cb_written) True False)"

definition ex_cb_lent :: "grease_env \<times> logTarget" where
  "ex_cb_lent =
     ((fst ex_cb_flushed)\<lparr>callerLogCallbacks := snd (the (circ_remove (callerLogCallbacks (fst ex_cb_flushed))))\<rparr>,
      (snd ex_cb_flushed)\<lparr>t_lent := [0]\<rparr>)"

lemma ex_cb_run:
  "target_write ex_render (0, 0) env_new ex_cb_target [0x61, 0x62, 0x63] 3 meta_info Filter_empty = Some ex_cb_written"
  "flushAll (fst ex_cb_written) (snd ex_cb_written) True False = Some ex_cb_flushed"
  "circ_remove (callerLogCallbacks (fst ex_cb_flushed)) =
     Some (\<lparr>cb_overflow = None, cb_t = 1, cb_b = Some 0, cb_nocallback = False\<rparr>, callerLogCallbacks (fst ex_cb_lent))"
  "t_lent (snd ex_cb_flushed) = []" "myId (snd ex_cb_flushed) = 1" "logCallbackSet (snd ex_cb_flushed)"
  "cb_banks 1 (circ_list (callerLogCallbacks (fst ex_cb_flushed))) = [0]"
proof -
  have "\<not> Option.is_none (target_write ex_render (0, 0) env_new ex_cb_target [0x61, 0x62, 0x63] 3 meta_info Filter_empty)"
    by code_simp
  then show "target_write ex_render (0, 0) env_new ex_cb_target [0x61, 0x62, 0x63] 3 meta_info Filter_empty = Some ex_cb_written"
    by (simp add: ex_cb_written_def Option.is_none_def)
  have "\<not> Option.is_none (flushAll (fst ex_cb_written) (snd ex_cb_written) True False)" by code_simp
  then show "flushAll (fst ex_cb_written) (snd ex_cb_written) True False = Some ex_cb_flushed"
    by (simp add: ex_cb_flushed_def Option.is_none_def)
  have f: "map_option fst (circ_remove (callerLogCallbacks (fst ex_cb_flushed))) =
       Some \<lparr>cb_overflow = None, cb_t = 1, cb_b = Some 0, cb_nocallback = False\<rparr> \<and>
     t_lent (snd ex_cb_flushed) = [] \<and> myId (snd ex_cb_flushed) = 1 \<and> logCallbackSet (snd ex_cb_flushed) \<and>
     cb_banks 1 (circ_list (callerLogCallbacks (fst ex_cb_flushed))) = [0]" by code_simp
  then show "circ_remove (callerLogCallbacks (fst ex_cb_flushed)) =
     Some (\<lparr>cb_overflow = None, cb_t = 1, cb_b = Some 0, cb_nocallback = False\<rparr>, callerLogCallbacks (fst ex_cb_lent))"
    by (auto simp: ex_cb_lent_def)
  show "t_lent (snd ex_cb_flushed) = []" "myId (snd ex_cb_flushed) = 1" "logCallbackSet (snd ex_cb_flushed)"
    "cb_banks 1 (circ_list (callerLogCallbacks (fst ex_cb_flushed))) = [0]"
    using f by simp_all
qed

lemma ex_cb_reach: "tstep\<^sup>*\<^sup>* (env_new, ex_target CallbackTarget) ex_cb_lent"
proof -
  have "tstep (env_new, ex_target CallbackTarget) (env_new, ex_cb_target)"
    unfolding ex_cb_target_def by (intro t_setup su_callback)
  moreover have "tstep (env_new, ex_cb_target) (fst ex_cb_written, snd ex_cb_written)"
    using ex_cb_run(1) by (intro t_write) simp
  moreover have "tstep (fst ex_cb_written, snd ex_cb_written) (fst ex_cb_flushed, snd ex_cb_flushed)"
    using ex_cb_run(2) by (intro t_flush) simp
  moreover have "tstep (fst ex_cb_flushed, snd ex_cb_flushed) ex_cb_lent"
    using t_callback [OF ex_cb_run(3), of "snd ex_cb_flushed"] ex_cb_run(4-6) by (simp add: ex_cb_lent_def)
  ultimately show ?thesis by (meson converse_rtranclp_into_rtranclp rtranclp.rtrancl_refl)
qed

theorem banks_conserved_witness:
  "t_lent (snd ex_cb_lent) = [0] \<and>
   mset (owned (fst ex_cb_lent) (snd ex_cb_lent)) = mset [0..<numBanks (snd ex_cb_lent)] \<and>
   mset (owned (fst ex_cb_lent) (finalizeV8Callback (snd ex_cb_lent) 0)) =
     mset [0..<numBanks (finalizeV8Callback (snd ex_cb_lent) 0)]"
proof -
  have l: "t_lent (snd ex_cb_lent) = [0]" by (simp add: ex_cb_lent_def)
  have r: "tstep\<^sup>*\<^sup>* (env_new, ex_target CallbackTarget) (fst ex_cb_lent, snd ex_cb_lent)" using ex_cb_reach by simp
  moreover have "tstep (fst ex_cb_lent, snd ex_cb_lent) (fst ex_cb_lent, finalizeV8Callback (snd ex_cb_lent) 0)"
    using l by (intro t_return) simp
  ultimately have "tstep\<^sup>*\<^sup>* (env_new, ex_target CallbackTarget) (fst ex_cb_lent, finalizeV8Callback (snd ex_cb_lent) 0)"
    by (rule rtranclp.rtrancl_into_rtrancl)
  from banks_conserved [OF _ ex_delim_ok(1) ex_target_inv(1) r] l
    banks_conserved [OF _ ex_delim_ok(1) ex_target_inv(1) this] show ?thesis by simp
qed

text \<open>C15: The device's completion of a write always hands the buffer back: in every state a target
  can reach, the reference count of the logger thread is positive for a buffer that holds data
  (the \<open>assert\<close> cannot fail), and the queue of available buffers has room for it (the call
  cannot block).\<close>

theorem write_completion_total:
  assumes "0 < n" "hb_ok (dd_delim d)" "logTarget_new kind sz i d n = Some t0"
    "tstep\<^sup>*\<^sup>* (env_new, t0) (e, t)" "b \<in> set (t_inflight t)"
  shows "\<exists>e' t'. write_cb e t b nocallback = Some (e', t') \<and>
    t_inflight t' = remove1 b (t_inflight t)"
proof -
  have "target_inv e t" "ref_inv 0 e t"
    using tsteps_inv [OF assms(4) life_inv_new [OF assms(1-3)]] by (simp_all add: life_inv_def)
  from write_cb_inv [OF this assms(5)] show ?thesis by blast
qed

text \<open>A message of three bytes written to the terminal and flushed: bank 0 is then being written.\<close>

definition ex_written :: "grease_env \<times> logTarget" where
  "ex_written = the (target_write ex_render (0, 0) env_new (ex_target TtyTarget) [0x61, 0x62, 0x63] 3
     meta_info Filter_empty)"

definition ex_flushed :: "grease_env \<times> logTarget" where
  "ex_flushed = the (flushAll (fst ex_written) (snd ex_written) True False)"

lemma ex_run:
  "target_write ex_render (0, 0) env_new (ex_target TtyTarget) [0x61, 0x62, 0x63] 3
     meta_info Filter_empty = Some ex_written"
  "flushAll (fst ex_written) (snd ex_written) True False = Some ex_flushed"
  "t_inflight (snd ex_flushed) = [0]"
proof -
  have "\<not> Option.is_none (target_write ex_render (0, 0) env_new (ex_target TtyTarget)
     [0x61, 0x62, 0x63] 3 meta_info Filter_empty)" by code_simp
  then show "target_write ex_render (0, 0) env_new (ex_target TtyTarget) [0x61, 0x62, 0x63] 3
     meta_info Filter_empty = Some ex_written"
    by (simp add: ex_written_def Option.is_none_def)
  have "\<not> Option.is_none (flushAll (fst ex_written) (snd ex_written) True False)" by code_simp
  then show "flushAll (fst ex_written) (snd ex_written) True False = Some ex_flushed"
    by (simp add: ex_flushed_def Option.is_none_def)
  show "t_inflight (snd ex_flushed) = [0]" by code_simp
qed

theorem write_completion_total_witness:
  "\<exists>e' t'. write_cb (fst ex_flushed) (snd ex_flushed) 0 False = Some (e', t') \<and>
    t_inflight t' = remove1 0 (t_inflight (snd ex_flushed))"
proof -
  have "tstep (env_new, ex_target TtyTarget) (fst ex_written, snd ex_written)"
    using ex_run(1) by (intro t_write) simp
  moreover have "tstep (fst ex_written, snd ex_written) (fst ex_flushed, snd ex_flushed)"
    using ex_run(2) by (intro t_flush) simp
  ultimately have "tstep\<^sup>*\<^sup>* (env_new, ex_target TtyTarget) (fst ex_flushed, snd ex_flushed)" by simp
  from write_completion_total [OF _ ex_delim_ok(1) ex_target_inv(1) this, of 0 False]
  show ?thesis by (simp add: ex_run(3))
qed

lemma write_ok:
  assumes "target_inv e t" "ref_inv k e t" "\<not> t_disabled t"
    "t_flags t AND GREASE_JSON_ESCAPE_STRINGS = 0" "0 < len" "len \<le> length s"
    "len + GREASE_MAX_PREFIX_HEADER \<le> bankSize t" "framed render tm e t m flt hdr hn ftr fn"
    "circ_inv (internalCmdQueue e)"
    "length (circ_list (internalCmdQueue e)) < nat (csize (internalCmdQueue e))"
    "lb_remain (cur t) \<ge> int (len + hn + fn) \<or> circ_list (availBuffers t) \<noteq> []"
  shows "\<exists>e' t'. target_write render tm e t s len m flt = Some (e', t') \<and> target_inv e' t' \<and>
    ref_inv k e' t' \<and> stream t' = stream t @ line t hdr hn s len ftr fn"
  using write_room [OF assms(1-8)] write_rotate [OF assms(1-8) _ _ assms(9,10)] assms(11) by blast

text \<open>C11: Writing a message appends it, whole and once, behind everything written before: when it fits
  in a bank and its header, footer and delimiter fit in the prefix size, the stream of the target
  grows by exactly header, message, footer and delimiter, whether the current buffer has room or
  the next available one has to be taken.\<close>

theorem write_appends:
  assumes "target_inv e t" "ref_inv k e t" "\<not> t_disabled t"
    "t_flags t AND GREASE_JSON_ESCAPE_STRINGS = 0" "0 < len" "len \<le> length s"
    "len + GREASE_MAX_PREFIX_HEADER \<le> bankSize t" "framed render tm e t m flt hdr hn ftr fn"
    "circ_inv (internalCmdQueue e)"
    "length (circ_list (internalCmdQueue e)) < nat (csize (internalCmdQueue e))"
    "lb_remain (cur t) \<ge> int (len + hn + fn) \<or> circ_list (availBuffers t) \<noteq> []"
  shows "\<exists>e' t'. target_write render tm e t s len m flt = Some (e', t') \<and> target_inv e' t' \<and>
    ref_inv k e' t' \<and> stream t' = stream t @ line t hdr hn s len ftr fn"
  by (rule write_ok [OF assms])

lemma logTarget_new_sel:
  assumes "logTarget_new kind sz i d n = Some t"
  shows "timeFormat t = heapBuf_empty" "tagFormat t = heapBuf_empty" "originFormat t = heapBuf_empty"
    "levelFormat t = heapBuf_empty" "t_preFormat t = heapBuf_empty" "t_postFormat t = heapBuf_empty"
    "preMsgFormat t = heapBuf_empty" "t_delim t = d"
  using assms by (auto simp: logTarget_new_def)

lemma plain_framed:
  assumes "f_preFormat flt = heapBuf_empty" "f_postFormatPreMsg flt = heapBuf_empty"
    "f_postFormat flt = heapBuf_empty"
  shows "framed ex_render (0, 0) env_new (ex_target kind) m flt
     (header_buffer env_new) 0 (footer_buffer env_new) 0"
proof -
  have "hb_empty heapBuf_empty" "logLabel_length heapBuf_empty = 0"
    by (simp_all add: hb_empty_def heapBuf_empty_def logLabel_length_def)
  then show ?thesis
    using logTarget_new_sel [OF ex_target_inv(1) [of kind]] assms
    by (simp add: framed_def putsHeader_def header_parts_def putsFooter_def
        ex_delim_ok(2) GREASE_MAX_PREFIX_HEADER_def)
qed

lemma ex_framed:
  "framed ex_render (0, 0) env_new (ex_target kind) meta_info Filter_empty
     (header_buffer env_new) 0 (footer_buffer env_new) 0"
  by (rule plain_framed) (simp_all add: Filter_empty_def)

theorem write_appends_witness:
  "\<exists>e' t'. target_write ex_render (0, 0) env_new (ex_target TtyTarget) [0x61, 0x62, 0x63] 3
       meta_info Filter_empty = Some (e', t') \<and>
     stream t' = stream (ex_target TtyTarget) @ [0x61, 0x62, 0x63, 0x0A]"
proof -
  have l: "line (ex_target TtyTarget) (header_buffer env_new) 0 [0x61, 0x62, 0x63] 3
     (footer_buffer env_new) 0 = [0x61, 0x62, 0x63, 0x0A]" by code_simp
  have f: "\<not> t_disabled (ex_target TtyTarget)"
    "t_flags (ex_target TtyTarget) AND GREASE_JSON_ESCAPE_STRINGS = 0"
    "3 + GREASE_MAX_PREFIX_HEADER \<le> bankSize (ex_target TtyTarget)"
    "circ_inv (internalCmdQueue env_new)"
    "length (circ_list (internalCmdQueue env_new)) < nat (csize (internalCmdQueue env_new))"
    "lb_remain (cur (ex_target TtyTarget)) \<ge> int (3 + 0 + 0)" by code_simp+
  show ?thesis
    using write_appends [OF ex_target_inv(2,3) f(1,2) _ _ f(3) ex_framed f(4,5) disjI1 [OF f(6)],
        of "[0x61, 0x62, 0x63]"] l by auto
qed

text \<open>C12: Flushing delivers: as long as there is a buffer to go on with, \<open>flushAll\<close> of a terminal or
  file target hands the device everything that was written and not yet delivered, in order,
  and leaves nothing behind; it always returns.\<close>

theorem flushAll_delivers:
  assumes "target_inv e t" "ref_inv k e t" "t_kind t \<noteq> CallbackTarget"
    "lb_isEmpty (cur t) \<or> circ_list (availBuffers t) \<noteq> []"
  shows "\<exists>e' t'. flushAll e t True nocallbacks = Some (e', t') \<and>
    t_out t' = stream t \<and> pending t' = [] \<and> content (cur t') = [] \<and>
    target_inv e' t' \<and> ref_inv k e' t'"
proof -
  obtain t1 where t1: "t1 = snd (rotate_bank t)" "target_inv e t1" "ref_inv k e t1"
      "stream t1 = stream t" "lb_len (cur t1) = 0" "t_kind t1 = t_kind t"
  proof (cases "lb_len (cur t) = 0")
    case True
    then show ?thesis using that assms(1,2) by (simp add: rotate_bank_def)
  next
    case False
    then have "0 < lb_len (cur t)" "circ_list (availBuffers t) \<noteq> []"
      using assms(4) by (auto simp: lb_isEmpty_def)
    from rotate_stream [OF assms(1) this] obtain u aq wq nx where
      u: "rotate_bank t = (True, u)" "target_inv e u" "stream u = stream t" "lb_len (cur u) = 0"
        "busy u = busy t" "u = t\<lparr>availBuffers := aq, writeOutBuffers := wq, currentBuffer := nx\<rparr>"
      by blast
    then show ?thesis using that assms(2) by (simp add: ref_inv_def)
  qed
  have "length (circ_list (writeOutBuffers t1)) \<le> numBanks t1"
    using owned_facts(3) [OF t1(2)] by (simp add: owned_def)
  from flush_loop_inv [OF t1(2,3) this, of nocallbacks] obtain e' t' where
    r: "flush_loop (numBanks t1) e t1 nocallbacks = Some (e', t')" "target_inv e' t'" "ref_inv k e' t'"
      "circ_list (writeOutBuffers t') = []" "cur t' = cur t1" "t_out t' = t_out t1 @ pending t1"
    using t1(6) assms(3) by auto
  have "content (cur t1) = []" using t1(5) by (simp add: content_def)
  then show ?thesis
    using r t1(1,4) by (simp add: flushAll_def stream_def pending_def)
qed

theorem flushAll_delivers_witness:
  "\<exists>e' t'. flushAll (fst ex_written) (snd ex_written) True False = Some (e', t') \<and>
     t_out t' = [0x61, 0x62, 0x63, 0x0A]"
proof -
  have i: "target_inv (fst ex_written) (snd ex_written)" "ref_inv 0 (fst ex_written) (snd ex_written)"
    using write_inv [OF ex_target_inv(2,3), of ex_render _ TtyTarget] ex_run(1) by (metis prod.collapse)+
  have "t_kind (snd ex_written) = TtyTarget" by code_simp
  then have k: "t_kind (snd ex_written) \<noteq> CallbackTarget" by simp
  have "circ_list (availBuffers (snd ex_written)) = [1, 2, 3]" by code_simp
  then have a: "lb_isEmpty (cur (snd ex_written)) \<or> circ_list (availBuffers (snd ex_written)) \<noteq> []" by simp
  have "stream (snd ex_written) = [0x61, 0x62, 0x63, 0x0A]" by code_simp
  then show ?thesis using flushAll_delivers [OF i k a, of False] by metis
qed

text \<open>The header is the filter's prefix, the target's prefix, time, level, tag, origin and
  pre-message parts and the filter's second prefix, in this order and each only when it is set,
  as long as together they are shorter than the header buffer.\<close>

lemma header_in_order:
  assumes "length mem = remain" "length (parts_text (header_parts render tm e t m flt)) < remain"
  shows "\<exists>mem'. putsHeader render tm e t mem remain m flt =
      Some (mem', length (parts_text (header_parts render tm e t m flt))) \<and>
    length mem' = remain \<and>
    take (length (parts_text (header_parts render tm e t m flt))) mem' =
      parts_text (header_parts render tm e t m flt)"
  using puts_parts_holds [of remain "[]" "(mem, 0)" "header_parts render tm e t m flt"] assms
  by (auto simp: putsHeader_def holds_def)

lemma header_in_order_example:
  "\<exists>mem'. putsHeader ex_render (0, 0) env_new (the (setPreFormat [0x3E] 1 (ex_target TtyTarget)))
      (LMALLOC 8) 8 meta_info Filter_empty = Some (mem', 1) \<and> take 1 mem' = [0x3E]"
proof -
  have p: "parts_text (header_parts ex_render (0, 0) env_new
     (the (setPreFormat [0x3E] 1 (ex_target TtyTarget))) meta_info Filter_empty) = [0x3E]" by code_simp
  show ?thesis
    using header_in_order [of "LMALLOC 8" 8 ex_render "(0, 0)" env_new
        "the (setPreFormat [0x3E] 1 (ex_target TtyTarget))" meta_info Filter_empty] p
    by (auto simp: LMALLOC_def)
qed

text \<open>A prefix longer than the header buffer is not contained: \<open>snprintf\<close> reports the length the
  text would have had, the space left wraps around to a huge value, and the next part that is set
  is written behind the buffer.\<close>

lemma header_overrun:
  assumes "length mem = remain" "0 < remain" "hb_empty (f_preFormat flt)"
    "0 < logLabel_length (t_preFormat t)" "remain < length (render (cstr (t_preFormat t)) [])"
    "0 < logLabel_length (timeFormat t)"
  shows "putsHeader render tm e t mem remain m flt = None"
proof -
  let ?n = "length (render (cstr (t_preFormat t)) [])"
  let ?tx = "take (remain - 1) (render (cstr (t_preFormat t)) []) @ [0]"
  have "length ?tx = remain" using assms(2,5) by simp
  then have "buf_write mem 0 ?tx \<noteq> None" using assms(1) by (simp only: buf_write_None_iff)
  then obtain mem' where m1: "buf_write mem 0 ?tx = Some mem'" by blast
  note m = m1 trans [OF buf_write_length [OF m1] assms(1)]
  have "snp remain 0 (render (cstr (t_preFormat t)) []) (mem, 0) = Some (mem', ?n)"
    using assms(2) m by (simp add: snp_def)
  moreover have "snp remain ?n x (mem', ?n) = None" for x
    using assms(5) m(2) by (simp add: snp_def buf_write_def)
  moreover obtain a b ps where "header_parts render tm e t m flt =
      (False, False, a) # (True, True, render (cstr (t_preFormat t)) []) # (True, True, b) # ps"
    using assms(3,4,6) by (simp add: header_parts_def)
  ultimately show ?thesis using assms(2,5) by (simp add: putsHeader_def)
qed

lemma header_overrun_example:
  "putsHeader ex_render (0, 0) env_new
     (the (setTimeFormat [0x25] 1 (the (setPreFormat [0x3E, 0x3E, 0x3E] 3 (ex_target TtyTarget)))))
     (LMALLOC 2) 2 meta_info Filter_empty = None"
proof -
  let ?t = "the (setTimeFormat [0x25] 1 (the (setPreFormat [0x3E, 0x3E, 0x3E] 3 (ex_target TtyTarget))))"
  have "cstr (t_preFormat ?t) = [0x3E, 0x3E, 0x3E]" "logLabel_length (t_preFormat ?t) = 4"
    "logLabel_length (timeFormat ?t) = 2" by code_simp+
  then show ?thesis
    by (intro header_overrun)
      (simp_all add: LMALLOC_def ex_render_def Filter_empty_def hb_empty_def heapBuf_empty_def)
qed

text \<open>When no buffer is available a message that does not fit costs the whole current buffer: its
  contents are discarded and the message is not written either, while what is queued or delivered
  stays.\<close>

lemma write_without_buffer:
  assumes "target_inv e t" "\<not> t_disabled t" "len + GREASE_MAX_PREFIX_HEADER \<le> bankSize t"
    "framed render tm e t m flt hdr hn ftr fn" "\<not> lb_remain (cur t) \<ge> int (len + hn + fn)"
    "circ_list (availBuffers t) = []"
  shows "\<exists>e' t'. target_write render tm e t s len m flt = Some (e', t') \<and>
    stream t' = t_out t @ pending t \<and> content (cur t') = []"
proof -
  have fr: "hn + fn + length (dbytes (t_delim t)) \<le> GREASE_MAX_PREFIX_HEADER"
    using assms(4) by (simp add: framed_def)
  have ne: "0 < lb_len (cur t)" by (rule remain_short_nonempty [OF assms(1,3) fr assms(5)])
  note r = rotate_no_buffer(1) [OF assms(1) ne assms(6)]
  have "target_write render tm e t s len m flt =
      Some (e\<lparr>header_buffer := hdr, footer_buffer := ftr\<rparr>, set_bank t (currentBuffer t) (lb_clear (cur t)))"
    using assms(2-5) r by (simp add: target_write_def write_framed_def framed_def Let_def)
  then show ?thesis
    using stream_set_current [OF assms(1), of "lb_clear (cur t)"] cur_set_bank [OF assms(1)] by simp
qed

text \<open>A terminal with a single bank of 300 bytes, after a message of 172 bytes.\<close>

definition ex_single :: "grease_env \<times> logTarget" where
  "ex_single = the (target_write ex_render (0, 0) env_new
     (the (logTarget_new TtyTarget 300 1 ex_delim 1)) (replicate 172 1) 172 meta_info Filter_empty)"

lemma ex_single_inv: "target_inv (fst ex_single) (snd ex_single)"
proof -
  let ?u = "the (logTarget_new TtyTarget 300 1 ex_delim 1)"
  let ?w = "target_write ex_render (0, 0) env_new ?u (replicate 172 1) 172 meta_info Filter_empty"
  have u: "target_inv env_new ?u" "ref_inv 0 env_new ?u"
    using logTarget_new_inv [of 1 ex_delim env_new TtyTarget 300 1, OF _ ex_delim_ok(1) env_new_cb]
    by (auto simp: ref_inv_def)
  have "\<not> Option.is_none ?w" by code_simp
  then have "?w = Some (fst ex_single, snd ex_single)"
    by (simp add: ex_single_def Option.is_none_def)
  from write_inv [OF u this] show ?thesis by blast
qed

lemma write_without_buffer_example:
  "\<exists>e' t'. target_write ex_render (0, 0) (fst ex_single) (snd ex_single) (replicate 172 2) 172
      meta_info Filter_empty = Some (e', t') \<and>
    stream t' = t_out (snd ex_single) @ pending (snd ex_single) \<and> content (cur t') = []"
proof (rule write_without_buffer [OF ex_single_inv])
  show "\<not> t_disabled (snd ex_single)" by code_simp
  show "172 + GREASE_MAX_PREFIX_HEADER \<le> bankSize (snd ex_single)" by code_simp
  show "framed ex_render (0, 0) (fst ex_single) (snd ex_single) meta_info Filter_empty
     (header_buffer (fst ex_single)) 0 (footer_buffer (fst ex_single)) 0" by code_simp
  show "\<not> lb_remain (cur (snd ex_single)) \<ge> int (172 + 0 + 0)" by code_simp
  show "circ_list (availBuffers (snd ex_single)) = []" by code_simp
qed

end
