(* ===== verification/Dispatch.thy ===== *)
theory Dispatch
  imports Log_Target
begin

text \<open>
  The logger itself (\<open>GreaseLogger\<close> in \<open>logger.h\<close> and \<open>logger.cc\<close>): the calls that accept a
  message (\<open>log\<close>, \<open>logP\<close>, \<open>logFromRaw\<close>, \<open>_grabInLogBuffer\<close>, \<open>_submitBuffer\<close>), the queue of
  commands to the logger thread, and \<open>handleInternalCmd\<close>, which takes commands off the queue and
  routes each message through the filters to the targets. A buffer of the pool
  \<open>masterBufferAvail\<close> is named by its address in the store of messages.

  The call of one thread and the handling of one command are each one step: both run under the
  locks of the queues they touch. \<open>uv_async_send\<close> only wakes the logger thread up and is left
  out. The order in which the table of targets is iterated is the field \<open>target_order\<close>.
\<close>

section \<open>State\<close>

record grease =
  env :: grease_env
  filters :: filter_state
  masterBufferAvail :: "nat circ"
  bufferSize :: nat
  targets :: "TargetId \<rightharpoonup> logTarget"
  target_order :: "TargetId list"
  defaultTarget :: "logTarget option"
  defaultFilter :: Filter
  outputs_closed :: bool              \<comment> \<open>the async handles were closed by a shutdown\<close>

definition PRIMARY_BUFFER_ENTRIES :: nat where "PRIMARY_BUFFER_ENTRIES = 100"
definition INTERNAL_QUEUE_SIZE :: int where "INTERNAL_QUEUE_SIZE = 200"
definition MAX_LOG_MESSAGE_SIZE :: nat where "MAX_LOG_MESSAGE_SIZE = 65536"

text \<open>The constructor, with \<open>n\<close> for \<open>PRIMARY_BUFFER_ENTRIES\<close>.\<close>

definition grease_new_n :: "nat \<Rightarrow> nat \<Rightarrow> grease option" where
  "grease_new_n n buffer_size =
     map_option (\<lambda>pool.
       \<lparr>env = env_new\<lparr>logs := (\<lambda>a. if a < n then Some (singleLog_new buffer_size) else None),
                      next_log := n\<rparr>,
        filters = filter_state_init, masterBufferAvail = pool, bufferSize = buffer_size,
        targets = Map.empty, target_order = [], defaultTarget = None,
        defaultFilter = Filter_empty, outputs_closed = False\<rparr>)
       (put_all circ_add [0..<n] (circ_new 0 (int n) False))"

definition grease_new :: "nat \<Rightarrow> grease option" where
  "grease_new buffer_size = grease_new_n PRIMARY_BUFFER_ENTRIES buffer_size"

definition getTarget :: "grease \<Rightarrow> TargetId \<Rightarrow> logTarget option" where
  "getTarget g key = targets g key"

text \<open>A target by its id, 0 being the default target, and an action on it.\<close>

definition find_target :: "grease \<Rightarrow> TargetId \<Rightarrow> logTarget option" where
  "find_target g i = (if i = 0 then defaultTarget g else targets g i)"

definition put_target :: "grease \<Rightarrow> TargetId \<Rightarrow> grease_env \<times> logTarget \<Rightarrow> grease" where
  "put_target g i et =
     (if i = 0 then g\<lparr>env := fst et, defaultTarget := Some (snd et)\<rparr>
      else g\<lparr>env := fst et, targets := (targets g)(i \<mapsto> snd et)\<rparr>)"

definition on_target ::
  "TargetId \<Rightarrow> (grease_env \<Rightarrow> logTarget \<Rightarrow> (grease_env \<times> logTarget) option) \<Rightarrow> grease \<Rightarrow> grease option" where
  "on_target i f g =
     (case find_target g i of
        None \<Rightarrow> Some g
      | Some t \<Rightarrow> map_option (put_target g i) (f (env g) t))"

text \<open>
  \<open>targetReady\<close>: a target that came up is registered, under its id or as the default target, unless
  it has no start information. One that failed is deleted, and its id is read after that, which
  is \<open>None\<close>.
\<close>

definition targetReady :: "bool \<Rightarrow> bool \<Rightarrow> logTarget \<Rightarrow> grease \<Rightarrow> grease option" where
  "targetReady has_info ready t g =
     (if \<not> has_info then Some g
      else if ready then
        Some (if myId t = 0 then g\<lparr>defaultTarget := Some t\<rparr>
              else g\<lparr>targets := (targets g)(myId t \<mapsto> t),
                     target_order := (if myId t \<in> set (target_order g) then target_order g
                                      else target_order g @ [myId t])\<rparr>)
      else None)"

section \<open>Accepting a message\<close>

text \<open>\<open>_log\<close>. \<open>meta\<close> stands in its \<open>extra_logMeta\<close>; \<open>s\<close> is the readable memory behind the message.\<close>

definition stored_meta :: "extra_logMeta \<Rightarrow> extra_logMeta \<Rightarrow> extra_logMeta" where
  "stored_meta old meta =
     (if META_HAS_IGNORES (em_m meta) then meta else old\<lparr>em_m := em_m meta\<rparr>)"

definition overflow_ending :: bytes where
  "overflow_ending =
     [0x5B, 0x21, 0x21, 0x20, 0x4F, 0x56, 0x45, 0x52, 0x46, 0x4C, 0x4F, 0x57, 0x20, 0x45, 0x4E,
      0x44, 0x49, 0x4E, 0x47, 0x5D]"

definition log_overflow :: "grease \<Rightarrow> extra_logMeta \<Rightarrow> bytes \<Rightarrow> nat \<Rightarrow> (grease_ret \<times> grease) option" where
  "log_overflow g meta s len =
     (let l = singleLog_new (if len > MAX_LOG_MESSAGE_SIZE then MAX_LOG_MESSAGE_SIZE else len)
      in case hb_memcpy (sl_buf l) s len (Some overflow_ending) of
           None \<Rightarrow> None
         | Some (n, b) \<Rightarrow>
             (let (a, e1) = new_log (env g) (l\<lparr>sl_buf := b, sl_meta := stored_meta (sl_meta l) meta\<rparr>);
                  (ok, q) = circ_addIfRoom (internalCmdQueue e1)
                     ((cmdReq WRITE_TARGET_OVERFLOW 0)\<lparr>rq_aux := Some a\<rparr>)
              in Some (GREASE_OK, g\<lparr>env := (if ok then e1\<lparr>internalCmdQueue := q\<rparr>
                                             else delete_log e1 a)\<rparr>)))"

text \<open>Putting a filled pool buffer on the command queue, or back into the pool when it is full.\<close>

definition enqueue_buffer :: "grease \<Rightarrow> nat \<Rightarrow> singleLog \<Rightarrow> grease option" where
  "enqueue_buffer g a l =
     (let (ok, q) = circ_addIfRoom (internalCmdQueue (env g)) ((cmdReq NEW_LOG 0)\<lparr>rq_aux := Some a\<rparr>)
      in if ok then Some (g\<lparr>env := (env g)\<lparr>internalCmdQueue := q, logs := (logs (env g))(a \<mapsto> l)\<rparr>\<rparr>)
         else map_option (\<lambda>pool. g\<lparr>masterBufferAvail := pool,
                env := (env g)\<lparr>logs := (logs (env g))(a \<mapsto> singleLog_clear l)\<rparr>\<rparr>)
                (circ_add (masterBufferAvail g) a))"

definition log_pooled :: "grease \<Rightarrow> extra_logMeta \<Rightarrow> bytes \<Rightarrow> nat \<Rightarrow> (grease_ret \<times> grease) option" where
  "log_pooled g meta s len =
     (case circ_remove (masterBufferAvail g) of
        None \<Rightarrow> Some (GREASE_OK, g)
      | Some (a, pool) \<Rightarrow>
          (case logs (env g) a of
             None \<Rightarrow> None
           | Some l \<Rightarrow>
               (case hb_memcpy (sl_buf l) s len None of
                  None \<Rightarrow> None
                | Some (n, b) \<Rightarrow>
                    map_option (Pair GREASE_OK)
                      (enqueue_buffer (g\<lparr>masterBufferAvail := pool\<rparr>) a
                        (l\<lparr>sl_buf := b, sl_meta := stored_meta (sl_meta l) meta\<rparr>)))))"

definition log_internal :: "grease \<Rightarrow> extra_logMeta \<Rightarrow> bytes \<Rightarrow> nat \<Rightarrow> (grease_ret \<times> grease) option" where
  "log_internal g meta s len =
     (if len > bufferSize g then log_overflow g meta s len else log_pooled g meta s len)"

text \<open>\<open>logP\<close>: the caller's metadata is updated by \<open>sift\<close>, so it is returned; \<open>log\<close> works on a copy.\<close>

definition logP ::
  "grease \<Rightarrow> extra_logMeta \<Rightarrow> bytes \<Rightarrow> nat \<Rightarrow> (grease_ret \<times> extra_logMeta \<times> grease) option" where
  "logP g f s len =
     (if len > GREASE_MAX_MESSAGE_SIZE then Some (GREASE_OVERFLOW, f, g)
      else let (ok, m) = sift (filters g) (em_m f); f' = f\<lparr>em_m := m\<rparr>
           in if ok then map_option (\<lambda>(r, g'). (r, f', g')) (log_internal g f' s len)
              else Some (GREASE_OK, f', g))"

text \<open>
  \<open>log\<close> sifts a copy of the metadata on its stack. When the metadata says that it has extras and
  the message is stored, the ignore list is read from behind that copy, which is \<open>None\<close>.
\<close>

definition log_call :: "grease \<Rightarrow> logMeta \<Rightarrow> bytes \<Rightarrow> nat \<Rightarrow> (grease_ret \<times> grease) option" where
  "log_call g f s len =
     (if len > GREASE_MAX_MESSAGE_SIZE then Some (GREASE_OVERFLOW, g)
      else let (ok, m) = sift (filters g) f
           in if ok then
                (if META_HAS_IGNORES m \<and>
                    (len > bufferSize g \<or> circ_remove (masterBufferAvail g) \<noteq> None) then None
                 else log_internal g (fresh_extra m) s len)
              else Some (GREASE_OK, g))"

text \<open>\<open>logSync\<close> and \<open>_logSync\<close>, which check the message and write nothing.\<close>

definition logSync :: "grease \<Rightarrow> logMeta \<Rightarrow> nat \<Rightarrow> grease_ret" where
  "logSync g f len =
     (if fst (sift (filters g) f) then
        (if len > GREASE_MAX_MESSAGE_SIZE then GREASE_OVERFLOW else GREASE_OK)
      else GREASE_OK)"

text \<open>
  \<open>logFromRaw\<close>: the metadata is read from the start of the block, and when it says that it has
  extras the ignore list is read from the bytes behind it.
\<close>

definition extra_of_bytes :: "bytes \<Rightarrow> extra_logMeta option" where
  "extra_of_bytes bs =
     (case meta_of_bytes bs of
        None \<Rightarrow> None
      | Some m \<Rightarrow>
          if META_HAS_IGNORES m
          then map_option (\<lambda>ig. \<lparr>em_m = m, ignore_list = ig\<rparr>)
                 (rd32s (MAX_IGNORE_LIST + 1) (drop sizeof_logMeta bs))
          else Some (fresh_extra m))"

definition logFromRaw :: "grease \<Rightarrow> bytes \<Rightarrow> nat \<Rightarrow> (grease_ret \<times> grease) option" where
  "logFromRaw g base len =
     (if len \<ge> sizeof_logMeta then
        (let l = len - sizeof_logMeta in
         if l > 0 then
           Option.bind (extra_of_bytes base)
             (\<lambda>f. map_option (\<lambda>(r, f', g'). (r, g')) (logP g f (drop sizeof_logMeta base) l))
         else Some (GREASE_OK, g))
      else Some (GREASE_NO_BUFFER, g))"

definition grabInLogBuffer :: "grease \<Rightarrow> grease_ret \<times> nat option \<times> grease" where
  "grabInLogBuffer g =
     (case circ_remove (masterBufferAvail g) of
        Some (a, pool) \<Rightarrow> (GREASE_OK, Some a, g\<lparr>masterBufferAvail := pool\<rparr>)
      | None \<Rightarrow> (GREASE_OVERFLOW, None, g))"

definition returnBuffer_master :: "grease \<Rightarrow> nat \<Rightarrow> grease option" where
  "returnBuffer_master g a =
     (case logs (env g) a of
        None \<Rightarrow> None
      | Some l \<Rightarrow>
          map_option (\<lambda>pool. g\<lparr>masterBufferAvail := pool,
            env := (env g)\<lparr>logs := (logs (env g))(a \<mapsto> singleLog_clear l)\<rparr>\<rparr>)
            (circ_add (masterBufferAvail g) a))"

definition submitBuffer :: "grease \<Rightarrow> nat \<Rightarrow> grease option" where
  "submitBuffer g a =
     (case logs (env g) a of
        None \<Rightarrow> None
      | Some l \<Rightarrow> if hb_used (sl_buf l) < 1 then returnBuffer_master g a
                  else enqueue_buffer g a l)"

section \<open>Routing a message through the filters\<close>

text \<open>The loop over the ignore list, which ends at a 0 and after \<open>MAX_IGNORE_LIST\<close> entries.\<close>

definition ignored :: "extra_logMeta \<Rightarrow> TargetId \<Rightarrow> bool" where
  "ignored em t \<longleftrightarrow>
     META_HAS_IGNORES (em_m em) \<and>
     t \<in> set (takeWhile (\<lambda>i. i \<noteq> 0) (take MAX_IGNORE_LIST (ignore_list em)))"

text \<open>What is done with a message at a target: \<open>write\<close>, or \<open>writeOverflow\<close> for a large one.\<close>

type_synonym action = "TargetId \<Rightarrow> Filter \<Rightarrow> grease \<Rightarrow> grease option"

definition route_filter :: "action \<Rightarrow> extra_logMeta \<Rightarrow> Filter \<Rightarrow> grease \<times> bool \<Rightarrow> (grease \<times> bool) option" where
  "route_filter act em f st =
     (case st of (g, wrote) \<Rightarrow>
        if f_levelMask f AND m_level (em_m em) \<noteq> 0 \<and> \<not> f_disabled f then
          (if f_targetId f = 0 then
             (if defaultTarget g \<noteq> None then map_option (\<lambda>g'. (g', True)) (act 0 f g)
              else Some (g, True))
           else if \<not> ignored em (f_targetId f) \<and> targets g (f_targetId f) \<noteq> None
             then map_option (\<lambda>g'. (g', True)) (act (f_targetId f) f g)
           else Some (g, wrote))
        else Some (g, wrote))"

text \<open>
  \<^verbatim>\<open>while(LIST->list[n].id != 0)\<close>: the loop stops at the first empty filter; in a list without
  one it goes on behind the array, which is \<open>None\<close>.
\<close>

fun route_list :: "action \<Rightarrow> extra_logMeta \<Rightarrow> Filter list \<Rightarrow> grease \<times> bool \<Rightarrow> (grease \<times> bool) option" where
  "route_list act em [] st = None"
| "route_list act em (f # fs) st =
     (if f_id f = 0 then Some st
      else Option.bind (route_filter act em f st) (route_list act em fs))"

text \<open>The loop over the four cached lists; a pointer that is not a filter list is \<open>None\<close>.\<close>

fun route_lists :: "action \<Rightarrow> extra_logMeta \<Rightarrow> u64 list \<Rightarrow> grease \<times> bool \<Rightarrow> (grease \<times> bool) option" where
  "route_lists act em [] st = Some st"
| "route_lists act em (p # ps) st =
     (if p = 0 then route_lists act em ps st
      else (case fl_heap (filters (fst st)) p of
              None \<Rightarrow> None
            | Some l \<Rightarrow>
                (if FilterList_valid l (m_level (em_m em))
                 then Option.bind (route_list act em (fl_list l) st) (route_lists act em ps)
                 else route_lists act em ps st)))"

definition dispatch :: "(logMeta \<Rightarrow> action) \<Rightarrow> extra_logMeta \<Rightarrow> grease \<Rightarrow> grease option" where
  "dispatch act em g =
     (let (ok, m) = sift (filters g) (em_m em); em' = em\<lparr>em_m := m\<rparr>
      in if ok then
           Option.bind (route_lists (act m) em' (cached_lists m) (g, False)) (\<lambda>(g', wrote).
             if \<not> wrote \<and> defaultTarget g' \<noteq> None then act m 0 (defaultFilter g') g' else Some g')
         else Some g)"

section \<open>Large messages\<close>

text \<open>\<open>returnBuffer\<close> for a large message; it is called without \<open>sync\<close>.\<close>

definition returnOverflow ::
  "grease_env \<Rightarrow> logTarget \<Rightarrow> overflowWriteOut \<Rightarrow> bool \<Rightarrow> grease_env option" where
  "returnOverflow e t w nocallback =
     Option.bind (unrefGreaseInGrease e) (\<lambda>e1.
       let dropped = map_option (\<lambda>hp. e1\<lparr>logs := hp\<rparr>) (overflow_delete (logs e1) w) in
       if \<not> nocallback \<and> logCallbackSet t then
         (let (ok, q) = circ_addIfRoom (callerLogCallbacks e1)
                \<lparr>cb_overflow = Some w, cb_t = myId t, cb_b = None, cb_nocallback = False\<rparr>
          in if ok then Some (e1\<lparr>callerLogCallbacks := q\<rparr>) else dropped)
       else dropped)"

text \<open>The blocks of a large message as the device gets them.\<close>

definition log_block :: "singleLog \<Rightarrow> bytes option" where
  "log_block l =
     (case hb_base (sl_buf l) of
        None \<Rightarrow> Some []
      | Some b \<Rightarrow> buf_read b 0 (hb_len (sl_buf l)))"

fun blocks :: "singleLog list \<Rightarrow> bytes option" where
  "blocks [] = Some []"
| "blocks (l # ls) =
     (case (log_block l, blocks ls) of (Some b, Some bs) \<Rightarrow> Some (b @ bs) | _ \<Rightarrow> None)"

definition overflow_bytes :: "sl_heap \<Rightarrow> overflowWriteOut \<Rightarrow> bytes option" where
  "overflow_bytes hp w = Option.bind (ov_logs hp (ov_bufs w)) blocks"

text \<open>
  \<open>writeAsyncOverflow\<close>: a terminal starts the write and is called back, a file writes at once, and a
  callback target queues the message for the user.
\<close>

definition writeAsyncOverflow ::
  "grease_env \<Rightarrow> logTarget \<Rightarrow> overflowWriteOut \<Rightarrow> bool \<Rightarrow> (grease_env \<times> logTarget) option" where
  "writeAsyncOverflow e t w nocallbacks =
     (case t_kind t of
        TtyTarget \<Rightarrow>
          map_option (\<lambda>bs. (e, t\<lparr>t_out := t_out t @ bs, t_overflow := t_overflow t @ [w]\<rparr>))
            (overflow_bytes (logs e) w)
      | FileTarget \<Rightarrow>
          Option.bind (overflow_bytes (logs e) w) (\<lambda>bs.
            map_option (\<lambda>e1. (e1, t\<lparr>t_out := t_out t @ bs\<rparr>)) (returnOverflow e t w nocallbacks))
      | CallbackTarget \<Rightarrow>
          (if ov_N w < 1 then
             map_option (\<lambda>hp. (e\<lparr>logs := hp\<rparr>, t)) (overflow_delete (logs e) w)
           else if \<not> nocallbacks \<and> logCallbackSet t then
             (let (ok, q) = circ_addIfRoom (callerLogCallbacks e)
                    \<lparr>cb_overflow = Some w, cb_t = myId t, cb_b = None, cb_nocallback = False\<rparr>
              in if ok then Some (e\<lparr>callerLogCallbacks := q\<rparr>, t)
                 else map_option (\<lambda>hp. (e\<lparr>logs := hp\<rparr>, t)) (overflow_delete (logs e) w))
           else Some (e, t)))"

definition write_overflow_cb ::
  "grease_env \<Rightarrow> logTarget \<Rightarrow> overflowWriteOut \<Rightarrow> bool \<Rightarrow> (grease_env \<times> logTarget) option" where
  "write_overflow_cb e t w nocallback =
     (if w \<in> set (t_overflow t)
      then map_option (\<lambda>e1. (e1, t\<lparr>t_overflow := remove1 w (t_overflow t)\<rparr>))
             (returnOverflow e t w nocallback)
      else None)"

text \<open>A block made by \<open>writeOverflow\<close>: added when it has bytes, deleted otherwise.\<close>

definition add_block ::
  "singleLog \<Rightarrow> nat \<Rightarrow> grease_env \<times> overflowWriteOut \<Rightarrow> (grease_env \<times> overflowWriteOut) option" where
  "add_block l n st =
     (case st of (e, w) \<Rightarrow>
        if n > 0 then (let (a, e1) = new_log e l in map_option (Pair e1) (addBuffer w a))
        else Some (e, w))"

definition set_block :: "singleLog \<Rightarrow> bytes \<Rightarrow> nat \<Rightarrow> singleLog" where
  "set_block l mem n = l\<lparr>sl_buf := (sl_buf l)\<lparr>hb_base := Some mem, hb_len := n\<rparr>\<rparr>"

definition writeOverflow ::
  "renderer \<Rightarrow> int \<times> int \<Rightarrow> nat \<Rightarrow> Filter \<Rightarrow> grease_env \<Rightarrow> logTarget \<Rightarrow> (grease_env \<times> logTarget) option" where
  "writeOverflow render tm a flt e t =
     (if t_disabled t then Some (e, t)
      else case logs e a of None \<Rightarrow> None | Some l \<Rightarrow>
        (let hdr = heapSingleLog GREASE_MAX_PREFIX_HEADER;
             ftr = heapSingleLog GREASE_MAX_PREFIX_HEADER;
             dl = dd_delim (t_delim t);
             dbuf = heapSingleLog (hb_len dl)
         in
         Option.bind (putsHeader render tm e t (LMALLOC GREASE_MAX_PREFIX_HEADER)
              GREASE_MAX_PREFIX_HEADER (em_m (sl_meta l)) flt) (\<lambda>(hm, hn).
         Option.bind (putsFooter render t (LMALLOC GREASE_MAX_PREFIX_HEADER)
              (size_t_sub GREASE_MAX_PREFIX_HEADER hn) flt) (\<lambda>(fm, fn).
         Option.bind (add_block (set_block hdr hm hn) hn (e, overflow_new)) (\<lambda>(e1, w1).
         Option.bind (addBuffer w1 a) (\<lambda>w2.
         Option.bind (add_block (set_block ftr fm fn) fn (e1, w2)) (\<lambda>(e3, w3).
         Option.bind (if hb_len dl > 0
                      then (case hb_base dl of
                              None \<Rightarrow> None
                            | Some db \<Rightarrow> map_option (\<lambda>r. dbuf\<lparr>sl_buf := snd r\<rparr>)
                                (hb_memcpy (sl_buf dbuf) db (hb_len dl) None))
                      else Some dbuf) (\<lambda>dl_log.
         Option.bind (add_block dl_log (hb_len dl) (e3, w3)) (\<lambda>(e4, w4).
           writeAsyncOverflow (refGreaseInGrease e4) t w4 False)))))))))"

text \<open>The action for a large message: the target is flushed first, then the message is referenced.\<close>

definition overflow_action :: "renderer \<Rightarrow> int \<times> int \<Rightarrow> nat \<Rightarrow> logMeta \<Rightarrow> action" where
  "overflow_action render tm a m i flt g =
     on_target i (\<lambda>e t.
       Option.bind (flushAll e t True False) (\<lambda>(e1, t1).
       Option.bind (incRef (logs e1) a) (\<lambda>hp.
         writeOverflow render tm a flt (e1\<lparr>logs := hp\<rparr>) t1))) g"

definition write_action :: "renderer \<Rightarrow> int \<times> int \<Rightarrow> bytes \<Rightarrow> nat \<Rightarrow> logMeta \<Rightarrow> action" where
  "write_action render tm s len m i flt g =
     on_target i (\<lambda>e t. target_write render tm e t s len m flt) g"

section \<open>Flushing everything\<close>

fun on_targets ::
  "(grease_env \<Rightarrow> logTarget \<Rightarrow> (grease_env \<times> logTarget) option) \<Rightarrow> TargetId list \<Rightarrow> grease \<Rightarrow> grease option" where
  "on_targets f [] g = Some g"
| "on_targets f (i # is) g = Option.bind (on_target i f g) (on_targets f is)"

text \<open>\<open>GreaseLogger::flushAll\<close>, which the flush timer calls; the default target is always flushed with
  callbacks.\<close>

definition flushAll_targets :: "bool \<Rightarrow> grease \<Rightarrow> grease option" where
  "flushAll_targets nocallbacks g =
     Option.bind (on_target 0 (\<lambda>e t. flushAll e t True False) g)
       (\<lambda>g1. on_targets (\<lambda>e t. flushAll e t True nocallbacks) (target_order g1) g1)"

definition flushTimer_cb :: "grease \<Rightarrow> grease option" where
  "flushTimer_cb g = flushAll_targets False g"

definition flushAllSync_targets :: "bool \<Rightarrow> bool \<Rightarrow> grease \<Rightarrow> grease option" where
  "flushAllSync_targets do_rotate nocallbacks g =
     Option.bind (on_target 0 (\<lambda>e t. target_flushAllSync e t True False) g)
       (\<lambda>g1. on_targets (\<lambda>e t. target_flushAllSync e t do_rotate nocallbacks) (target_order g1) g1)"

section \<open>The logger thread\<close>

definition handle_new_log :: "renderer \<Rightarrow> int \<times> int \<Rightarrow> nat \<Rightarrow> grease \<Rightarrow> grease option" where
  "handle_new_log render tm a g =
     (case logs (env g) a of
        None \<Rightarrow> None
      | Some l \<Rightarrow>
          (let s = (case hb_base (sl_buf l) of None \<Rightarrow> [] | Some b \<Rightarrow> b)
           in Option.bind (dispatch (write_action render tm s (hb_used (sl_buf l))) (sl_meta l) g)
                (\<lambda>g1. returnBuffer_master g1 a)))"

definition handle_overflow :: "renderer \<Rightarrow> int \<times> int \<Rightarrow> nat \<Rightarrow> grease \<Rightarrow> grease option" where
  "handle_overflow render tm a g =
     (case logs (env g) a of
        None \<Rightarrow> None
      | Some l \<Rightarrow>
          Option.bind (dispatch (overflow_action render tm a) (sl_meta l) g)
            (\<lambda>g1. map_option (\<lambda>hp. g1\<lparr>env := (env g1)\<lparr>logs := hp\<rparr>\<rparr>) (decRef (logs (env g1)) a)))"

definition handle_cmd :: "renderer \<Rightarrow> int \<times> int \<Rightarrow> internalCmdReq \<Rightarrow> grease \<Rightarrow> grease option" where
  "handle_cmd render tm r g =
     (case rq_c r of
        NEW_LOG \<Rightarrow> (case rq_aux r of None \<Rightarrow> None | Some a \<Rightarrow> handle_new_log render tm a g)
      | TARGET_ROTATE_BUFFER \<Rightarrow> on_target (rq_d r) (\<lambda>e t. flushAll e t False False) g
      | WRITE_TARGET_OVERFLOW \<Rightarrow>
          (case rq_aux r of None \<Rightarrow> None | Some a \<Rightarrow> handle_overflow render tm a g)
      | INTERNAL_SHUTDOWN \<Rightarrow>
          flushAllSync_targets True True
            (g\<lparr>env := (env g)\<lparr>timer_on := False\<rparr>, outputs_closed := True\<rparr>)
      | INTERNALNOOP \<Rightarrow> Some g)"

text \<open>The loop of \<open>handleInternalCmd\<close>, for at most \<open>k\<close> commands.\<close>

fun handleInternalCmd :: "renderer \<Rightarrow> int \<times> int \<Rightarrow> nat \<Rightarrow> grease \<Rightarrow> grease option" where
  "handleInternalCmd render tm 0 g = Some g"
| "handleInternalCmd render tm (Suc k) g =
     (case circ_remove (internalCmdQueue (env g)) of
        None \<Rightarrow> Some g
      | Some (r, q) \<Rightarrow>
          Option.bind (handle_cmd render tm r (g\<lparr>env := (env g)\<lparr>internalCmdQueue := q\<rparr>\<rparr>))
            (handleInternalCmd render tm k))"

definition grease_shutdown_request :: "grease \<Rightarrow> grease" where
  "grease_shutdown_request g =
     g\<lparr>env := (env g)\<lparr>internalCmdQueue :=
        snd (circ_addIfRoom (internalCmdQueue (env g)) (cmdReq INTERNAL_SHUTDOWN 0))\<rparr>\<rparr>"

section \<open>Callbacks to the user\<close>

text \<open>\<open>_doLibCallback\<close> and \<open>callV8LogCallbacks\<close>: a bank is lent to the user, and a large message is
  copied for the user and freed.\<close>

definition doLibCallback :: "writeCBData \<Rightarrow> grease \<Rightarrow> grease option" where
  "doLibCallback d g =
     (case cb_b d of
        Some b \<Rightarrow> on_target (cb_t d) (\<lambda>e t. Some (e, t\<lparr>t_lent := t_lent t @ [b]\<rparr>)) g
      | None \<Rightarrow>
          (case cb_overflow d of
             None \<Rightarrow> Some g
           | Some w \<Rightarrow>
               Option.bind (totalSize (logs (env g)) w) (\<lambda>n.
               Option.bind (copyAllTo (logs (env g)) w (LMALLOC n)) (\<lambda>out.
                 map_option (\<lambda>hp. g\<lparr>env := (env g)\<lparr>logs := hp\<rparr>\<rparr>)
                   (overflow_delete (logs (env g)) w)))))"

fun callV8LogCallbacks :: "nat \<Rightarrow> grease \<Rightarrow> grease option" where
  "callV8LogCallbacks 0 g = Some g"
| "callV8LogCallbacks (Suc k) g =
     (case circ_remove (callerLogCallbacks (env g)) of
        None \<Rightarrow> Some g
      | Some (d, q) \<Rightarrow>
          (let g1 = g\<lparr>env := (env g)\<lparr>callerLogCallbacks := q\<rparr>\<rparr>
           in Option.bind (if (case find_target g1 (cb_t d) of None \<Rightarrow> False | Some t \<Rightarrow> logCallbackSet t)
                           then doLibCallback d g1 else Some g1) (callV8LogCallbacks k)))"

text \<open>\<open>returnBufferToTarget\<close> looks only in the table of targets, where the default target is not.\<close>

definition returnBufferToTarget :: "TargetId \<Rightarrow> nat \<Rightarrow> grease \<Rightarrow> grease" where
  "returnBufferToTarget i b g =
     (case targets g i of
        None \<Rightarrow> g
      | Some t \<Rightarrow> g\<lparr>targets := (targets g)(i \<mapsto> finalizeV8Callback t b)\<rparr>)"

section \<open>What routing leaves alone\<close>

text \<open>
  Writing to targets may queue requests to flush or to write a large message, but no \<open>NEW_LOG\<close>; it
  touches no message that exists already, and creates new ones above the next free address. Large
  messages, wherever they are on their way (queued, with a device or with a callback), stay clear
  of the pool, whose addresses are those below \<open>n\<close>.
\<close>

definition clear_of :: "nat \<Rightarrow> overflowWriteOut \<Rightarrow> bool" where
  "clear_of n w \<longleftrightarrow> (\<forall>b. Some b \<in> set (ov_bufs w) \<longrightarrow> n \<le> b)"

definition cmds_clear :: "nat \<Rightarrow> grease_env \<Rightarrow> bool" where
  "cmds_clear n e \<longleftrightarrow> (\<forall>r \<in> set (circ_list (internalCmdQueue e)).
     rq_c r = WRITE_TARGET_OVERFLOW \<longrightarrow> (\<exists>a. rq_aux r = Some a \<and> n \<le> a))"

definition cb_clear :: "nat \<Rightarrow> grease_env \<Rightarrow> bool" where
  "cb_clear n e \<longleftrightarrow> circ_inv (callerLogCallbacks e) \<and>
     (\<forall>d \<in> set (circ_list (callerLogCallbacks e)). \<forall>w. cb_overflow d = Some w \<longrightarrow> clear_of n w)"

definition t_clear :: "nat \<Rightarrow> logTarget \<Rightarrow> bool" where
  "t_clear n t \<longleftrightarrow> (\<forall>w \<in> set (t_overflow t). clear_of n w)"

definition targets_clear :: "nat \<Rightarrow> grease \<Rightarrow> bool" where
  "targets_clear n g \<longleftrightarrow> (\<forall>i t. find_target g i = Some t \<longrightarrow> t_clear n t)"

lemma clear_simps [simp]:
  "cmds_clear n (e\<lparr>logs := h\<rparr>) = cmds_clear n e"
  "cmds_clear n (e\<lparr>next_log := k\<rparr>) = cmds_clear n e"
  "cmds_clear n (e\<lparr>callerLogCallbacks := c\<rparr>) = cmds_clear n e"
  "cmds_clear n (e\<lparr>timer_on := b\<rparr>) = cmds_clear n e"
  "cb_clear n (e\<lparr>logs := h\<rparr>) = cb_clear n e"
  "cb_clear n (e\<lparr>next_log := k\<rparr>) = cb_clear n e"
  "cb_clear n (e\<lparr>internalCmdQueue := q\<rparr>) = cb_clear n e"
  "cb_clear n (e\<lparr>timer_on := b\<rparr>) = cb_clear n e"
  "targets_clear n (g\<lparr>env := e\<rparr>) = targets_clear n g"
  "targets_clear n (g\<lparr>masterBufferAvail := p\<rparr>) = targets_clear n g"
  "targets_clear n (g\<lparr>filters := fs\<rparr>) = targets_clear n g"
  "targets_clear n (g\<lparr>outputs_closed := b\<rparr>) = targets_clear n g"
  by (simp_all add: cmds_clear_def cb_clear_def targets_clear_def find_target_def)

lemma cmds_clear_same: "internalCmdQueue e' = internalCmdQueue e \<Longrightarrow> cmds_clear n e' = cmds_clear n e"
  by (simp add: cmds_clear_def)

lemma cmds_clear_take:
  assumes "circ_inv (internalCmdQueue e)" "circ_remove (internalCmdQueue e) = Some (r, q)" "cmds_clear n e"
  shows "cmds_clear n (e\<lparr>internalCmdQueue := q\<rparr>)"
  using circ_remove_abs [OF assms(1,2)] assms(3) by (simp add: cmds_clear_def)

lemma cb_clear_same: "callerLogCallbacks e' = callerLogCallbacks e \<Longrightarrow> cb_clear n e' = cb_clear n e"
  by (simp add: cb_clear_def)

definition env_frame :: "grease_env \<Rightarrow> grease_env \<Rightarrow> bool" where
  "env_frame e e' \<longleftrightarrow>
     (\<exists>extra. circ_list (internalCmdQueue e') = circ_list (internalCmdQueue e) @ extra \<and>
        (\<forall>r \<in> set extra. rq_c r \<noteq> NEW_LOG)) \<and>
     circ_inv (internalCmdQueue e') \<and> csize (internalCmdQueue e') = csize (internalCmdQueue e) \<and>
     next_log e \<le> next_log e' \<and> (\<forall>a < next_log e. logs e' a = logs e a) \<and>
     (\<forall>n \<le> next_log e. cmds_clear n e \<longrightarrow> cmds_clear n e') \<and> (\<forall>n. cb_clear n e \<longrightarrow> cb_clear n e')"

definition frame :: "grease \<Rightarrow> grease \<Rightarrow> bool" where
  "frame g g' \<longleftrightarrow>
     env_frame (env g) (env g') \<and> filters g' = filters g \<and>
     masterBufferAvail g' = masterBufferAvail g \<and> bufferSize g' = bufferSize g \<and>
     defaultFilter g' = defaultFilter g \<and> dom (targets g') = dom (targets g) \<and>
     (defaultTarget g' = None \<longleftrightarrow> defaultTarget g = None) \<and>
     (\<forall>n. targets_clear n g \<longrightarrow> targets_clear n g')"

lemma env_frame_refl: "circ_inv (internalCmdQueue e) \<Longrightarrow> env_frame e e"
  by (simp add: env_frame_def)

lemma env_frame_trans:
  assumes "env_frame e1 e2" "env_frame e2 e3"
  shows "env_frame e1 e3"
proof -
  obtain x y where "circ_list (internalCmdQueue e2) = circ_list (internalCmdQueue e1) @ x"
      "\<forall>r \<in> set x. rq_c r \<noteq> NEW_LOG"
      "circ_list (internalCmdQueue e3) = circ_list (internalCmdQueue e2) @ y"
      "\<forall>r \<in> set y. rq_c r \<noteq> NEW_LOG"
    using assms unfolding env_frame_def by blast
  then have "\<exists>z. circ_list (internalCmdQueue e3) = circ_list (internalCmdQueue e1) @ z \<and>
      (\<forall>r \<in> set z. rq_c r \<noteq> NEW_LOG)" by (intro exI [of _ "x @ y"]) auto
  then show ?thesis using assms by (auto simp: env_frame_def)
qed

lemma frame_refl: "circ_inv (internalCmdQueue (env g)) \<Longrightarrow> frame g g"
  by (simp add: frame_def env_frame_refl)

lemma frame_trans: "frame g1 g2 \<Longrightarrow> frame g2 g3 \<Longrightarrow> frame g1 g3"
  unfolding frame_def using env_frame_trans by metis

lemma frame_inv: "frame g g' \<Longrightarrow> circ_inv (internalCmdQueue (env g'))"
  by (simp add: frame_def env_frame_def)

lemma refGrease_frame [simp]:
  "internalCmdQueue (refGreaseInGrease e) = internalCmdQueue e"
  "logs (refGreaseInGrease e) = logs e" "next_log (refGreaseInGrease e) = next_log e"
  by (simp_all add: refGreaseInGrease_def Let_def)

lemma env_frame_same:
  assumes "circ_inv (internalCmdQueue e)" "internalCmdQueue e' = internalCmdQueue e"
    "logs e' = logs e" "next_log e' = next_log e" "\<And>n. cb_clear n e \<Longrightarrow> cb_clear n e'"
  shows "env_frame e e'"
  using assms cmds_clear_same [OF assms(2)] by (simp add: env_frame_def)

lemma env_frame_enqueue:
  assumes "circ_inv (internalCmdQueue e)" "circ_addIfRoom (internalCmdQueue e) r = (True, q)"
    "rq_c r \<noteq> NEW_LOG" "internalCmdQueue e' = q" "next_log e \<le> next_log e'"
    "\<forall>a < next_log e. logs e' a = logs e a"
    "rq_c r = WRITE_TARGET_OVERFLOW \<longrightarrow> rq_aux r = Some (next_log e)"
    "callerLogCallbacks e' = callerLogCallbacks e"
  shows "env_frame e e'"
proof -
  have "circ_inv q" "circ_list q = circ_list (internalCmdQueue e) @ [r]"
      "csize q = csize (internalCmdQueue e)"
    using assms(2) circ_add_abs [OF assms(1), of r]
    by (auto simp: circ_addIfRoom_add split: option.splits)
  then show ?thesis using assms(3-7) cb_clear_same [OF assms(8)] by (auto simp: env_frame_def cmds_clear_def)
qed

lemma write_huge_frame:
  assumes "circ_inv (internalCmdQueue e)" "write_huge e t s len m = Some e'"
  shows "env_frame e e'"
proof -
  obtain B where B: "e' = (let (a, e1) = new_log e B;
       (ok, q) = circ_addIfRoom (internalCmdQueue e1)
         ((cmdReq WRITE_TARGET_OVERFLOW (myId t))\<lparr>rq_aux := Some a\<rparr>)
       in if ok then e1\<lparr>internalCmdQueue := q\<rparr> else delete_log e1 a)"
    using assms(2) by (auto simp: write_huge_def Let_def case_prod_beta split: option.splits)
  let ?r = "(cmdReq WRITE_TARGET_OVERFLOW (myId t))\<lparr>rq_aux := Some (next_log e)\<rparr>"
  obtain ok q where q: "circ_addIfRoom (internalCmdQueue e) ?r = (ok, q)" by force
  show ?thesis
  proof (cases ok)
    case True
    then show ?thesis using B q
      by (intro env_frame_enqueue [OF assms(1), of ?r q]) (auto simp: new_log_def cmdReq_def)
  next
    case False
    then show ?thesis using B q assms(1) by (auto simp: env_frame_def new_log_def delete_log_def)
  qed
qed

lemma rotate_overflow [simp]: "t_overflow (snd (rotate_bank t)) = t_overflow t"
  by (auto simp: rotate_bank_def set_bank_def Let_def split: option.splits prod.splits)

lemma put_message_overflow: "put_message t hdr hn s len ftr fn = Some t' \<Longrightarrow> t_overflow t' = t_overflow t"
  by (auto simp: put_message_def bind_eq_Some_conv set_bank_def Let_def split: if_splits)

lemma target_write_frame:
  assumes "circ_inv (internalCmdQueue e)" "target_write render tm e t s len m flt = Some (e', t')"
  shows "env_frame e e' \<and> t_overflow t' = t_overflow t"
proof -
  consider "e' = e \<and> t' = t" | "write_huge e t s len m = Some e' \<and> t' = t"
    | hdr hn ftr fn where "write_framed (e\<lparr>header_buffer := hdr, footer_buffer := ftr\<rparr>) t hdr hn s len ftr fn
        = Some (e', t')"
  proof (cases "t_disabled t \<or> bankSize t < len + GREASE_MAX_PREFIX_HEADER")
    case True
    then show ?thesis using that(1,2) assms(2) by (cases "t_disabled t") (auto simp: target_write_def)
  next
    case False
    then obtain hdr hn ftr fn where
      "write_framed (e\<lparr>header_buffer := hdr, footer_buffer := ftr\<rparr>) t hdr hn s len ftr fn = Some (e', t')"
      using assms(2) by (simp add: target_write_def split: option.split_asm prod.split_asm)
    then show ?thesis by (rule that(3))
  qed
  then show ?thesis
  proof cases
    case 1
    then show ?thesis using env_frame_refl [OF assms(1)] by simp
  next
    case 2
    then show ?thesis using write_huge_frame [OF assms(1)] by blast
  next
    case 3
    let ?r = "cmdReq TARGET_ROTATE_BUFFER (myId t)"
    obtain ok q where q: "circ_addIfRoom (internalCmdQueue e) ?r = (ok, q)" by force
    have c: "internalCmdQueue e' = internalCmdQueue e \<or> ok \<and> internalCmdQueue e' = q"
      "logs e' = logs e" "next_log e' = next_log e" "callerLogCallbacks e' = callerLogCallbacks e"
      "t_overflow t' = t_overflow t"
      using 3 q by (auto simp: write_framed_def Let_def case_prod_beta refGreaseInGrease_def
          dest: put_message_overflow split: if_splits)
    then show ?thesis
      using env_frame_same [OF assms(1)] env_frame_enqueue [OF assms(1), of ?r q] q cb_clear_same [OF c(4)]
      by (auto simp: cmdReq_def)
  qed
qed

lemma put_target_clear: "targets_clear n g \<Longrightarrow> t_clear n t' \<Longrightarrow> targets_clear n (put_target g i (e', t'))"
  by (auto simp: targets_clear_def put_target_def find_target_def split: if_splits)

lemma on_target_frame:
  assumes "circ_inv (internalCmdQueue (env g))" "on_target i f g = Some g'"
    "\<And>t e' t'. find_target g i = Some t \<Longrightarrow> f (env g) t = Some (e', t') \<Longrightarrow>
      env_frame (env g) e' \<and> t_overflow t' = t_overflow t"
  shows "frame g g'"
proof (cases "find_target g i")
  case None
  then show ?thesis using assms(1,2) frame_refl by (simp add: on_target_def)
next
  case (Some t)
  then obtain e' t' where f: "f (env g) t = Some (e', t')" "g' = put_target g i (e', t')"
    using assms(2) by (auto simp: on_target_def)
  note k = assms(3) [OF Some f(1)]
  have "targets_clear n g'" if "targets_clear n g" for n
  proof -
    have "t_clear n t" using that Some unfolding targets_clear_def by blast
    then have "t_clear n t'" using k by (simp add: t_clear_def)
    then show ?thesis using put_target_clear [OF that] f(2) by blast
  qed
  then show ?thesis
    using k Some f(2) by (auto simp: frame_def put_target_def find_target_def split: if_splits)
qed

lemma write_action_frame:
  assumes "circ_inv (internalCmdQueue (env g))" "write_action render tm s len m i flt g = Some g'"
  shows "frame g g'"
  by (rule on_target_frame [OF assms(1) assms(2) [unfolded write_action_def]])
    (rule target_write_frame [OF assms(1)])

section \<open>The recipients of a message\<close>

definition matches :: "extra_logMeta \<Rightarrow> Filter \<Rightarrow> bool" where
  "matches em f \<longleftrightarrow> f_levelMask f AND m_level (em_m em) \<noteq> 0 \<and> \<not> f_disabled f"

text \<open>A filter that selects its target, and one whose target exists and gets the message.\<close>

definition hits :: "grease \<Rightarrow> extra_logMeta \<Rightarrow> Filter \<Rightarrow> bool" where
  "hits g em f \<longleftrightarrow> matches em f \<and>
     (f_targetId f = 0 \<or> \<not> ignored em (f_targetId f) \<and> f_targetId f \<in> dom (targets g))"

definition reaches :: "grease \<Rightarrow> extra_logMeta \<Rightarrow> Filter \<Rightarrow> bool" where
  "reaches g em f \<longleftrightarrow> hits g em f \<and> (f_targetId f = 0 \<longrightarrow> defaultTarget g \<noteq> None)"

definition recipients :: "grease \<Rightarrow> extra_logMeta \<Rightarrow> Filter list \<Rightarrow> (TargetId \<times> Filter) list" where
  "recipients g em fs =
     (if \<exists>f \<in> set fs. hits g em f
      then map (\<lambda>f. (f_targetId f, f)) (filter (reaches g em) fs)
      else if defaultTarget g \<noteq> None then [(0, defaultFilter g)] else [])"

fun run_acts :: "action \<Rightarrow> (TargetId \<times> Filter) list \<Rightarrow> grease \<Rightarrow> grease option" where
  "run_acts act [] g = Some g"
| "run_acts act ((i, f) # rs) g = Option.bind (act i f g) (run_acts act rs)"

lemma run_acts_append: "run_acts act (xs @ ys) g = Option.bind (run_acts act xs g) (run_acts act ys)"
  by (induction xs arbitrary: g) (auto split: bind_splits)

lemma run_acts_one: "run_acts act [(i, f)] g = act i f g"
  by (cases "act i f g") simp_all

definition frame_act :: "action \<Rightarrow> bool" where
  "frame_act act \<longleftrightarrow> (\<forall>i f g g'. circ_inv (internalCmdQueue (env g)) \<longrightarrow>
     act i f g = Some g' \<longrightarrow> frame g g')"

lemma reaches_frame: "frame g g' \<Longrightarrow> hits g' em f = hits g em f \<and> reaches g' em f = reaches g em f"
  by (auto simp: reaches_def hits_def frame_def)

lemma run_acts_frame:
  assumes "frame_act act" "circ_inv (internalCmdQueue (env g))" "run_acts act rs g = Some g'"
  shows "frame g g'"
  using assms(2,3)
proof (induction rs arbitrary: g)
  case Nil
  then show ?case by (simp add: frame_refl)
next
  case (Cons r rs)
  obtain i f where r: "r = (i, f)" by force
  obtain g1 where g1: "act i f g = Some g1" "run_acts act rs g1 = Some g'"
    using Cons.prems(2) r by (auto simp: bind_eq_Some_conv)
  have "frame g g1" using assms(1) Cons.prems(1) g1(1) unfolding frame_act_def by blast
  then show ?case using Cons.IH [OF _ g1(2)] frame_inv frame_trans by blast
qed

lemma route_filter_run:
  "route_filter act em f (g, w) =
     map_option (\<lambda>g'. (g', w \<or> hits g em f))
       (run_acts act (if reaches g em f then [(f_targetId f, f)] else []) g)"
  by (auto simp: route_filter_def reaches_def hits_def matches_def split: bind_splits)

lemma route_list_run:
  assumes "frame_act act" "circ_inv (internalCmdQueue (env g))" "\<forall>f \<in> set fs. f_id f \<noteq> 0" "f_id z = 0"
  shows "route_list act em (fs @ z # rest) (g, w) =
     map_option (\<lambda>g'. (g', w \<or> (\<exists>f \<in> set fs. hits g em f)))
       (run_acts act (map (\<lambda>f. (f_targetId f, f)) (filter (reaches g em) fs)) g)"
  using assms(2,3)
proof (induction fs arbitrary: g w)
  case Nil
  then show ?case using assms(4) by simp
next
  case (Cons f fs)
  let ?r = "if reaches g em f then [(f_targetId f, f)] else []"
  show ?case
  proof (cases "run_acts act ?r g")
    case None
    then show ?thesis using Cons.prems(2)
      by (auto simp: route_filter_run run_acts_append [of act ?r, simplified] split: if_splits bind_splits)
  next
    case (Some g1)
    have fr: "frame g g1" by (rule run_acts_frame [OF assms(1) Cons.prems(1) Some])
    have same: "hits g1 em = hits g em" "reaches g1 em = reaches g em"
      using reaches_frame [OF fr] by auto
    have "route_list act em ((f # fs) @ z # rest) (g, w) =
        route_list act em (fs @ z # rest) (g1, w \<or> hits g em f)"
      using Cons.prems(2) Some by (simp add: route_filter_run)
    also have "\<dots> = map_option (\<lambda>g'. (g', (w \<or> hits g em f) \<or> (\<exists>f \<in> set fs. hits g em f)))
       (run_acts act (map (\<lambda>f. (f_targetId f, f)) (filter (reaches g em) fs)) g1)"
      using Cons.IH [OF frame_inv [OF fr], of "w \<or> hits g em f"] Cons.prems(2) same by simp
    also have "run_acts act (map (\<lambda>f. (f_targetId f, f)) (filter (reaches g em) fs)) g1 =
        run_acts act (map (\<lambda>f. (f_targetId f, f)) (filter (reaches g em) (f # fs))) g"
      using Some by (cases "reaches g em f") (auto simp: bind_eq_Some_conv)
    finally show ?thesis by (auto intro!: arg_cong2 [where f = map_option])
  qed
qed

definition filters_of :: "filter_state \<Rightarrow> u64 \<Rightarrow> Filter list" where
  "filters_of st p = (if p = 0 then [] else (case fl_heap st p of None \<Rightarrow> [] | Some l \<Rightarrow> active l))"

lemma listed_filters_of: "listed st m = concat (map (filters_of st) (cached_lists m))"
  unfolding listed_def filters_of_def [abs_def] ..

text \<open>A pointer the loop can follow: \<open>NULL\<close>, or a list with a free place to stop at.\<close>

definition walkable :: "filter_state \<Rightarrow> u64 \<Rightarrow> bool" where
  "walkable st p \<longleftrightarrow> p = 0 \<or>
     (\<exists>l. fl_heap st p = Some l \<and> fl_inv l \<and> length (active l) < MAX_IDENTICAL_FILTERS)"

lemma bloom_miss:
  assumes "fl_inv l" "\<not> FilterList_valid l (m_level (em_m em))" "f \<in> set (active l)"
  shows "\<not> hits g em f"
proof -
  have z: "fl_bloom l AND m_level (em_m em) = 0" using assms(2) by (simp add: FilterList_valid_def)
  have "f_levelMask f AND fl_bloom l = f_levelMask f" using assms(1,3) by (simp add: fl_inv_def)
  then have "f_levelMask f AND m_level (em_m em) = f_levelMask f AND (fl_bloom l AND m_level (em_m em))"
    by (metis and.assoc)
  then have "f_levelMask f AND m_level (em_m em) = 0" using z by simp
  then show ?thesis by (simp add: hits_def matches_def)
qed

lemma route_lists_run:
  assumes "frame_act act" "circ_inv (internalCmdQueue (env g))"
    "\<forall>p \<in> set ps. walkable (filters g) p"
  shows "route_lists act em ps (g, w) =
     map_option (\<lambda>g'. (g', w \<or> (\<exists>f \<in> set (concat (map (filters_of (filters g)) ps)). hits g em f)))
       (run_acts act (map (\<lambda>f. (f_targetId f, f))
          (filter (reaches g em) (concat (map (filters_of (filters g)) ps)))) g)"
  using assms(2,3)
proof (induction ps arbitrary: g w)
  case Nil
  then show ?case by simp
next
  case (Cons p ps)
  let ?rest = "\<lambda>g. concat (map (filters_of (filters g)) ps)"
  show ?case
  proof (cases "p = 0")
    case True
    then show ?thesis using Cons.IH [OF Cons.prems(1)] Cons.prems(2) by (simp add: filters_of_def)
  next
    case False
    then obtain l where l: "fl_heap (filters g) p = Some l" "fl_inv l"
        "length (active l) < MAX_IDENTICAL_FILTERS"
      using Cons.prems(2) by (auto simp: walkable_def)
    have fo: "filters_of (filters g) p = active l" using False l by (simp add: filters_of_def)
    show ?thesis
    proof (cases "FilterList_valid l (m_level (em_m em))")
      case invalid: False
      have "\<forall>f \<in> set (active l). \<not> hits g em f" using bloom_miss [OF l(2) invalid] by blast
      then have "filter (reaches g em) (active l) = []" "\<not> (\<exists>f \<in> set (active l). hits g em f)"
        by (auto simp: reaches_def filter_empty_conv)
      then show ?thesis using Cons.IH [OF Cons.prems(1)] Cons.prems(2) invalid False l(1) fo
        by (simp add: bex_Un)
    next
      case True
      obtain k where k: "MAX_IDENTICAL_FILTERS - length (active l) = Suc k"
        using l(3) by (metis Suc_diff_Suc)
      have sp: "fl_list l = active l @ Filter_empty # replicate k Filter_empty"
        using active_split(1) [OF l(2)] k by simp
      have ids: "\<forall>f \<in> set (active l). f_id f \<noteq> 0" using active_ids by blast
      let ?a = "map (\<lambda>f. (f_targetId f, f)) (filter (reaches g em) (active l))"
      have r: "route_list act em (fl_list l) (g, w) =
          map_option (\<lambda>g'. (g', w \<or> (\<exists>f \<in> set (active l). hits g em f))) (run_acts act ?a g)"
        unfolding sp by (rule route_list_run [OF assms(1) Cons.prems(1) ids Filter_empty_id])
      show ?thesis
      proof (cases "run_acts act ?a g")
        case None
        then show ?thesis using r False True l(1) fo by (simp add: run_acts_append)
      next
        case (Some g1)
        have fr: "frame g g1" by (rule run_acts_frame [OF assms(1) Cons.prems(1) Some])
        have same: "hits g1 em = hits g em" "reaches g1 em = reaches g em" "filters g1 = filters g"
          using reaches_frame [OF fr] fr by (auto simp: frame_def)
        show ?thesis
          using Cons.IH [OF frame_inv [OF fr]] Cons.prems(2) r Some False True l(1) fo same
          by (auto simp: run_acts_append disj_assoc intro!: arg_cong2 [where f = map_option])
      qed
    qed
  qed
qed

lemma dispatch_run:
  assumes "frame_act (act m)" "circ_inv (internalCmdQueue (env g))" "sift (filters g) (em_m em) = (True, m)"
    "\<forall>p \<in> set (cached_lists m). walkable (filters g) p"
  shows "dispatch act em g = run_acts (act m) (recipients g (em\<lparr>em_m := m\<rparr>) (listed (filters g) m)) g"
proof -
  let ?em = "em\<lparr>em_m := m\<rparr>" let ?fs = "listed (filters g) m"
  let ?rs = "map (\<lambda>f. (f_targetId f, f)) (filter (reaches g ?em) ?fs)"
  have d: "dispatch act em g = Option.bind (run_acts (act m) ?rs g)
     (\<lambda>g'. if \<not> (\<exists>f \<in> set ?fs. hits g ?em f) \<and> defaultTarget g' \<noteq> None
           then act m 0 (defaultFilter g') g' else Some g')"
    using assms(3) route_lists_run [OF assms(1,2,4), of ?em False]
    by (cases "run_acts (act m) ?rs g") (simp_all add: dispatch_def listed_filters_of)
  show ?thesis
  proof (cases "\<exists>f \<in> set ?fs. hits g ?em f")
    case True
    then show ?thesis using d by (simp add: recipients_def)
  next
    case False
    then have "run_acts (act m) ?rs g = Some g" by (simp add: reaches_def filter_False)
    then show ?thesis using d False by (simp add: recipients_def run_acts_one del: run_acts.simps(2))
  qed
qed

section \<open>Handling a message\<close>

text \<open>The addresses of the pool: free, queued for the logger thread, or grabbed by a sink.\<close>

definition queued :: "grease \<Rightarrow> nat list" where
  "queued g = map (\<lambda>r. the (rq_aux r))
     (filter (\<lambda>r. rq_c r = NEW_LOG) (circ_list (internalCmdQueue (env g))))"

definition pool_log :: "nat \<Rightarrow> singleLog option \<Rightarrow> bool" where
  "pool_log sz x \<longleftrightarrow> (case x of None \<Rightarrow> False
     | Some l \<Rightarrow> hb_base (sl_buf l) \<noteq> None \<and> hb_ok (sl_buf l) \<and> hb_len (sl_buf l) = sz)"

definition pool_inv :: "nat \<Rightarrow> nat list \<Rightarrow> grease \<Rightarrow> bool" where
  "pool_inv n grabbed g \<longleftrightarrow>
     circ_inv (masterBufferAvail g) \<and> csize (masterBufferAvail g) = int n \<and>
     circ_inv (internalCmdQueue (env g)) \<and>
     (\<forall>r \<in> set (circ_list (internalCmdQueue (env g))). rq_c r = NEW_LOG \<longrightarrow> rq_aux r \<noteq> None) \<and>
     n \<le> next_log (env g) \<and> (\<forall>a < n. pool_log (bufferSize g) (logs (env g) a)) \<and>
     cmds_clear n (env g) \<and> cb_clear n (env g) \<and> targets_clear n g \<and>
     mset (circ_list (masterBufferAvail g) @ queued g @ grabbed) = mset [0..<n]"

lemma pool_member:
  assumes "pool_inv n gr g" "a \<in> set (circ_list (masterBufferAvail g) @ queued g @ gr)"
  shows "a < n" "\<exists>l. logs (env g) a = Some l"
proof -
  have "a \<in> set [0..<n]" using assms mset_eq_setD unfolding pool_inv_def by blast
  then show "a < n" by simp
  then show "\<exists>l. logs (env g) a = Some l"
    using assms(1) by (auto simp: pool_inv_def pool_log_def split: option.splits)
qed

lemma frame_queued: "frame g g' \<Longrightarrow> queued g' = queued g"
proof -
  assume "frame g g'"
  then obtain x where "circ_list (internalCmdQueue (env g')) = circ_list (internalCmdQueue (env g)) @ x"
      "\<forall>r \<in> set x. rq_c r \<noteq> NEW_LOG" unfolding frame_def env_frame_def by blast
  then show ?thesis by (simp add: queued_def filter_False)
qed

lemma frame_pool_inv:
  assumes "frame g g'" "pool_inv n gr g"
  shows "pool_inv n gr g'"
proof -
  have f: "masterBufferAvail g' = masterBufferAvail g" "env_frame (env g) (env g')"
    using assms(1) by (auto simp: frame_def)
  then obtain x where x: "circ_list (internalCmdQueue (env g')) = circ_list (internalCmdQueue (env g)) @ x"
      "\<forall>r \<in> set x. rq_c r \<noteq> NEW_LOG" unfolding env_frame_def by blast
  have "\<forall>a < n. pool_log (bufferSize g') (logs (env g') a)"
  proof (intro allI impI)
    fix a assume a: "a < n"
    then have "a < next_log (env g)" using assms(2) by (simp add: pool_inv_def)
    then show "pool_log (bufferSize g') (logs (env g') a)"
      using f(2) a assms by (auto simp: env_frame_def pool_inv_def frame_def)
  qed
  then show ?thesis
    using f x assms frame_queued [OF assms(1)] frame_inv [OF assms(1)]
    by (auto simp: pool_inv_def env_frame_def frame_def)
qed

text \<open>Giving a buffer back to the pool always works, since no one else has it.\<close>

lemma returnBuffer_master_inv:
  assumes "pool_inv n (a # gr) g"
  shows "\<exists>g'. returnBuffer_master g a = Some g' \<and> pool_inv n gr g' \<and>
    internalCmdQueue (env g') = internalCmdQueue (env g) \<and>
    circ_list (masterBufferAvail g') = circ_list (masterBufferAvail g) @ [a] \<and>
    targets g' = targets g \<and> defaultTarget g' = defaultTarget g"
proof -
  obtain l where l: "logs (env g) a = Some l" using pool_member(2) [OF assms, of a] by auto
  have c: "circ_inv (masterBufferAvail g)" "csize (masterBufferAvail g) = int n"
    using assms by (auto simp: pool_inv_def)
  have "size (mset (circ_list (masterBufferAvail g) @ queued g @ a # gr)) = n"
    using assms by (simp add: pool_inv_def)
  then have "length (circ_list (masterBufferAvail g)) < nat (csize (masterBufferAvail g))"
    using c(2) by simp
  then obtain q where q: "circ_add (masterBufferAvail g) a = Some q"
    using circ_add_None_iff [OF c(1), of a] by (cases "circ_add (masterBufferAvail g) a") auto
  note qa = circ_add_abs [OF c(1) q]
  have "pool_log (bufferSize g) (Some (singleLog_clear l))"
    using assms l pool_member(1) [OF assms, of a]
    by (auto simp: pool_inv_def pool_log_def singleLog_clear_def hb_ok_def dest!: spec [of _ a]
        split: option.splits)
  then show ?thesis using assms l q qa
    by (auto simp: returnBuffer_master_def pool_inv_def queued_def)
qed

text \<open>What every action keeps, routing keeps.\<close>

lemma route_list_rel:
  assumes R: "\<And>g. R g g" "\<And>a b c. R a b \<Longrightarrow> R b c \<Longrightarrow> R a c"
    and act: "\<And>i f g g'. act i f g = Some g' \<Longrightarrow> R g g'"
  shows "route_list act em fs (g, w) = Some (g', w') \<Longrightarrow> R g g'"
proof (induction fs arbitrary: g w)
  case Nil
  then show ?case by simp
next
  case (Cons f fs)
  show ?case
  proof (cases "f_id f = 0")
    case True
    then show ?thesis using Cons.prems R(1) by simp
  next
    case False
    then obtain g1 w1 where 1: "route_filter act em f (g, w) = Some (g1, w1)"
        "route_list act em fs (g1, w1) = Some (g', w')"
      using Cons.prems by (auto simp: bind_eq_Some_conv)
    have "R g g1" using 1(1) R(1) act by (auto simp: route_filter_def split: if_splits)
    then show ?thesis using Cons.IH [OF 1(2)] R(2) by blast
  qed
qed

lemma route_lists_rel:
  assumes R: "\<And>g. R g g" "\<And>a b c. R a b \<Longrightarrow> R b c \<Longrightarrow> R a c"
    and act: "\<And>i f g g'. act i f g = Some g' \<Longrightarrow> R g g'"
  shows "route_lists act em ps (g, w) = Some (g', w') \<Longrightarrow> R g g'"
proof (induction ps arbitrary: g w)
  case Nil
  then show ?case using R(1) by simp
next
  case (Cons p ps)
  show ?case
  proof (cases "route_lists act em ps (g, w) = Some (g', w')")
    case True
    then show ?thesis by (rule Cons.IH)
  next
    case False
    then obtain l :: FilterList and g1 w1 where 1: "route_list act em (fl_list l) (g, w) = Some (g1, w1)"
        "route_lists act em ps (g1, w1) = Some (g', w')"
      using Cons.prems by (fastforce simp: bind_eq_Some_conv split: if_splits option.splits)
    have "R g g1" by (rule route_list_rel [of R act, OF _ _ _ 1(1)]) (blast intro: R act)+
    then show ?thesis using Cons.IH [OF 1(2)] R(2) by blast
  qed
qed

lemma dispatch_rel:
  assumes R: "\<And>g. R g g" "\<And>a b c. R a b \<Longrightarrow> R b c \<Longrightarrow> R a c"
    and act: "\<And>m i f g g'. act m i f g = Some g' \<Longrightarrow> R g g'"
    and d: "dispatch act em g = Some g'"
  shows "R g g'"
proof (cases "sift (filters g) (em_m em)")
  case (Pair ok m)
  show ?thesis
  proof (cases ok)
    case True
    then obtain g1 w where 1: "route_lists (act m) (em\<lparr>em_m := m\<rparr>) (cached_lists m) (g, False) = Some (g1, w)"
        "(if \<not> w \<and> defaultTarget g1 \<noteq> None then act m 0 (defaultFilter g1) g1 else Some g1) = Some g'"
      using d Pair by (auto simp: dispatch_def bind_eq_Some_conv)
    have "R g g1" by (rule route_lists_rel [of R "act m", OF _ _ _ 1(1)]) (blast intro: R act)+
    moreover have "R g1 g'" using 1(2) R(1) act by (auto split: if_splits)
    ultimately show ?thesis by (rule R(2))
  next
    case False
    then show ?thesis using Pair d R(1) by (simp add: dispatch_def)
  qed
qed

lemma dispatch_frame:
  assumes "\<And>m. frame_act (act m)" "circ_inv (internalCmdQueue (env g))" "dispatch act em g = Some g'"
  shows "frame g g'"
proof -
  let ?R = "\<lambda>g g'. circ_inv (internalCmdQueue (env g)) \<longrightarrow> frame g g'"
  have "?R g g'"
    by (rule dispatch_rel [of ?R act, OF _ _ _ assms(3)])
      (use assms(1) frame_refl frame_trans frame_inv in \<open>unfold frame_act_def, blast+\<close>)
  then show ?thesis using assms(2) by blast
qed

lemma write_frame_act: "frame_act (write_action render tm s len m)"
  unfolding frame_act_def using write_action_frame by blast

lemma handle_new_log_inv:
  assumes "pool_inv n (a # gr) g" "handle_new_log render tm a g = Some g'"
  shows "pool_inv n gr g' \<and> a \<in> set (circ_list (masterBufferAvail g'))"
proof -
  obtain s len and l :: singleLog and g1 where g1: "dispatch (write_action render tm s len) (sl_meta l) g = Some g1"
      "returnBuffer_master g1 a = Some g'"
    using assms(2) by (fastforce simp: handle_new_log_def Let_def bind_eq_Some_conv split: option.splits)
  have "circ_inv (internalCmdQueue (env g))" using assms(1) by (simp add: pool_inv_def)
  from dispatch_frame [OF write_frame_act this g1(1)] have "frame g g1" .
  then have "pool_inv n (a # gr) g1" using frame_pool_inv assms(1) by blast
  from returnBuffer_master_inv [OF this] g1(2) show ?thesis by auto
qed

text \<open>Putting a filled buffer on the queue, or back.\<close>

lemma enqueue_buffer_inv:
  assumes "pool_inv n (a # gr) g" "pool_log (bufferSize g) (Some l)"
  shows "\<exists>g'. enqueue_buffer g a l = Some g' \<and> pool_inv n gr g' \<and>
    (length (circ_list (internalCmdQueue (env g))) < nat (csize (internalCmdQueue (env g))) \<longrightarrow>
       circ_list (internalCmdQueue (env g')) =
         circ_list (internalCmdQueue (env g)) @ [(cmdReq NEW_LOG 0)\<lparr>rq_aux := Some a\<rparr>] \<and>
       logs (env g') a = Some l)"
proof -
  let ?r = "(cmdReq NEW_LOG 0)\<lparr>rq_aux := Some a\<rparr>"
  have c: "circ_inv (internalCmdQueue (env g))" using assms(1) by (simp add: pool_inv_def)
  obtain ok q where q: "circ_addIfRoom (internalCmdQueue (env g)) ?r = (ok, q)" by force
  have room: "ok" if "length (circ_list (internalCmdQueue (env g))) < nat (csize (internalCmdQueue (env g)))"
    using circ_addIfRoom_ok [OF c that, of ?r] q by auto
  show ?thesis
  proof (cases ok)
    case True
    then have "circ_inv q" "circ_list q = circ_list (internalCmdQueue (env g)) @ [?r]"
      using q circ_add_abs [OF c, of ?r] by (auto simp: circ_addIfRoom_add split: option.splits)
    then show ?thesis
      using True q assms by (auto simp: enqueue_buffer_def pool_inv_def queued_def cmdReq_def cmds_clear_def)
  next
    case False
    have an: "a < n" using pool_member(1) [OF assms(1), of a] by auto
    let ?g = "g\<lparr>env := (env g)\<lparr>logs := (logs (env g))(a \<mapsto> l)\<rparr>\<rparr>"
    have "pool_inv n (a # gr) ?g" using assms an by (auto simp: pool_inv_def queued_def)
    from returnBuffer_master_inv [OF this] obtain g' where
      g': "returnBuffer_master ?g a = Some g'" "pool_inv n gr g'" by blast
    have "enqueue_buffer g a l = returnBuffer_master ?g a"
      using False q by (simp add: enqueue_buffer_def returnBuffer_master_def)
    then show ?thesis using g' room False by auto
  qed
qed

lemma log_pooled_inv:
  assumes "pool_inv n gr g" "len \<le> bufferSize g" "len \<le> length s"
  shows "\<exists>g'. log_pooled g meta s len = Some (GREASE_OK, g') \<and> pool_inv n gr g' \<and>
    (circ_list (masterBufferAvail g) = [] \<longrightarrow> g' = g) \<and>
    (circ_list (masterBufferAvail g) \<noteq> [] \<longrightarrow>
     length (circ_list (internalCmdQueue (env g))) < nat (csize (internalCmdQueue (env g))) \<longrightarrow>
       (\<exists>l b. circ_list (internalCmdQueue (env g')) = circ_list (internalCmdQueue (env g))
            @ [(cmdReq NEW_LOG 0)\<lparr>rq_aux := Some (hd (circ_list (masterBufferAvail g)))\<rparr>] \<and>
          logs (env g') (hd (circ_list (masterBufferAvail g))) = Some l \<and>
          hb_base (sl_buf l) = Some b \<and> hb_used (sl_buf l) = len \<and> take len b = take len s \<and>
          em_m (sl_meta l) = em_m meta))"
proof (cases "circ_remove (masterBufferAvail g)")
  case None
  have "circ_inv (masterBufferAvail g)" using assms(1) by (simp add: pool_inv_def)
  then have "circ_list (masterBufferAvail g) = []" using None circ_remove_None_iff by blast
  then show ?thesis using None assms(1) by (simp add: log_pooled_def)
next
  case (Some ap)
  obtain a pool where ap: "ap = (a, pool)" by force
  have c: "circ_inv (masterBufferAvail g)" using assms(1) by (simp add: pool_inv_def)
  note pl = circ_remove_abs [OF c Some [unfolded ap]]
  have "a < n" using pool_member(1) [OF assms(1), of a] pl(2) by simp
  then obtain l base where l: "logs (env g) a = Some l" "hb_base (sl_buf l) = Some base"
      "hb_ok (sl_buf l)" "hb_len (sl_buf l) = bufferSize g"
    using assms(1) by (auto simp: pool_inv_def pool_log_def dest!: spec [of _ a] split: option.splits)
  let ?b = "(sl_buf l)\<lparr>hb_base := Some (take len s @ drop len base), hb_used := len\<rparr>"
  let ?l = "l\<lparr>sl_buf := ?b, sl_meta := stored_meta (sl_meta l) meta\<rparr>"
  have mc: "hb_memcpy (sl_buf l) s len None = Some (len, ?b)"
    using hb_memcpy_plain [OF l(3,2), of len s] l(4) assms(2,3) by (simp add: min_def)
  have lb: "length base = bufferSize g" using l by (simp add: hb_ok_def)
  let ?g = "g\<lparr>masterBufferAvail := pool\<rparr>"
  have "mset (circ_list pool @ queued ?g @ a # gr) = mset (circ_list (masterBufferAvail g) @ queued g @ gr)"
    using pl(2) by (simp add: queued_def)
  then have pg: "pool_inv n (a # gr) ?g" using assms(1) pl by (simp add: pool_inv_def)
  have "pool_log (bufferSize ?g) (Some ?l)"
    using l assms(2,3) lb by (simp add: pool_log_def hb_ok_def)
  from enqueue_buffer_inv [OF pg this] obtain g' where g': "enqueue_buffer ?g a ?l = Some g'"
      "pool_inv n gr g'"
      "length (circ_list (internalCmdQueue (env g))) < nat (csize (internalCmdQueue (env g))) \<longrightarrow>
       circ_list (internalCmdQueue (env g')) =
         circ_list (internalCmdQueue (env g)) @ [(cmdReq NEW_LOG 0)\<lparr>rq_aux := Some a\<rparr>] \<and>
       logs (env g') a = Some ?l" by auto
  have "log_pooled g meta s len = Some (GREASE_OK, g')"
    using Some ap l(1) mc g'(1) by (simp add: log_pooled_def)
  moreover have "em_m (sl_meta ?l) = em_m meta" by (simp add: stored_meta_def)
  moreover have "take len (take len s @ drop len base) = take len s" using assms(3) by simp
  ultimately show ?thesis using g'(2,3) pl(2) by auto
qed

end
