(* ===== verification/Routing.thy ===== *)
theory Routing
  imports Dispatch
begin

text \<open>
  What the logger of \<open>Dispatch\<close> promises: a message is written to the targets that the most
  specific filters name, from the call that accepts it to the command that handles it; the pool
  of buffers is conserved by every call and command; the loop of the logger thread ends; and what
  happens to a full list of filters, to a large message and to a buffer of the default target.
\<close>

section \<open>Sifting twice\<close>

lemma sift_idem:
  assumes "sift st m = (True, m')"
  shows "sift st m' = (True, m')"
proof -
  have l: "levelFilterOutMask st AND m_level m = 0" using assms by (auto simp: sift_def split: if_splits)
  show ?thesis
  proof (cases "META_HAS_CACHE m")
    case True
    then show ?thesis using assms l by (simp add: sift_def)
  next
    case False
    let ?hs = "getHashes (m_tag m) (m_origin m)"
    show ?thesis
    proof (cases "find_list st ?hs")
      case None
      then show ?thesis using assms l False by (auto simp: sift_def Let_def)
    next
      case (Some np)
      then show ?thesis using assms l False
        by (cases np) (auto simp: sift_def Let_def META_SET_LIST_def)
    qed
  qed
qed

lemma sift_keeps:
  "sift st m = (ok, m') \<Longrightarrow>
     m_level m' = m_level m \<and> m_tag m' = m_tag m \<and> m_origin m' = m_origin m \<and>
     m_extras m' = m_extras m"
  by (auto simp: sift_def Let_def META_SET_LIST_def split: if_splits option.splits)

text \<open>The filters of the most specific match of a message, and that the loop can walk them.\<close>

definition chosen :: "filter_state \<Rightarrow> logMeta \<Rightarrow> Filter list" where
  "chosen st m = (case selected st m of None \<Rightarrow> [] | Some h \<Rightarrow> filters_at st h)"

definition fresh :: "logMeta \<Rightarrow> bool" where
  "fresh m \<longleftrightarrow> cached_lists m = [0, 0, 0, 0] \<and> \<not> META_HAS_CACHE m"

lemma sift_walkable:
  assumes "filter_inv st" "fresh m" "length (chosen st m) < MAX_IDENTICAL_FILTERS"
    "sift st m = (True, m')"
  shows "\<forall>p \<in> set (cached_lists m'). walkable st p" "listed st m' = chosen st m"
proof -
  have l: "levelFilterOutMask st AND m_level m = 0" using assms(4) by (auto simp: sift_def split: if_splits)
  show ls: "listed st m' = chosen st m"
    using sift_spec [OF assms(1) _ _ assms(4)] assms(2) l by (simp add: chosen_def fresh_def)
  let ?hs = "getHashes (m_tag m) (m_origin m)"
  show "\<forall>p \<in> set (cached_lists m'). walkable st p"
  proof (cases "find_list st ?hs")
    case None
    then have "cached_lists m' = [0, 0, 0, 0]" using assms(2,4) l by (auto simp: sift_def fresh_def Let_def)
    then show ?thesis by (simp add: walkable_def)
  next
    case (Some np)
    obtain n p where np: "np = (n, p)" by force
    obtain h where h: "selected st m = Some h" "filterHashTable st h = Some p"
      using Some np by (auto simp: find_list_selected split: option.splits)
    obtain fl where fl: "p \<noteq> 0" "fl_heap st p = Some fl" "fl_inv fl"
      using h(2) assms(1) unfolding filter_inv_def by blast
    have "length (active fl) < MAX_IDENTICAL_FILTERS"
      using assms(3) h fl by (simp add: chosen_def filters_at_def)
    then have w: "walkable st p" using fl by (auto simp: walkable_def)
    have "cached_lists m' = [0, 0, 0, 0][n := p]"
      using assms(2,4) l Some np by (auto simp: sift_def fresh_def Let_def META_SET_LIST_def)
    then have "set (cached_lists m') \<subseteq> insert p {0}"
      using set_update_subset_insert [of "[0, 0, 0, 0]" n p] by auto
    then show ?thesis using w by (auto simp: walkable_def)
  qed
qed

section \<open>Routing\<close>

lemma dispatch_chosen:
  assumes "\<And>m. frame_act (act m)" "circ_inv (internalCmdQueue (env g))" "filter_inv (filters g)"
    "fresh m0" "length (chosen (filters g) m0) < MAX_IDENTICAL_FILTERS"
    "sift (filters g) m0 = (True, m)" "em_m em = m0 \<or> em_m em = m"
  shows "dispatch act em g =
    run_acts (act m) (recipients g (em\<lparr>em_m := m\<rparr>) (chosen (filters g) m0)) g"
proof -
  note w = sift_walkable [OF assms(3-6)]
  have "sift (filters g) (em_m em) = (True, m)" using assms(6,7) sift_idem by auto
  from dispatch_run [OF assms(1,2) this w(1)] show ?thesis using w(2) by simp
qed

lemma recipients_cong:
  assumes "ignored em = ignored em'" "em_m em = em_m em'" "targets g = targets g'"
    "defaultTarget g = defaultTarget g'" "defaultFilter g = defaultFilter g'"
  shows "recipients g em fs = recipients g' em' fs"
proof -
  have h: "hits g em = hits g' em'" using assms by (simp add: hits_def [abs_def] matches_def)
  have r: "reaches g em = reaches g' em'" using assms h by (simp add: reaches_def [abs_def])
  show ?thesis using assms h r by (simp add: recipients_def)
qed

text \<open>C3: Routing. A message whose metadata carries no cache is written to exactly the targets named by
  the enabled filters of the first match in the code's order (tag and origin, else origin alone, else tag
  alone, else the filters for everything; the comments in \<open>sift\<close> name the two middle ones the other way round) whose level mask has its level, in the order the filters were
  added, targets of its ignore list left out; when none of them selects a target it goes to the
  default target with the default filter. The same holds when the message was sifted already
  as it was accepted.\<close>

theorem message_routing:
  assumes "circ_inv (internalCmdQueue (env g))" "filter_inv (filters g)" "fresh m0"
    "length (chosen (filters g) m0) < MAX_IDENTICAL_FILTERS"
    "levelFilterOutMask (filters g) AND m_level m0 = 0"
    "selected (filters g) m0 \<noteq> None \<or> \<not> defaultFilterOut (filters g)"
    "m = snd (sift (filters g) m0)" "em_m em = m0 \<or> em_m em = m"
  shows "dispatch (write_action render tm s len) em g =
    run_acts (write_action render tm s len m)
      (recipients g (em\<lparr>em_m := m\<rparr>) (chosen (filters g) m0)) g"
proof -
  obtain ok where s: "sift (filters g) m0 = (ok, m)" using assms(7) by (cases "sift (filters g) m0") simp
  then have ok using sift_spec [OF assms(2) _ _ s] assms(3,5,6) by (auto simp: fresh_def)
  then show ?thesis using dispatch_chosen [OF write_frame_act assms(1-4) _ assms(8)] s by simp
qed

section \<open>From the call to the target\<close>

lemma log_pooled_puts:
  assumes "pool_inv n gr g" "len \<le> bufferSize g" "len \<le> length s"
    "circ_list (masterBufferAvail g) \<noteq> []"
    "length (circ_list (internalCmdQueue (env g))) < nat (csize (internalCmdQueue (env g)))"
  obtains a pool q l old b where
    "log_pooled g meta s len =
       Some (GREASE_OK, g\<lparr>masterBufferAvail := pool,
         env := (env g)\<lparr>internalCmdQueue := q, logs := (logs (env g))(a \<mapsto> l)\<rparr>\<rparr>)"
    "circ_inv q" "csize q = csize (internalCmdQueue (env g))"
    "circ_list q = circ_list (internalCmdQueue (env g)) @ [(cmdReq NEW_LOG 0)\<lparr>rq_aux := Some a\<rparr>]"
    "sl_meta l = stored_meta old meta"
    "hb_base (sl_buf l) = Some b" "hb_used (sl_buf l) = len" "take len b = take len s" "len \<le> length b"
proof -
  have c: "circ_inv (masterBufferAvail g)" "circ_inv (internalCmdQueue (env g))"
    using assms(1) by (auto simp: pool_inv_def)
  obtain a pool where ap: "circ_remove (masterBufferAvail g) = Some (a, pool)"
    using circ_remove_None_iff [OF c(1)] assms(4) by fastforce
  note pl = circ_remove_abs [OF c(1) ap]
  have "a < n" using pool_member(1) [OF assms(1), of a] pl(2) by simp
  then obtain l base where l: "logs (env g) a = Some l" "hb_base (sl_buf l) = Some base"
      "hb_ok (sl_buf l)" "hb_len (sl_buf l) = bufferSize g"
    using assms(1) by (auto simp: pool_inv_def pool_log_def dest!: spec [of _ a] split: option.splits)
  let ?b = "(sl_buf l)\<lparr>hb_base := Some (take len s @ drop len base), hb_used := len\<rparr>"
  let ?l = "l\<lparr>sl_buf := ?b, sl_meta := stored_meta (sl_meta l) meta\<rparr>"
  let ?r = "(cmdReq NEW_LOG 0)\<lparr>rq_aux := Some a\<rparr>"
  have mc: "hb_memcpy (sl_buf l) s len None = Some (len, ?b)"
    using hb_memcpy_plain [OF l(3,2), of len s] l(4) assms(2,3) by (simp add: min_def)
  obtain q where q: "circ_addIfRoom (internalCmdQueue (env g)) ?r = (True, q)"
    using circ_addIfRoom_ok [OF c(2) assms(5), of ?r] by auto
  then have qa: "circ_inv q" "circ_list q = circ_list (internalCmdQueue (env g)) @ [?r]"
      "csize q = csize (internalCmdQueue (env g))"
    using circ_add_abs [OF c(2), of ?r] by (auto simp: circ_addIfRoom_add split: option.splits)
  show ?thesis
    by (rule that [where a = a and pool = pool and q = q and l = ?l and old = "sl_meta l" and b = "take len s @ drop len base"])
      (use ap l(1) mc q qa assms(3) in \<open>auto simp: log_pooled_def enqueue_buffer_def\<close>)
qed

lemma framed_env:
  assumes "header_buffer e' = header_buffer e" "footer_buffer e' = footer_buffer e"
    "levelLabels e' = levelLabels e" "tagLabels e' = tagLabels e" "originLabels e' = originLabels e"
  shows "framed render tm e' t m flt hdr hn ftr fn = framed render tm e t m flt hdr hn ftr fn"
proof -
  have "header_parts render tm e' t m flt = header_parts render tm e t m flt"
    unfolding header_parts_def assms ..
  then show ?thesis using assms(1,2) by (simp add: framed_def putsHeader_def)
qed

lemma line_take:
  "take len b = take len s \<Longrightarrow> line t hdr hn b len ftr fn = line t hdr hn s len ftr fn"
  by (simp add: line_def)

text \<open>Handling the message that \<open>logP\<close> put on an empty queue, when it has one recipient.\<close>

lemma handle_one:
  assumes "circ_list (internalCmdQueue (env g1)) = [(cmdReq NEW_LOG 0)\<lparr>rq_aux := Some a\<rparr>]"
    "circ_inv (internalCmdQueue (env g1))" "1 < csize (internalCmdQueue (env g1))"
    "logs (env g1) a = Some l" "hb_base (sl_buf l) = Some b" "hb_used (sl_buf l) = len"
    "len \<le> length b" "0 < len" "find_target g1 i = Some t"
    "\<And>g'. g' = g1\<lparr>env := (env g1)\<lparr>internalCmdQueue := internalCmdQueue (env g')\<rparr>\<rparr> \<Longrightarrow>
       circ_inv (internalCmdQueue (env g')) \<Longrightarrow>
       dispatch (write_action render tm b len) (sl_meta l) g' = write_action render tm b len m i flt g'"
    "target_inv (env g1) t" "ref_inv k (env g1) t" "\<not> t_disabled t"
    "t_flags t AND GREASE_JSON_ESCAPE_STRINGS = 0" "len + GREASE_MAX_PREFIX_HEADER \<le> bankSize t"
    "framed render tm (env g1) t m flt hdr hn ftr fn"
    "lb_remain (cur t) \<ge> int (len + hn + fn) \<or> circ_list (availBuffers t) \<noteq> []"
    "pool_inv n gr g1"
  shows "\<exists>g2 t'. handleInternalCmd render tm 1 g1 = Some g2 \<and> find_target g2 i = Some t' \<and>
    stream t' = stream t @ line t hdr hn b len ftr fn \<and> target_inv (env g2) t' \<and>
    ref_inv k (env g2) t' \<and> pool_inv n gr g2 \<and> a \<in> set (circ_list (masterBufferAvail g2))"
proof -
  obtain q where q: "circ_remove (internalCmdQueue (env g1)) = Some ((cmdReq NEW_LOG 0)\<lparr>rq_aux := Some a\<rparr>, q)"
    using circ_remove_None_iff [OF assms(2)] circ_remove_abs(2) [OF assms(2)] assms(1) by fastforce
  note qa = circ_remove_abs [OF assms(2) q]
  define e where "e = (env g1)\<lparr>internalCmdQueue := q\<rparr>"
  define g where "g = g1\<lparr>env := e\<rparr>"
  have qe: "circ_list q = []" "csize q = csize (internalCmdQueue (env g1))" using qa assms(1) by simp_all
  have "target_inv e t" "ref_inv k e t" "framed render tm e t m flt hdr hn ftr fn"
    using target_inv_env [of e "env g1" t] assms(11,12,16) framed_env [of e "env g1"]
    by (simp_all add: e_def ref_inv_def)
  from write_ok [OF this(1,2) assms(13,14,8,7,15) this(3) _ _ assms(17)] obtain e' t' where
    w: "target_write render tm e t b len m flt = Some (e', t')" "target_inv e' t'" "ref_inv k e' t'"
      "stream t' = stream t @ line t hdr hn b len ftr fn"
    using qa qe assms(3) by (auto simp: e_def)
  let ?g2 = "put_target g i (e', t')"
  have ft: "find_target g i = Some t" "env g = e" using assms(9) by (auto simp: g_def find_target_def split: if_splits)
  have wa: "write_action render tm b len m i flt g = Some ?g2"
    using w(1) ft by (simp add: write_action_def on_target_def)
  then have d: "dispatch (write_action render tm b len) (sl_meta l) g = Some ?g2"
    using assms(10) [of g] qa by (simp add: g_def e_def)
  have fr: "frame g ?g2" using write_action_frame [OF _ wa] qa by (simp add: g_def e_def)
  have "mset (queued g1) = mset (a # queued g)"
    using assms(1) qe by (simp add: queued_def g_def e_def cmdReq_def)
  then have "pool_inv n (a # gr) g"
    using assms(18) qa qe by (auto simp: pool_inv_def g_def e_def cmds_clear_def)
  from returnBuffer_master_inv [OF frame_pool_inv [OF fr this]] obtain g3 where
    g3: "returnBuffer_master ?g2 a = Some g3" "pool_inv n gr g3"
      "circ_list (masterBufferAvail g3) = circ_list (masterBufferAvail ?g2) @ [a]"
      "targets g3 = targets ?g2" "defaultTarget g3 = defaultTarget ?g2" by blast
  have e3: "callerLogCallbacks (env g3) = callerLogCallbacks e'" "needGreaseThread (env g3) = needGreaseThread e'"
    using g3(1) by (auto simp: returnBuffer_master_def put_target_def split: option.splits)
  have "handleInternalCmd render tm 1 g1 = Some g3"
    using q d g3(1) assms(4-6)
    by (simp add: handle_cmd_def handle_new_log_def cmdReq_def g_def e_def)
  moreover have "find_target g3 i = Some t'" using g3(4,5) by (simp add: find_target_def put_target_def)
  moreover have "target_inv (env g3) t'" "ref_inv k (env g3) t'"
    using w(2,3) target_inv_env [of "env g3" e' t'] e3 by (simp_all add: ref_inv_def)
  ultimately show ?thesis using w(4) g3(2,3) by auto
qed

lemma delivered_spec:
  assumes pool: "pool_inv n gr g" "circ_list (masterBufferAvail g) \<noteq> []"
    and queue: "circ_list (internalCmdQueue (env g)) = []" "1 < csize (internalCmdQueue (env g))"
    and filters: "filter_inv (filters g)" "fresh (em_m f)"
      "length (chosen (filters g) (em_m f)) < MAX_IDENTICAL_FILTERS"
      "sift (filters g) (em_m f) = (True, m)"
    and size: "0 < len" "len \<le> length s" "len \<le> bufferSize g" "len \<le> GREASE_MAX_MESSAGE_SIZE"
    and one: "recipients g (f\<lparr>em_m := m\<rparr>) (chosen (filters g) (em_m f)) = [(i, flt)]"
      "find_target g i = Some t"
    and target: "target_inv (env g) t" "ref_inv k (env g) t" "\<not> t_disabled t"
      "t_flags t AND GREASE_JSON_ESCAPE_STRINGS = 0" "len + GREASE_MAX_PREFIX_HEADER \<le> bankSize t"
      "framed render tm (env g) t m flt hdr hn ftr fn"
      "lb_remain (cur t) \<ge> int (len + hn + fn) \<or> circ_list (availBuffers t) \<noteq> []"
  shows "\<exists>g1 g2 t'. logP g f s len = Some (GREASE_OK, f\<lparr>em_m := m\<rparr>, g1) \<and>
    handleInternalCmd render tm 1 g1 = Some g2 \<and> find_target g2 i = Some t' \<and>
    stream t' = stream t @ line t hdr hn s len ftr fn \<and> target_inv (env g2) t' \<and>
    ref_inv k (env g2) t' \<and> pool_inv n gr g2"
proof -
  let ?f = "f\<lparr>em_m := m\<rparr>"
  have "length (circ_list (internalCmdQueue (env g))) < nat (csize (internalCmdQueue (env g)))"
    using queue by simp
  then obtain a pl q l old b where
    lp: "log_pooled g ?f s len = Some (GREASE_OK, g\<lparr>masterBufferAvail := pl,
         env := (env g)\<lparr>internalCmdQueue := q, logs := (logs (env g))(a \<mapsto> l)\<rparr>\<rparr>)"
      "circ_inv q" "csize q = csize (internalCmdQueue (env g))"
      "circ_list q = circ_list (internalCmdQueue (env g)) @ [(cmdReq NEW_LOG 0)\<lparr>rq_aux := Some a\<rparr>]"
      "sl_meta l = stored_meta old ?f"
      "hb_base (sl_buf l) = Some b" "hb_used (sl_buf l) = len" "take len b = take len s" "len \<le> length b"
    by (rule log_pooled_puts [OF pool(1) size(3,2) pool(2)])
  define g1 where "g1 = g\<lparr>masterBufferAvail := pl,
      env := (env g)\<lparr>internalCmdQueue := q, logs := (logs (env g))(a \<mapsto> l)\<rparr>\<rparr>"
  have lc: "logP g f s len = Some (GREASE_OK, ?f, g1)"
    using lp(1) filters(4) size(3,4) by (simp add: logP_def log_internal_def g1_def)
  have pg: "pool_inv n gr g1"
    using log_pooled_inv [OF pool(1) size(3,2), of ?f] lp(1) by (auto simp: g1_def)
  have e1: "internalCmdQueue (env g1) = q" "logs (env g1) a = Some l" "filters g1 = filters g"
    by (simp_all add: g1_def)
  have d: "dispatch (write_action render tm b len) (sl_meta l) g' = write_action render tm b len m i flt g'"
    if g': "g' = g1\<lparr>env := (env g1)\<lparr>internalCmdQueue := internalCmdQueue (env g')\<rparr>\<rparr>"
      "circ_inv (internalCmdQueue (env g'))" for g'
  proof -
    have same: "filters g' = filters g" "targets g' = targets g" "defaultTarget g' = defaultTarget g"
        "defaultFilter g' = defaultFilter g" by (subst g'(1), simp add: g1_def)+
    have "em_m (sl_meta l) = m" using lp(5) by (simp add: stored_meta_def)
    then have "dispatch (write_action render tm b len) (sl_meta l) g' =
        run_acts (write_action render tm b len m)
          (recipients g' ((sl_meta l)\<lparr>em_m := m\<rparr>) (chosen (filters g) (em_m f))) g'"
      using dispatch_chosen [OF write_frame_act g'(2), of "em_m f" m "sl_meta l"] filters same(1) by simp
    moreover have "ignored ((sl_meta l)\<lparr>em_m := m\<rparr>) = ignored ?f"
      by (rule ext) (auto simp: lp(5) ignored_def stored_meta_def)
    then have "recipients g' ((sl_meta l)\<lparr>em_m := m\<rparr>) (chosen (filters g) (em_m f)) = [(i, flt)]"
      using recipients_cong [of "(sl_meta l)\<lparr>em_m := m\<rparr>" ?f g' g] same one(1) by simp
    ultimately show ?thesis by (simp add: run_acts_one del: run_acts.simps)
  qed
  have tg: "find_target g1 i = Some t"
    using one(2) by (auto simp: g1_def find_target_def split: if_splits)
  have ti: "target_inv (env g1) t" "ref_inv k (env g1) t" "framed render tm (env g1) t m flt hdr hn ftr fn"
    using target target_inv_env [of "env g1" "env g" t] framed_env [of "env g1" "env g"]
    by (simp_all add: g1_def ref_inv_def)
  from handle_one [of g1 a l b len i t render tm m flt k hdr hn ftr fn n gr]
  obtain g2 t' where "handleInternalCmd render tm 1 g1 = Some g2" "find_target g2 i = Some t'"
      "stream t' = stream t @ line t hdr hn b len ftr fn" "target_inv (env g2) t'"
      "ref_inv k (env g2) t'" "pool_inv n gr g2"
    using lp(2-4,6,7,9) e1 queue size(1) tg d ti target(3-5,7) pg by auto
  then show ?thesis using lc line_take [OF lp(8)] by metis
qed

text \<open>C4: Delivery. A message accepted by \<open>logP\<close> when a pool buffer is free and the command queue is
  empty, and whose filters name one target, is at the end of that target's stream, with its
  header, footer and delimiter, once the logger thread has handled one command; its bytes are the
  caller's, the pool has its buffer back, and the target and the logger keep their invariants.\<close>

theorem message_delivered:
  assumes pool: "pool_inv n gr g" "circ_list (masterBufferAvail g) \<noteq> []"
    and queue: "circ_list (internalCmdQueue (env g)) = []" "1 < csize (internalCmdQueue (env g))"
    and filters: "filter_inv (filters g)" "fresh (em_m f)"
      "length (chosen (filters g) (em_m f)) < MAX_IDENTICAL_FILTERS"
      "sift (filters g) (em_m f) = (True, m)"
    and size: "0 < len" "len \<le> length s" "len \<le> bufferSize g" "len \<le> GREASE_MAX_MESSAGE_SIZE"
    and one: "recipients g (f\<lparr>em_m := m\<rparr>) (chosen (filters g) (em_m f)) = [(i, flt)]"
      "find_target g i = Some t"
    and target: "target_inv (env g) t" "ref_inv k (env g) t" "\<not> t_disabled t"
      "t_flags t AND GREASE_JSON_ESCAPE_STRINGS = 0" "len + GREASE_MAX_PREFIX_HEADER \<le> bankSize t"
      "framed render tm (env g) t m flt hdr hn ftr fn"
      "lb_remain (cur t) \<ge> int (len + hn + fn) \<or> circ_list (availBuffers t) \<noteq> []"
  shows "\<exists>g1 g2 t'. logP g f s len = Some (GREASE_OK, f\<lparr>em_m := m\<rparr>, g1) \<and>
    handleInternalCmd render tm 1 g1 = Some g2 \<and> find_target g2 i = Some t' \<and>
    stream t' = stream t @ line t hdr hn s len ftr fn \<and> target_inv (env g2) t' \<and>
    ref_inv k (env g2) t' \<and> pool_inv n gr g2"
  by (rule delivered_spec [OF pool queue filters size one target])

section \<open>A logger for the witnesses\<close>

text \<open>The constructor sets up the pool.\<close>

lemma grease_new_pool:
  assumes "0 < n" "0 < sz"
  shows "\<exists>g. grease_new_n n sz = Some g \<and> pool_inv n [] g \<and> circ_list (masterBufferAvail g) = [0..<n] \<and>
    circ_list (internalCmdQueue (env g)) = []"
proof -
  have c: "circ_inv (circ_new (0 :: nat) (int n) False)" "circ_list (circ_new (0 :: nat) (int n) False) = []"
      "csize (circ_new (0 :: nat) (int n) False) = int n"
    using circ_new_abs [of "int n" "0 :: nat" False] assms by (simp_all add: circ_new_def)
  obtain p where p: "put_all circ_add [0..<n] (circ_new (0 :: nat) (int n) False) = Some p"
      "circ_inv p" "circ_list p = [0..<n]" "nat (csize p) = n"
    using circ_fifo.put_all_view [OF c(1), of "[0..<n]"] c by auto
  have q: "circ_inv (internalCmdQueue env_new)" "circ_list (internalCmdQueue env_new) = []"
    by (simp_all add: env_new_def circ_new_abs)
  have "csize p = int n" using p(4) assms by linarith
  then show ?thesis using p q env_new_cb assms(2)
    by (auto simp: grease_new_n_def pool_inv_def queued_def pool_log_def singleLog_new_def
        heapBuf_new_def hb_ok_def LMALLOC_def cmds_clear_def cb_clear_def targets_clear_def find_target_def)
qed

text \<open>Two pool buffers of 64 bytes, a filter that sends level 4 of tag 3 and origin 2 to target 1, and
  that target, a terminal.\<close>

definition ex_filters :: filter_state where
  "ex_filters = snd (snd (addFilter_internal 4096 filter_state_init 1 2 3 0x04 None None None))"

definition ex_logger :: grease where
  "ex_logger = (the (targetReady True True (ex_target TtyTarget) (the (grease_new_n 2 64))))\<lparr>filters := ex_filters\<rparr>"

definition ex_meta :: logMeta where "ex_meta = DECL_LOG_META 3 4 2"

lemma ex_filters_inv: "filter_inv ex_filters"
proof -
  let ?r = "addFilter_internal 4096 filter_state_init 1 2 3 0x04 None None None"
  have inv: "filter_inv filter_state_init" by (simp add: filter_inv_def filter_state_init_def)
  show ?thesis
    using addFilter_spec [OF inv, of 4096 1 2 3 "0x04" None None None "fst ?r" "fst (snd ?r)" "snd (snd ?r)"]
    by (simp add: ex_filters_def filter_state_init_def)
qed

lemma targetReady_clear:
  "targetReady v w t g = Some g' \<Longrightarrow> targets_clear n g \<Longrightarrow> t_clear n t \<Longrightarrow> targets_clear n g'"
  by (auto simp: targetReady_def targets_clear_def find_target_def split: if_splits)

lemma ex_logger_parts:
  "pool_inv 2 [] ex_logger" "circ_list (masterBufferAvail ex_logger) = [0, 1]"
  "circ_list (internalCmdQueue (env ex_logger)) = []" "filters ex_logger = ex_filters"
  "find_target ex_logger 1 = Some (ex_target TtyTarget)"
proof -
  obtain g where g: "grease_new_n 2 64 = Some g" "pool_inv 2 [] g" "circ_list (masterBufferAvail g) = [0..<2]"
      "circ_list (internalCmdQueue (env g)) = []" using grease_new_pool [of 2 64] by auto
  have m: "myId (ex_target TtyTarget) = 1" "t_overflow (ex_target TtyTarget) = []" by code_simp+
  have "targets_clear 2 (the (targetReady True True (ex_target TtyTarget) g))"
    using targetReady_clear [of True True "ex_target TtyTarget" g _ 2] g(2) m
    by (simp add: targetReady_def pool_inv_def t_clear_def)
  then show "pool_inv 2 [] ex_logger" "circ_list (masterBufferAvail ex_logger) = [0, 1]"
    "circ_list (internalCmdQueue (env ex_logger)) = []" "filters ex_logger = ex_filters"
    "find_target ex_logger 1 = Some (ex_target TtyTarget)"
    using g m by (simp_all add: ex_logger_def targetReady_def pool_inv_def queued_def find_target_def
        upt_rec numeral_2_eq_2)
qed

lemma ex_logger_env:
  "env ex_logger = env_new\<lparr>logs := logs (env ex_logger), next_log := next_log (env ex_logger)\<rparr>"
proof -
  obtain g where "grease_new_n 2 64 = Some g" using grease_new_pool [of 2 64] by auto
  then show ?thesis by (auto simp: ex_logger_def grease_new_n_def targetReady_def)
qed

lemma ex_sift:
  "fresh ex_meta" "chosen ex_filters ex_meta = [Filter_new 1 4 1]"
  "sift ex_filters ex_meta = (True, snd (sift ex_filters ex_meta))"
  "levelFilterOutMask ex_filters AND m_level ex_meta = 0" "selected ex_filters ex_meta \<noteq> None"
proof -
  have "fst (sift ex_filters ex_meta)" by code_simp
  then show "sift ex_filters ex_meta = (True, snd (sift ex_filters ex_meta))"
    by (cases "sift ex_filters ex_meta") simp
  show "chosen ex_filters ex_meta = [Filter_new 1 4 1]" by code_simp
  show "levelFilterOutMask ex_filters AND m_level ex_meta = 0" by code_simp
  show "selected ex_filters ex_meta \<noteq> None" by code_simp
qed (simp add: fresh_def ex_meta_def DECL_LOG_META_def META_HAS_CACHE_def)

lemma ex_recipients:
  assumes "m_level (em_m em) = 4" "\<not> META_HAS_IGNORES (em_m em)"
  shows "recipients ex_logger em [Filter_new 1 4 1] = [(1, Filter_new 1 4 1)]"
proof -
  have t: "targets ex_logger 1 \<noteq> None" using ex_logger_parts(5) by (simp add: find_target_def)
  then have "hits ex_logger em (Filter_new 1 4 1)"
    using assms by (auto simp: hits_def matches_def Filter_new_def Filter_empty_def ignored_def)
  then show ?thesis
    by (simp add: recipients_def reaches_def Filter_new_def)
qed

lemma ex_sifted:
  "m_level (snd (sift ex_filters ex_meta)) = 4" "\<not> META_HAS_IGNORES (snd (sift ex_filters ex_meta))"
  using sift_keeps [OF ex_sift(3)] by (simp_all add: ex_meta_def DECL_LOG_META_def META_HAS_IGNORES_def)

theorem message_routing_witness:
  "dispatch (write_action ex_render (0, 0) [0x61] 1) (fresh_extra ex_meta) ex_logger =
     write_action ex_render (0, 0) [0x61] 1 (snd (sift ex_filters ex_meta)) 1 (Filter_new 1 4 1) ex_logger"
proof -
  let ?m = "snd (sift ex_filters ex_meta)"
  have c: "circ_inv (internalCmdQueue (env ex_logger))" using ex_logger_parts(1) by (simp add: pool_inv_def)
  have "em_m (fresh_extra ex_meta) = ex_meta" by (simp add: fresh_extra_def)
  then show ?thesis
    using message_routing [OF c, of ex_meta ?m "fresh_extra ex_meta" ex_render "(0, 0)" "[0x61]" 1]
      ex_filters_inv ex_sift ex_logger_parts(4) ex_sifted ex_recipients [of "(fresh_extra ex_meta)\<lparr>em_m := ?m\<rparr>"]
    by (simp add: MAX_IDENTICAL_FILTERS_def run_acts_one del: run_acts.simps)
qed

text \<open>The example logger is ready to deliver a message of three bytes.\<close>

lemma ex_ready:
  "line (ex_target TtyTarget) (header_buffer env_new) 0 [0x61, 0x62, 0x63] 3 (footer_buffer env_new) 0 =
     [0x61, 0x62, 0x63, 0x0A]"
  "csize (internalCmdQueue (env ex_logger)) = 200" "bufferSize ex_logger = 64"
  "\<not> t_disabled (ex_target TtyTarget)" "t_flags (ex_target TtyTarget) AND GREASE_JSON_ESCAPE_STRINGS = 0"
  "3 + GREASE_MAX_PREFIX_HEADER \<le> bankSize (ex_target TtyTarget)"
  "lb_remain (cur (ex_target TtyTarget)) \<ge> int (3 + 0 + 0)"
  by code_simp+

lemma ex_ready_env:
  "target_inv (env ex_logger) (ex_target TtyTarget)" "ref_inv 0 (env ex_logger) (ex_target TtyTarget)"
  "framed ex_render (0, 0) (env ex_logger) (ex_target TtyTarget) (snd (sift ex_filters ex_meta)) (Filter_new 1 4 1)
     (header_buffer env_new) 0 (footer_buffer env_new) 0"
  using arg_cong [OF ex_logger_env, of callerLogCallbacks] arg_cong [OF ex_logger_env, of needGreaseThread]
    arg_cong [OF ex_logger_env, of header_buffer] arg_cong [OF ex_logger_env, of footer_buffer]
    arg_cong [OF ex_logger_env, of levelLabels] arg_cong [OF ex_logger_env, of tagLabels]
    arg_cong [OF ex_logger_env, of originLabels] ex_target_inv [of TtyTarget]
    target_inv_env [of "env ex_logger" env_new "ex_target TtyTarget"]
    framed_env [of "env ex_logger" env_new] plain_framed [of "Filter_new 1 4 1" TtyTarget "snd (sift ex_filters ex_meta)"]
  by (auto simp: ref_inv_def Filter_new_def Filter_empty_def)

theorem message_delivered_witness:
  "\<exists>f' g1 g2 t'. logP ex_logger (fresh_extra ex_meta) [0x61, 0x62, 0x63] 3 = Some (GREASE_OK, f', g1) \<and>
    handleInternalCmd ex_render (0, 0) 1 g1 = Some g2 \<and> find_target g2 1 = Some t' \<and>
    stream t' = stream (ex_target TtyTarget) @ [0x61, 0x62, 0x63, 0x0A]"
  using message_delivered [OF ex_logger_parts(1) _ ex_logger_parts(3) _ _ _ _ _ _ _ _ _ _
      ex_logger_parts(5) ex_ready_env(1,2) ex_ready(4-6) ex_ready_env(3) disjI1 [OF ex_ready(7)],
      of "fresh_extra ex_meta" "[0x61, 0x62, 0x63]"]
    ex_logger_parts(2,4) ex_ready(1-3) ex_filters_inv ex_sift ex_sifted
    ex_recipients [of "(fresh_extra ex_meta)\<lparr>em_m := snd (sift ex_filters ex_meta)\<rparr>"]
  by (auto simp: fresh_extra_def GREASE_MAX_MESSAGE_SIZE_def MAX_IDENTICAL_FILTERS_def)

section \<open>What flushing leaves alone\<close>

definition quiet :: "grease_env \<Rightarrow> grease_env \<Rightarrow> bool" where
  "quiet e e' \<longleftrightarrow> internalCmdQueue e' = internalCmdQueue e \<and> logs e' = logs e \<and> next_log e' = next_log e"

lemma unref_quiet: "unrefGreaseInGrease e = Some e' \<Longrightarrow> quiet e e'"
  by (auto simp: unrefGreaseInGrease_def Let_def quiet_def split: if_splits)

lemma returnBuffer_quiet: "returnBuffer e t b sync nocb = Some (e', t') \<Longrightarrow> quiet e e'"
  using unref_quiet [of e]
  by (auto simp: returnBuffer_def Let_def bind_eq_Some_conv quiet_def split: if_splits option.splits prod.splits)

text \<open>Nor does it pass large messages on.\<close>

definition same_overflow :: "grease_env \<times> logTarget \<Rightarrow> grease_env \<times> logTarget \<Rightarrow> bool" where
  "same_overflow et et' \<longleftrightarrow> t_overflow (snd et') = t_overflow (snd et) \<and>
     (\<forall>n. cb_clear n (fst et) \<longrightarrow> cb_clear n (fst et'))"

lemma same_overflow_trans: "same_overflow a b \<Longrightarrow> same_overflow b c \<Longrightarrow> same_overflow a c"
  by (simp add: same_overflow_def)

lemma unref_callbacks: "unrefGreaseInGrease e = Some e' \<Longrightarrow> callerLogCallbacks e' = callerLogCallbacks e"
  by (auto simp: unrefGreaseInGrease_def Let_def split: if_splits)

lemma cb_clear_add:
  assumes "cb_clear n e" "circ_addIfRoom (callerLogCallbacks e) d = (ok, q)" "\<And>w. cb_overflow d = Some w \<Longrightarrow> clear_of n w"
  shows "cb_clear n (e\<lparr>callerLogCallbacks := q\<rparr>)"
proof (cases ok)
  case True
  have c: "circ_inv (callerLogCallbacks e)" using assms(1) by (simp add: cb_clear_def)
  have "circ_inv q" "circ_list q = circ_list (callerLogCallbacks e) @ [d]"
    using True assms(2) circ_add_abs [OF c, of d] by (auto simp: circ_addIfRoom_add split: option.splits)
  then show ?thesis using assms(1,3) by (auto simp: cb_clear_def)
next
  case False
  then have "q = callerLogCallbacks e" using assms(2) by (auto simp: circ_addIfRoom_add split: option.splits)
  then show ?thesis using assms(1) by (simp add: cb_clear_def)
qed

lemma returnBuffer_overflow:
  assumes "returnBuffer e t b sync nocb = Some et'"
  shows "same_overflow (e, t) et'"
proof -
  obtain e1 where e1: "(if \<not> lb_isEmpty (t_buffers t ! b) then unrefGreaseInGrease e else Some e) = Some e1"
    using assms by (auto simp: returnBuffer_def Let_def bind_eq_Some_conv)
  then have c: "cb_clear n e \<Longrightarrow> cb_clear n e1" for n
    using cb_clear_same [of e1 e n] unref_callbacks by (auto split: if_splits)
  let ?d = "\<lparr>cb_overflow = None, cb_t = myId t, cb_b = Some b, cb_nocallback = False\<rparr>"
  obtain ok q where q: "circ_addIfRoom (callerLogCallbacks e1) ?d = (ok, q)" by force
  have "t_overflow (snd et') = t_overflow t \<and> (fst et' = e1 \<or> fst et' = e1\<lparr>callerLogCallbacks := q\<rparr>)"
    using assms e1 q
    by (auto simp: returnBuffer_def Let_def set_bank_def bind_eq_Some_conv split: if_splits)
  then show ?thesis using c cb_clear_add [OF c q] by (auto simp: same_overflow_def)
qed

lemma flush_overflow: "flush e t b nocb = Some et' \<Longrightarrow> same_overflow (e, t) et'"
  using returnBuffer_overflow [of e t b] by (auto simp: flush_def same_overflow_def split: target_kind.splits)

lemma flush_loop_overflow: "flush_loop k e t nocb = Some et' \<Longrightarrow> same_overflow (e, t) et'"
proof (induction k arbitrary: e t)
  case (Suc k)
  show ?case
  proof (cases "circ_remove (writeOutBuffers t)")
    case (Some bw)
    obtain b wo where bw: "bw = (b, wo)" by force
    obtain e1 t1 where f: "flush e (t\<lparr>writeOutBuffers := wo\<rparr>) b nocb = Some (e1, t1)" "flush_loop k e1 t1 nocb = Some et'"
      using Suc.prems Some bw by (auto simp: bind_eq_Some_conv)
    show ?thesis using flush_overflow [OF f(1)] Suc.IH [OF f(2)] by (simp add: same_overflow_def)
  qed (use Suc.prems in \<open>simp add: same_overflow_def\<close>)
qed (simp add: same_overflow_def)

lemma flushAll_overflow: "flushAll e t r nocb = Some et' \<Longrightarrow> same_overflow (e, t) et'"
  using flush_loop_overflow [of "numBanks (if r then snd (rotate_bank t) else t)" e] by (auto simp: flushAll_def Let_def same_overflow_def)

lemma flushSync_overflow: "flushSync e t b nocb = Some et' \<Longrightarrow> same_overflow (e, t) et'"
  by (cases "t_kind t") (auto simp: flushSync_def same_overflow_def dest!: returnBuffer_overflow)

lemma flushSync_loop_overflow: "flushSync_loop k e t nocb = Some et' \<Longrightarrow> same_overflow (e, t) et'"
proof (induction k arbitrary: e t)
  case (Suc k)
  show ?case
  proof (cases "circ_remove (writeOutBuffers t)")
    case (Some bw)
    obtain b wo where bw: "bw = (b, wo)" by force
    obtain e1 t1 where f: "flushSync e (t\<lparr>writeOutBuffers := wo\<rparr>) b nocb = Some (e1, t1)" "flushSync_loop k e1 t1 nocb = Some et'"
      using Suc.prems Some bw by (auto simp: bind_eq_Some_conv)
    show ?thesis using flushSync_overflow [OF f(1)] Suc.IH [OF f(2)] by (simp add: same_overflow_def)
  qed (use Suc.prems in \<open>simp add: same_overflow_def\<close>)
qed (simp add: same_overflow_def)

lemma flushAllSync_overflow: "target_flushAllSync e t r nocb = Some et' \<Longrightarrow> same_overflow (e, t) et'"
  using flushSync_loop_overflow [of "numBanks (if r then snd (rotate_bank t) else t)" e]
  by (auto simp: target_flushAllSync_def Let_def same_overflow_def)

text \<open>A step of a target that does both is a frame.\<close>

lemma quiet_frame:
  assumes "circ_inv (internalCmdQueue e)" "quiet e e'" "same_overflow (e, t) (e', t')"
  shows "env_frame e e' \<and> t_overflow t' = t_overflow t"
  using assms env_frame_same [OF assms(1), of e'] by (auto simp: quiet_def same_overflow_def)

lemma flush_quiet: "flush e t b nocb = Some (e', t') \<Longrightarrow> quiet e e'"
  using returnBuffer_quiet [of e t b] by (auto simp: flush_def quiet_def split: target_kind.splits)

lemma flushSync_quiet: "flushSync e t b nocb = Some (e', t') \<Longrightarrow> quiet e e'"
  using returnBuffer_quiet [of e] by (auto simp: flushSync_def split: target_kind.splits)

lemma quiet_trans: "quiet a b \<Longrightarrow> quiet b c \<Longrightarrow> quiet a c"
  by (simp add: quiet_def)

lemma flush_loop_quiet: "flush_loop k e t nocb = Some (e', t') \<Longrightarrow> quiet e e'"
  by (induction k arbitrary: e t)
    (auto simp: quiet_def [of e' e'] bind_eq_Some_conv split: option.splits prod.splits
      dest!: flush_quiet intro: quiet_trans)

lemma flushSync_loop_quiet: "flushSync_loop k e t nocb = Some (e', t') \<Longrightarrow> quiet e e'"
  by (induction k arbitrary: e t)
    (auto simp: quiet_def [of e' e'] bind_eq_Some_conv split: option.splits prod.splits
      dest!: flushSync_quiet intro: quiet_trans)

lemma flushAll_quiet: "flushAll e t r nocb = Some (e', t') \<Longrightarrow> quiet e e'"
  using flush_loop_quiet by (auto simp: flushAll_def Let_def)

lemma flushAllSync_quiet: "target_flushAllSync e t r nocb = Some (e', t') \<Longrightarrow> quiet e e'"
  using flushSync_loop_quiet by (auto simp: target_flushAllSync_def Let_def)

text \<open>The command queue is left alone by every command but a new message.\<close>

abbreviation same_queue :: "grease_env \<Rightarrow> grease_env \<Rightarrow> bool" where
  "same_queue e e' \<equiv> internalCmdQueue e' = internalCmdQueue e"

lemma on_target_queue:
  assumes "\<And>e t e' t'. f e t = Some (e', t') \<Longrightarrow> same_queue e e'" "on_target i f g = Some g'"
  shows "same_queue (env g) (env g')"
  using assms by (auto simp: on_target_def put_target_def split: option.splits if_splits)

lemma on_targets_queue:
  assumes "\<And>e t e' t'. f e t = Some (e', t') \<Longrightarrow> same_queue e e'"
  shows "on_targets f is g = Some g' \<Longrightarrow> same_queue (env g) (env g')"
proof (induction "is" arbitrary: g)
  case (Cons i "is")
  then obtain g1 where "on_target i f g = Some g1" "on_targets f is g1 = Some g'"
    by (auto simp: bind_eq_Some_conv)
  then show ?case using Cons.IH on_target_queue [OF assms] by fastforce
qed simp

lemma returnOverflow_queue: "returnOverflow e t w nocb = Some e' \<Longrightarrow> same_queue e e'"
  by (auto simp: returnOverflow_def Let_def bind_eq_Some_conv dest!: unref_quiet
      simp: quiet_def split: if_splits prod.splits)

lemma writeAsyncOverflow_queue: "writeAsyncOverflow e t w nocb = Some (e', t') \<Longrightarrow> same_queue e e'"
  by (auto simp: writeAsyncOverflow_def Let_def bind_eq_Some_conv dest!: returnOverflow_queue
      split: if_splits prod.splits target_kind.splits)

lemma add_block_queue: "add_block l k (e, w) = Some (e', w') \<Longrightarrow> same_queue e e'"
  by (auto simp: add_block_def new_log_def split: if_splits)

lemma writeOverflow_queue:
  assumes "writeOverflow render tm a flt e t = Some (e', t')"
  shows "same_queue e e'"
proof (cases "t_disabled t")
  case False
  then obtain l1 n1 e1 w1 w2 l2 n2 e3 w3 l3 n3 e4 w4 where
    b: "add_block l1 n1 (e, overflow_new) = Some (e1, w1)" "add_block l2 n2 (e1, w2) = Some (e3, w3)"
    "add_block l3 n3 (e3, w3) = Some (e4, w4)"
    "writeAsyncOverflow (refGreaseInGrease e4) t w4 False = Some (e', t')"
    using assms by (auto simp: writeOverflow_def Let_def bind_eq_Some_conv split: option.splits)
  show ?thesis
    using add_block_queue [OF b(1)] add_block_queue [OF b(2)] add_block_queue [OF b(3)]
      writeAsyncOverflow_queue [OF b(4)] by simp
qed (use assms in \<open>simp add: writeOverflow_def\<close>)

lemma overflow_action_queue:
  assumes "overflow_action render tm a m i flt g = Some g'"
  shows "same_queue (env g) (env g')"
proof (rule on_target_queue [OF _ assms [unfolded overflow_action_def]])
  fix e t e' t'
  assume "Option.bind (flushAll e t True False) (\<lambda>(e1, t1).
       Option.bind (incRef (logs e1) a) (\<lambda>hp.
         writeOverflow render tm a flt (e1\<lparr>logs := hp\<rparr>) t1)) = Some (e', t')"
  then obtain e1 t1 hp where f: "flushAll e t True False = Some (e1, t1)"
      "writeOverflow render tm a flt (e1\<lparr>logs := hp\<rparr>) t1 = Some (e', t')"
    by (auto simp: bind_eq_Some_conv)
  show "same_queue e e'"
    using flushAll_quiet [OF f(1)] writeOverflow_queue [OF f(2)] by (simp add: quiet_def)
qed

lemma handle_overflow_queue:
  assumes "handle_overflow render tm a g = Some g'"
  shows "same_queue (env g) (env g')"
proof -
  obtain l :: singleLog and g1 where g1: "dispatch (overflow_action render tm a) (sl_meta l) g = Some g1"
      "same_queue (env g1) (env g')"
    using assms by (fastforce simp: handle_overflow_def bind_eq_Some_conv split: option.splits)
  let ?R = "\<lambda>g g'. same_queue (env g) (env g')"
  have "?R g g1" by (rule dispatch_rel [of ?R, OF _ _ overflow_action_queue g1(1)]) auto
  then show ?thesis using g1(2) by simp
qed

lemma handle_cmd_queue:
  assumes "handle_cmd render tm r g = Some g'" "rq_c r \<noteq> NEW_LOG"
  shows "same_queue (env g) (env g')"
proof (cases "rq_c r")
  case TARGET_ROTATE_BUFFER
  have "on_target (rq_d r) (\<lambda>e t. flushAll e t False False) g = Some g'"
    using assms(1) TARGET_ROTATE_BUFFER by (simp add: handle_cmd_def)
  from on_target_queue [OF _ this] show ?thesis using flushAll_quiet by (force simp: quiet_def)
next
  case WRITE_TARGET_OVERFLOW
  then show ?thesis using assms(1) handle_overflow_queue by (auto simp: handle_cmd_def split: option.splits)
next
  case INTERNAL_SHUTDOWN
  have q: "same_queue e e'" if "target_flushAllSync e t x y = Some (e', t')" for e t e' t' x y
    using flushAllSync_quiet [OF that] by (simp add: quiet_def)
  obtain g1 where "on_target 0 (\<lambda>e t. target_flushAllSync e t True False)
        (g\<lparr>env := (env g)\<lparr>timer_on := False\<rparr>, outputs_closed := True\<rparr>) = Some g1"
      "on_targets (\<lambda>e t. target_flushAllSync e t True True) (target_order g1) g1 = Some g'"
    using assms(1) INTERNAL_SHUTDOWN
    by (auto simp: handle_cmd_def flushAllSync_targets_def bind_eq_Some_conv)
  from on_target_queue [OF q this(1)] on_targets_queue [OF q this(2)] show ?thesis by simp
qed (use assms in \<open>auto simp: handle_cmd_def\<close>)

section \<open>The loop of the logger thread ends\<close>

text \<open>
  Only a new message queues further commands, and none of these is a new message. So the work
  left is bounded by the commands on the queue plus, for every new message, a full queue.
\<close>

definition cmd_work :: "grease \<Rightarrow> nat" where
  "cmd_work g =
     length (queued g) * (nat (csize (internalCmdQueue (env g))) + 1) +
     length (circ_list (internalCmdQueue (env g)))"

lemma handle_new_log_frame:
  assumes "circ_inv (internalCmdQueue (env g))" "handle_new_log render tm a g = Some g'"
  shows "\<exists>g1. frame g g1 \<and> same_queue (env g1) (env g')"
proof -
  obtain s len and l :: singleLog and g1 where g1: "dispatch (write_action render tm s len) (sl_meta l) g = Some g1"
      "returnBuffer_master g1 a = Some g'"
    using assms(2) by (fastforce simp: handle_new_log_def Let_def bind_eq_Some_conv split: option.splits)
  have "frame g g1" by (rule dispatch_frame [OF write_frame_act assms(1) g1(1)])
  moreover have "same_queue (env g1) (env g')"
    using g1(2) by (auto simp: returnBuffer_master_def split: option.splits)
  ultimately show ?thesis by blast
qed

lemma handle_cmd_work:
  assumes "circ_inv (internalCmdQueue (env g))" "circ_remove (internalCmdQueue (env g)) = Some (r, q)"
    "handle_cmd render tm r (g\<lparr>env := (env g)\<lparr>internalCmdQueue := q\<rparr>\<rparr>) = Some g'"
  shows "circ_inv (internalCmdQueue (env g')) \<and> cmd_work g' < cmd_work g"
proof -
  note qa = circ_remove_abs [OF assms(1,2)]
  let ?g = "g\<lparr>env := (env g)\<lparr>internalCmdQueue := q\<rparr>\<rparr>"
  show ?thesis
  proof (cases "rq_c r = NEW_LOG")
    case False
    then have "internalCmdQueue (env g') = q" using handle_cmd_queue [OF assms(3)] by simp
    then show ?thesis using qa False by (simp add: cmd_work_def queued_def)
  next
    case True
    then obtain a where "handle_new_log render tm a ?g = Some g'"
      using assms(3) by (auto simp: handle_cmd_def split: option.splits)
    from handle_new_log_frame [OF _ this] qa obtain x where
      x: "circ_list (internalCmdQueue (env g')) = circ_list q @ x" "\<forall>r \<in> set x. rq_c r \<noteq> NEW_LOG"
        "circ_inv (internalCmdQueue (env g'))" "csize (internalCmdQueue (env g')) = csize q"
      by (auto simp: frame_def env_frame_def)
    have "length (queued g) = Suc (length (queued g'))"
      using True x(1,2) qa(2) by (simp add: queued_def filter_False)
    moreover have "length (circ_list (internalCmdQueue (env g'))) \<le> nat (csize q)"
      using circ_fifo.view_cap [OF x(3)] x(4) by simp
    ultimately show ?thesis using x(3,4) qa by (simp add: cmd_work_def)
  qed
qed

lemma handle_settles:
  assumes "circ_inv (internalCmdQueue (env g))" "cmd_work g \<le> k" "cmd_work g \<le> j"
  shows "handleInternalCmd render tm k g = handleInternalCmd render tm j g \<and>
    (\<forall>g'. handleInternalCmd render tm k g = Some g' \<longrightarrow> circ_list (internalCmdQueue (env g')) = [])"
  using assms
proof (induction k arbitrary: g j)
  case 0
  then have e: "circ_list (internalCmdQueue (env g)) = []" by (simp add: cmd_work_def)
  then show ?case using 0 circ_remove_None_iff [of "internalCmdQueue (env g)"] by (cases j) simp_all
next
  case (Suc k)
  show ?case
  proof (cases "circ_remove (internalCmdQueue (env g))")
    case None
    then show ?thesis using circ_remove_None_iff [OF Suc.prems(1)] by (cases j) simp_all
  next
    case (Some rq)
    obtain r q where rq: "rq = (r, q)" by force
    have "cmd_work g \<noteq> 0" using Some circ_remove_None_iff [OF Suc.prems(1)] by (auto simp: cmd_work_def)
    then obtain j' where j: "j = Suc j'" using Suc.prems(3) by (cases j) auto
    show ?thesis
    proof (cases "handle_cmd render tm r (g\<lparr>env := (env g)\<lparr>internalCmdQueue := q\<rparr>\<rparr>)")
      case None
      then show ?thesis using Some rq j by simp
    next
      case g1: (Some g1)
      from handle_cmd_work [OF Suc.prems(1) Some [unfolded rq] g1] Suc.IH [of g1 j'] Suc.prems(2,3)
      show ?thesis using Some rq g1 j by simp
    qed
  qed
qed

text \<open>C13: The loop of the logger thread over the command queue ends, although handling a message queues
  further commands: after at most \<open>cmd_work\<close> rounds it takes no further command, so the number of
  rounds allowed does not matter from there on, and when it returns the queue is empty.\<close>

theorem command_loop_ends:
  assumes "circ_inv (internalCmdQueue (env g))" "cmd_work g \<le> k"
  shows "handleInternalCmd render tm k g = handleInternalCmd render tm (cmd_work g) g \<and>
    (\<forall>g'. handleInternalCmd render tm k g = Some g' \<longrightarrow> circ_list (internalCmdQueue (env g')) = []) \<and>
    cmd_work g \<le> nat (csize (internalCmdQueue (env g))) * (nat (csize (internalCmdQueue (env g))) + 2)"
proof -
  let ?n = "nat (csize (internalCmdQueue (env g)))"
  have l: "length (circ_list (internalCmdQueue (env g))) \<le> ?n" by (rule circ_fifo.view_cap [OF assms(1)])
  moreover have "length (queued g) \<le> length (circ_list (internalCmdQueue (env g)))"
    by (simp add: queued_def)
  ultimately have "length (queued g) * (?n + 1) \<le> ?n * (?n + 1)" by (intro mult_le_mono1) simp
  then have "cmd_work g \<le> ?n * (?n + 1) + ?n" using l by (simp add: cmd_work_def)
  then show ?thesis using handle_settles [OF assms le_refl] by simp
qed

theorem command_loop_ends_witness:
  "handleInternalCmd ex_render (0, 0) 5 (grease_shutdown_request ex_logger) =
   handleInternalCmd ex_render (0, 0) 1 (grease_shutdown_request ex_logger)"
proof -
  let ?g = "grease_shutdown_request ex_logger" let ?r = "cmdReq INTERNAL_SHUTDOWN 0"
  let ?c = "internalCmdQueue (env ex_logger)"
  have c: "circ_inv ?c" using ex_logger_parts(1) by (simp add: pool_inv_def)
  have "csize ?c = 200" using arg_cong [OF ex_logger_env, of "\<lambda>e. csize (internalCmdQueue e)"]
    by (simp add: env_new_def circ_new_def)
  then obtain q where q: "circ_addIfRoom ?c ?r = (True, q)"
    using circ_addIfRoom_ok [OF c, of ?r] ex_logger_parts(3) by auto
  then have "circ_inv q" "circ_list q = [?r]"
    using circ_add_abs [OF c, of ?r] ex_logger_parts(3) by (auto simp: circ_addIfRoom_add split: option.splits)
  moreover have "internalCmdQueue (env ?g) = q" using q by (simp add: grease_shutdown_request_def)
  ultimately have "circ_inv (internalCmdQueue (env ?g))" "cmd_work ?g = 1"
    by (simp_all add: cmd_work_def queued_def cmdReq_def)
  then show ?thesis using command_loop_ends [of ?g 5 ex_render "(0, 0)"] by simp
qed

section \<open>Large messages stay clear of the pool\<close>

text \<open>
  \<open>spares n et et'\<close>: from a state in which every large message that is on its way lies at an address of
  at least \<open>n\<close>, a step leaves the messages below \<open>n\<close> alone and leads to such a state.
\<close>

definition spares :: "nat \<Rightarrow> grease_env \<times> logTarget \<Rightarrow> grease_env \<times> logTarget \<Rightarrow> bool" where
  "spares n et et' \<longleftrightarrow>
     (cb_clear n (fst et) \<and> t_clear n (snd et) \<and> n \<le> next_log (fst et) \<longrightarrow>
        cb_clear n (fst et') \<and> t_clear n (snd et') \<and> n \<le> next_log (fst et') \<and>
        (\<forall>a < n. logs (fst et') a = logs (fst et) a))"

lemma spares_trans: "spares n a b \<Longrightarrow> spares n b c \<Longrightarrow> spares n a c"
  by (simp add: spares_def)

lemma quiet_spares: "quiet (fst et) (fst et') \<Longrightarrow> same_overflow et et' \<Longrightarrow> spares n et et'"
  by (simp add: quiet_def same_overflow_def spares_def t_clear_def)

lemma decRef_spares: "decRef hp b = Some hp' \<Longrightarrow> n \<le> b \<Longrightarrow> a < n \<Longrightarrow> hp' a = hp a"
  by (auto simp: decRef_def split: option.splits if_splits)

lemma incRef_spares: "incRef hp b = Some hp' \<Longrightarrow> n \<le> b \<Longrightarrow> a < n \<Longrightarrow> hp' a = hp a"
  by (auto simp: incRef_def split: option.splits if_splits)

lemma overflow_delete_spares:
  assumes "overflow_delete hp w = Some hp'" "clear_of n w" "a < n"
  shows "hp' a = hp a"
proof -
  have "ov_decRef hp bs = Some hp' \<Longrightarrow> \<forall>b. Some b \<in> set bs \<longrightarrow> n \<le> b \<Longrightarrow> hp' a = hp a" for bs hp
  proof (induction hp bs rule: ov_decRef.induct)
    case (3 hp b bs)
    then obtain h1 where h: "decRef hp b = Some h1" "ov_decRef h1 bs = Some hp'" by (auto simp: bind_eq_Some_conv)
    have "n \<le> b" using 3(3) by simp
    then have "h1 a = hp a" using decRef_spares [OF h(1)] assms(3) by blast
    then show ?case using 3 h by simp
  qed simp_all
  then show ?thesis using assms(1,2) by (simp add: overflow_delete_def clear_of_def)
qed

lemma returnOverflow_spares:
  assumes "returnOverflow e t w nocb = Some e'" "clear_of n w"
  shows "spares n (e, t) (e', t)"
proof -
  let ?d = "\<lparr>cb_overflow = Some w, cb_t = myId t, cb_b = None, cb_nocallback = False\<rparr>"
  obtain e1 where e1: "unrefGreaseInGrease e = Some e1" using assms(1) by (auto simp: returnOverflow_def bind_eq_Some_conv)
  obtain ok q where q: "circ_addIfRoom (callerLogCallbacks e1) ?d = (ok, q)" by force
  have u: "quiet e e1" "cb_clear n e1 = cb_clear n e"
    using unref_quiet [OF e1] cb_clear_same [OF unref_callbacks [OF e1]] by auto
  have "e' = e1\<lparr>callerLogCallbacks := q\<rparr> \<or> (\<exists>hp. overflow_delete (logs e1) w = Some hp \<and> e' = e1\<lparr>logs := hp\<rparr>)"
    using assms(1) e1 q by (auto simp: returnOverflow_def Let_def split: if_splits)
  then show ?thesis
    using u cb_clear_add [OF _ q] assms(2) overflow_delete_spares [of "logs e1" w _ n]
    by (auto simp: spares_def quiet_def)
qed

lemma writeAsyncOverflow_spares:
  assumes "writeAsyncOverflow e t w nocb = Some (e', t')" "clear_of n w"
  shows "spares n (e, t) (e', t')"
proof (cases "t_kind t")
  case TtyTarget
  then show ?thesis using assms by (auto simp: writeAsyncOverflow_def spares_def t_clear_def)
next
  case FileTarget
  then obtain bs where "returnOverflow e t w nocb = Some e'" "t' = t\<lparr>t_out := t_out t @ bs\<rparr>"
    using assms(1) by (auto simp: writeAsyncOverflow_def bind_eq_Some_conv)
  then show ?thesis using returnOverflow_spares [of e t w nocb e' n] assms(2) by (auto simp: spares_def t_clear_def)
next
  case CallbackTarget
  let ?d = "\<lparr>cb_overflow = Some w, cb_t = myId t, cb_b = None, cb_nocallback = False\<rparr>"
  obtain ok q where q: "circ_addIfRoom (callerLogCallbacks e) ?d = (ok, q)" by force
  have "t' = t \<and> (e' = e \<or> e' = e\<lparr>callerLogCallbacks := q\<rparr> \<or>
      (\<exists>hp. overflow_delete (logs e) w = Some hp \<and> e' = e\<lparr>logs := hp\<rparr>))"
    using assms(1) CallbackTarget q by (auto simp: writeAsyncOverflow_def split: if_splits)
  then show ?thesis
    using cb_clear_add [OF _ q] assms(2) overflow_delete_spares [of "logs e" w _ n] by (auto simp: spares_def)
qed

lemma addBuffer_clear: "addBuffer w a = Some w' \<Longrightarrow> clear_of n w \<Longrightarrow> n \<le> a \<Longrightarrow> clear_of n w'"
  by (auto simp: addBuffer_def clear_of_def dest!: subsetD [OF set_update_subset_insert] split: if_splits)

lemma add_block_spares:
  assumes "add_block l k (e, w) = Some (e', w')" "n \<le> next_log e" "clear_of n w"
  shows "clear_of n w' \<and> n \<le> next_log e' \<and> callerLogCallbacks e' = callerLogCallbacks e \<and>
    (\<forall>a < n. logs e' a = logs e a)"
proof (cases "0 < k")
  case True
  then have e': "e' = e\<lparr>logs := (logs e)(next_log e \<mapsto> l), next_log := next_log e + 1\<rparr>" "addBuffer w (next_log e) = Some w'"
    using assms(1) by (auto simp: add_block_def new_log_def)
  then show ?thesis using addBuffer_clear [OF e'(2) assms(3,2)] assms(2) by simp
qed (use assms in \<open>simp add: add_block_def\<close>)

lemma overflow_new_clear: "clear_of n overflow_new"
  by (simp add: clear_of_def overflow_new_def)

lemma writeOverflow_spares:
  assumes "writeOverflow render tm a flt e t = Some (e', t')" "n \<le> a"
  shows "spares n (e, t) (e', t')"
proof (cases "t_disabled t \<or> \<not> n \<le> next_log e")
  case False
  then obtain l1 n1 e1 w1 w2 l2 n2 e3 w3 l3 n3 e4 w4 where
    b: "add_block l1 n1 (e, overflow_new) = Some (e1, w1)" "addBuffer w1 a = Some w2"
    "add_block l2 n2 (e1, w2) = Some (e3, w3)" "add_block l3 n3 (e3, w3) = Some (e4, w4)"
    "writeAsyncOverflow (refGreaseInGrease e4) t w4 False = Some (e', t')"
    using assms by (auto simp: writeOverflow_def Let_def bind_eq_Some_conv split: option.splits)
  note s1 = add_block_spares [OF b(1) _ overflow_new_clear, of n]
  have "n \<le> next_log e" using False by simp
  note s1 = add_block_spares [OF b(1) this overflow_new_clear]
  note s2 = addBuffer_clear [OF b(2) _ assms(2)]
  note s3 = add_block_spares [OF b(3), of n]
  note s4 = add_block_spares [OF b(4), of n]
  have k: "clear_of n w4" "n \<le> next_log e4" "callerLogCallbacks e4 = callerLogCallbacks e" "\<forall>a < n. logs e4 a = logs e a"
    using s1 s2 s3 s4 by auto
  have "callerLogCallbacks (refGreaseInGrease e4) = callerLogCallbacks e"
    using k(3) by (simp add: refGreaseInGrease_def Let_def)
  then have "cb_clear n (refGreaseInGrease e4) = cb_clear n e" by (rule cb_clear_same)
  then show ?thesis using writeAsyncOverflow_spares [OF b(5) k(1)] k by (simp add: spares_def)
qed (use assms in \<open>auto simp: writeOverflow_def spares_def\<close>)

text \<open>The same for the logger: what \<open>spares\<close> is for a target.\<close>

definition spares_all :: "nat \<Rightarrow> grease \<Rightarrow> grease \<Rightarrow> bool" where
  "spares_all n g g' \<longleftrightarrow> masterBufferAvail g' = masterBufferAvail g \<and> bufferSize g' = bufferSize g \<and>
     (cb_clear n (env g) \<and> targets_clear n g \<and> n \<le> next_log (env g) \<longrightarrow>
        cb_clear n (env g') \<and> targets_clear n g' \<and> n \<le> next_log (env g') \<and>
        (\<forall>a < n. logs (env g') a = logs (env g) a))"

lemma spares_all_refl [simp]: "spares_all n g g"
  by (simp add: spares_all_def)

lemma spares_all_trans: "spares_all n a b \<Longrightarrow> spares_all n b c \<Longrightarrow> spares_all n a c"
  by (simp add: spares_all_def)

lemma on_target_spares:
  assumes "\<And>e t e' t'. f e t = Some (e', t') \<Longrightarrow> spares n (e, t) (e', t')" "on_target i f g = Some g'"
  shows "spares_all n g g'"
proof (cases "find_target g i")
  case (Some t)
  then obtain e' t' where f: "f (env g) t = Some (e', t')" "g' = put_target g i (e', t')"
    using assms(2) by (auto simp: on_target_def)
  have t: "targets_clear n g \<Longrightarrow> t_clear n t" using Some unfolding targets_clear_def by blast
  have "env g' = e'" "masterBufferAvail g' = masterBufferAvail g" "bufferSize g' = bufferSize g"
    using f(2) by (simp_all add: put_target_def)
  then show ?thesis
    using assms(1) [OF f(1)] t put_target_clear [of n g t' i e'] f(2) by (auto simp: spares_all_def spares_def)
qed (use assms in \<open>simp add: on_target_def\<close>)

lemma on_targets_spares:
  assumes "\<And>e t e' t'. f e t = Some (e', t') \<Longrightarrow> spares n (e, t) (e', t')"
  shows "on_targets f is g = Some g' \<Longrightarrow> spares_all n g g'"
proof (induction "is" arbitrary: g)
  case (Cons i "is")
  then obtain g1 where g1: "on_target i f g = Some g1" "on_targets f is g1 = Some g'" by (auto simp: bind_eq_Some_conv)
  show ?case by (rule spares_all_trans [OF on_target_spares [OF assms g1(1)] Cons.IH [OF g1(2)]])
qed simp

lemma overflow_action_spares:
  assumes "overflow_action render tm a m i flt g = Some g'" "n \<le> a"
  shows "spares_all n g g'"
proof (rule on_target_spares [OF _ assms(1) [unfolded overflow_action_def]])
  fix e t e' t'
  assume "Option.bind (flushAll e t True False) (\<lambda>(e1, t1).
       Option.bind (incRef (logs e1) a) (\<lambda>hp.
         writeOverflow render tm a flt (e1\<lparr>logs := hp\<rparr>) t1)) = Some (e', t')"
  then obtain e1 t1 hp where f: "flushAll e t True False = Some (e1, t1)" "incRef (logs e1) a = Some hp"
      "writeOverflow render tm a flt (e1\<lparr>logs := hp\<rparr>) t1 = Some (e', t')"
    by (auto simp: bind_eq_Some_conv)
  have "spares n (e, t) (e1, t1)" using quiet_spares flushAll_quiet [OF f(1)] flushAll_overflow [OF f(1)] by simp
  moreover have "spares n (e1, t1) (e1\<lparr>logs := hp\<rparr>, t1)"
    using incRef_spares [OF f(2) assms(2)] by (simp add: spares_def)
  ultimately show "spares n (e, t) (e', t')" using writeOverflow_spares [OF f(3) assms(2)] spares_trans by blast
qed

lemma handle_overflow_spares:
  assumes "handle_overflow render tm a g = Some g'" "n \<le> a"
  shows "spares_all n g g'"
proof -
  obtain l :: singleLog and g1 hp where g1: "dispatch (overflow_action render tm a) (sl_meta l) g = Some g1"
      "decRef (logs (env g1)) a = Some hp" "g' = g1\<lparr>env := (env g1)\<lparr>logs := hp\<rparr>\<rparr>"
    using assms by (fastforce simp: handle_overflow_def bind_eq_Some_conv split: option.splits)
  have "spares_all n g g1"
    by (rule dispatch_rel [of "spares_all n", OF spares_all_refl spares_all_trans overflow_action_spares [OF _ assms(2)] g1(1)])
  moreover have "spares_all n g1 g'"
    using decRef_spares [OF g1(2) assms(2)] g1(3) by (simp add: spares_all_def)
  ultimately show ?thesis by (rule spares_all_trans)
qed

lemma shutdown_spares:
  assumes "flushAllSync_targets True True (g\<lparr>env := (env g)\<lparr>timer_on := False\<rparr>, outputs_closed := True\<rparr>) = Some g'"
  shows "spares_all n g g'"
proof -
  let ?g = "g\<lparr>env := (env g)\<lparr>timer_on := False\<rparr>, outputs_closed := True\<rparr>"
  have q: "spares n (e, t) (e', t')" if "target_flushAllSync e t x y = Some (e', t')" for e t e' t' x y
    using quiet_spares flushAllSync_quiet [OF that] flushAllSync_overflow [OF that] by simp
  obtain g1 where g1: "on_target 0 (\<lambda>e t. target_flushAllSync e t True False) ?g = Some g1"
      "on_targets (\<lambda>e t. target_flushAllSync e t True True) (target_order g1) g1 = Some g'"
    using assms by (auto simp: flushAllSync_targets_def bind_eq_Some_conv)
  have "spares_all n g ?g" by (simp add: spares_all_def)
  moreover have "spares_all n ?g g1" by (rule on_target_spares [OF _ g1(1)]) (rule q)
  moreover have "spares_all n g1 g'" by (rule on_targets_spares [OF _ g1(2)]) (rule q)
  ultimately show ?thesis using spares_all_trans by blast
qed

text \<open>A step that leaves the command queue alone and spares the pool keeps the pool's invariant.\<close>

lemma spares_pool_inv:
  assumes "spares_all n g g'" "same_queue (env g) (env g')" "pool_inv n gr g"
  shows "pool_inv n gr g'"
proof -
  have "queued g' = queued g" using assms(2) by (simp add: queued_def)
  then show ?thesis using assms cmds_clear_same [OF assms(2)] by (simp add: pool_inv_def spares_all_def)
qed

section \<open>The pool is conserved\<close>

lemma log_overflow_inv:
  assumes "pool_inv n gr g" "log_overflow g f s len = Some (r, g')"
  shows "pool_inv n gr g' \<and> r = GREASE_OK"
proof -
  obtain l where l: "g' = (let (a, e1) = new_log (env g) l;
          (ok, q) = circ_addIfRoom (internalCmdQueue e1)
             ((cmdReq WRITE_TARGET_OVERFLOW 0)\<lparr>rq_aux := Some a\<rparr>)
      in g\<lparr>env := (if ok then e1\<lparr>internalCmdQueue := q\<rparr> else delete_log e1 a)\<rparr>)" "r = GREASE_OK"
    using assms(2) by (auto simp: log_overflow_def Let_def case_prod_beta split: option.splits)
  let ?r = "(cmdReq WRITE_TARGET_OVERFLOW 0)\<lparr>rq_aux := Some (next_log (env g))\<rparr>"
  have c: "circ_inv (internalCmdQueue (env g))" using assms(1) by (simp add: pool_inv_def)
  obtain ok q where q: "circ_addIfRoom (internalCmdQueue (env g)) ?r = (ok, q)" by force
  have "frame g g'"
  proof (cases ok)
    case True
    have "env_frame (env g) (env g')"
      by (rule env_frame_enqueue [OF c, of ?r q]) (use True q l in \<open>auto simp: new_log_def cmdReq_def\<close>)
    then show ?thesis using True q l by (simp add: frame_def new_log_def)
  next
    case False
    then show ?thesis using q l c by (auto simp: frame_def env_frame_def new_log_def delete_log_def Let_def)
  qed
  then show ?thesis using frame_pool_inv assms(1) l(2) by blast
qed

lemma log_internal_inv:
  assumes "pool_inv n gr g" "len \<le> length s" "log_internal g f s len = Some (r, g')"
  shows "pool_inv n gr g'"
proof (cases "len > bufferSize g")
  case True
  then show ?thesis using log_overflow_inv [OF assms(1)] assms(3) by (auto simp: log_internal_def)
next
  case False
  then show ?thesis using log_pooled_inv [OF assms(1) _ assms(2), of f] assms(3)
    by (auto simp: log_internal_def)
qed

lemma logP_inv:
  assumes "pool_inv n gr g" "len \<le> length s" "logP g f s len = Some (r, f', g')"
  shows "pool_inv n gr g'"
proof -
  let ?m = "snd (sift (filters g) (em_m f))"
  have "g' = g \<or> log_internal g (f\<lparr>em_m := ?m\<rparr>) s len = Some (r, g')"
    using assms(3) by (auto simp: logP_def Let_def case_prod_beta split: if_splits)
  then show ?thesis using log_internal_inv [OF assms(1,2)] assms(1) by blast
qed

lemma log_call_inv:
  assumes "pool_inv n gr g" "len \<le> length s" "log_call g m s len = Some (r, g')"
  shows "pool_inv n gr g'"
proof -
  have "g' = g \<or> log_internal g (fresh_extra (snd (sift (filters g) m))) s len = Some (r, g')"
    using assms(3) by (auto simp: log_call_def Let_def case_prod_beta split: if_splits)
  then show ?thesis using log_internal_inv [OF assms(1,2)] assms(1) by blast
qed

lemma grab_inv:
  assumes "pool_inv n gr g" "grabInLogBuffer g = (GREASE_OK, Some a, g')"
  shows "pool_inv n (a # gr) g'"
proof -
  have c: "circ_inv (masterBufferAvail g)" using assms(1) by (simp add: pool_inv_def)
  obtain p where p: "circ_remove (masterBufferAvail g) = Some (a, p)" "g' = g\<lparr>masterBufferAvail := p\<rparr>"
    using assms(2) by (auto simp: grabInLogBuffer_def split: option.splits)
  from circ_remove_abs [OF c p(1)] p(2) assms(1) show ?thesis by (auto simp: pool_inv_def queued_def)
qed

lemma submit_inv:
  assumes "pool_inv n (a # gr) g" "submitBuffer g a = Some g'"
  shows "pool_inv n gr g'"
proof -
  obtain l where l: "logs (env g) a = Some l" using pool_member(2) [OF assms(1), of a] by auto
  have "a < n" using pool_member(1) [OF assms(1), of a] by simp
  then have "pool_log (bufferSize g) (Some l)" using assms(1) l by (auto simp: pool_inv_def)
  from enqueue_buffer_inv [OF assms(1) this] returnBuffer_master_inv [OF assms(1)] show ?thesis
    using assms(2) l by (auto simp: submitBuffer_def split: if_splits)
qed

text \<open>
  The steps of the pool's life, with the buffers that sinks have grabbed: targets that are made, set up
  and come up, or are set up and switched off later, calls that add, switch off or mask filters, calls that accept a
  message, a sink that grabs, fills, submits or returns a buffer, the logger thread that handles
  any of its commands or the flush timer, devices that complete a write, callbacks to the program
  and buffers it gives back, and the request to shut down.
\<close>

inductive lstep :: "nat list \<times> grease \<Rightarrow> nat list \<times> grease \<Rightarrow> bool" where
  l_target: "logTarget_new kind sz i d banks = Some t0 \<Longrightarrow> tsetup\<^sup>*\<^sup>* t0 t \<Longrightarrow>
    targetReady has_info ready t g = Some g' \<Longrightarrow> lstep (gr, g) (gr, g')"
| l_setup: "find_target g i = Some t \<Longrightarrow> tsetup t t' \<Longrightarrow> lstep (gr, g) (gr, put_target g i (env g, t'))"
| l_writes: "on_target i (\<lambda>e t. Some (e, disableWrites v t)) g = Some g' \<Longrightarrow> lstep (gr, g) (gr, g')"
| l_addFilter: "addFilter_internal a (filters g) i origin tag lm pre postpre post = (ok, fid, fs) \<Longrightarrow>
    lstep (gr, g) (gr, g\<lparr>filters := fs\<rparr>)"
| l_setFilter: "lstep (gr, g) (gr, g\<lparr>filters := snd (set_disabled v (filters g) lf)\<rparr>)"
| l_mask: "lstep (gr, g) (gr, g\<lparr>filters := maskOutByLevel v (filters g)\<rparr>)"
| l_unmask: "lstep (gr, g) (gr, g\<lparr>filters := unmaskOutByLevel v (filters g)\<rparr>)"
| l_log: "logP g f s len = Some (r, f', g') \<Longrightarrow> len \<le> length s \<Longrightarrow> lstep (gr, g) (gr, g')"
| l_logc: "log_call g m s len = Some (r, g') \<Longrightarrow> len \<le> length s \<Longrightarrow> lstep (gr, g) (gr, g')"
| l_raw: "logFromRaw g base len = Some (r, g') \<Longrightarrow> len \<le> length base \<Longrightarrow> lstep (gr, g) (gr, g')"
| l_grab: "grabInLogBuffer g = (GREASE_OK, Some a, g') \<Longrightarrow> lstep (gr, g) (a # gr, g')"
| l_fill: "a \<in> set gr \<Longrightarrow> pool_log (bufferSize g) (Some l) \<Longrightarrow>
    lstep (gr, g) (gr, g\<lparr>env := (env g)\<lparr>logs := (logs (env g))(a \<mapsto> l)\<rparr>\<rparr>)"
| l_submit: "a \<in> set gr \<Longrightarrow> submitBuffer g a = Some g' \<Longrightarrow> lstep (gr, g) (remove1 a gr, g')"
| l_return: "a \<in> set gr \<Longrightarrow> returnBuffer_master g a = Some g' \<Longrightarrow> lstep (gr, g) (remove1 a gr, g')"
| l_handle: "circ_remove (internalCmdQueue (env g)) = Some (r, q) \<Longrightarrow>
    handle_cmd render tm r (g\<lparr>env := (env g)\<lparr>internalCmdQueue := q\<rparr>\<rparr>) = Some g' \<Longrightarrow>
    lstep (gr, g) (gr, g')"
| l_timer: "flushTimer_cb g = Some g' \<Longrightarrow> lstep (gr, g) (gr, g')"
| l_written: "on_target i (\<lambda>e t. write_cb e t b nocb) g = Some g' \<Longrightarrow> lstep (gr, g) (gr, g')"
| l_overflow_written: "on_target i (\<lambda>e t. write_overflow_cb e t w nocb) g = Some g' \<Longrightarrow> lstep (gr, g) (gr, g')"
| l_callbacks: "callV8LogCallbacks k g = Some g' \<Longrightarrow> lstep (gr, g) (gr, g')"
| l_given_back: "lstep (gr, g) (gr, returnBufferToTarget i b g)"
| l_shutdown: "lstep (gr, g) (gr, grease_shutdown_request g)"

lemma pool_inv_mset: "mset gr = mset gr' \<Longrightarrow> pool_inv n gr g = pool_inv n gr' g"
  by (simp add: pool_inv_def)

lemma flush_on_target_frame:
  assumes "circ_inv (internalCmdQueue (env g))" "on_target i (\<lambda>e t. flushAll e t x y) g = Some g'"
  shows "frame g g'"
  by (rule on_target_frame [OF assms])
    (use quiet_frame [OF assms(1)] flushAll_quiet flushAll_overflow in blast)

lemma flush_on_targets_frame:
  "circ_inv (internalCmdQueue (env g)) \<Longrightarrow>
   on_targets (\<lambda>e t. flushAll e t x y) is g = Some g' \<Longrightarrow> frame g g'"
proof (induction "is" arbitrary: g)
  case Nil
  then show ?case by (simp add: frame_refl)
next
  case (Cons i "is")
  then obtain g1 where g1: "on_target i (\<lambda>e t. flushAll e t x y) g = Some g1"
      "on_targets (\<lambda>e t. flushAll e t x y) is g1 = Some g'" by (auto simp: bind_eq_Some_conv)
  have "frame g g1" by (rule flush_on_target_frame [OF Cons.prems(1) g1(1)])
  then show ?case using Cons.IH [OF _ g1(2)] frame_inv frame_trans by blast
qed

lemma write_overflow_cb_spares:
  assumes "write_overflow_cb e t w nocb = Some (e', t')"
  shows "spares n (e, t) (e', t')"
proof -
  have w: "w \<in> set (t_overflow t)" "returnOverflow e t w nocb = Some e'"
      "t' = t\<lparr>t_overflow := remove1 w (t_overflow t)\<rparr>"
    using assms by (auto simp: write_overflow_cb_def split: if_splits)
  have "t_clear n t \<Longrightarrow> clear_of n w" using w(1) by (simp add: t_clear_def)
  moreover have "t_clear n t \<Longrightarrow> t_clear n t'" using w(3) by (auto simp: t_clear_def dest: notin_set_remove1)
  ultimately show ?thesis using returnOverflow_spares [OF w(2), of n] by (auto simp: spares_def)
qed

lemma write_cb_spares: "write_cb e t b nocb = Some (e', t') \<Longrightarrow> spares n (e, t) (e', t') \<and> same_queue e e'"
  using returnBuffer_quiet [of e "t\<lparr>t_inflight := remove1 b (t_inflight t)\<rparr>" b False nocb e' t']
    returnBuffer_overflow [of e "t\<lparr>t_inflight := remove1 b (t_inflight t)\<rparr>" b False nocb "(e', t')"]
  by (auto simp: write_cb_def spares_def same_overflow_def quiet_def t_clear_def split: if_splits)

lemma doLibCallback_spares:
  assumes "doLibCallback d g = Some g'" "\<And>w. cb_overflow d = Some w \<Longrightarrow> clear_of n w"
  shows "spares_all n g g' \<and> same_queue (env g) (env g')"
proof (cases "cb_b d")
  case (Some b)
  then have o: "on_target (cb_t d) (\<lambda>e t. Some (e, t\<lparr>t_lent := t_lent t @ [b]\<rparr>)) g = Some g'"
    using assms(1) by (simp add: doLibCallback_def)
  have "spares_all n g g'" by (rule on_target_spares [OF _ o]) (auto simp: spares_def t_clear_def)
  then show ?thesis using on_target_queue [OF _ o] by auto
next
  case None
  then show ?thesis using assms overflow_delete_spares [of "logs (env g)" _ _ n]
    by (auto simp: doLibCallback_def spares_all_def bind_eq_Some_conv split: option.splits)
qed

lemma callbacks_spare:
  "callV8LogCallbacks k g = Some g' \<Longrightarrow> pool_inv n gr g \<Longrightarrow> pool_inv n gr g'"
proof (induction k arbitrary: g)
  case (Suc k)
  show ?case
  proof (cases "circ_remove (callerLogCallbacks (env g))")
    case (Some dq)
    obtain d q where dq: "dq = (d, q)" by force
    let ?g = "g\<lparr>env := (env g)\<lparr>callerLogCallbacks := q\<rparr>\<rparr>"
    have cb: "cb_clear n (env g)" using Suc.prems(2) by (simp add: pool_inv_def)
    then have c: "circ_inv (callerLogCallbacks (env g))" by (simp add: cb_clear_def)
    note a = circ_remove_abs [OF c Some [unfolded dq]]
    have d: "clear_of n w" if "cb_overflow d = Some w" for w using cb a(2) that by (simp add: cb_clear_def)
    have "cb_clear n (env ?g)" using cb a by (simp add: cb_clear_def)
    then have p: "pool_inv n gr ?g" using Suc.prems(2) by (simp add: pool_inv_def queued_def)
    obtain g1 where g1: "g1 = ?g \<or> doLibCallback d ?g = Some g1" "callV8LogCallbacks k g1 = Some g'"
      using Suc.prems(1) Some dq by (auto simp: Let_def bind_eq_Some_conv split: if_splits)
    have "pool_inv n gr g1"
      using g1(1) p doLibCallback_spares [of d ?g g1 n, OF _ d] spares_pool_inv [of n ?g g1 gr] by blast
    then show ?thesis using Suc.IH [OF g1(2)] by blast
  qed (use Suc.prems in simp)
qed simp

lemma handle_cmd_pool:
  assumes "pool_inv n gr g" "circ_remove (internalCmdQueue (env g)) = Some (r, q)"
    "handle_cmd render tm r (g\<lparr>env := (env g)\<lparr>internalCmdQueue := q\<rparr>\<rparr>) = Some g'"
  shows "pool_inv n gr g'"
proof -
  let ?g = "g\<lparr>env := (env g)\<lparr>internalCmdQueue := q\<rparr>\<rparr>"
  have c: "circ_inv (internalCmdQueue (env g))" using assms(1) by (simp add: pool_inv_def)
  note qa = circ_remove_abs [OF c assms(2)]
  have cl: "cmds_clear n (env ?g)" using assms(1) cmds_clear_take [OF c assms(2)] by (simp add: pool_inv_def)
  show ?thesis
  proof (cases "rq_c r = NEW_LOG")
    case True
    then obtain a where a: "rq_aux r = Some a" "handle_new_log render tm a ?g = Some g'"
      using assms(3) by (auto simp: handle_cmd_def split: option.splits)
    have "queued g = a # queued ?g" using True a(1) qa(2) by (simp add: queued_def)
    then have "pool_inv n (a # gr) ?g" using assms(1) qa cl by (auto simp: pool_inv_def)
    from handle_new_log_inv [OF this a(2)] show ?thesis by blast
  next
    case False
    then have "queued g = queued ?g" using qa(2) by (simp add: queued_def)
    then have p: "pool_inv n gr ?g" using assms(1) qa cl by (auto simp: pool_inv_def)
    have "spares_all n ?g g'"
    proof (cases "rq_c r")
      case TARGET_ROTATE_BUFFER
      have f: "on_target (rq_d r) (\<lambda>e t. flushAll e t False False) ?g = Some g'"
        using assms(3) TARGET_ROTATE_BUFFER by (simp add: handle_cmd_def)
      show ?thesis
        by (rule on_target_spares [OF _ f]) (use quiet_spares flushAll_quiet flushAll_overflow in fastforce)
    next
      case WRITE_TARGET_OVERFLOW
      then obtain a where "rq_aux r = Some a" "n \<le> a" using assms(1) qa(2) by (auto simp: pool_inv_def cmds_clear_def)
      then show ?thesis using handle_overflow_spares assms(3) WRITE_TARGET_OVERFLOW by (simp add: handle_cmd_def)
    next
      case INTERNAL_SHUTDOWN
      then show ?thesis using shutdown_spares [of ?g] assms(3) by (simp add: handle_cmd_def)
    qed (use assms(3) False in \<open>simp_all add: handle_cmd_def\<close>)
    then show ?thesis using spares_pool_inv handle_cmd_queue [OF assms(3) False] p by blast
  qed
qed

lemma flushTimer_cb_inv:
  assumes "pool_inv n gr g" "flushTimer_cb g = Some g'"
  shows "pool_inv n gr g'"
proof -
  have c: "circ_inv (internalCmdQueue (env g))" using assms(1) by (simp add: pool_inv_def)
  obtain g1 where g1: "on_target 0 (\<lambda>e t. flushAll e t True False) g = Some g1"
      "on_targets (\<lambda>e t. flushAll e t True False) (target_order g1) g1 = Some g'"
    using assms(2) by (auto simp: flushTimer_cb_def flushAll_targets_def bind_eq_Some_conv)
  have f1: "frame g g1" by (rule flush_on_target_frame [OF c g1(1)])
  have "frame g1 g'" by (rule flush_on_targets_frame [OF frame_inv [OF f1] g1(2)])
  then show ?thesis using frame_pool_inv f1 assms(1) by blast
qed

lemma shutdown_request_inv:
  assumes "pool_inv n gr g"
  shows "pool_inv n gr (grease_shutdown_request g)"
proof -
  let ?r = "cmdReq INTERNAL_SHUTDOWN 0" and ?g = "grease_shutdown_request g"
  have c: "circ_inv (internalCmdQueue (env g))" using assms by (simp add: pool_inv_def)
  obtain ok q where q: "circ_addIfRoom (internalCmdQueue (env g)) ?r = (ok, q)" by force
  have "frame g ?g"
  proof (cases ok)
    case True
    then have "env_frame (env g) (env ?g)"
      using q by (intro env_frame_enqueue [OF c, of ?r q]) (simp_all add: grease_shutdown_request_def cmdReq_def)
    then show ?thesis by (simp add: frame_def grease_shutdown_request_def)
  next
    case False
    then have "q = internalCmdQueue (env g)" using q by (auto simp: circ_addIfRoom_add split: option.splits)
    then show ?thesis using frame_refl [OF c] q by (simp add: grease_shutdown_request_def)
  qed
  then show ?thesis using frame_pool_inv assms by blast
qed

lemma tsetups_overflow: "tsetup\<^sup>*\<^sup>* t t' \<Longrightarrow> t_overflow t' = t_overflow t"
  by (induction rule: rtranclp_induct) (simp_all add: tsetup_keeps(4))

text \<open>A target with no large message on its way comes up.\<close>

lemma targetReady_inv:
  assumes "pool_inv n gr g" "targetReady has_info ready t g = Some g'" "t_overflow t = []"
  shows "pool_inv n gr g'"
proof -
  have "targets_clear n g'"
    using targetReady_clear [OF assms(2)] assms(1,3) by (simp add: pool_inv_def t_clear_def)
  then show ?thesis using assms(1,2)
    by (auto simp: targetReady_def pool_inv_def queued_def split: if_splits)
qed

lemma filters_pool: "pool_inv n gr g \<Longrightarrow> pool_inv n gr (g\<lparr>filters := fs\<rparr>)"
  by (simp add: pool_inv_def queued_def targets_clear_def find_target_def cong: if_cong)

lemma put_target_inv:
  assumes "pool_inv n gr g" "find_target g i = Some t" "t_overflow t' = t_overflow t"
  shows "pool_inv n gr (put_target g i (env g, t'))"
proof -
  have "t_clear n t'" using assms by (auto simp: pool_inv_def targets_clear_def t_clear_def)
  then have "targets_clear n (put_target g i (env g, t'))"
    using put_target_clear assms(1) by (simp add: pool_inv_def)
  then show ?thesis using assms(1) by (simp add: pool_inv_def put_target_def queued_def)
qed

lemma new_target_inv:
  assumes "pool_inv n gr g" "logTarget_new kind sz i d banks = Some t0" "tsetup\<^sup>*\<^sup>* t0 t"
    "targetReady has_info ready t g = Some g'"
  shows "pool_inv n gr g'"
proof -
  have "t_overflow t0 = []" using assms(2) by (auto simp: logTarget_new_def)
  then show ?thesis using targetReady_inv [OF assms(1,4)] tsetups_overflow [OF assms(3)] by simp
qed

lemma target_setup_inv:
  "pool_inv n gr g \<Longrightarrow> find_target g i = Some t \<Longrightarrow> tsetup t t' \<Longrightarrow> pool_inv n gr (put_target g i (env g, t'))"
  using put_target_inv tsetup_keeps(4) by blast

lemma writes_inv:
  "pool_inv n gr g \<Longrightarrow> on_target i (\<lambda>e t. Some (e, disableWrites v t)) g = Some g' \<Longrightarrow> pool_inv n gr g'"
  using put_target_inv [of n gr g i] by (auto simp: on_target_def disableWrites_def split: option.splits)

lemma raw_inv:
  assumes "pool_inv n gr g" "logFromRaw g base len = Some (r, g')" "len \<le> length base"
  shows "pool_inv n gr g'"
proof -
  obtain f f' r' where
    "g' = g \<or> logP g f (drop sizeof_logMeta base) (len - sizeof_logMeta) = Some (r', f', g')"
    using assms(2) by (auto simp: logFromRaw_def Let_def bind_eq_Some_conv split: if_splits)
  moreover have "len - sizeof_logMeta \<le> length (drop sizeof_logMeta base)" using assms(3) by simp
  ultimately show ?thesis using logP_inv [OF assms(1)] assms(1) by blast
qed

lemma fill_inv:
  assumes "pool_inv n gr g" "a \<in> set gr" "pool_log (bufferSize g) (Some l)"
  shows "pool_inv n gr (g\<lparr>env := (env g)\<lparr>logs := (logs (env g))(a \<mapsto> l)\<rparr>\<rparr>)"
  using pool_member(1) [OF assms(1), of a] assms by (auto simp: pool_inv_def queued_def)

lemma take_held: "pool_inv n gr g \<Longrightarrow> a \<in> set gr \<Longrightarrow> pool_inv n (a # remove1 a gr) g"
  using pool_inv_mset [of gr "a # remove1 a gr"] by simp

lemma held_submit_inv: "pool_inv n gr g \<Longrightarrow> a \<in> set gr \<Longrightarrow> submitBuffer g a = Some g' \<Longrightarrow> pool_inv n (remove1 a gr) g'"
  using submit_inv [OF take_held] by blast

lemma held_return_inv: "pool_inv n gr g \<Longrightarrow> a \<in> set gr \<Longrightarrow> returnBuffer_master g a = Some g' \<Longrightarrow> pool_inv n (remove1 a gr) g'"
  using returnBuffer_master_inv [OF take_held] by fastforce

lemma written_inv:
  assumes "pool_inv n gr g" "on_target i (\<lambda>e t. write_cb e t b nocb) g = Some g'"
  shows "pool_inv n gr g'"
proof -
  have "spares_all n g g'" by (rule on_target_spares [OF _ assms(2)]) (use write_cb_spares in blast)
  moreover have "same_queue (env g) (env g')" by (rule on_target_queue [OF _ assms(2)]) (use write_cb_spares in blast)
  ultimately show ?thesis using spares_pool_inv assms(1) by blast
qed

lemma overflow_written_inv:
  assumes "pool_inv n gr g" "on_target i (\<lambda>e t. write_overflow_cb e t w nocb) g = Some g'"
  shows "pool_inv n gr g'"
proof -
  have "spares_all n g g'" by (rule on_target_spares [OF write_overflow_cb_spares assms(2)])
  moreover have "same_queue (env g) (env g')"
    by (rule on_target_queue [OF _ assms(2)])
      (auto simp: write_overflow_cb_def dest!: returnOverflow_queue split: if_splits)
  ultimately show ?thesis using spares_pool_inv assms(1) by blast
qed

lemma given_back_inv:
  assumes "pool_inv n gr g"
  shows "pool_inv n gr (returnBufferToTarget i b g)"
proof (rule spares_pool_inv [OF _ _ assms])
  show "spares_all n g (returnBufferToTarget i b g)" "same_queue (env g) (env (returnBufferToTarget i b g))"
    by (auto simp: returnBufferToTarget_def spares_all_def targets_clear_def find_target_def
        finalizeV8Callback_def set_bank_def t_clear_def Let_def case_prod_beta split: option.splits if_splits)
qed

lemmas step_invs = new_target_inv target_setup_inv writes_inv filters_pool logP_inv log_call_inv raw_inv grab_inv fill_inv
  held_submit_inv held_return_inv handle_cmd_pool flushTimer_cb_inv written_inv overflow_written_inv
  callbacks_spare given_back_inv shutdown_request_inv

lemma lstep_inv:
  assumes "lstep (gr, g) (gr', g')" "pool_inv n gr g"
  shows "pool_inv n gr' g'"
  using assms by (cases rule: lstep.cases) (simp, blast intro: step_invs)+

lemma lsteps_inv:
  assumes "lstep\<^sup>*\<^sup>* (gr, g) (gr', g')" "pool_inv n gr g"
  shows "pool_inv n gr' g'"
  using assms(1)
proof (induction "(gr', g')" arbitrary: gr' g' rule: rtranclp_induct)
  case base
  then show ?case using assms(2) by simp
next
  case (step y)
  then show ?case using lstep_inv by (cases y) blast
qed

text \<open>C10: No buffer of the message pool is ever lost or handed out twice: from a new logger on, through
  targets that are made, set up and registered, filters that are added and changed, any calls that log,
  sinks that grab, fill, submit and return buffers, any command of the logger
  thread (messages dispatched to their targets, large messages, flushes, shutdown), completed writes and
  callbacks to the program, every buffer is exactly one of available, queued for the logger thread or held
  by a sink, each has its full size, and a sink can always give one back.\<close>

theorem pool_conserved:
  assumes "0 < n" "0 < sz" "grease_new_n n sz = Some g0" "lstep\<^sup>*\<^sup>* ([], g0) (gr, g)"
  shows "mset (circ_list (masterBufferAvail g) @ queued g @ gr) = mset [0..<n] \<and>
    (\<forall>a < n. \<exists>l. logs (env g) a = Some l \<and> hb_len (sl_buf l) = bufferSize g \<and> hb_ok (sl_buf l)) \<and>
    (\<forall>a \<in> set gr. returnBuffer_master g a \<noteq> None)"
proof -
  have i0: "pool_inv n [] g0" using grease_new_pool [OF assms(1,2)] assms(3) by auto
  have inv: "pool_inv n gr g" by (rule lsteps_inv [OF assms(4) i0])
  have "returnBuffer_master g a \<noteq> None" if "a \<in> set gr" for a
    using returnBuffer_master_inv [of n a "remove1 a gr" g] inv that
      pool_inv_mset [of gr "a # remove1 a gr" n g] by auto
  then show ?thesis
    using inv by (fastforce simp: pool_inv_def pool_log_def split: option.splits)
qed

lemma handle_reaches: "handleInternalCmd render tm k g = Some g' \<Longrightarrow> lstep\<^sup>*\<^sup>* (gr, g) (gr, g')"
proof (induction k arbitrary: g)
  case (Suc k)
  show ?case
  proof (cases "circ_remove (internalCmdQueue (env g))")
    case (Some rq)
    obtain r q where rq: "rq = (r, q)" by force
    obtain g1 where h: "handle_cmd render tm r (g\<lparr>env := (env g)\<lparr>internalCmdQueue := q\<rparr>\<rparr>) = Some g1"
        "handleInternalCmd render tm k g1 = Some g'"
      using Suc.prems Some rq by (auto simp: bind_eq_Some_conv)
    have "lstep (gr, g) (gr, g1)" using l_handle [OF Some [unfolded rq] h(1)] .
    then show ?thesis using Suc.IH [OF h(2)] by (rule converse_rtranclp_into_rtranclp)
  qed (use Suc.prems in simp)
qed simp

text \<open>The logger of the witnesses is reached from a new one: its target is registered and its filter added.\<close>

lemma ex_logger_reach:
  assumes "grease_new_n 2 64 = Some g0"
  shows "lstep\<^sup>*\<^sup>* ([], g0) ([], ex_logger)"
proof -
  let ?g = "the (targetReady True True (ex_target TtyTarget) g0)"
  let ?f = "addFilter_internal 4096 (filters ?g) 1 2 3 0x04 None None None"
  have r: "targetReady True True (ex_target TtyTarget) g0 = Some ?g" by (simp add: targetReady_def)
  have "filters ?g = filter_state_init" using assms by (auto simp: grease_new_n_def targetReady_def)
  then have f: "ex_logger = ?g\<lparr>filters := snd (snd ?f)\<rparr>" using assms by (simp add: ex_logger_def ex_filters_def)
  have "lstep ([], g0) ([], ?g)" by (rule l_target [OF ex_target_inv(1) rtranclp.rtrancl_refl r])
  moreover have "lstep ([], ?g) ([], ex_logger)"
    unfolding f using l_addFilter [of 4096 ?g 1 2 3 4 None None None "fst ?f" "fst (snd ?f)" "snd (snd ?f)" "[]"] by simp
  ultimately show ?thesis by simp
qed

text \<open>A run in which a target is registered, a filter added, a message logged and dispatched to the target.\<close>

theorem pool_conserved_witness:
  "\<exists>g1 g2 t'. logP ex_logger (fresh_extra ex_meta) [0x61, 0x62, 0x63] 3 =
      Some (GREASE_OK, (fresh_extra ex_meta)\<lparr>em_m := snd (sift ex_filters ex_meta)\<rparr>, g1) \<and>
    handleInternalCmd ex_render (0, 0) 1 g1 = Some g2 \<and> find_target g2 1 = Some t' \<and>
    stream t' = stream (ex_target TtyTarget) @ [0x61, 0x62, 0x63, 0x0A] \<and>
    mset (circ_list (masterBufferAvail g1) @ queued g1 @ []) = mset [0..<2] \<and>
    mset (circ_list (masterBufferAvail g2) @ queued g2 @ []) = mset [0..<2]"
proof -
  obtain g0 where g0: "grease_new_n 2 64 = Some g0" using grease_new_pool [of 2 64] by auto
  obtain g1 g2 t' where
    d: "logP ex_logger (fresh_extra ex_meta) [0x61, 0x62, 0x63] 3 =
        Some (GREASE_OK, (fresh_extra ex_meta)\<lparr>em_m := snd (sift ex_filters ex_meta)\<rparr>, g1)"
      "handleInternalCmd ex_render (0, 0) 1 g1 = Some g2" "find_target g2 1 = Some t'"
      "stream t' = stream (ex_target TtyTarget) @ [0x61, 0x62, 0x63, 0x0A]"
    using delivered_spec [OF ex_logger_parts(1) _ ex_logger_parts(3) _ _ _ _ _ _ _ _ _ _
        ex_logger_parts(5) ex_ready_env(1,2) ex_ready(4-6) ex_ready_env(3) disjI1 [OF ex_ready(7)],
        of "fresh_extra ex_meta" "[0x61, 0x62, 0x63]"]
      ex_logger_parts(2,4) ex_ready(1-3) ex_filters_inv ex_sift ex_sifted
      ex_recipients [of "(fresh_extra ex_meta)\<lparr>em_m := snd (sift ex_filters ex_meta)\<rparr>"]
    by (auto simp: fresh_extra_def GREASE_MAX_MESSAGE_SIZE_def MAX_IDENTICAL_FILTERS_def)
  have "lstep ([], ex_logger) ([], g1)" by (rule l_log [OF d(1)]) simp
  with ex_logger_reach [OF g0] have r1: "lstep\<^sup>*\<^sup>* ([], g0) ([], g1)" by (rule rtranclp.rtrancl_into_rtrancl)
  with handle_reaches [OF d(2), of "[]"] have r2: "lstep\<^sup>*\<^sup>* ([], g0) ([], g2)" by (meson rtranclp_trans)
  show ?thesis
    using d pool_conserved [OF _ _ g0 r1] pool_conserved [OF _ _ g0 r2] by auto
qed

section \<open>A full list of filters\<close>

lemma route_list_full: "\<forall>f \<in> set fs. f_id f \<noteq> 0 \<Longrightarrow> route_list act em fs st = None"
proof (induction fs arbitrary: st)
  case (Cons f fs)
  then show ?case by (cases "route_filter act em f st") simp_all
qed simp

lemma active_full: "fl_inv l \<Longrightarrow> length (active l) = MAX_IDENTICAL_FILTERS \<Longrightarrow> fl_list l = active l"
  using active_split(1) [of l] by simp

text \<open>A list that holds sixteen filters has no empty filter behind them, so for a message of a level
  the list logs the routing loop does not stop inside the array, whatever the targets do.\<close>

lemma full_list_overrun:
  assumes "filter_inv (filters g)" "fresh (em_m em)" "selected (filters g) (em_m em) = Some h"
    "length (filters_at (filters g) h) = MAX_IDENTICAL_FILTERS"
    "levelFilterOutMask (filters g) AND m_level (em_m em) = 0"
    "f \<in> set (filters_at (filters g) h)" "f_levelMask f AND m_level (em_m em) \<noteq> 0"
  shows "dispatch act em g = None"
proof -
  let ?m = "em_m em" let ?st = "filters g" let ?hs = "getHashes (m_tag ?m) (m_origin ?m)"
  obtain p where p: "filterHashTable ?st h = Some p"
    using assms(3) by (auto simp: selected_def split: if_splits)
  then obtain l where l: "p \<noteq> 0" "fl_heap ?st p = Some l" "fl_inv l"
    using assms(1) unfolding filter_inv_def by blast
  obtain n where n: "find_list ?st ?hs = Some (n, p)" "n < 4"
    using p assms(3) find_list_index by (fastforce simp: find_list_selected)
  let ?m1 = "META_SET_LIST (?m\<lparr>cached_hash := ?hs\<rparr>) n p"
  have s: "sift ?st ?m = (True, ?m1)" using assms(2,5) n by (simp add: sift_def fresh_def)
  have al: "active l = filters_at ?st h" using p l by (simp add: filters_at_def)
  then have full: "fl_list l = active l" using active_full [OF l(3)] assms(4) by simp
  have valid: "FilterList_valid l (m_level ?m1)"
  proof (rule ccontr)
    assume "\<not> FilterList_valid l (m_level ?m1)"
    then have z: "fl_bloom l AND m_level ?m = 0" by (simp add: FilterList_valid_def META_SET_LIST_def)
    have "f_levelMask f AND fl_bloom l = f_levelMask f" using l(3) assms(6) al by (simp add: fl_inv_def)
    then have "f_levelMask f AND m_level ?m = f_levelMask f AND (fl_bloom l AND m_level ?m)"
      by (metis and.assoc)
    then show False using z assms(7) by simp
  qed
  have none: "route_list a e (fl_list l) st = None" for a e st
    using route_list_full active_ids full by metis
  have c: "cached_lists ?m1 = [0, 0, 0, 0][n := p]" using assms(2) by (simp add: META_SET_LIST_def fresh_def)
  have "n = 0 \<or> n = 1 \<or> n = 2 \<or> n = 3" using n(2) by auto
  then have "route_lists (act ?m1) (em\<lparr>em_m := ?m1\<rparr>) (cached_lists ?m1) (g, False) = None"
    unfolding c using l none valid by auto
  then show ?thesis using s by (simp add: dispatch_def)
qed

text \<open>Fifteen further filters like the one of the example.\<close>

definition ex_again :: "filter_state \<Rightarrow> filter_state" where
  "ex_again st = snd (snd (addFilter_internal 8192 st 1 2 3 0x04 None None None))"

definition ex_full :: grease where
  "ex_full = ex_logger\<lparr>filters := (ex_again ^^ 15) ex_filters\<rparr>"

definition ex_filled :: "nat \<Rightarrow> filter_state \<Rightarrow> bool" where
  "ex_filled k st \<longleftrightarrow> filter_inv st \<and> filterHashTable st (filterhash 3 2) = Some 4096 \<and>
     dom (fl_heap st) = {4096} \<and> nextFilterId st = of_nat (Suc k) \<and> levelFilterOutMask st = 0 \<and>
     length (filters_at st (filterhash 3 2)) = k \<and> Filter_new 1 4 1 \<in> set (filters_at st (filterhash 3 2))"

lemma ex_again_filled:
  assumes "ex_filled k st" "k < 16"
  shows "ex_filled (Suc k) (ex_again st)"
proof -
  have u: "(of_nat m :: u32) \<noteq> 0" if "0 < m" "m < 20" for m
    using that by (auto simp: word_of_nat_eq_0_iff dest: dvd_imp_le)
  have n: "nextFilterId st \<noteq> 0" "nextFilterId st + 1 \<noteq> 0"
    using assms u [of "Suc k"] u [of "Suc (Suc k)"] by (simp_all add: ex_filled_def add.commute)
  note a = assms(1) [unfolded ex_filled_def]
  let ?r = "addFilter_internal 8192 st 1 2 3 0x04 None None None" let ?h = "filterhash 3 2"
  have 1: "filter_inv (snd (snd ?r)) \<and> nextFilterId (snd (snd ?r)) = nextFilterId st + 1 \<and>
      (\<exists>f. filters_at (snd (snd ?r)) ?h = filters_at st ?h @ [f])"
    using addFilter_spec [of st 8192 1 2 3 "0x04" None None None "fst ?r" "fst (snd ?r)" "snd (snd ?r)"]
      a n assms(2) by (auto simp: MAX_IDENTICAL_FILTERS_def)
  obtain l where "fl_heap st 4096 = Some l" using a by blast
  then have "filterHashTable (snd (snd ?r)) = filterHashTable st" "dom (fl_heap (snd (snd ?r))) = {4096}"
      "levelFilterOutMask (snd (snd ?r)) = 0"
    using a by (auto simp: addFilter_internal_def Let_def split: prod.splits)
  then show ?thesis using 1 a by (auto simp: ex_filled_def ex_again_def)
qed

lemma ex_full_filled: "ex_filled 16 (filters ex_full)"
proof -
  have "filterHashTable ex_filters (filterhash 3 2) = Some 4096" "nextFilterId ex_filters = 2"
      "levelFilterOutMask ex_filters = 0" "filters_at ex_filters (filterhash 3 2) = [Filter_new 1 4 1]" by code_simp+
  moreover have "dom (fl_heap ex_filters) = {4096}"
    by (auto simp: ex_filters_def addFilter_internal_def filter_state_init_def Let_def split: prod.splits)
  ultimately have 1: "ex_filled 1 ex_filters" using ex_filters_inv by (simp add: ex_filled_def)
  have "k \<le> 15 \<Longrightarrow> ex_filled (Suc k) ((ex_again ^^ k) ex_filters)" for k
    by (induction k) (use 1 ex_again_filled in auto)
  from this [of 15] show ?thesis by (simp add: ex_full_def)
qed

lemma full_list_overrun_example:
  "dispatch (write_action ex_render (0, 0) [0x61] 1) (fresh_extra ex_meta) ex_full = None"
proof -
  have m: "m_tag ex_meta = 3" "m_origin ex_meta = 2" "m_level ex_meta = 4"
    by (simp_all add: ex_meta_def DECL_LOG_META_def)
  then have s: "selected (filters ex_full) ex_meta = Some (filterhash 3 2)"
    using ex_full_filled by (simp add: selected_def ex_filled_def)
  have "f_levelMask (Filter_new 1 4 1) AND m_level ex_meta \<noteq> 0" by code_simp
  then show ?thesis
    using full_list_overrun [of ex_full "fresh_extra ex_meta" "filterhash 3 2" "Filter_new 1 4 1"]
      ex_full_filled ex_sift(1) s by (simp add: fresh_extra_def MAX_IDENTICAL_FILTERS_def ex_filled_def)
qed

section \<open>A large message is never freed\<close>

text \<open>\<open>a\<close> is a message that is not reference counted: no command takes it off the heap.\<close>

definition keeps :: "nat \<Rightarrow> grease_env \<Rightarrow> grease_env \<Rightarrow> bool" where
  "keeps a e e' \<longleftrightarrow> next_log e \<le> next_log e' \<and>
     (\<forall>l. a < next_log e \<and> logs e a = Some l \<and> ref_cnt l = NOT_REFED \<longrightarrow> logs e' a = Some l)"

lemma keeps_refl [simp]: "keeps a e e"
  by (simp add: keeps_def)

lemma keeps_trans: "keeps a e1 e2 \<Longrightarrow> keeps a e2 e3 \<Longrightarrow> keeps a e1 e3"
  unfolding keeps_def by (meson le_trans less_le_trans)

lemma keeps_quiet: "quiet e e' \<Longrightarrow> keeps a e e'"
  by (simp add: quiet_def keeps_def)

lemma incRef_kept: "incRef hp b = Some hp' \<Longrightarrow> hp a = Some l \<Longrightarrow> ref_cnt l = NOT_REFED \<Longrightarrow> hp' a = Some l"
  by (auto simp: incRef_def split: option.splits if_splits)

lemma decRef_kept: "decRef hp b = Some hp' \<Longrightarrow> hp a = Some l \<Longrightarrow> ref_cnt l = NOT_REFED \<Longrightarrow> hp' a = Some l"
  by (auto simp: decRef_def split: option.splits if_splits)

lemma ov_decRef_kept:
  "ov_decRef hp bs = Some hp' \<Longrightarrow> hp a = Some l \<Longrightarrow> ref_cnt l = NOT_REFED \<Longrightarrow> hp' a = Some l"
proof (induction hp bs rule: ov_decRef.induct)
  case (3 hp b bs)
  then obtain h1 where "decRef hp b = Some h1" "ov_decRef h1 bs = Some hp'"
    by (auto simp: bind_eq_Some_conv)
  then show ?case using 3 decRef_kept by blast
qed simp_all

lemma overflow_delete_kept:
  "overflow_delete hp w = Some hp' \<Longrightarrow> hp a = Some l \<Longrightarrow> ref_cnt l = NOT_REFED \<Longrightarrow> hp' a = Some l"
  using ov_decRef_kept by (auto simp: overflow_delete_def)

lemma overflow_delete_keeps: "overflow_delete (logs e) w = Some hp \<Longrightarrow> keeps a e (e\<lparr>logs := hp\<rparr>)"
  using overflow_delete_kept by (auto simp: keeps_def)

lemma returnOverflow_keeps:
  assumes "returnOverflow e t w nocb = Some e'"
  shows "keeps a e e'"
proof -
  obtain e1 where e1: "unrefGreaseInGrease e = Some e1"
      "(\<exists>q. e' = e1\<lparr>callerLogCallbacks := q\<rparr>) \<or> (\<exists>hp. overflow_delete (logs e1) w = Some hp \<and> e' = e1\<lparr>logs := hp\<rparr>)"
    using assms by (auto simp: returnOverflow_def Let_def bind_eq_Some_conv split: if_splits prod.splits)
  then have "keeps a e1 e'" using overflow_delete_keeps by (auto simp: keeps_def)
  then show ?thesis using keeps_trans keeps_quiet [OF unref_quiet [OF e1(1)]] by blast
qed

lemma writeAsyncOverflow_keeps:
  assumes "writeAsyncOverflow e t w nocb = Some (e', t')"
  shows "keeps a e e'"
proof (cases "t_kind t")
  case TtyTarget
  then show ?thesis using assms by (auto simp: writeAsyncOverflow_def)
next
  case FileTarget
  then show ?thesis using assms returnOverflow_keeps by (auto simp: writeAsyncOverflow_def bind_eq_Some_conv)
next
  case CallbackTarget
  have q: "keeps a e (e\<lparr>callerLogCallbacks := q\<rparr>)" for q by (simp add: keeps_def)
  show ?thesis
  proof (cases "e' = e \<or> (\<exists>q. e' = e\<lparr>callerLogCallbacks := q\<rparr>)")
    case True
    then show ?thesis using q by auto
  next
    case False
    then obtain hp where "overflow_delete (logs e) w = Some hp" "e' = e\<lparr>logs := hp\<rparr>"
      using assms CallbackTarget by (auto simp: writeAsyncOverflow_def split: if_splits prod.splits)
    then show ?thesis using overflow_delete_keeps by simp
  qed
qed

lemma add_block_keeps: "add_block l k (e, w) = Some (e', w') \<Longrightarrow> keeps a e e'"
  by (auto simp: add_block_def new_log_def keeps_def split: if_splits)

lemma keeps_ref: "keeps a e (refGreaseInGrease e)"
  by (simp add: keeps_def)

lemma writeOverflow_keeps:
  assumes "writeOverflow render tm b flt e t = Some (e', t')"
  shows "keeps a e e'"
proof (cases "t_disabled t")
  case False
  then obtain l1 n1 e1 w1 w2 l2 n2 e3 w3 l3 n3 e4 w4 where
    b: "add_block l1 n1 (e, overflow_new) = Some (e1, w1)" "add_block l2 n2 (e1, w2) = Some (e3, w3)"
    "add_block l3 n3 (e3, w3) = Some (e4, w4)"
    "writeAsyncOverflow (refGreaseInGrease e4) t w4 False = Some (e', t')"
    using assms by (auto simp: writeOverflow_def Let_def bind_eq_Some_conv split: option.splits)
  have "keeps a e e4"
    using add_block_keeps [OF b(1)] add_block_keeps [OF b(2)] add_block_keeps [OF b(3)]
    by (meson keeps_trans)
  then show ?thesis
    using keeps_trans keeps_ref writeAsyncOverflow_keeps [OF b(4)] by blast
qed (use assms in \<open>simp add: writeOverflow_def\<close>)

lemma overflow_action_keeps:
  assumes "overflow_action render tm b m i flt g = Some g'"
  shows "keeps a (env g) (env g')"
proof (cases "find_target g i")
  case None
  then show ?thesis using assms by (simp add: overflow_action_def on_target_def)
next
  case (Some t)
  then obtain e1 t1 hp et where f: "flushAll (env g) t True False = Some (e1, t1)"
      "incRef (logs e1) b = Some hp" "writeOverflow render tm b flt (e1\<lparr>logs := hp\<rparr>) t1 = Some et"
      "g' = put_target g i et"
    using assms by (auto simp: overflow_action_def on_target_def bind_eq_Some_conv)
  have "keeps a e1 (e1\<lparr>logs := hp\<rparr>)" using incRef_kept [OF f(2)] by (simp add: keeps_def)
  moreover have "keeps a (e1\<lparr>logs := hp\<rparr>) (fst et)"
    by (rule writeOverflow_keeps [of render tm b flt _ t1 _ "snd et"]) (simp add: f(3))
  moreover have "env g' = fst et" using f(4) by (simp add: put_target_def)
  ultimately show ?thesis using keeps_quiet [OF flushAll_quiet [OF f(1)]] keeps_trans by metis
qed

lemma handle_overflow_keeps:
  assumes "handle_overflow render tm b g = Some g'"
  shows "keeps a (env g) (env g')"
proof -
  obtain l :: singleLog and g1 hp where g1: "dispatch (overflow_action render tm b) (sl_meta l) g = Some g1"
      "decRef (logs (env g1)) b = Some hp" "g' = g1\<lparr>env := (env g1)\<lparr>logs := hp\<rparr>\<rparr>"
    using assms by (fastforce simp: handle_overflow_def bind_eq_Some_conv split: option.splits)
  let ?R = "\<lambda>g g'. keeps a (env g) (env g')"
  have "?R g g1" by (rule dispatch_rel [of ?R, OF _ _ overflow_action_keeps g1(1)]) (auto intro: keeps_trans)
  moreover have "keeps a (env g1) (env g')"
    using decRef_kept [OF g1(2)] g1(3) by (simp add: keeps_def)
  ultimately show ?thesis by (rule keeps_trans)
qed

text \<open>A message larger than a pool buffer is put on the heap without reference counting, so the
  command that writes it out never frees it: it is still there when the command is done,
  whatever the targets and filters are.\<close>

lemma large_message_leaks:
  assumes "bufferSize g < len" "log_internal g f s len = Some (r, g1)"
    "circ_inv (internalCmdQueue (env g))" "circ_list (internalCmdQueue (env g)) = []"
    "0 < csize (internalCmdQueue (env g))" "handleInternalCmd render tm 1 g1 = Some g2"
  shows "logs (env g2) (next_log (env g)) \<noteq> None"
proof -
  let ?a = "next_log (env g)" let ?r = "(cmdReq WRITE_TARGET_OVERFLOW 0)\<lparr>rq_aux := Some ?a\<rparr>"
  obtain q where q: "circ_addIfRoom (internalCmdQueue (env g)) ?r = (True, q)"
    using circ_addIfRoom_ok [OF assms(3), of ?r] assms(4,5) by auto
  then have qa: "circ_inv q" "circ_list q = [?r]"
    using circ_add_abs [OF assms(3), of ?r] assms(4) by (auto simp: circ_addIfRoom_add split: option.splits)
  have "\<exists>l. ref_cnt l = NOT_REFED \<and> internalCmdQueue (env g1) = q \<and> logs (env g1) ?a = Some l \<and>
      next_log (env g1) = ?a + 1"
    using assms(1,2) q
    by (auto simp: log_internal_def log_overflow_def Let_def new_log_def singleLog_new_def split: option.splits)
  then obtain l where l: "ref_cnt l = NOT_REFED" "internalCmdQueue (env g1) = q"
      "logs (env g1) ?a = Some l" "next_log (env g1) = ?a + 1" by blast
  obtain r q' where rm: "circ_remove q = Some (r, q')"
    using circ_remove_None_iff [OF qa(1)] qa(2) by (cases "circ_remove q") auto
  then have r: "r = ?r" using circ_remove_abs(2) [OF qa(1) rm] qa(2) by simp
  have "handle_overflow render tm ?a (g1\<lparr>env := (env g1)\<lparr>internalCmdQueue := q'\<rparr>\<rparr>) = Some g2"
    using assms(6) l(2) rm r by (auto simp: handle_cmd_def cmdReq_def bind_eq_Some_conv)
  from handle_overflow_keeps [OF this, of ?a] l show ?thesis by (simp add: keeps_def)
qed

definition ex_tiny :: grease where "ex_tiny = the (grease_new_n 1 1)"

lemma ex_tiny_parts:
  "circ_inv (internalCmdQueue (env ex_tiny))" "circ_list (internalCmdQueue (env ex_tiny)) = []"
  "csize (internalCmdQueue (env ex_tiny)) = 200" "next_log (env ex_tiny) = 1" "bufferSize ex_tiny = 1"
  "filters ex_tiny = filter_state_init" "defaultTarget ex_tiny = None"
proof -
  obtain g where g: "grease_new_n 1 1 = Some g" "pool_inv 1 [] g" "circ_list (internalCmdQueue (env g)) = []"
    using grease_new_pool [of 1 1] by auto
  then have e: "ex_tiny = g" by (simp add: ex_tiny_def)
  show "circ_inv (internalCmdQueue (env ex_tiny))" "circ_list (internalCmdQueue (env ex_tiny)) = []"
    using g(2,3) e by (simp_all add: pool_inv_def)
  show "csize (internalCmdQueue (env ex_tiny)) = 200" "next_log (env ex_tiny) = 1" "bufferSize ex_tiny = 1"
    "filters ex_tiny = filter_state_init" "defaultTarget ex_tiny = None"
    using g(1) unfolding e by (auto simp: grease_new_n_def env_new_def circ_new_def)
qed

lemma ex_sift_init:
  "sift filter_state_init ex_meta = (True, ex_meta\<lparr>cached_hash := getHashes 3 2\<rparr>)"
  by (simp add: sift_def filter_state_init_def find_list_def ex_meta_def DECL_LOG_META_def META_HAS_CACHE_def)

lemma large_message_leaks_example:
  "\<exists>g1 g2. log_internal ex_tiny (fresh_extra ex_meta) [0x61, 0x62] 2 = Some (GREASE_OK, g1) \<and>
     handleInternalCmd ex_render (0, 0) 1 g1 = Some g2 \<and> logs (env g2) 1 \<noteq> None"
proof -
  note p = ex_tiny_parts
  let ?r = "(cmdReq WRITE_TARGET_OVERFLOW 0)\<lparr>rq_aux := Some 1\<rparr>"
  obtain q where q: "circ_addIfRoom (internalCmdQueue (env ex_tiny)) ?r = (True, q)"
    using circ_addIfRoom_ok [OF p(1), of ?r] p(2,3) by auto
  then have qa: "circ_inv q" "circ_list q = [?r]"
    using circ_add_abs [OF p(1), of ?r] p(2) by (auto simp: circ_addIfRoom_add split: option.splits)
  obtain q' where rm: "circ_remove q = Some (?r, q')"
    using circ_remove_None_iff [OF qa(1)] circ_remove_abs(2) [OF qa(1)] qa(2) by fastforce
  obtain b where b: "hb_memcpy (heapBuf_new 2) [0x61, 0x62] 2 (Some overflow_ending) = Some (2, b)"
    by (simp add: hb_memcpy_def heapBuf_new_def buf_read_def buf_write_def LMALLOC_def)
  define l where "l = (singleLog_new 2)\<lparr>sl_buf := b, sl_meta := stored_meta (fresh_extra noMetaData) (fresh_extra ex_meta)\<rparr>"
  define g1 where "g1 = ex_tiny\<lparr>env := (env ex_tiny)\<lparr>logs := (logs (env ex_tiny))(1 \<mapsto> l), next_log := 2,
      internalCmdQueue := q\<rparr>\<rparr>"
  have 1: "log_internal ex_tiny (fresh_extra ex_meta) [0x61, 0x62] 2 = Some (GREASE_OK, g1)"
    using b p(4,5) q by (simp add: log_internal_def log_overflow_def MAX_LOG_MESSAGE_SIZE_def new_log_def
        singleLog_new_def l_def g1_def)
  have "em_m (sl_meta l) = ex_meta" by (simp add: l_def stored_meta_def fresh_extra_def)
  then have "\<not> Option.is_none (handleInternalCmd ex_render (0, 0) 1 g1)"
    using rm p(6,7) ex_sift_init
    by (simp add: g1_def handle_cmd_def handle_overflow_def cmdReq_def dispatch_def decRef_def
        l_def singleLog_new_def ex_meta_def DECL_LOG_META_def)
  then obtain g2 where 2: "handleInternalCmd ex_render (0, 0) 1 g1 = Some g2" by (auto simp: Option.is_none_def)
  from large_message_leaks [OF _ 1 p(1,2) _ 2] 1 2 p(3-5) show ?thesis by simp
qed
end
