(* ===== verification/Klog_Parse.thy ===== *)
theory Klog_Parse
  imports Routing
begin

text \<open>
  The kernel log: the two parsers of \<open>logger.cc\<close> (for the ring buffer's \<^verbatim>\<open><6>[12.3] text\<close> lines
  and for the records of \<^verbatim>\<open>/dev/kmsg\<close>), and the two sinks of \<open>logger.h\<close> that read, parse and
  submit. A pointer into the read buffer is an index, \<open>None\<close> is \<open>NULL\<close>; a read outside the
  buffer, or through \<open>NULL\<close>, makes the call \<open>None\<close>. The text that \<open>klogctl\<close> or \<open>read\<close> delivers is an
  argument.
\<close>

section \<open>The parsers\<close>

datatype klog_parse_state =
    LEVEL_BEGIN | IN_LEVEL | TIME_STAMP_BEGIN | IN_TIME_STAMP | BODY_BEGIN | IN_BODY | BODY_END
  | CONT_BODY_BEGIN | IN_CONT_BODY | CONT_BODY_END | INVALID | END_LOG

record klog_parser =
  kl_mem :: bytes
  kl_look :: nat
  kl_state :: klog_parse_state
  kl_cap :: "nat option"
  kl_level :: LevelMask            \<comment> \<open>\<^verbatim>\<open>entry->meta.m.level\<close>\<close>

definition GREASE_TAG_KERNEL :: TagId where "GREASE_TAG_KERNEL = 5"

definition isdigit :: "u8 \<Rightarrow> bool" where
  "isdigit c \<longleftrightarrow> 0x30 \<le> c \<and> c \<le> 0x39"

text \<open>\<^verbatim>\<open>*cap - '0'\<close> as a signed \<open>char\<close>.\<close>

definition digit_value :: "u8 \<Rightarrow> int" where
  "digit_value c = sint c - 48"

text \<open>The end of \<^verbatim>\<open><n>\<close>.\<close>

definition klog_level_end :: "klog_parser \<Rightarrow> klog_parser" where
  "klog_level_end p =
     (case kl_cap p of
        None \<Rightarrow> p\<lparr>kl_state := INVALID\<rparr>
      | Some k \<Rightarrow>
          if kl_look p = k + 1 then
            (let c = kl_mem p ! k in
             if c = 0x63 then p\<lparr>kl_state := CONT_BODY_BEGIN\<rparr>
             else if c = 0x64 then p\<lparr>kl_level := GREASE_KLOG_DEFAULT_LEVEL, kl_state := TIME_STAMP_BEGIN\<rparr>
             else if digit_value c < 8 \<and> digit_value c \<ge> 0
               then p\<lparr>kl_level := GREASE_KLOGLEVEL_TO_LEVEL_MAP ! nat (digit_value c),
                      kl_state := TIME_STAMP_BEGIN\<rparr>
             else p\<lparr>kl_state := INVALID\<rparr>)
          else p\<lparr>kl_state := INVALID\<rparr>)"

definition klog_switch :: "nat \<Rightarrow> klog_parser \<Rightarrow> klog_parser option" where
  "klog_switch remain p =
     (if kl_state p \<in> {LEVEL_BEGIN, IN_LEVEL, TIME_STAMP_BEGIN, IN_TIME_STAMP, BODY_BEGIN, IN_BODY} then
        (if kl_look p < length (kl_mem p) then
           (let c = kl_mem p ! kl_look p in Some
             (case kl_state p of
                LEVEL_BEGIN \<Rightarrow>
                  (if c = 0x3C then p\<lparr>kl_state := IN_LEVEL, kl_cap := Some (kl_look p + 1)\<rparr>
                   else p\<lparr>kl_state := INVALID\<rparr>)
              | IN_LEVEL \<Rightarrow>
                  (if c = 0x3E then klog_level_end (p\<lparr>kl_mem := (kl_mem p)[kl_look p := 0]\<rparr>) else p)
              | TIME_STAMP_BEGIN \<Rightarrow> p\<lparr>kl_state := (if c = 0x5B then IN_TIME_STAMP else INVALID)\<rparr>
              | IN_TIME_STAMP \<Rightarrow>
                  (if c = 0x5D then p\<lparr>kl_state := BODY_BEGIN\<rparr>
                   else if \<not> isdigit c \<and> c \<noteq> 0x2E \<and> c \<noteq> 0x20 then p\<lparr>kl_state := INVALID\<rparr>
                   else p)
              | BODY_BEGIN \<Rightarrow>
                  p\<lparr>kl_cap := Some (kl_look p + 1), kl_state := (if c \<noteq> 0x0A then IN_BODY else END_LOG)\<rparr>
              | IN_BODY \<Rightarrow> (if c = 0x0A then p\<lparr>kl_state := END_LOG\<rparr> else p)
              | _ \<Rightarrow> p))
         else None)
      else Some p)"

text \<open>The switch for \<^verbatim>\<open>/dev/kmsg\<close>; the comma at \<open>look\<close> was overwritten before \<^verbatim>\<open>*look == ';'\<close> is asked.\<close>

definition devklog_level_end :: "klog_parser \<Rightarrow> klog_parser" where
  "devklog_level_end p =
     (case kl_cap p of
        None \<Rightarrow> p
      | Some k \<Rightarrow>
          if kl_look p = k + 1 \<or> kl_look p = k + 2 then
            (let c = kl_mem p ! k in
             if c = 0x63 then p\<lparr>kl_state := CONT_BODY_BEGIN\<rparr>
             else if c = 0x64 then p\<lparr>kl_level := GREASE_KLOG_DEFAULT_LEVEL, kl_state := TIME_STAMP_BEGIN\<rparr>
             else
               (let v = (if kl_look p = k + 1 then digit_value c
                         else if c = 0x31 then digit_value (kl_mem p ! (k + 1)) + 10 else 20)
                in if v < 20 \<and> v \<ge> 0
                   then p\<lparr>kl_level := GREASE_KLOGLEVEL_TO_LEVEL_MAP ! nat v, kl_state := TIME_STAMP_BEGIN\<rparr>
                   else p\<lparr>kl_level := GREASE_KLOG_DEFAULT_LEVEL, kl_state := TIME_STAMP_BEGIN\<rparr>))
          else p)"

definition devklog_switch :: "nat \<Rightarrow> klog_parser \<Rightarrow> klog_parser option" where
  "devklog_switch remain p =
     (case kl_state p of
        LEVEL_BEGIN \<Rightarrow> Some (p\<lparr>kl_cap := Some (kl_look p), kl_state := IN_LEVEL\<rparr>)
      | IN_LEVEL \<Rightarrow>
          (if kl_look p < length (kl_mem p) then
             Some (if kl_mem p ! kl_look p = 0x2C
                   then devklog_level_end (p\<lparr>kl_mem := (kl_mem p)[kl_look p := 0]\<rparr>) else p)
           else None)
      | TIME_STAMP_BEGIN \<Rightarrow>
          (if kl_look p < length (kl_mem p) then
             Some (if kl_mem p ! kl_look p = 0x3B then p\<lparr>kl_state := BODY_BEGIN\<rparr> else p)
           else None)
      | BODY_BEGIN \<Rightarrow>
          Some (p\<lparr>kl_cap := Some (kl_look p), kl_state := (if remain = 1 then END_LOG else IN_BODY)\<rparr>)
      | IN_BODY \<Rightarrow> Some (if remain = 1 then p\<lparr>kl_state := END_LOG\<rparr> else p)
      | _ \<Rightarrow> Some p)"

text \<open>The loop of both, over \<open>remain\<close>; what is left of \<open>remain\<close> is returned too.\<close>

fun klog_loop ::
  "(nat \<Rightarrow> klog_parser \<Rightarrow> klog_parser option) \<Rightarrow> nat \<Rightarrow> klog_parser \<Rightarrow> (klog_parser \<times> nat) option" where
  "klog_loop sw 0 p = Some (p, 0)"
| "klog_loop sw (Suc r) p =
     (if kl_state p = INVALID \<or> kl_state p = END_LOG then Some (p, Suc r)
      else Option.bind (sw (Suc r) p) (\<lambda>p1. klog_loop sw r (p1\<lparr>kl_look := kl_look p1 + 1\<rparr>)))"

text \<open>The copy into the entry.\<close>

definition klog_copy :: "bytes \<Rightarrow> nat \<Rightarrow> nat \<Rightarrow> heapBuf \<Rightarrow> heapBuf option" where
  "klog_copy mem cap n b =
     (let k = (if n > hb_len b then hb_len b else n) in
      case hb_base b of
        None \<Rightarrow> (if k = 0 then Some (b\<lparr>hb_used := 0\<rparr>) else None)
      | Some base \<Rightarrow>
          Option.bind (buf_read mem cap k) (\<lambda>s.
            map_option (\<lambda>base'. b\<lparr>hb_base := Some base', hb_used := k\<rparr>) (buf_write base 0 s)))"

record klog_result =
  kr_ok :: bool
  kr_remain :: nat
  kr_state :: klog_parse_state
  kr_entry :: singleLog
  kr_moved :: nat
  kr_mem :: bytes

definition parse_klog ::
  "(nat \<Rightarrow> klog_parser \<Rightarrow> klog_parser option) \<Rightarrow> bytes \<Rightarrow> nat \<Rightarrow> nat \<Rightarrow> klog_parse_state \<Rightarrow> singleLog \<Rightarrow>
   klog_result option" where
  "parse_klog sw mem start remain begin_state entry =
     Option.bind (klog_loop sw remain
       \<lparr>kl_mem = mem, kl_look = start, kl_state = begin_state, kl_cap = None,
        kl_level = m_level (em_m (sl_meta entry))\<rparr>) (\<lambda>(p, r).
     let m = (em_m (sl_meta entry))\<lparr>m_level := kl_level p\<rparr>;
         res = \<lparr>kr_ok = False, kr_remain = r, kr_state = kl_state p,
                kr_entry = entry\<lparr>sl_meta := (sl_meta entry)\<lparr>em_m := m\<rparr>\<rparr>,
                kr_moved = kl_look p, kr_mem = kl_mem p\<rparr>
     in if kl_state p = END_LOG then
          (let m' = m\<lparr>m_tag := GREASE_TAG_KERNEL, m_origin := 0\<rparr>;
               entry' = entry\<lparr>sl_meta := (sl_meta entry)\<lparr>em_m := m'\<rparr>\<rparr>;
               res' = res\<lparr>kr_state := LEVEL_BEGIN, kr_entry := entry'\<rparr>
           in case kl_cap p of
                None \<Rightarrow> None
              | Some cap \<Rightarrow>
                  if kl_look p > cap then
                    map_option (\<lambda>b. res'\<lparr>kr_ok := True, kr_entry := entry'\<lparr>sl_buf := b\<rparr>\<rparr>)
                      (klog_copy (kl_mem p) cap (kl_look p - cap - 1) (sl_buf entry))
                  else Some res')
        else Some res)"

definition parse_single_klog_to_singleLog ::
  "bytes \<Rightarrow> nat \<Rightarrow> nat \<Rightarrow> klog_parse_state \<Rightarrow> singleLog \<Rightarrow> klog_result option" where
  "parse_single_klog_to_singleLog = parse_klog klog_switch"

definition parse_single_devklog_to_singleLog ::
  "bytes \<Rightarrow> nat \<Rightarrow> nat \<Rightarrow> klog_parse_state \<Rightarrow> singleLog \<Rightarrow> klog_result option" where
  "parse_single_devklog_to_singleLog = parse_klog devklog_switch"

section \<open>The sinks\<close>

text \<open>
  \<open>KernelProcKmsgSink\<close>: the loop over one read of the ring buffer. It parses, from the start of the
  buffer, \<^verbatim>\<open>buf_size - 1\<close> bytes and not only those that were read. Each round takes a pool buffer;
  \<open>k\<close> bounds the rounds.
\<close>

definition put_entry :: "grease \<Rightarrow> nat \<Rightarrow> singleLog \<Rightarrow> grease" where
  "put_entry g a l = g\<lparr>env := (env g)\<lparr>logs := (logs (env g))(a \<mapsto> l)\<rparr>\<rparr>"

definition submit_entry :: "grease \<Rightarrow> nat \<Rightarrow> grease option" where
  "submit_entry g a =
     Option.bind (incRef (logs (env g)) a)
       (\<lambda>hp. submitBuffer (g\<lparr>env := (env g)\<lparr>logs := hp\<rparr>\<rparr>) a)"

fun klog_drain ::
  "nat \<Rightarrow> grease \<Rightarrow> bytes \<Rightarrow> nat \<Rightarrow> nat \<Rightarrow> klog_parse_state \<Rightarrow> (grease \<times> bytes) option" where
  "klog_drain 0 g mem pos remain st = Some (g, mem)"
| "klog_drain (Suc k) g mem pos remain st =
     (case grabInLogBuffer g of
        (GREASE_OK, Some a, g1) \<Rightarrow>
          (case logs (env g1) a of
             None \<Rightarrow> None
           | Some l \<Rightarrow>
               Option.bind (parse_single_klog_to_singleLog mem pos remain st l) (\<lambda>r.
                 if kr_ok r then
                   Option.bind (submit_entry (put_entry g1 a (kr_entry r)) a) (\<lambda>g2.
                     klog_drain k g2 (kr_mem r) (kr_moved r) (kr_remain r) (kr_state r))
                 else map_option (\<lambda>g2. (g2, kr_mem r))
                        (returnBuffer_master (put_entry g1 a (kr_entry r)) a)))
      | _ \<Rightarrow> Some (g, mem))"

definition klog_read :: "grease \<Rightarrow> bytes \<Rightarrow> bytes \<Rightarrow> (grease \<times> bytes) option" where
  "klog_read g temp_buffer_entry data =
     Option.bind (buf_write temp_buffer_entry 0 (data @ [0])) (\<lambda>mem.
       klog_drain (length temp_buffer_entry) g mem 0 (length temp_buffer_entry - 1) LEVEL_BEGIN)"

text \<open>
  \<open>KernelProcKmsg2Sink\<close>: one round of the listener when \<^verbatim>\<open>/dev/kmsg\<close> is readable. \<open>data\<close> is what
  \<open>read\<close> delivers, empty when it fails. A \<^verbatim>\<open>break\<close> ends the listener.
\<close>

record kmsg_sink =
  ks_buf :: bytes                  \<comment> \<open>\<^verbatim>\<open>temp_buffer_entry\<close>\<close>
  ks_read_into :: nat
  ks_parse_state :: klog_parse_state
  ks_entry :: "nat option"
  ks_running :: bool

definition kmsg_new :: "nat \<Rightarrow> kmsg_sink" where
  "kmsg_new buf_size =
     \<lparr>ks_buf = LMALLOC buf_size, ks_read_into = 0, ks_parse_state = LEVEL_BEGIN, ks_entry = None,
      ks_running = True\<rparr>"

definition kmsg_parse :: "bytes \<Rightarrow> nat \<Rightarrow> kmsg_sink \<Rightarrow> grease \<Rightarrow> (kmsg_sink \<times> grease) option" where
  "kmsg_parse data a ks g =
     (case (buf_write (ks_buf ks) (ks_read_into ks) (data @ [0]), logs (env g) a) of
        (Some mem, Some l) \<Rightarrow>
          Option.bind (parse_single_devklog_to_singleLog mem (ks_read_into ks) (length data)
              (ks_parse_state ks) l) (\<lambda>r.
            let ks1 = ks\<lparr>ks_buf := kr_mem r, ks_parse_state := kr_state r, ks_entry := Some a\<rparr>;
                g1 = put_entry g a (kr_entry r)
            in if kr_ok r then
                 map_option (Pair (ks1\<lparr>ks_read_into := 0, ks_entry := None\<rparr>)) (submit_entry g1 a)
               else if kr_state r = INVALID then
                 map_option (Pair (ks1\<lparr>ks_read_into := 0, ks_parse_state := LEVEL_BEGIN,
                                       ks_entry := None, ks_running := False\<rparr>))
                   (returnBuffer_master g1 a)
               else Some (ks1\<lparr>ks_read_into := kr_moved r, ks_running := False\<rparr>, g1))
      | _ \<Rightarrow> None)"

definition kmsg_readable :: "bytes \<Rightarrow> kmsg_sink \<Rightarrow> grease \<Rightarrow> (kmsg_sink \<times> grease) option" where
  "kmsg_readable data ks g =
     (let grabbed = (if ks_parse_state ks \<noteq> LEVEL_BEGIN then Some (ks_entry ks, g)
                     else (case grabInLogBuffer g of
                             (GREASE_OK, a, g1) \<Rightarrow> Some (a, g1)
                           | _ \<Rightarrow> None))
      in case grabbed of
           None \<Rightarrow> Some (ks\<lparr>ks_running := False\<rparr>, g)
         | Some (None, g1) \<Rightarrow> None
         | Some (Some a, g1) \<Rightarrow>
             (if data \<noteq> [] then kmsg_parse data a ks g1
              else map_option (Pair (ks\<lparr>ks_entry := None\<rparr>)) (returnBuffer_master g1 a)))"

definition kmsg_stop :: "kmsg_sink \<Rightarrow> grease \<Rightarrow> (kmsg_sink \<times> grease) option" where
  "kmsg_stop ks g =
     (case ks_entry ks of
        None \<Rightarrow> Some (ks\<lparr>ks_running := False\<rparr>, g)
      | Some a \<Rightarrow> map_option (Pair (ks\<lparr>ks_running := False\<rparr>)) (returnBuffer_master g a))"

section \<open>Lines of the ring buffer\<close>

definition stamp_char :: "u8 \<Rightarrow> bool" where
  "stamp_char c \<longleftrightarrow> isdigit c \<or> c = 0x2E \<or> c = 0x20"

text \<open>A line as the kernel prints it: level \<open>d\<close>, time stamp, one character, the text and a newline.\<close>

definition klog_line :: "nat \<Rightarrow> bytes \<Rightarrow> u8 \<Rightarrow> bytes \<Rightarrow> bytes" where
  "klog_line d ts x body =
     [0x3C, of_nat (48 + d), 0x3E, 0x5B] @ ts @ [0x5D, x] @ body @ [0x0A]"

lemma loop_stamp:
  assumes "kl_state p = IN_TIME_STAMP" "at (kl_mem p) (kl_look p) ts" "\<forall>c \<in> set ts. stamp_char c"
  shows "klog_loop klog_switch (length ts + r) p =
    klog_loop klog_switch r (p\<lparr>kl_look := kl_look p + length ts\<rparr>)"
  using assms
proof (induction ts arbitrary: p)
  case (Cons c ts)
  have c: "kl_look p < length (kl_mem p)" "kl_mem p ! kl_look p = c" "at (kl_mem p) (Suc (kl_look p)) ts"
      "c \<noteq> 0x5D" "stamp_char c"
    using Cons.prems by (auto simp: at_Cons stamp_char_def isdigit_def)
  then have "klog_switch (Suc (length ts + r)) p = Some p"
    using Cons.prems(1) by (auto simp: klog_switch_def stamp_char_def)
  then show ?case
    using Cons.IH [of "p\<lparr>kl_look := Suc (kl_look p)\<rparr>"] Cons.prems c by simp
qed simp

lemma loop_body:
  assumes "kl_state p = IN_BODY" "at (kl_mem p) (kl_look p) xs" "0x0A \<notin> set xs"
  shows "klog_loop klog_switch (length xs + r) p =
    klog_loop klog_switch r (p\<lparr>kl_look := kl_look p + length xs\<rparr>)"
  using assms
proof (induction xs arbitrary: p)
  case (Cons c xs)
  then have "klog_switch (Suc (length xs + r)) p = Some p"
    by (auto simp: klog_switch_def at_Cons)
  then show ?case
    using Cons.IH [of "p\<lparr>kl_look := Suc (kl_look p)\<rparr>"] Cons.prems by (simp add: at_Cons)
qed simp

lemma loop_step:
  assumes "klog_switch (Suc r) p = Some p1" "kl_state p \<noteq> INVALID" "kl_state p \<noteq> END_LOG"
  shows "klog_loop klog_switch (Suc r) p = klog_loop klog_switch r (p1\<lparr>kl_look := kl_look p1 + 1\<rparr>)"
  using assms by simp

lemma level_digit:
  assumes "d < 8"
  shows "digit_value (of_nat (48 + d)) = int d" "(of_nat (48 + d) :: u8) \<noteq> 0x63" "(of_nat (48 + d) :: u8) \<noteq> 0x64"
    "(of_nat (48 + d) :: u8) \<noteq> 0x3E"
proof -
  have "d \<in> {0, 1, 2, 3, 4, 5, 6, 7}" using assms by auto
  then show "digit_value (of_nat (48 + d)) = int d" "(of_nat (48 + d) :: u8) \<noteq> 0x63"
    "(of_nat (48 + d) :: u8) \<noteq> 0x64" "(of_nat (48 + d) :: u8) \<noteq> 0x3E"
    by (auto simp: digit_value_def)
qed

text \<open>The loop over \<^verbatim>\<open><d>[\<close>, and over a whole line.\<close>

lemma loop_level:
  assumes d: "d < 8" and at: "at mem i [0x3C, of_nat (48 + d), 0x3E, 0x5B]"
  shows "klog_loop klog_switch (Suc (Suc (Suc (Suc k))))
      \<lparr>kl_mem = mem, kl_look = i, kl_state = LEVEL_BEGIN, kl_cap = None, kl_level = lv\<rparr> =
    klog_loop klog_switch k \<lparr>kl_mem = mem[i + 2 := 0], kl_look = i + 4, kl_state = IN_TIME_STAMP,
      kl_cap = Some (i + 1), kl_level = GREASE_KLOGLEVEL_TO_LEVEL_MAP ! d\<rparr>"
proof -
  let ?p = "\<lambda>s k c l. \<lparr>kl_mem = mem[i + 2 := 0], kl_look = k, kl_state = s, kl_cap = c, kl_level = l\<rparr>"
  let ?q = "\<lambda>s k c. \<lparr>kl_mem = mem, kl_look = k, kl_state = s, kl_cap = c, kl_level = lv\<rparr>"
  let ?lv = "GREASE_KLOGLEVEL_TO_LEVEL_MAP ! d"
  have a: "i < length mem" "mem ! i = 0x3C" "i + 1 < length mem" "mem ! (i + 1) = of_nat (48 + d)"
      "i + 2 < length mem" "mem ! (i + 2) = 0x3E" "i + 3 < length mem" "mem ! (i + 3) = 0x5B"
    using at by (auto simp: at_Cons eval_nat_numeral)
  have s: "klog_switch k (?q LEVEL_BEGIN i None) = Some (?q IN_LEVEL i (Some (i + 1)))"
      "klog_switch k (?q IN_LEVEL (i + 1) (Some (i + 1))) = Some (?q IN_LEVEL (i + 1) (Some (i + 1)))"
      "klog_switch k (?q IN_LEVEL (i + 2) (Some (i + 1))) = Some (?p TIME_STAMP_BEGIN (i + 2) (Some (i + 1)) ?lv)"
      "klog_switch k (?p TIME_STAMP_BEGIN (i + 3) (Some (i + 1)) ?lv) = Some (?p IN_TIME_STAMP (i + 3) (Some (i + 1)) ?lv)" for k
    using a level_digit [OF d] d by (simp_all add: klog_switch_def klog_level_end_def)
  note g = loop_step [OF s(1)] loop_step [OF s(2)] loop_step [OF s(3)] loop_step [OF s(4)]
  have 1: "klog_loop klog_switch (Suc k) (?q LEVEL_BEGIN i None) =
      klog_loop klog_switch k (?q IN_LEVEL (i + 1) (Some (i + 1)))" for k using g(1) [of k] by simp
  have 2: "klog_loop klog_switch (Suc k) (?q IN_LEVEL (i + 1) (Some (i + 1))) =
      klog_loop klog_switch k (?q IN_LEVEL (i + 2) (Some (i + 1)))" for k using g(2) [of k] by simp
  have 3: "klog_loop klog_switch (Suc k) (?q IN_LEVEL (i + 2) (Some (i + 1))) =
      klog_loop klog_switch k (?p TIME_STAMP_BEGIN (i + 3) (Some (i + 1)) ?lv)" for k
    using g(3) [of k] by (simp add: eval_nat_numeral)
  have 4: "klog_loop klog_switch (Suc k) (?p TIME_STAMP_BEGIN (i + 3) (Some (i + 1)) ?lv) =
      klog_loop klog_switch k (?p IN_TIME_STAMP (i + 4) (Some (i + 1)) ?lv)" for k
    using g(4) [of k] by (simp add: eval_nat_numeral)
  show ?thesis unfolding 1 2 3 4 ..
qed

lemma loop_line:
  assumes d: "d < 8" and at: "at mem i (klog_line d ts x body)"
    and ts: "\<forall>c \<in> set ts. stamp_char c" and x: "x \<noteq> 0x0A" and body: "0x0A \<notin> set body"
  shows "klog_loop klog_switch (length (klog_line d ts x body) + r)
      \<lparr>kl_mem = mem, kl_look = i, kl_state = LEVEL_BEGIN, kl_cap = None, kl_level = lv\<rparr> =
    Some (\<lparr>kl_mem = mem[i + 2 := 0], kl_look = i + length (klog_line d ts x body), kl_state = END_LOG,
           kl_cap = Some (i + 6 + length ts), kl_level = GREASE_KLOGLEVEL_TO_LEVEL_MAP ! d\<rparr>, r)"
proof -
  let ?p = "\<lambda>s k c. \<lparr>kl_mem = mem[i + 2 := 0], kl_look = k, kl_state = s, kl_cap = c,
      kl_level = GREASE_KLOGLEVEL_TO_LEVEL_MAP ! d\<rparr>"
  let ?c = "Some (i + 6 + length ts)"
  have a: "at mem i [0x3C, of_nat (48 + d), 0x3E, 0x5B]"
      "at mem (i + 4) ts" "i + 4 + length ts < length mem" "mem ! (i + 4 + length ts) = 0x5D"
      "i + 5 + length ts < length mem" "mem ! (i + 5 + length ts) = x"
      "at mem (i + 6 + length ts) body" "i + 6 + length ts + length body < length mem"
      "mem ! (i + 6 + length ts + length body) = 0x0A"
    using at unfolding klog_line_def by (auto simp: at_append at_Cons eval_nat_numeral ac_simps)
  have s: "klog_switch k (?p IN_TIME_STAMP (i + 4 + length ts) (Some (i + 1))) =
         Some (?p BODY_BEGIN (i + 4 + length ts) (Some (i + 1)))"
      "klog_switch k (?p BODY_BEGIN (i + 5 + length ts) (Some (i + 1))) = Some (?p IN_BODY (i + 5 + length ts) ?c)"
      "klog_switch k (?p IN_BODY (i + 6 + length ts + length body) ?c) =
         Some (?p END_LOG (i + 6 + length ts + length body) ?c)" for k
    using a x by (simp_all add: klog_switch_def)
  note g = loop_step [OF s(1)] loop_step [OF s(2)] loop_step [OF s(3)]
  have 1: "klog_loop klog_switch (length ts + k) (?p IN_TIME_STAMP (i + 4) (Some (i + 1))) =
      klog_loop klog_switch k (?p IN_TIME_STAMP (i + 4 + length ts) (Some (i + 1)))" for k
    using loop_stamp [of "?p IN_TIME_STAMP (i + 4) (Some (i + 1))" ts k] a ts by (simp add: at_update)
  have 2: "klog_loop klog_switch (Suc k) (?p IN_TIME_STAMP (i + 4 + length ts) (Some (i + 1))) =
      klog_loop klog_switch k (?p BODY_BEGIN (i + 5 + length ts) (Some (i + 1)))" for k
    using g(1) [of k] by (simp add: eval_nat_numeral)
  have 3: "klog_loop klog_switch (Suc k) (?p BODY_BEGIN (i + 5 + length ts) (Some (i + 1))) =
      klog_loop klog_switch k (?p IN_BODY (i + 6 + length ts) ?c)" for k
    using g(2) [of k] by (simp add: eval_nat_numeral)
  have 4: "klog_loop klog_switch (length body + k) (?p IN_BODY (i + 6 + length ts) ?c) =
      klog_loop klog_switch k (?p IN_BODY (i + 6 + length ts + length body) ?c)" for k
    using loop_body [of "?p IN_BODY (i + 6 + length ts) ?c" body k] a body by (simp add: at_update)
  have 5: "klog_loop klog_switch (Suc r) (?p IN_BODY (i + 6 + length ts + length body) ?c) =
      Some (?p END_LOG (i + 7 + length ts + length body) ?c, r)"
    using g(3) [of r] by (cases r) (simp_all add: eval_nat_numeral)
  have len: "length (klog_line d ts x body) + r =
      Suc (Suc (Suc (Suc (length ts + Suc (Suc (length body + Suc r))))))"
    by (simp add: klog_line_def)
  show ?thesis unfolding len loop_level [OF d a(1)] 1 2 3 4 5 by (simp add: klog_line_def)
qed

lemma klog_copy_fits:
  assumes "hb_ok b" "hb_base b = Some base" "at mem cap body"
  shows "\<exists>b'. klog_copy mem cap (length body) b = Some b' \<and>
    hb_used b' = min (length body) (hb_len b) \<and> hb_len b' = hb_len b \<and> hb_ok b' \<and>
    (\<exists>base'. hb_base b' = Some base' \<and>
       take (hb_used b') base' = take (hb_used b') body)"
proof -
  let ?k = "min (length body) (hb_len b)"
  have l: "length base = hb_len b" using assms(1,2) by (simp add: hb_ok_def)
  have r: "buf_read mem cap ?k = Some (take ?k body)" by (rule at_read [OF assms(3)]) simp
  have "klog_copy mem cap (length body) b = Some (b\<lparr>hb_base := Some (take ?k body @ drop ?k base), hb_used := ?k\<rparr>)"
    using r assms(2) l by (cases "hb_len b < length body") (simp_all add: klog_copy_def buf_write_def Let_def)
  then show ?thesis using assms(1) l by (auto simp: hb_ok_def min_def)
qed

text \<open>The result of parsing one line: the entry has the level, tag and text of the line.\<close>

definition entry_of :: "nat \<Rightarrow> bytes \<Rightarrow> singleLog \<Rightarrow> singleLog \<Rightarrow> bool" where
  "entry_of d body l l' \<longleftrightarrow>
     m_level (em_m (sl_meta l')) = GREASE_KLOGLEVEL_TO_LEVEL_MAP ! d \<and>
     m_tag (em_m (sl_meta l')) = GREASE_TAG_KERNEL \<and> m_origin (em_m (sl_meta l')) = 0 \<and>
     hb_used (sl_buf l') = min (length body) (hb_len (sl_buf l)) \<and>
     hb_len (sl_buf l') = hb_len (sl_buf l) \<and> hb_ok (sl_buf l') \<and>
     (\<exists>base. hb_base (sl_buf l') = Some base \<and>
        take (hb_used (sl_buf l')) base = take (hb_used (sl_buf l')) body)"

lemma parse_line:
  assumes "d < 8" "at mem i (klog_line d ts x body)" "\<forall>c \<in> set ts. stamp_char c" "x \<noteq> 0x0A"
    "0x0A \<notin> set body" "hb_ok (sl_buf l)" "hb_base (sl_buf l) \<noteq> None"
    "length (klog_line d ts x body) \<le> remain"
  shows "\<exists>l'. parse_single_klog_to_singleLog mem i remain LEVEL_BEGIN l =
      Some \<lparr>kr_ok = True, kr_remain = remain - length (klog_line d ts x body), kr_state = LEVEL_BEGIN,
            kr_entry = l', kr_moved = i + length (klog_line d ts x body), kr_mem = mem[i + 2 := 0]\<rparr> \<and>
    entry_of d body l l'"
proof -
  let ?n = "length (klog_line d ts x body)" let ?cap = "i + 6 + length ts"
  obtain base where base: "hb_base (sl_buf l) = Some base" using assms(7) by blast
  have "at mem ?cap body" using assms(2) by (simp add: klog_line_def at_append at_Cons eval_nat_numeral ac_simps)
  then have "at (mem[i + 2 := 0]) ?cap body" by (simp add: at_update)
  from klog_copy_fits [OF assms(6) base this] obtain b' where
    b': "klog_copy (mem[i + 2 := 0]) ?cap (length body) (sl_buf l) = Some b'"
      "hb_used b' = min (length body) (hb_len (sl_buf l))" "hb_len b' = hb_len (sl_buf l)" "hb_ok b'"
      "\<exists>base'. hb_base b' = Some base' \<and> take (hb_used b') base' = take (hb_used b') body" by blast
  have n: "remain = ?n + (remain - ?n)" using assms(8) by simp
  have e: "i + ?n - ?cap - 1 = length body" "?cap < i + ?n" by (simp_all add: klog_line_def)
  note lp = loop_line [OF assms(1-5), of "remain - ?n" "m_level (em_m (sl_meta l))", folded n]
  let ?m = "(em_m (sl_meta l))\<lparr>m_level := GREASE_KLOGLEVEL_TO_LEVEL_MAP ! d, m_tag := GREASE_TAG_KERNEL, m_origin := 0\<rparr>"
  let ?l = "l\<lparr>sl_meta := (sl_meta l)\<lparr>em_m := ?m\<rparr>, sl_buf := b'\<rparr>"
  have "parse_single_klog_to_singleLog mem i remain LEVEL_BEGIN l =
      Some \<lparr>kr_ok = True, kr_remain = remain - ?n, kr_state = LEVEL_BEGIN,
            kr_entry = ?l, kr_moved = i + ?n, kr_mem = mem[i + 2 := 0]\<rparr>"
    unfolding parse_single_klog_to_singleLog_def parse_klog_def lp
    using b'(1) e by (simp del: diff_diff_left)
  moreover have "entry_of d body l ?l" using b'(2-5) by (simp add: entry_of_def)
  ultimately show ?thesis by blast
qed

section \<open>A read of the ring buffer\<close>

abbreviation new_log_cmd :: "nat \<Rightarrow> internalCmdReq" where
  "new_log_cmd a \<equiv> (cmdReq NEW_LOG 0)\<lparr>rq_aux := Some a\<rparr>"

definition cmd_room :: "grease \<Rightarrow> nat \<Rightarrow> bool" where
  "cmd_room g k \<longleftrightarrow> length (circ_list (internalCmdQueue (env g))) + k \<le> nat (csize (internalCmdQueue (env g)))"

lemma put_entry_inv:
  assumes "pool_inv n gr g" "pool_log (bufferSize g) (Some l)"
  shows "pool_inv n gr (put_entry g a l)"
  using assms by (auto simp: put_entry_def pool_inv_def queued_def)

lemma submit_parsed:
  assumes inv: "pool_inv n (a # gr) g" and l: "pool_log (bufferSize g) (Some l)" "0 < hb_used (sl_buf l)"
    and room: "cmd_room g (Suc k)"
  shows "\<exists>g' l'. submit_entry (put_entry g a l) a = Some g' \<and> pool_inv n gr g' \<and> cmd_room g' k \<and>
    circ_list (internalCmdQueue (env g')) = circ_list (internalCmdQueue (env g)) @ [new_log_cmd a] \<and>
    logs (env g') = (logs (env g))(a \<mapsto> l') \<and> sl_buf l' = sl_buf l \<and> sl_meta l' = sl_meta l \<and>
    masterBufferAvail g' = masterBufferAvail g \<and> bufferSize g' = bufferSize g"
proof -
  let ?l = "if ref_cnt l \<noteq> NOT_REFED then l\<lparr>ref_cnt := ref_cnt l + 1\<rparr> else l"
  let ?g = "put_entry g a ?l"
  have pl: "pool_log (bufferSize g) (Some ?l)" using l(1) by (simp add: pool_log_def)
  have inc: "incRef (logs (env (put_entry g a l))) a = Some (logs (env ?g))"
    by (simp add: incRef_def put_entry_def)
  have "circ_inv (internalCmdQueue (env g))" using inv by (simp add: pool_inv_def)
  then obtain q where q: "circ_addIfRoom (internalCmdQueue (env g)) (new_log_cmd a) = (True, q)"
    using circ_addIfRoom_ok [of "internalCmdQueue (env g)" "new_log_cmd a"] room by (auto simp: cmd_room_def)
  then have qa: "circ_list q = circ_list (internalCmdQueue (env g)) @ [new_log_cmd a]"
      "csize q = csize (internalCmdQueue (env g))"
    using circ_add_abs [OF \<open>circ_inv _\<close>, of "new_log_cmd a"] by (auto simp: circ_addIfRoom_add split: option.splits)
  let ?g' = "?g\<lparr>env := (env ?g)\<lparr>internalCmdQueue := q\<rparr>\<rparr>"
  have s: "submitBuffer ?g a = Some ?g'"
    using q l(2) by (simp add: submitBuffer_def enqueue_buffer_def put_entry_def map_upd_triv)
  have "submit_entry (put_entry g a l) a = Some ?g'"
    using inc s by (simp add: submit_entry_def put_entry_def split del: if_split)
  moreover have "pool_inv n gr ?g'" by (rule submit_inv [OF put_entry_inv [OF inv pl] s])
  moreover have "cmd_room ?g' k" using room qa by (simp add: cmd_room_def)
  moreover have "sl_buf ?l = sl_buf l" "sl_meta ?l = sl_meta l" by simp_all
  ultimately show ?thesis using qa(1) by (intro exI [of _ ?g'] exI [of _ ?l]) (simp add: put_entry_def)
qed

lemma grab_some:
  assumes "pool_inv n gr g" "circ_list (masterBufferAvail g) = a # as"
  obtains p l where "grabInLogBuffer g = (GREASE_OK, Some a, g\<lparr>masterBufferAvail := p\<rparr>)"
    "circ_list p = as" "pool_inv n (a # gr) (g\<lparr>masterBufferAvail := p\<rparr>)" "logs (env g) a = Some l"
    "pool_log (bufferSize g) (Some l)" "a \<notin> set as"
proof -
  have c: "circ_inv (masterBufferAvail g)" using assms(1) by (simp add: pool_inv_def)
  obtain b p where p: "circ_remove (masterBufferAvail g) = Some (b, p)"
    using circ_remove_None_iff [OF c] assms(2) by (cases "circ_remove (masterBufferAvail g)") auto
  have b: "b = a" "circ_list p = as" using circ_remove_abs(2) [OF c p] assms(2) by auto
  then have g: "grabInLogBuffer g = (GREASE_OK, Some a, g\<lparr>masterBufferAvail := p\<rparr>)"
    using p by (simp add: grabInLogBuffer_def)
  have "a < n" using pool_member(1) [OF assms(1), of a] assms(2) by simp
  then have "pool_log (bufferSize g) (logs (env g) a)" using assms(1) by (simp add: pool_inv_def)
  then obtain l where l: "logs (env g) a = Some l" "pool_log (bufferSize g) (Some l)"
    by (cases "logs (env g) a") (auto simp: pool_log_def)
  have "distinct (a # as)"
    using assms mset_eq_imp_distinct_iff [of "circ_list (masterBufferAvail g) @ queued g @ gr" "[0..<n]"]
    by (auto simp: pool_inv_def)
  then show ?thesis using that g b(2) l grab_inv [OF assms(1) g] by simp
qed

type_synonym klog_msg = "nat \<times> bytes \<times> u8 \<times> bytes"

definition msg_text :: "klog_msg \<Rightarrow> bytes" where
  "msg_text = (\<lambda>(d, ts, x, body). klog_line d ts x body)"

definition msg_ok :: "klog_msg \<Rightarrow> bool" where
  "msg_ok = (\<lambda>(d, ts, x, body). d < 8 \<and> list_all stamp_char ts \<and> x \<noteq> 0x0A \<and> 0x0A \<notin> set body \<and> body \<noteq> [])"

definition msg_in :: "nat \<Rightarrow> klog_msg \<Rightarrow> singleLog option \<Rightarrow> bool" where
  "msg_in sz = (\<lambda>(d, ts, x, body) l. \<exists>l'. l = Some l' \<and>
     m_level (em_m (sl_meta l')) = GREASE_KLOGLEVEL_TO_LEVEL_MAP ! d \<and>
     m_tag (em_m (sl_meta l')) = GREASE_TAG_KERNEL \<and> hb_used (sl_buf l') = min (length body) sz \<and>
     (\<exists>base. hb_base (sl_buf l') = Some base \<and> take (hb_used (sl_buf l')) base = take sz body))"

text \<open>The end of the text: the parser stops at the zero byte.\<close>

lemma drain_end:
  assumes "pool_inv n gr g" "at mem i [0]" "0 < remain" "0 < k"
  shows "\<exists>g' m. klog_drain k g mem i remain LEVEL_BEGIN = Some (g', m) \<and> pool_inv n gr g' \<and>
    internalCmdQueue (env g') = internalCmdQueue (env g) \<and>
    (\<forall>b. b \<notin> set (circ_list (masterBufferAvail g)) \<longrightarrow> logs (env g') b = logs (env g) b)"
proof -
  obtain k' where k: "k = Suc k'" using assms(4) by (cases k) auto
  obtain r where r: "remain = Suc r" using assms(3) by (cases remain) auto
  show ?thesis
  proof (cases "circ_list (masterBufferAvail g)")
    case Nil
    have "circ_inv (masterBufferAvail g)" using assms(1) by (simp add: pool_inv_def)
    then have "circ_remove (masterBufferAvail g) = None" using Nil circ_remove_None_iff by blast
    then have "grabInLogBuffer g = (GREASE_OVERFLOW, None, g)" by (simp add: grabInLogBuffer_def)
    then show ?thesis using assms(1) k by simp
  next
    case (Cons a as)
    from grab_some [OF assms(1) Cons] obtain p l where
      g: "grabInLogBuffer g = (GREASE_OK, Some a, g\<lparr>masterBufferAvail := p\<rparr>)"
        "pool_inv n (a # gr) (g\<lparr>masterBufferAvail := p\<rparr>)" "logs (env g) a = Some l"
        "pool_log (bufferSize g) (Some l)" by blast
    let ?r = "\<lparr>kr_ok = False, kr_remain = r, kr_state = INVALID, kr_entry = l, kr_moved = i + 1, kr_mem = mem\<rparr>"
    have ps: "parse_single_klog_to_singleLog mem i remain LEVEL_BEGIN l = Some ?r"
      using assms(2) r
      by (cases r) (auto simp: parse_single_klog_to_singleLog_def parse_klog_def klog_switch_def at_Cons)
    have "pool_inv n (a # gr) (put_entry (g\<lparr>masterBufferAvail := p\<rparr>) a l)"
      by (rule put_entry_inv [OF g(2)]) (use g(4) in simp)
    from returnBuffer_master_inv [OF this] obtain g' where
      g': "returnBuffer_master (put_entry (g\<lparr>masterBufferAvail := p\<rparr>) a l) a = Some g'" "pool_inv n gr g'"
        "internalCmdQueue (env g') = internalCmdQueue (env (put_entry (g\<lparr>masterBufferAvail := p\<rparr>) a l))" by blast
    have "logs (env g') = (logs (env g))(a \<mapsto> singleLog_clear l)"
      using g'(1) by (auto simp: returnBuffer_master_def put_entry_def split: option.splits)
    then show ?thesis using k g(1,3) ps g' Cons by (simp add: put_entry_def)
  qed
qed

lemma entry_msg:
  assumes "entry_of d body l l'" "hb_len (sl_buf l) = sz" "sl_buf l2 = sl_buf l'" "sl_meta l2 = sl_meta l'"
  shows "msg_in sz (d, ts, x, body) (Some l2)"
  using assms by (auto simp: entry_of_def msg_in_def min_def split: if_splits)

lemma drain_lines:
  assumes "pool_inv n gr g" "0 < bufferSize g" "list_all msg_ok ms"
    "at mem i (concat (map msg_text ms) @ [0])" "length (concat (map msg_text ms)) < remain"
    "length ms < k" "length ms \<le> length (circ_list (masterBufferAvail g))" "cmd_room g (length ms)"
  shows "\<exists>g' m. klog_drain k g mem i remain LEVEL_BEGIN = Some (g', m) \<and> pool_inv n gr g' \<and>
    circ_list (internalCmdQueue (env g')) = circ_list (internalCmdQueue (env g)) @
      map new_log_cmd (take (length ms) (circ_list (masterBufferAvail g))) \<and>
    list_all2 (\<lambda>m a. msg_in (bufferSize g) m (logs (env g') a)) ms
      (take (length ms) (circ_list (masterBufferAvail g))) \<and>
    (\<forall>b. b \<notin> set (circ_list (masterBufferAvail g)) \<longrightarrow> logs (env g') b = logs (env g) b)"
  using assms
proof (induction ms arbitrary: g mem i remain k)
  case Nil
  then show ?case using drain_end [of n gr g mem i remain k] by auto
next
  case (Cons m ms)
  obtain d ts x body where m: "m = (d, ts, x, body)" by (cases m)
  let ?n = "length (klog_line d ts x body)" let ?rest = "concat (map msg_text ms)"
  obtain a as where as: "circ_list (masterBufferAvail g) = a # as"
    using Cons.prems(7) by (cases "circ_list (masterBufferAvail g)") auto
  obtain k' where k: "k = Suc k'" using Cons.prems(6) by (cases k) auto
  from grab_some [OF Cons.prems(1) as] obtain p l where
    g: "grabInLogBuffer g = (GREASE_OK, Some a, g\<lparr>masterBufferAvail := p\<rparr>)" "circ_list p = as"
      "pool_inv n (a # gr) (g\<lparr>masterBufferAvail := p\<rparr>)" "logs (env g) a = Some l"
      "pool_log (bufferSize g) (Some l)" "a \<notin> set as" by blast
  have ok: "d < 8" "\<forall>c \<in> set ts. stamp_char c" "x \<noteq> 0x0A" "0x0A \<notin> set body" "body \<noteq> []"
    using Cons.prems(3) m by (auto simp: msg_ok_def list_all_iff)
  have tx: "at mem i (klog_line d ts x body)" "at mem (i + ?n) (?rest @ [0])" "?n \<le> remain" "length ?rest < remain - ?n"
    using Cons.prems(4,5) m by (auto simp: msg_text_def at_append)
  have pl: "hb_ok (sl_buf l)" "hb_base (sl_buf l) \<noteq> None" "hb_len (sl_buf l) = bufferSize g"
    using g(5) by (auto simp: pool_log_def)
  from parse_line [OF ok(1) tx(1) ok(2-4) pl(1,2) tx(3)] obtain l' where
    ps: "parse_single_klog_to_singleLog mem i remain LEVEL_BEGIN l =
      Some \<lparr>kr_ok = True, kr_remain = remain - ?n, kr_state = LEVEL_BEGIN, kr_entry = l',
            kr_moved = i + ?n, kr_mem = mem[i + 2 := 0]\<rparr>" and l': "entry_of d body l l'" by blast
  have "pool_log (bufferSize g) (Some l')" "0 < hb_used (sl_buf l')"
    using l' pl(3) ok(5) Cons.prems(2) by (auto simp: entry_of_def pool_log_def)
  from submit_parsed [OF g(3), of l' "length ms"] this Cons.prems(8) obtain g2 l2 where
    g2: "submit_entry (put_entry (g\<lparr>masterBufferAvail := p\<rparr>) a l') a = Some g2" "pool_inv n gr g2"
      "cmd_room g2 (length ms)"
      "circ_list (internalCmdQueue (env g2)) = circ_list (internalCmdQueue (env g)) @ [new_log_cmd a]"
      "logs (env g2) = (logs (env g))(a \<mapsto> l2)" "sl_buf l2 = sl_buf l'" "sl_meta l2 = sl_meta l'"
      "masterBufferAvail g2 = p" "bufferSize g2 = bufferSize g"
    by (auto simp: cmd_room_def)
  have "at (mem[i + 2 := 0]) (i + ?n) (?rest @ [0])"
    using tx(2) by (subst at_update) (simp_all add: klog_line_def)
  with Cons.IH [OF g2(2) _ _ this tx(4), of k'] obtain g' m' where
    g': "klog_drain k' g2 (mem[i + 2 := 0]) (i + ?n) (remain - ?n) LEVEL_BEGIN = Some (g', m')" "pool_inv n gr g'"
      "circ_list (internalCmdQueue (env g')) = circ_list (internalCmdQueue (env g2)) @ map new_log_cmd (take (length ms) as)"
      "list_all2 (\<lambda>m a. msg_in (bufferSize g) m (logs (env g') a)) ms (take (length ms) as)"
      "\<forall>b. b \<notin> set as \<longrightarrow> logs (env g') b = logs (env g2) b"
    using Cons.prems(2,3,6,7) g2 g(2) k as by auto
  have "msg_in (bufferSize g) m (logs (env g') a)"
    using g'(5) g(6) g2(5) entry_msg [OF l' pl(3) g2(6,7)] m by simp
  then show ?case using k g(1,4) ps g2(1,4,5) g' as by (auto simp: list_all2_Cons1)
qed

text \<open>C30: Reading the kernel's ring buffer: when a read delivers whole lines, one pool buffer per line is
  free and the command queue has room, then every line is submitted to the logger, in order, with
  the level of its number, the kernel tag and its text (cut at the size of the buffer), and no
  pool buffer is lost.\<close>

theorem klog_read_submits:
  assumes "pool_inv n gr g" "0 < bufferSize g" "list_all msg_ok ms"
    "length (concat (map msg_text ms)) + 1 < length mem"
    "length ms \<le> length (circ_list (masterBufferAvail g))" "cmd_room g (length ms)"
  shows "\<exists>g' m. klog_read g mem (concat (map msg_text ms)) = Some (g', m) \<and> pool_inv n gr g' \<and>
    circ_list (internalCmdQueue (env g')) = circ_list (internalCmdQueue (env g)) @
      map new_log_cmd (take (length ms) (circ_list (masterBufferAvail g))) \<and>
    list_all2 (\<lambda>m a. msg_in (bufferSize g) m (logs (env g') a)) ms
      (take (length ms) (circ_list (masterBufferAvail g)))"
proof -
  let ?t = "concat (map msg_text ms)"
  let ?m = "?t @ [0] @ drop (Suc (length ?t)) mem"
  have w: "buf_write mem 0 (?t @ [0]) = Some ?m" using assms(4) by (simp add: buf_write_def)
  have a: "at ?m 0 (?t @ [0])" by (simp add: at_def)
  have "length ms \<le> length ?t" by (induction ms) (auto simp: msg_text_def klog_line_def)
  then have "length ?t < length mem - 1" "length ms < length mem" using assms(4) by linarith+
  from drain_lines [OF assms(1-3) a this assms(5,6)] show ?thesis
    using w by (auto simp: klog_read_def)
qed

theorem klog_read_submits_witness:
  "\<exists>g' m. klog_read ex_logger (LMALLOC 32) (klog_line 4 [0x31, 0x2E, 0x30] 0x20 [0x68, 0x69]) = Some (g', m) \<and>
     circ_list (internalCmdQueue (env g')) = [new_log_cmd 0] \<and>
     msg_in 64 (4, [0x31, 0x2E, 0x30], 0x20, [0x68, 0x69]) (logs (env g') 0)"
proof -
  let ?m = "(4, [0x31, 0x2E, 0x30], 0x20, [0x68, 0x69]) :: klog_msg"
  have ok: "list_all msg_ok [?m]" by (simp add: msg_ok_def stamp_char_def isdigit_def)
  have t: "concat (map msg_text [?m]) = klog_line 4 [0x31, 0x2E, 0x30] 0x20 [0x68, 0x69]"
    by (simp add: msg_text_def)
  have bs: "bufferSize ex_logger = 64" by code_simp
  have "csize (internalCmdQueue (env ex_logger)) = 200"
    using arg_cong [OF ex_logger_env, of "\<lambda>e. csize (internalCmdQueue e)"] by (simp add: env_new_def circ_new_def)
  then have room: "cmd_room ex_logger (length [?m])" using ex_logger_parts(3) by (simp add: cmd_room_def)
  show ?thesis
    using klog_read_submits [OF ex_logger_parts(1) _ ok _ _ room, of "LMALLOC 32"] ex_logger_parts(2,3) bs
    unfolding t by (auto simp: klog_line_def LMALLOC_def)
qed

section \<open>Records of /dev/kmsg\<close>

lemma dev_step:
  assumes "devklog_switch (Suc r) p = Some p1" "kl_state p \<noteq> INVALID" "kl_state p \<noteq> END_LOG"
  shows "klog_loop devklog_switch (Suc r) p = klog_loop devklog_switch r (p1\<lparr>kl_look := kl_look p1 + 1\<rparr>)"
  using assms by simp

lemma dev_fields:
  assumes "kl_state p = TIME_STAMP_BEGIN" "at (kl_mem p) (kl_look p) xs" "0x3B \<notin> set xs"
  shows "klog_loop devklog_switch (length xs + r) p =
    klog_loop devklog_switch r (p\<lparr>kl_look := kl_look p + length xs\<rparr>)"
  using assms
proof (induction xs arbitrary: p)
  case (Cons c xs)
  then have "devklog_switch (Suc (length xs + r)) p = Some p"
    by (auto simp: devklog_switch_def at_Cons)
  then show ?case
    using Cons.IH [of "p\<lparr>kl_look := Suc (kl_look p)\<rparr>"] Cons.prems by (simp add: at_Cons)
qed simp

lemma dev_body:
  assumes "kl_state p = IN_BODY"
  shows "klog_loop devklog_switch (Suc r) p = Some (p\<lparr>kl_look := kl_look p + Suc r, kl_state := END_LOG\<rparr>, 0)"
  using assms
proof (induction r arbitrary: p)
  case 0
  then show ?case by (simp add: devklog_switch_def)
next
  case (Suc r)
  then have s: "devklog_switch (Suc (Suc r)) p = Some p" by (simp add: devklog_switch_def)
  show ?case unfolding dev_step [OF s] using Suc.prems Suc.IH [of "p\<lparr>kl_look := kl_look p + 1\<rparr>"]
    by (subst dev_step [OF s]) simp_all
qed

text \<open>A level too long to be read: the parser stays in \<open>IN_LEVEL\<close> to the end of the record.\<close>

lemma dev_stuck:
  assumes "kl_state p = IN_LEVEL" "kl_look p + r \<le> length (kl_mem p)"
    "case kl_cap p of None \<Rightarrow> True | Some c \<Rightarrow> c + 2 < kl_look p"
  shows "\<exists>m. klog_loop devklog_switch r p = Some (p\<lparr>kl_look := kl_look p + r, kl_mem := m\<rparr>, 0)"
  using assms
proof (induction r arbitrary: p)
  case 0
  then show ?case by (intro exI [of _ "kl_mem p"]) simp
next
  case (Suc r)
  define m where "m = (if kl_mem p ! kl_look p = 0x2C then (kl_mem p)[kl_look p := 0] else kl_mem p)"
  have m: "devklog_switch (Suc r) p = Some (p\<lparr>kl_mem := m\<rparr>)" "length m = length (kl_mem p)"
    using Suc.prems by (auto simp: devklog_switch_def devklog_level_end_def m_def split: option.splits)
  show ?case
    using Suc.IH [of "p\<lparr>kl_mem := m, kl_look := Suc (kl_look p)\<rparr>"] Suc.prems m
    by (auto split: option.splits)
qed

text \<open>A record: the digits of the priority, a comma, further flds, a semicolon and the text.\<close>

definition dev_digits :: "nat \<Rightarrow> bytes" where
  "dev_digits v = (if v < 10 then [of_nat (48 + v)] else [0x31, of_nat (38 + v)])"

definition dev_record :: "nat \<Rightarrow> bytes \<Rightarrow> bytes \<Rightarrow> bytes" where
  "dev_record v flds body = dev_digits v @ [0x2C] @ flds @ [0x3B] @ body"

lemma dev_digits_facts:
  assumes "v < 20"
  shows "v < 10 \<Longrightarrow> digit_value (of_nat (48 + v)) = int v \<and> (of_nat (48 + v) :: u8) \<notin> {0x63, 0x64}"
    "10 \<le> v \<Longrightarrow> digit_value (of_nat (38 + v)) = int v - 10 \<and> (of_nat (38 + v) :: u8) \<noteq> 0x2C"
proof -
  assume "v < 10"
  then have "v \<in> {0, 1, 2, 3, 4, 5, 6, 7, 8, 9}" by auto
  then show "digit_value (of_nat (48 + v)) = int v \<and> (of_nat (48 + v) :: u8) \<notin> {0x63, 0x64}"
    by (auto simp: digit_value_def)
next
  assume "10 \<le> v"
  then obtain w where w: "v = w + 10" "w < 10" using assms that [of "v - 10"] by simp
  then have "w \<in> {0, 1, 2, 3, 4, 5, 6, 7, 8, 9}" by auto
  then show "digit_value (of_nat (38 + v)) = int v - 10 \<and> (of_nat (38 + v) :: u8) \<noteq> 0x2C"
    unfolding w(1) by (auto simp: digit_value_def)
qed

lemma dev_level:
  assumes v: "v < 20" and at: "at mem i (dev_digits v @ [0x2C])"
  shows "klog_loop devklog_switch (length (dev_digits v) + Suc k)
      \<lparr>kl_mem = mem, kl_look = i, kl_state = LEVEL_BEGIN, kl_cap = None, kl_level = lv\<rparr> =
    klog_loop devklog_switch k \<lparr>kl_mem = mem[i + length (dev_digits v) := 0],
      kl_look = i + length (dev_digits v) + 1, kl_state = TIME_STAMP_BEGIN, kl_cap = Some i,
      kl_level = GREASE_KLOGLEVEL_TO_LEVEL_MAP ! v\<rparr>"
proof (cases "v < 10")
  case True
  have a: "i < length mem" "mem ! i = of_nat (48 + v)" "Suc i < length mem" "mem ! Suc i = 0x2C"
    using at True by (auto simp: dev_digits_def at_Cons)
  show ?thesis using a dev_digits_facts(1) [OF v True] v True
    by (simp add: dev_digits_def devklog_switch_def devklog_level_end_def)
next
  case False
  have a: "i < length mem" "mem ! i = 0x31" "Suc i < length mem" "mem ! Suc i = of_nat (38 + v)"
      "Suc (Suc i) < length mem" "mem ! Suc (Suc i) = 0x2C"
    using at False by (auto simp: dev_digits_def at_Cons)
  show ?thesis using a dev_digits_facts(2) [OF v] v False
    by (simp add: dev_digits_def devklog_switch_def devklog_level_end_def)
qed

lemma dev_loop:
  assumes v: "v < 20" and at: "at mem i (dev_record v flds t)" and f: "0x3B \<notin> set flds" and t: "t \<noteq> []"
  shows "klog_loop devklog_switch (length (dev_record v flds t))
      \<lparr>kl_mem = mem, kl_look = i, kl_state = LEVEL_BEGIN, kl_cap = None, kl_level = lv\<rparr> =
    Some (\<lparr>kl_mem = mem[i + length (dev_digits v) := 0], kl_look = i + length (dev_record v flds t),
      kl_state = END_LOG, kl_cap = Some (i + length (dev_digits v) + 2 + length flds),
      kl_level = GREASE_KLOGLEVEL_TO_LEVEL_MAP ! v\<rparr>, 0)"
proof -
  let ?d = "length (dev_digits v)" let ?j = "i + ?d + 1" let ?m = "mem[i + ?d := 0]"
  let ?p = "\<lambda>s k c. \<lparr>kl_mem = ?m, kl_look = k, kl_state = s, kl_cap = c,
      kl_level = GREASE_KLOGLEVEL_TO_LEVEL_MAP ! v\<rparr>"
  have a: "at mem i (dev_digits v @ [0x2C])" "at mem ?j flds" "?j + length flds < length mem"
      "mem ! (?j + length flds) = 0x3B"
    using at by (auto simp: dev_record_def at_append at_Cons ac_simps)
  obtain r where r: "length t = Suc r" using t by (cases t) auto
  have 1: "klog_loop devklog_switch (length flds + k) (?p TIME_STAMP_BEGIN ?j (Some i)) =
      klog_loop devklog_switch k (?p TIME_STAMP_BEGIN (?j + length flds) (Some i))" for k
    using dev_fields [of "?p TIME_STAMP_BEGIN ?j (Some i)" flds k] a f by (simp add: at_update)
  have s: "devklog_switch (Suc k) (?p TIME_STAMP_BEGIN (?j + length flds) (Some i)) =
      Some (?p BODY_BEGIN (?j + length flds) (Some i))" for k
    using a by (simp add: devklog_switch_def)
  have 2: "klog_loop devklog_switch (Suc k) (?p TIME_STAMP_BEGIN (?j + length flds) (Some i)) =
      klog_loop devklog_switch k (?p BODY_BEGIN (?j + length flds + 1) (Some i))" for k
    using dev_step [OF s [of k]] by simp
  have 3: "klog_loop devklog_switch (Suc r) (?p BODY_BEGIN (?j + length flds + 1) (Some i)) =
      Some (?p END_LOG (?j + length flds + 2 + r) (Some (?j + length flds + 1)), 0)"
  proof (cases r)
    case 0
    then show ?thesis by (simp add: devklog_switch_def)
  next
    case (Suc r')
    let ?c = "Some (?j + length flds + 1)"
    have s: "devklog_switch (Suc (Suc r')) (?p BODY_BEGIN (?j + length flds + 1) (Some i)) =
        Some (?p IN_BODY (?j + length flds + 1) ?c)"
      by (simp add: devklog_switch_def)
    have "klog_loop devklog_switch (Suc r') (?p IN_BODY (?j + length flds + 2) ?c) =
        Some (?p END_LOG (?j + length flds + 2 + Suc r') ?c, 0)"
      using dev_body [of "?p IN_BODY (?j + length flds + 2) ?c" r'] by (simp del: klog_loop.simps)
    then show ?thesis unfolding Suc by (subst dev_step [OF s]) (simp_all del: klog_loop.simps)
  qed
  have len: "length (dev_record v flds t) = ?d + Suc (length flds + Suc (Suc r))"
    using r by (simp add: dev_record_def)
  show ?thesis unfolding len dev_level [OF v a(1)] 1 2 3 by (simp add: ac_simps)
qed

text \<open>A record of /dev/kmsg with a priority below twenty is parsed into its level, the kernel tag and
  its text without the final newline, and the parser has used up the whole record.\<close>

lemma devklog_parses_record:
  assumes "v < 20" "at mem i (dev_record v flds (t @ [0x0A]))" "0x3B \<notin> set flds"
    "hb_ok (sl_buf l)" "hb_base (sl_buf l) \<noteq> None"
  shows "\<exists>r. parse_single_devklog_to_singleLog mem i (length (dev_record v flds (t @ [0x0A]))) LEVEL_BEGIN l
      = Some r \<and> kr_ok r \<and> kr_remain r = 0 \<and> kr_state r = LEVEL_BEGIN \<and>
    kr_moved r = i + length (dev_record v flds (t @ [0x0A])) \<and> entry_of v t l (kr_entry r)"
proof -
  let ?n = "length (dev_record v flds (t @ [0x0A]))" let ?m = "mem[i + length (dev_digits v) := 0]"
  let ?cap = "i + length (dev_digits v) + 2 + length flds"
  obtain base where base: "hb_base (sl_buf l) = Some base" using assms(5) by blast
  have "at mem ?cap t" using assms(2) by (simp add: dev_record_def at_append at_Cons ac_simps)
  then have "at ?m ?cap t" by (simp add: at_update)
  from klog_copy_fits [OF assms(4) base this] obtain b' where
    b': "klog_copy ?m ?cap (length t) (sl_buf l) = Some b'"
      "hb_used b' = min (length t) (hb_len (sl_buf l))" "hb_len b' = hb_len (sl_buf l)" "hb_ok b'"
      "\<exists>base'. hb_base b' = Some base' \<and> take (hb_used b') base' = take (hb_used b') t" by blast
  have e: "i + ?n - ?cap - 1 = length t" "?cap < i + ?n" by (simp_all add: dev_record_def)
  have lp: "klog_loop devklog_switch ?n
      \<lparr>kl_mem = mem, kl_look = i, kl_state = LEVEL_BEGIN, kl_cap = None, kl_level = m_level (em_m (sl_meta l))\<rparr> =
    Some (\<lparr>kl_mem = ?m, kl_look = i + ?n, kl_state = END_LOG, kl_cap = Some ?cap,
      kl_level = GREASE_KLOGLEVEL_TO_LEVEL_MAP ! v\<rparr>, 0)"
    by (rule dev_loop [OF assms(1-3)]) simp
  show ?thesis
    unfolding parse_single_devklog_to_singleLog_def parse_klog_def lp
    using b' e by (simp add: entry_of_def del: diff_diff_left)
qed

lemma devklog_parses_record_example:
  "\<exists>r. parse_single_devklog_to_singleLog (dev_record 12 [0x31] [0x68, 0x69, 0x0A]) 0 8 LEVEL_BEGIN (singleLog_new 16)
      = Some r \<and> kr_ok r \<and> entry_of 12 [0x68, 0x69] (singleLog_new 16) (kr_entry r)"
proof -
  have "at (dev_record 12 [0x31] ([0x68, 0x69] @ [0x0A])) 0 (dev_record 12 [0x31] ([0x68, 0x69] @ [0x0A]))"
    by (simp add: at_def)
  moreover have "length (dev_record 12 [0x31] ([0x68, 0x69] @ [0x0A])) = 8"
    by (simp add: dev_record_def dev_digits_def)
  moreover have "hb_ok (sl_buf (singleLog_new 16))" "hb_base (sl_buf (singleLog_new 16)) \<noteq> None"
    by (simp_all add: singleLog_new_def heapBuf_new_def hb_ok_def LMALLOC_def)
  ultimately show ?thesis
    using devklog_parses_record [of 12 _ 0 "[0x31]" "[0x68, 0x69]" "singleLog_new 16"] by fastforce
qed

text \<open>A record whose priority has three digits or more stops the kernel log for good: the parser
  never leaves the level, the round ends the listener, and the pool buffer it took is neither
  submitted nor given back.\<close>

lemma kmsg_long_priority_stops:
  assumes "grabInLogBuffer g = (GREASE_OK, Some a, g1)" "logs (env g1) a = Some l"
    "ks_parse_state ks = LEVEL_BEGIN" "3 \<le> length data" "0x2C \<notin> set (take 3 data)"
    "ks_read_into ks + length data < length (ks_buf ks)"
  shows "\<exists>ks' g'. kmsg_readable data ks g = Some (ks', g') \<and> \<not> ks_running ks' \<and>
    ks_entry ks' = Some a \<and> masterBufferAvail g' = masterBufferAvail g1 \<and>
    internalCmdQueue (env g') = internalCmdQueue (env g1)"
proof -
  let ?i = "ks_read_into ks"
  obtain x y z r where d: "data = x # y # z # r" using assms(4)
    by (metis Suc_le_length_iff numeral_3_eq_3)
  define mem where "mem = take ?i (ks_buf ks) @ (data @ [0]) @ drop (?i + length (data @ [0])) (ks_buf ks)"
  have w: "buf_write (ks_buf ks) ?i (data @ [0]) = Some mem"
    using assms(6) by (simp add: buf_write_def mem_def)
  have ln: "length mem = length (ks_buf ks)" using buf_write_length [OF w] .
  have nx: "mem ! (?i + 1) = y" "mem ! (?i + 2) = z"
    using assms(6) d by (simp_all add: mem_def nth_append)
  have nc: "y \<noteq> 0x2C" "z \<noteq> 0x2C" using assms(5) d by auto
  let ?p = "\<lambda>s k c. \<lparr>kl_mem = mem, kl_look = k, kl_state = s, kl_cap = c, kl_level = m_level (em_m (sl_meta l))\<rparr>"
  have b: "?i + 1 < length mem" "?i + 2 < length mem" using assms(6) d ln by auto
  have "klog_loop devklog_switch (length data) (?p LEVEL_BEGIN ?i None) =
      klog_loop devklog_switch (length r) (?p IN_LEVEL (?i + 3) (Some ?i))"
    using b nx nc d by (simp add: devklog_switch_def eval_nat_numeral)
  moreover obtain m where "klog_loop devklog_switch (length r) (?p IN_LEVEL (?i + 3) (Some ?i)) =
      Some (?p IN_LEVEL (?i + 3) (Some ?i)\<lparr>kl_look := ?i + 3 + length r, kl_mem := m\<rparr>, 0)"
    using dev_stuck [of "?p IN_LEVEL (?i + 3) (Some ?i)" "length r"] assms(6) d ln by auto
  ultimately have "klog_loop devklog_switch (length data) (?p LEVEL_BEGIN ?i None) =
      Some (\<lparr>kl_mem = m, kl_look = ?i + 3 + length r, kl_state = IN_LEVEL, kl_cap = Some ?i,
             kl_level = m_level (em_m (sl_meta l))\<rparr>, 0)" by simp
  then have "parse_single_devklog_to_singleLog mem ?i (length data) LEVEL_BEGIN l =
      Some \<lparr>kr_ok = False, kr_remain = 0, kr_state = IN_LEVEL, kr_entry = l, kr_moved = ?i + 3 + length r, kr_mem = m\<rparr>"
    by (simp add: parse_single_devklog_to_singleLog_def parse_klog_def)
  then show ?thesis using assms(1-3) w d by (simp add: kmsg_readable_def kmsg_parse_def put_entry_def)
qed

lemma kmsg_long_priority_stops_example:
  "\<exists>ks' g'. kmsg_readable [0x31, 0x33, 0x34] (kmsg_new 16) ex_logger = Some (ks', g') \<and> \<not> ks_running ks' \<and>
     ks_entry ks' = Some 0"
proof -
  obtain p l where "grabInLogBuffer ex_logger = (GREASE_OK, Some 0, ex_logger\<lparr>masterBufferAvail := p\<rparr>)"
      "logs (env ex_logger) 0 = Some l"
    by (rule grab_some [OF ex_logger_parts(1,2)])
  with kmsg_long_priority_stops [OF this(1), of l "kmsg_new 16" "[0x31, 0x33, 0x34]"] show ?thesis
    by (auto simp: kmsg_new_def LMALLOC_def)
qed

end
