(* ===== verification/Dgram_Sink.thy ===== *)
theory Dgram_Sink
  imports Klog_Parse
begin

text \<open>
  \<open>UnixDgramSink\<close> of \<open>logger.h\<close>: the socket other processes log to. \<open>dgram_receive\<close> is what the
  listener does with one datagram: \<open>recvmsg\<close> spreads it over ten zeroed buffers, and a loop walks
  over it, answers pings and hands every framed entry to \<open>logFromRaw\<close>. The loop's variables are
  the fields of \<open>dgram_walk\<close>, \<open>int\<close> variables kept at 32 bits; a copy outside its source or
  destination is \<open>None\<close>. The datagram and the size of the receive buffers are arguments.
\<close>

section \<open>The sink\<close>

record unixDgramSink =
  ud_path :: "bytes option"        \<comment> \<open>without its NUL\<close>
  ud_socket_fd :: int
  ud_wakeup :: "int \<times> int"
  ud_sun_path :: bytes             \<comment> \<open>\<^verbatim>\<open>sink_dgram_addr.sun_path\<close>\<close>
  ud_ready :: bool
  ud_stop_thread :: bool

definition SUN_PATH_SIZE :: nat where "SUN_PATH_SIZE = 108"

definition unixDgramSink_new :: "bytes option \<Rightarrow> unixDgramSink" where
  "unixDgramSink_new p =
     \<lparr>ud_path = (case p of Some q \<Rightarrow> if q \<noteq> [] then Some q else None | None \<Rightarrow> None),
      ud_socket_fd = 0, ud_wakeup = (-1, -1), ud_sun_path = replicate SUN_PATH_SIZE 0,
      ud_ready = False, ud_stop_thread = False\<rparr>"

text \<open>\<open>bind\<close>; the results of \<open>socket\<close>, \<open>pipe\<close> and \<open>bind\<close> are arguments.\<close>

definition unixDgramSink_bind ::
  "int \<Rightarrow> (int \<times> int) option \<Rightarrow> bool \<Rightarrow> unixDgramSink \<Rightarrow> (bool \<times> unixDgramSink) option" where
  "unixDgramSink_bind fd pip bound s =
     (case ud_path s of
        None \<Rightarrow> Some (ud_ready s, s)
      | Some p \<Rightarrow>
          let s1 = s\<lparr>ud_socket_fd := fd\<rparr> in
          if fd < 0 then Some (ud_ready s1, s1)
          else (case pip of
                  None \<Rightarrow> Some (ud_ready s1, s1)
                | Some w \<Rightarrow>
                    map_option (\<lambda>sp.
                      let s2 = s1\<lparr>ud_wakeup := w, ud_sun_path := sp\<rparr>;
                          s3 = (if bound then s2\<lparr>ud_ready := True\<rparr> else s2)
                      in (ud_ready s3, s3))
                    (buf_write (replicate SUN_PATH_SIZE 0) 0 (p @ [0]))))"

definition unixDgramSink_stop :: "unixDgramSink \<Rightarrow> unixDgramSink" where
  "unixDgramSink_stop s = s\<lparr>ud_stop_thread := True\<rparr>"

section \<open>One datagram\<close>

datatype dgram_state = NEED_PREAMBLE | IN_PREAMBLE | IN_LOG

record dgram_walk =
  dg_state :: dgram_state
  header_temp :: bytes
  header_temp_walk :: int
  temp_buffer_entry :: bytes
  temp_buffer_walk :: int
  walk :: int
  walk_buf :: int
  remain :: int
  remain_in_buf :: int
  iov_n :: nat
  entry_size :: u32
  dg_n :: int                      \<comment> \<open>\<open>n\<close>, the first argument of \<open>select\<close>\<close>
  dg_sent :: "bytes list"          \<comment> \<open>what \<open>sendto\<close> was given\<close>

definition nbuffers :: nat where "nbuffers = 10"
definition GREASE_CLIENT_PING_SIZE :: nat where "GREASE_CLIENT_PING_SIZE = 4"

text \<open>Conversion to a 32-bit \<open>int\<close>.\<close>

definition cint :: "int \<Rightarrow> int" where
  "cint x = sint (word_of_int x :: u32)"

definition SD_WALK :: "int \<Rightarrow> dgram_walk \<Rightarrow> dgram_walk" where
  "SD_WALK n s =
     s\<lparr>walk := cint (walk s + n), walk_buf := cint (walk_buf s + n),
       remain := cint (remain s - n), remain_in_buf := cint (remain_in_buf s - n)\<rparr>"

text \<open>\<^verbatim>\<open>memcpy(dst + off, src + from, n)\<close> with \<open>int\<close> arguments; a negative \<open>n\<close> is a huge size.\<close>

definition mem_copy :: "bytes \<Rightarrow> int \<Rightarrow> bytes \<Rightarrow> int \<Rightarrow> int \<Rightarrow> bytes option" where
  "mem_copy dst off src from n =
     (if 0 \<le> off \<and> 0 \<le> from \<and> 0 \<le> n
      then Option.bind (buf_read src (nat from) (nat n)) (buf_write dst (nat off)) else None)"

text \<open>\<^verbatim>\<open>IS_SINK_PREAMBLE\<close> and \<^verbatim>\<open>IS_SINK_PING\<close> read four bytes, \<^verbatim>\<open>GET_SIZE_FROM_PREAMBLE\<close> the four behind them.\<close>

definition magic_at :: "bytes \<Rightarrow> int \<Rightarrow> u32 option" where
  "magic_at buf off = (if 0 \<le> off then Option.bind (buf_read buf (nat off) 4) of_le32 else None)"

definition preamble_at :: "bytes \<Rightarrow> int \<Rightarrow> u32 \<Rightarrow> dgram_walk \<Rightarrow> dgram_walk option" where
  "preamble_at buf off magic s =
     (if magic = SINK_LOG_PREAMBLE
      then map_option (\<lambda>e. s\<lparr>dg_state := IN_LOG, entry_size := e\<rparr>) (magic_at buf (off + 4))
      else Some (s\<lparr>dg_state := NEED_PREAMBLE\<rparr>))"

text \<open>
  A header that is cut off ends the datagram. In \<^verbatim>\<open>SD_WALK(remain)\<close> the argument is the variable that the
  macro itself sets to 0 before it is taken from \<open>remain_in_buf\<close>, which therefore stays as it is.
\<close>

definition dgram_need_preamble :: "bytes \<Rightarrow> dgram_walk \<Rightarrow> dgram_walk option" where
  "dgram_need_preamble buf s =
     (if int GREASE_CLIENT_PING_SIZE \<le> remain s \<or> remain s < 0 then
        Option.bind (magic_at buf (walk_buf s)) (\<lambda>m.
          if m = SINK_LOG_PING
          then Some ((SD_WALK (int GREASE_CLIENT_HEADER_SIZE) s)\<lparr>dg_sent := dg_sent s @ [le32 SINK_LOG_PING_ACK]\<rparr>)
          else map_option (SD_WALK (int GREASE_CLIENT_HEADER_SIZE)) (preamble_at buf (walk_buf s) m s))
      else map_option (\<lambda>h. (SD_WALK (remain s) s)\<lparr>remain_in_buf := remain_in_buf s, header_temp := h, remain := 0,
                dg_state := IN_PREAMBLE\<rparr>)
             (mem_copy (header_temp s) (header_temp_walk s) buf (walk_buf s) (remain s)))"

definition dgram_in_preamble :: "bytes \<Rightarrow> dgram_walk \<Rightarrow> dgram_walk option" where
  "dgram_in_preamble buf s =
     (let nibble = cint (int GREASE_CLIENT_HEADER_SIZE - header_temp_walk s);
          s1 = (if remain_in_buf s < nibble then s\<lparr>dg_n := remain_in_buf s\<rparr> else s)
      in Option.bind (mem_copy (header_temp s) (header_temp_walk s) buf (walk_buf s) nibble) (\<lambda>h.
           let s2 = SD_WALK nibble (s1\<lparr>header_temp := h\<rparr>) in
           if int GREASE_CLIENT_HEADER_SIZE \<le> header_temp_walk s2 \<or> header_temp_walk s2 < 0 then
             Option.bind (magic_at h 0) (\<lambda>m.
               map_option (\<lambda>s3. if dg_state s3 = IN_LOG then s3\<lparr>header_temp_walk := 0\<rparr> else s3)
                 (preamble_at h 0 m s2))
           else Some s2))"

definition dgram_in_log :: "bytes \<Rightarrow> dgram_walk \<Rightarrow> grease \<Rightarrow> (dgram_walk \<times> grease) option" where
  "dgram_in_log buf s g =
     (if temp_buffer_walk s = 0 then
        (if entry_size s \<le> word_of_int (remain_in_buf s) then
           map_option (\<lambda>(r, g'). ((SD_WALK (uint (entry_size s)) s)\<lparr>dg_state := NEED_PREAMBLE\<rparr>, g'))
             (if 0 \<le> walk_buf s then logFromRaw g (drop (nat (walk_buf s)) buf) (unat (entry_size s)) else None)
         else
           map_option (\<lambda>t. ((SD_WALK (remain_in_buf s) s)
               \<lparr>temp_buffer_entry := t, temp_buffer_walk := remain_in_buf s\<rparr>, g))
             (mem_copy (temp_buffer_entry s) 0 buf (walk_buf s) (remain_in_buf s)))
      else
        (let need = cint (uint (entry_size s) - temp_buffer_walk s)
         in Option.bind (mem_copy (temp_buffer_entry s) (temp_buffer_walk s) buf (walk_buf s) need) (\<lambda>t.
              let s1 = s\<lparr>temp_buffer_entry := t\<rparr> in
              if need \<le> remain_in_buf s then
                map_option (\<lambda>(r, g'). (SD_WALK need (s1\<lparr>dg_state := NEED_PREAMBLE, temp_buffer_walk := 0\<rparr>), g'))
                  (logFromRaw g t (unat (entry_size s)))
              else Some (SD_WALK need (s1\<lparr>temp_buffer_walk := cint (temp_buffer_walk s + need)\<rparr>), g))))"

text \<open>
  One round. The test that moves on to the next buffer compares with the length of the datagram;
  \<open>Inl\<close> is the \<^verbatim>\<open>break\<close> when there is no next buffer.
\<close>

definition next_buffer :: "int \<Rightarrow> int \<Rightarrow> dgram_walk \<Rightarrow> dgram_walk + dgram_walk" where
  "next_buffer recv_cnt rcv_buf_size s =
     (if recv_cnt \<le> walk_buf s then
        (let s1 = s\<lparr>walk_buf := 0, iov_n := iov_n s + 1\<rparr> in
         if nbuffers \<le> iov_n s1 then Inl s1
         else Inr (s1\<lparr>remain_in_buf := (if remain s > rcv_buf_size then rcv_buf_size else remain s)\<rparr>))
      else Inr s)"

definition dgram_switch :: "bytes \<Rightarrow> dgram_walk \<times> grease \<Rightarrow> (dgram_walk \<times> grease) option" where
  "dgram_switch buf st =
     (let (s, g) = st in
      case dg_state s of
        NEED_PREAMBLE \<Rightarrow> map_option (\<lambda>s'. (s', g)) (dgram_need_preamble buf s)
      | IN_PREAMBLE \<Rightarrow> map_option (\<lambda>s'. (s', g)) (dgram_in_preamble buf s)
      | IN_LOG \<Rightarrow> dgram_in_log buf s g)"

text \<open>
  The loop. The first argument bounds the rounds; \<open>dgram_any\<close> below shows that the bound that
  \<open>dgram_receive\<close> gives is never reached.
\<close>

fun dgram_loop ::
  "nat \<Rightarrow> int \<Rightarrow> int \<Rightarrow> bytes list \<Rightarrow> dgram_walk \<times> grease \<Rightarrow> (dgram_walk \<times> grease) option" where
  "dgram_loop 0 recv_cnt rcv iov st = Some st"
| "dgram_loop (Suc k) recv_cnt rcv iov st =
     (if walk (fst st) < recv_cnt then
        (case next_buffer recv_cnt rcv (fst st) of
           Inl s \<Rightarrow> Some (s, snd st)
         | Inr s \<Rightarrow> Option.bind (dgram_switch (iov ! iov_n s) (s, snd st)) (dgram_loop k recv_cnt rcv iov))
      else Some st)"

text \<open>\<open>recvmsg\<close> fills the buffers in order and cuts off what does not fit into them.\<close>

fun scatter :: "nat \<Rightarrow> nat \<Rightarrow> bytes \<Rightarrow> bytes list" where
  "scatter 0 rcv data = []"
| "scatter (Suc n) rcv data = (take rcv data @ replicate (rcv - length data) 0) # scatter n rcv (drop rcv data)"

definition dgram_start :: "int \<Rightarrow> int \<Rightarrow> int \<Rightarrow> bytes \<Rightarrow> dgram_walk" where
  "dgram_start n recv_cnt rcv temp =
     \<lparr>dg_state = NEED_PREAMBLE, header_temp = replicate GREASE_CLIENT_HEADER_SIZE 0, header_temp_walk = 0,
      temp_buffer_entry = temp, temp_buffer_walk = 0, walk = 0, walk_buf = 0, remain = recv_cnt,
      remain_in_buf = (if recv_cnt > rcv then rcv else recv_cnt), iov_n = 0, entry_size = 0,
      dg_n = n, dg_sent = []\<rparr>"

definition dgram_receive :: "int \<Rightarrow> nat \<Rightarrow> bytes \<Rightarrow> bytes \<Rightarrow> grease \<Rightarrow> (dgram_walk \<times> grease) option" where
  "dgram_receive n rcv temp data g =
     (let recv_cnt = int (min (length data) (nbuffers * rcv))
      in dgram_loop (2 * nat recv_cnt + 1) recv_cnt (int rcv) (scatter nbuffers rcv data)
           (dgram_start n recv_cnt (int rcv) temp, g))"

section \<open>Entries from other processes\<close>

lemma cint_id [simp]: "\<bar>x\<bar> < 2147483648 \<Longrightarrow> cint x = x"
  by (simp add: cint_def sint_sbintrunc' signed_take_bit_int_eq_self_iff abs_less_iff)

lemma of_le32_total: "of_le32 bs = None \<longleftrightarrow> length bs < 4"
  by (cases bs rule: of_le32.cases) auto

lemma of_le64_total: "of_le64 bs = None \<longleftrightarrow> length bs < 8"
  using of_le32_total [of bs] of_le32_total [of "drop 4 bs"]
  by (auto simp: of_le64_def split: option.splits)

lemma rd32s_total: "4 * n \<le> length bs \<Longrightarrow> \<exists>ws. rd32s n bs = Some ws"
proof (induction n arbitrary: bs)
  case (Suc n)
  obtain w where "of_le32 bs = Some w" using of_le32_total [of bs] Suc.prems by fastforce
  then show ?case using Suc.IH [of "drop 4 bs"] Suc.prems by auto
qed simp

lemma rd64s_total: "8 * n \<le> length bs \<Longrightarrow> \<exists>ws. rd64s n bs = Some ws"
proof (induction n arbitrary: bs)
  case (Suc n)
  obtain w where "of_le64 bs = Some w" using of_le64_total [of bs] Suc.prems by fastforce
  then show ?case using Suc.IH [of "drop 8 bs"] Suc.prems by auto
qed simp

definition sizeof_ignore_list :: nat where "sizeof_ignore_list = 44"

lemma extra_of_bytes_total:
  assumes "sizeof_logMeta + sizeof_ignore_list \<le> length bs"
  shows "\<exists>f. extra_of_bytes bs = Some f"
proof -
  obtain ws qs where "rd32s 5 bs = Some ws" "rd64s 7 (drop 24 bs) = Some qs"
  proof -
    have "4 * 5 \<le> length bs" "8 * 7 \<le> length (drop 24 bs)"
      using assms by (simp_all add: sizeof_logMeta_def sizeof_ignore_list_def)
    then show thesis using rd32s_total [of 5 bs] rd64s_total [of 7 "drop 24 bs"] that by blast
  qed
  moreover obtain ig where "rd32s (MAX_IGNORE_LIST + 1) (drop sizeof_logMeta bs) = Some ig"
  proof -
    have "4 * (MAX_IGNORE_LIST + 1) \<le> length (drop sizeof_logMeta bs)"
      using assms by (simp add: MAX_IGNORE_LIST_def sizeof_logMeta_def sizeof_ignore_list_def)
    then show thesis using rd32s_total that by blast
  qed
  ultimately show ?thesis by (simp add: extra_of_bytes_def meta_of_bytes_def)
qed

lemma log_overflow_total:
  assumes "len \<le> length s" "len \<le> GREASE_MAX_MESSAGE_SIZE" "0 < len"
  shows "log_overflow g f s len \<noteq> None"
  using assms
  by (auto simp: log_overflow_def singleLog_new_def heapBuf_new_def hb_memcpy_def buf_read_def buf_write_def
      LMALLOC_def MAX_LOG_MESSAGE_SIZE_def GREASE_MAX_MESSAGE_SIZE_def Let_def case_prod_beta)

lemma logP_total:
  assumes "pool_inv n gr g" "len \<le> length s"
  shows "\<exists>r f' g'. logP g f s len = Some (r, f', g') \<and> pool_inv n gr g'"
proof (cases "len \<le> GREASE_MAX_MESSAGE_SIZE \<and> fst (sift (filters g) (em_m f))")
  case True
  let ?f = "f\<lparr>em_m := snd (sift (filters g) (em_m f))\<rparr>"
  have "log_internal g ?f s len \<noteq> None"
    using log_pooled_inv [OF assms(1) _ assms(2), of ?f] log_overflow_total [OF assms(2), of g ?f] True
    by (cases "len \<le> bufferSize g") (auto simp: log_internal_def)
  then obtain r g' where "log_internal g ?f s len = Some (r, g')" by auto
  then have "logP g f s len = Some (r, ?f, g')" using True by (auto simp: logP_def Let_def case_prod_beta)
  then show ?thesis using logP_inv [OF assms] by blast
next
  case False
  then show ?thesis using assms(1) by (auto simp: logP_def Let_def case_prod_beta)
qed

lemma logFromRaw_total:
  assumes "pool_inv n gr g" "len \<le> length base" "sizeof_logMeta + sizeof_ignore_list \<le> length base"
  shows "\<exists>r g'. logFromRaw g base len = Some (r, g') \<and> pool_inv n gr g'"
proof -
  obtain f where "extra_of_bytes base = Some f" using extra_of_bytes_total [OF assms(3)] by blast
  then show ?thesis
    using logP_total [OF assms(1), of "len - sizeof_logMeta" "drop sizeof_logMeta base" f] assms(1,2)
    by (fastforce simp: logFromRaw_def Let_def)
qed

lemma buf_read_prefix: "n \<le> length s \<Longrightarrow> buf_read (s @ rest) 0 n = buf_read s 0 n"
  by (simp add: buf_read_def)

lemma hb_memcpy_prefix: "length s = len \<Longrightarrow> hb_memcpy h (s @ rest) len app = hb_memcpy h s len app"
  by (auto simp: hb_memcpy_def buf_read_prefix Let_def split: option.splits)

lemma log_internal_prefix: "length s = len \<Longrightarrow> log_internal g f (s @ rest) len = log_internal g f s len"
  by (simp add: log_internal_def log_overflow_def log_pooled_def hb_memcpy_prefix split: option.split)

lemma logP_prefix: "length s = len \<Longrightarrow> logP g f (s @ rest) len = logP g f s len"
  by (simp add: logP_def log_internal_prefix Let_def case_prod_beta)

text \<open>What \<open>logFromRaw\<close> does with an entry a client sent.\<close>

lemma logFromRaw_entry:
  assumes "wf_meta m" "m_extras m = 0" "s \<noteq> []"
  shows "logFromRaw g (meta_bytes m @ s @ rest) (sizeof_logMeta + length s) =
    map_option (\<lambda>(r, f', g'). (r, g')) (logP g (fresh_extra m) s (length s))"
proof -
  have "extra_of_bytes (meta_bytes m @ s @ rest) = Some (fresh_extra m)"
    using assms by (simp add: extra_of_bytes_def meta_of_bytes_meta_bytes META_HAS_IGNORES_def)
  moreover have "drop sizeof_logMeta (meta_bytes m @ s @ rest) = s @ rest"
    using length_meta_bytes [OF assms(1)] by simp
  ultimately show ?thesis using assms(3) by (simp add: logFromRaw_def logP_prefix)
qed

section \<open>Any datagram\<close>

text \<open>
  The variables of the loop on a datagram of \<open>cnt\<close> bytes that fits into the first buffer: the walk
  stays in that buffer, and the states that use the two temporary buffers are only entered at the
  end of the datagram.
\<close>

definition dgram_inv :: "int \<Rightarrow> dgram_walk \<Rightarrow> bool" where
  "dgram_inv cnt s \<longleftrightarrow> iov_n s = 0 \<and> walk_buf s = walk s \<and> 0 \<le> walk s \<and> walk s \<le> cnt + 8 \<and>
     remain s = cnt - walk s \<and> header_temp_walk s = 0 \<and>
     length (header_temp s) = 8 \<and> length (temp_buffer_entry s) = GREASE_MAX_MESSAGE_SIZE \<and>
     (walk s < cnt \<longrightarrow> remain_in_buf s = cnt - walk s \<and> temp_buffer_walk s = 0 \<and> dg_state s \<noteq> IN_PREAMBLE)"

definition dgram_measure :: "int \<Rightarrow> dgram_walk \<Rightarrow> nat" where
  "dgram_measure cnt s = 2 * nat (cnt - walk s) + (if dg_state s = IN_LOG then 1 else 0)"

lemma SD_WALK_sel [simp]:
  "iov_n (SD_WALK k s) = iov_n s" "header_temp_walk (SD_WALK k s) = header_temp_walk s"
  "header_temp (SD_WALK k s) = header_temp s" "temp_buffer_entry (SD_WALK k s) = temp_buffer_entry s"
  "temp_buffer_walk (SD_WALK k s) = temp_buffer_walk s" "dg_state (SD_WALK k s) = dg_state s"
  "(SD_WALK k s)\<lparr>dg_sent := xs\<rparr> = SD_WALK k (s\<lparr>dg_sent := xs\<rparr>)"
  "entry_size (SD_WALK k s) = entry_size s" "dg_sent (SD_WALK k s) = dg_sent s" "dg_n (SD_WALK k s) = dg_n s"
  by (simp_all add: SD_WALK_def)

lemma SD_WALK_moves:
  assumes "dgram_inv cnt s" "cnt \<le> int GREASE_MAX_MESSAGE_SIZE" "0 \<le> k" "k \<le> cnt - walk s + 8"
  shows "walk (SD_WALK k s) = walk s + k" "walk_buf (SD_WALK k s) = walk s + k"
    "remain (SD_WALK k s) = cnt - (walk s + k)" "walk s < cnt \<Longrightarrow> remain_in_buf (SD_WALK k s) = cnt - (walk s + k)"
proof -
  have "\<bar>walk s + k\<bar> < 2147483648" "\<bar>cnt - walk s - k\<bar> < 2147483648"
    using assms by (auto simp: dgram_inv_def GREASE_MAX_MESSAGE_SIZE_def)
  then show "walk (SD_WALK k s) = walk s + k" "walk_buf (SD_WALK k s) = walk s + k"
    "remain (SD_WALK k s) = cnt - (walk s + k)" "walk s < cnt \<Longrightarrow> remain_in_buf (SD_WALK k s) = cnt - (walk s + k)"
    using assms(1) by (simp_all add: SD_WALK_def dgram_inv_def diff_diff_add)
qed

lemma SD_WALK_inv:
  assumes "dgram_inv cnt s" "cnt \<le> int GREASE_MAX_MESSAGE_SIZE" "0 \<le> k" "k \<le> cnt - walk s + 8" "walk s < cnt"
  shows "dgram_inv cnt (SD_WALK k s)"
  using assms(1,3-5) SD_WALK_moves [OF assms(1-4)] by (auto simp: dgram_inv_def)

lemma magic_at_total: "0 \<le> off \<Longrightarrow> off + 4 \<le> int (length buf) \<Longrightarrow> \<exists>m. magic_at buf off = Some m"
  using of_le32_total [of "take 4 (drop (nat off) buf)"]
  by (auto simp: magic_at_def buf_read_def nat_add_distrib [symmetric] split: option.splits)

lemma mem_copy_total:
  assumes "0 \<le> off" "0 \<le> from" "0 \<le> k" "from + k \<le> int (length src)" "off + k \<le> int (length dst)"
  shows "\<exists>t. mem_copy dst off src from k = Some t \<and> length t = length dst"
proof -
  have "nat from + nat k \<le> length src" "nat off + nat k \<le> length dst" using assms by linarith+
  then show ?thesis using assms(1-3) by (simp add: mem_copy_def buf_read_def buf_write_def)
qed

lemma need_preamble_step:
  assumes "dgram_inv cnt s" "walk s < cnt" "dg_state s = NEED_PREAMBLE" "cnt \<le> int GREASE_MAX_MESSAGE_SIZE"
    "cnt + 8 \<le> int (length buf)"
  shows "\<exists>s'. dgram_need_preamble buf s = Some s' \<and> dgram_inv cnt s' \<and>
    (walk s' < cnt \<longrightarrow> dgram_measure cnt s' < dgram_measure cnt s)"
proof (cases "4 \<le> remain s")
  case True
  have w: "walk_buf s = walk s" "0 \<le> walk s" using assms(1) by (auto simp: dgram_inv_def)
  obtain m e where m: "magic_at buf (walk_buf s) = Some m" "magic_at buf (walk_buf s + 4) = Some e"
    using magic_at_total [of "walk s" buf] magic_at_total [of "walk s + 4" buf] assms(2,5) w by auto
  define s1 where "s1 = (if m = SINK_LOG_PING then s\<lparr>dg_sent := dg_sent s @ [le32 SINK_LOG_PING_ACK]\<rparr>
      else if m = SINK_LOG_PREAMBLE then s\<lparr>dg_state := IN_LOG, entry_size := e\<rparr> else s\<lparr>dg_state := NEED_PREAMBLE\<rparr>)"
  have d: "dgram_need_preamble buf s = Some (SD_WALK 8 s1)"
    using m True by (simp add: dgram_need_preamble_def preamble_at_def GREASE_CLIENT_PING_SIZE_def
        GREASE_CLIENT_HEADER_SIZE_def s1_def)
  have i: "dgram_inv cnt s1" "walk s1 = walk s" using assms(1,3) by (simp_all add: s1_def dgram_inv_def)
  have "dgram_inv cnt (SD_WALK 8 s1)" "walk (SD_WALK 8 s1) = walk s + 8"
    using SD_WALK_inv [OF i(1) assms(4), of 8] SD_WALK_moves(1) [OF i(1) assms(4), of 8] i(2) assms(2) by simp_all
  then show ?thesis using d assms(3) by (auto simp: dgram_measure_def)
next
  case False
  have r: "remain s = cnt - walk s" "walk_buf s = walk s" "0 \<le> walk s" "header_temp_walk s = 0" "length (header_temp s) = 8"
    using assms(1) by (auto simp: dgram_inv_def)
  have "walk s + remain s \<le> int (length buf)" "0 \<le> remain s" "remain s < 4" using r assms(2,5) False by simp_all
  then obtain h where h: "mem_copy (header_temp s) (header_temp_walk s) buf (walk_buf s) (remain s) = Some h"
      "length h = 8"
    using mem_copy_total [of 0 "walk s" "remain s" buf "header_temp s"] r by auto
  then have "dgram_need_preamble buf s =
      Some ((SD_WALK (remain s) s)\<lparr>remain_in_buf := remain_in_buf s, header_temp := h, remain := 0, dg_state := IN_PREAMBLE\<rparr>)"
    using False r assms(2) by (simp add: dgram_need_preamble_def GREASE_CLIENT_PING_SIZE_def)
  moreover have "walk (SD_WALK (remain s) s) = cnt" "dgram_inv cnt (SD_WALK (remain s) s)"
    using SD_WALK_moves(1) [OF assms(1,4), of "remain s"] SD_WALK_inv [OF assms(1,4), of "remain s"] r assms(2) by auto
  ultimately show ?thesis using h(2) by (auto simp: dgram_inv_def)
qed

lemma word_le_remain: "0 \<le> k \<Longrightarrow> k < 4294967296 \<Longrightarrow> e \<le> word_of_int k \<longleftrightarrow> uint e \<le> k" for e :: u32
  by (simp add: word_le_def uint_word_of_int)

lemma in_log_step:
  assumes "dgram_inv cnt s" "walk s < cnt" "dg_state s = IN_LOG" "cnt \<le> int GREASE_MAX_MESSAGE_SIZE"
    "cnt + int (sizeof_logMeta + sizeof_ignore_list) \<le> int (length buf)" "pool_inv n gr g"
  shows "\<exists>s' g'. dgram_in_log buf s g = Some (s', g') \<and> pool_inv n gr g' \<and> dgram_inv cnt s' \<and>
    (walk s' < cnt \<longrightarrow> dgram_measure cnt s' < dgram_measure cnt s)"
proof -
  have r: "remain_in_buf s = cnt - walk s" "walk_buf s = walk s" "0 \<le> walk s" "temp_buffer_walk s = 0"
      "length (temp_buffer_entry s) = GREASE_MAX_MESSAGE_SIZE"
    using assms(1,2) by (auto simp: dgram_inv_def)
  have le: "entry_size s \<le> word_of_int (remain_in_buf s) \<longleftrightarrow> uint (entry_size s) \<le> cnt - walk s"
    using word_le_remain [of "cnt - walk s" "entry_size s"] r assms(2,4)
    by (simp add: GREASE_MAX_MESSAGE_SIZE_def del: of_int_diff)
  show ?thesis
  proof (cases "uint (entry_size s) \<le> cnt - walk s")
    case True
    have "unat (entry_size s) \<le> length (drop (nat (walk s)) buf)"
        "sizeof_logMeta + sizeof_ignore_list \<le> length (drop (nat (walk s)) buf)"
    proof -
      have "int (length (drop (nat (walk s)) buf)) = int (length buf) - walk s"
        using assms(2,5) r(3) by simp
      moreover have "int (unat (entry_size s)) = uint (entry_size s)" by simp
      ultimately show "unat (entry_size s) \<le> length (drop (nat (walk s)) buf)"
        "sizeof_logMeta + sizeof_ignore_list \<le> length (drop (nat (walk s)) buf)"
        using True assms(2,5) by linarith+
    qed
    then obtain rc g' where g': "logFromRaw g (drop (nat (walk s)) buf) (unat (entry_size s)) = Some (rc, g')"
        "pool_inv n gr g'" using logFromRaw_total [OF assms(6)] by blast
    let ?s = "SD_WALK (uint (entry_size s)) s"
    have "dgram_in_log buf s g = Some (?s\<lparr>dg_state := NEED_PREAMBLE\<rparr>, g')"
      using g'(1) r le True by (simp add: dgram_in_log_def)
    moreover have "dgram_inv cnt ?s" "walk ?s = walk s + uint (entry_size s)"
      using SD_WALK_inv [OF assms(1,4), of "uint (entry_size s)"]
        SD_WALK_moves(1) [OF assms(1,4), of "uint (entry_size s)"] True assms(2) by simp_all
    moreover have "nat (cnt - (walk s + uint (entry_size s))) \<le> nat (cnt - walk s)"
      by (rule nat_mono) simp
    then have "dgram_measure cnt (?s\<lparr>dg_state := NEED_PREAMBLE\<rparr>) < dgram_measure cnt s"
      using assms(3) calculation(3) by (simp add: dgram_measure_def)
    ultimately show ?thesis using g'(2) by (auto simp: dgram_inv_def)
  next
    case False
    have "walk s + remain_in_buf s \<le> int (length buf)" "0 \<le> remain_in_buf s"
        "remain_in_buf s \<le> int GREASE_MAX_MESSAGE_SIZE" using r assms(2,4,5) by simp_all
    then obtain t where t: "mem_copy (temp_buffer_entry s) 0 buf (walk_buf s) (remain_in_buf s) = Some t"
        "length t = GREASE_MAX_MESSAGE_SIZE"
      using mem_copy_total [of 0 "walk s" "remain_in_buf s" buf "temp_buffer_entry s"] r by auto
    let ?s = "SD_WALK (remain_in_buf s) s"
    have "dgram_in_log buf s g = Some (?s\<lparr>temp_buffer_entry := t, temp_buffer_walk := remain_in_buf s\<rparr>, g)"
      using t(1) r le False by (simp add: dgram_in_log_def)
    moreover have "dgram_inv cnt ?s" "walk ?s = cnt"
      using SD_WALK_inv [OF assms(1,4), of "remain_in_buf s"]
        SD_WALK_moves(1) [OF assms(1,4), of "remain_in_buf s"] r(1) assms(2) by simp_all
    ultimately show ?thesis using t(2) assms(6) by (auto simp: dgram_inv_def)
  qed
qed

lemma dgram_loop_any:
  assumes "dgram_inv cnt s" "pool_inv n gr g" "walk s < cnt \<longrightarrow> dgram_measure cnt s \<le> k"
    "cnt \<le> int GREASE_MAX_MESSAGE_SIZE" "cnt + int (sizeof_logMeta + sizeof_ignore_list) \<le> int (length (iov ! 0))"
  shows "\<exists>s' g'. dgram_loop k cnt rcv iov (s, g) = Some (s', g') \<and> pool_inv n gr g' \<and> cnt \<le> walk s'"
  using assms(1-3)
proof (induction k arbitrary: s g)
  case 0
  then show ?case by (auto simp: dgram_measure_def)
next
  case (Suc k)
  show ?case
  proof (cases "walk s < cnt")
    case True
    have nb: "next_buffer cnt rcv s = Inr s" "iov_n s = 0" "dg_state s \<noteq> IN_PREAMBLE"
      using Suc.prems(1) True by (auto simp: next_buffer_def dgram_inv_def)
    have "cnt + 8 \<le> int (length (iov ! 0))" using assms(5) by (simp add: sizeof_logMeta_def)
    then obtain s' g' where s': "dgram_switch (iov ! 0) (s, g) = Some (s', g')" "pool_inv n gr g'" "dgram_inv cnt s'"
        "walk s' < cnt \<longrightarrow> dgram_measure cnt s' < dgram_measure cnt s"
      using need_preamble_step [OF Suc.prems(1) True _ assms(4)] nb(3) Suc.prems(2)
        in_log_step [OF Suc.prems(1) True _ assms(4,5) Suc.prems(2)]
      by (cases "dg_state s") (fastforce simp: dgram_switch_def)+
    have "walk s' < cnt \<longrightarrow> dgram_measure cnt s' \<le> k" using s'(4) Suc.prems(3) True by auto
    from Suc.IH [OF s'(3,2) this] show ?thesis using True nb s'(1) by simp
  qed (use Suc.prems(2) in simp)
qed

lemma scatter_first: "scatter nbuffers rcv data ! 0 = take rcv data @ replicate (rcv - length data) 0"
  by (simp add: nbuffers_def numeral_eq_Suc)

lemma dgram_start_inv:
  assumes "length temp = GREASE_MAX_MESSAGE_SIZE" "0 \<le> cnt" "cnt \<le> rcv"
  shows "dgram_inv cnt (dgram_start n cnt rcv temp)"
  using assms by (simp add: dgram_inv_def dgram_start_def GREASE_CLIENT_HEADER_SIZE_def)

lemma dgram_walks:
  assumes "pool_inv n gr g" "length temp = GREASE_MAX_MESSAGE_SIZE" "length data \<le> GREASE_MAX_MESSAGE_SIZE"
    "length data + sizeof_logMeta + sizeof_ignore_list \<le> rcv"
  shows "\<exists>s g'. dgram_receive nfds rcv temp data g = Some (s, g') \<and> int (length data) \<le> walk s \<and>
    pool_inv n gr g'"
proof -
  let ?cnt = "int (length data)" and ?iov = "scatter nbuffers rcv data"
  have i: "dgram_inv ?cnt (dgram_start nfds ?cnt (int rcv) temp)"
    using dgram_start_inv [OF assms(2)] assms(4) by simp
  have "?cnt + int (sizeof_logMeta + sizeof_ignore_list) \<le> int (length (?iov ! 0))"
    using assms(4) by (simp add: scatter_first)
  moreover have "walk (dgram_start nfds ?cnt (int rcv) temp) < ?cnt \<longrightarrow>
      dgram_measure ?cnt (dgram_start nfds ?cnt (int rcv) temp) \<le> 2 * length data + 1"
    by (simp add: dgram_measure_def dgram_start_def)
  moreover have "min (length data) (nbuffers * rcv) = length data" using assms(4) by (simp add: nbuffers_def)
  ultimately show ?thesis 
    using dgram_loop_any [OF i assms(1), of "2 * length data + 1" ?iov "int rcv"] assms(3)
    by (auto simp: dgram_receive_def Let_def simp del: dgram_loop.simps)
qed

text \<open>C17: Robustness of the datagram sink. Whatever bytes a datagram of at most
  \<open>GREASE_MAX_MESSAGE_SIZE\<close> bytes holds, the listener walks to its end without leaving its buffers,
  and the logger's pool keeps its buffers. The receive buffers have to hold the datagram and the
  metadata with its ignore list behind it.\<close>

theorem dgram_any:
  assumes "pool_inv n gr g" "length temp = GREASE_MAX_MESSAGE_SIZE" "length data \<le> GREASE_MAX_MESSAGE_SIZE"
    "length data + sizeof_logMeta + sizeof_ignore_list \<le> rcv"
  shows "\<exists>s g'. dgram_receive nfds rcv temp data g = Some (s, g') \<and> int (length data) \<le> walk s \<and>
    pool_inv n gr g'"
  by (rule dgram_walks [OF assms])

theorem dgram_any_witness:
  "\<exists>s g'. dgram_receive 5 131072 (replicate GREASE_MAX_MESSAGE_SIZE 0)
       [0xED, 0xFE, 0x0D, 0xF0, 0xFF, 0xFF, 0xFF, 0xFF, 1] ex_logger = Some (s, g') \<and>
     int (length [0xED, 0xFE, 0x0D, 0xF0, 0xFF, 0xFF, 0xFF, 0xFF, 1 :: u8]) \<le> walk s \<and> pool_inv 2 [] g'"
  by (rule dgram_any [OF ex_logger_parts(1)])
    (simp_all add: GREASE_MAX_MESSAGE_SIZE_def sizeof_logMeta_def sizeof_ignore_list_def)

section \<open>Framed entries\<close>

text \<open>The frame of an entry: preamble, size, metadata and text.\<close>

definition entry_frame :: "logMeta \<Rightarrow> bytes \<Rightarrow> bytes" where
  "entry_frame m s =
     le32 SINK_LOG_PREAMBLE @ le32 (of_nat (sizeof_logMeta + length s)) @ meta_bytes m @ s"

fun log_all :: "(logMeta \<times> bytes) list \<Rightarrow> grease \<Rightarrow> grease option" where
  "log_all [] g = Some g"
| "log_all ((m, s) # es) g =
     Option.bind (logP g (fresh_extra m) s (length s)) (\<lambda>(r, f, g'). log_all es g')"

definition sendable :: "logMeta \<times> bytes \<Rightarrow> bool" where
  "sendable e \<longleftrightarrow> wf_meta (fst e) \<and> m_extras (fst e) = 0 \<and> snd e \<noteq> []"

lemma at_drop: "at mem i xs \<Longrightarrow> \<exists>rest. drop i mem = xs @ rest"
  by (metis append_take_drop_id at_def)

lemma at_magic:
  assumes "at buf (nat off) (le32 w @ xs)" "0 \<le> off"
  shows "magic_at buf off = Some w"
  using at_read [OF assms(1), of 4] assms(2) by (simp add: magic_at_def)

lemma frame_step:
  assumes "dgram_inv cnt s" "dg_state s = NEED_PREAMBLE" "at buf (nat (walk s)) (entry_frame m xs)"
    "walk s + int (length (entry_frame m xs)) \<le> cnt" "cnt \<le> int GREASE_MAX_MESSAGE_SIZE" "sendable (m, xs)"
  obtains s1 s2 where "dgram_need_preamble buf s = Some s1" "dg_state s1 = IN_LOG" "dgram_inv cnt s1"
    "walk s1 = walk s + 8"
    "dgram_in_log buf s1 g =
       map_option (\<lambda>(r, f, g'). (s2, g')) (logP g (fresh_extra m) xs (length xs))"
    "dgram_inv cnt s2" "dg_state s2 = NEED_PREAMBLE" "walk s2 = walk s + int (length (entry_frame m xs))"
proof -
  have m: "wf_meta m" "m_extras m = 0" "xs \<noteq> []" using assms(6) by (simp_all add: sendable_def)
  have fl: "length (entry_frame m xs) = 8 + sizeof_logMeta + length xs"
    using length_meta_bytes [OF m(1)] by (simp add: entry_frame_def)
  have w: "walk_buf s = walk s" "0 \<le> walk s" "remain s = cnt - walk s" using assms(1) by (auto simp: dgram_inv_def)
  let ?e = "of_nat (sizeof_logMeta + length xs) :: u32"
  have fit: "sizeof_logMeta + length xs < 65536" using assms(4,5) fl w(2)
    by (simp add: GREASE_MAX_MESSAGE_SIZE_def)
  have ue2: "unat ?e = sizeof_logMeta + length xs" using fit by (simp add: unat_of_nat del: of_nat_add)
  then have ue1: "uint ?e = int (sizeof_logMeta + length xs)" by (metis of_nat_unat)
  note ue = ue1 ue2
  have at2: "at buf (nat (walk s)) (le32 SINK_LOG_PREAMBLE @ le32 ?e @ meta_bytes m @ xs)"
    using assms(3) by (simp add: entry_frame_def)
  then have at4: "at buf (nat (walk s + 4)) (le32 ?e @ meta_bytes m @ xs)"
      "at buf (nat (walk s + 8)) (meta_bytes m @ xs)"
    using w(2) by (simp_all add: at_append nat_add_distrib add.commute [of 8])
  define s1 where "s1 = SD_WALK 8 (s\<lparr>dg_state := IN_LOG, entry_size := ?e\<rparr>)"
  have np: "dgram_need_preamble buf s = Some s1"
    using at_magic [OF at2 w(2)] at_magic [OF at4(1)] w assms(4) fl
    by (simp add: dgram_need_preamble_def preamble_at_def s1_def GREASE_CLIENT_PING_SIZE_def
        GREASE_CLIENT_HEADER_SIZE_def SINK_LOG_PING_def SINK_LOG_PREAMBLE_def)
  have i0: "dgram_inv cnt (s\<lparr>dg_state := IN_LOG, entry_size := ?e\<rparr>)" "walk s < cnt"
    using assms(1,4) fl by (auto simp: dgram_inv_def)
  have i1: "dgram_inv cnt s1" "walk s1 = walk s + 8"
    using SD_WALK_inv [OF i0(1) assms(5), of 8] SD_WALK_moves(1) [OF i0(1) assms(5), of 8] i0(2)
    by (simp_all add: s1_def)
  have w1: "walk s1 < cnt" using i1(2) assms(4) fl by (simp add: sizeof_logMeta_def)
  then have r1: "remain_in_buf s1 = cnt - walk s1" "walk_buf s1 = walk s1" "0 \<le> walk s1" "temp_buffer_walk s1 = 0"
      "entry_size s1 = ?e" "dg_state s1 = IN_LOG"
    using i1(1) by (auto simp: dgram_inv_def s1_def)
  define s2 where "s2 = (SD_WALK (uint ?e) s1)\<lparr>dg_state := NEED_PREAMBLE\<rparr>"
  obtain rest where rest: "drop (nat (walk s1)) buf = meta_bytes m @ xs @ rest"
    using at_drop [OF at4(2)] i1(2) by auto
  have "?e \<le> word_of_int (remain_in_buf s1)"
    using word_le_remain [of "cnt - walk s1" ?e] r1(1) i1(2) assms(4,5) fl ue(1) w(2)
    by (simp add: GREASE_MAX_MESSAGE_SIZE_def del: of_int_diff of_nat_add)
  then have lg: "dgram_in_log buf s1 g =
      map_option (\<lambda>(r, f, g'). (s2, g')) (logP g (fresh_extra m) xs (length xs))"
    using logFromRaw_entry [OF m, of g rest] r1 rest ue(2)
    by (cases "logP g (fresh_extra m) xs (length xs)")
      (auto simp: dgram_in_log_def s2_def simp del: of_nat_add of_int_diff)
  have "walk s2 = walk s + int (length (entry_frame m xs))" "dgram_inv cnt (SD_WALK (uint ?e) s1)"
    using SD_WALK_moves(1) [OF i1(1) assms(5), of "uint ?e"] SD_WALK_inv [OF i1(1) assms(5), of "uint ?e"]
      i1(2) assms(4) fl ue(1) w1 by (simp_all add: s2_def del: of_nat_add)
  moreover from this(2) have "dgram_inv cnt s2" by (auto simp: s2_def dgram_inv_def)
  ultimately show thesis using that [OF np r1(6) i1 lg] by (simp add: s2_def)
qed

lemma dgram_loop_frames:
  assumes "dgram_inv cnt s" "dg_state s = NEED_PREAMBLE"
    "at (iov ! 0) (nat (walk s)) (concat (map (\<lambda>(m, xs). entry_frame m xs) es))"
    "walk s + int (length (concat (map (\<lambda>(m, xs). entry_frame m xs) es))) = cnt"
    "cnt \<le> int GREASE_MAX_MESSAGE_SIZE" "list_all sendable es" "2 * length es \<le> k"
  shows "map_option snd (dgram_loop k cnt rcv iov (s, g)) = log_all es g"
  using assms
proof (induction es arbitrary: s g k)
  case Nil
  then show ?case by (cases k) auto
next
  case (Cons e es)
  obtain m xs where e: "e = (m, xs)" by force
  obtain j where k: "k = Suc (Suc j)" using Cons.prems(7) by (metis add_2_eq_Suc le_Suc_ex length_Cons mult_Suc_right plus_nat.simps(2))
  let ?rest = "concat (map (\<lambda>(m, xs). entry_frame m xs) es)"
  have at1: "at (iov ! 0) (nat (walk s)) (entry_frame m xs)"
      "at (iov ! 0) (nat (walk s) + length (entry_frame m xs)) ?rest"
    using Cons.prems(3) by (simp_all add: e at_append)
  have "walk s + int (length (entry_frame m xs)) \<le> cnt" "sendable (m, xs)"
    using Cons.prems(4,6) by (simp_all add: e)
  then obtain s1 s2 where st: "dgram_need_preamble (iov ! 0) s = Some s1" "dg_state s1 = IN_LOG" "dgram_inv cnt s1"
    "walk s1 = walk s + 8"
    "dgram_in_log (iov ! 0) s1 g = map_option (\<lambda>(r, f, g'). (s2, g')) (logP g (fresh_extra m) xs (length xs))"
    "dgram_inv cnt s2" "dg_state s2 = NEED_PREAMBLE" "walk s2 = walk s + int (length (entry_frame m xs))"
    using frame_step [OF Cons.prems(1,2) at1(1) _ Cons.prems(5)] by metis
  have "8 < length (entry_frame m xs)" using \<open>sendable (m, xs)\<close> by (simp add: entry_frame_def sendable_def)
  then have w: "walk s < cnt" "walk s1 < cnt" "0 \<le> walk s"
    using Cons.prems(1,4) st(4) by (auto simp: e dgram_inv_def)
  have nb: "next_buffer cnt rcv s = Inr s" "next_buffer cnt rcv s1 = Inr s1" "iov_n s = 0" "iov_n s1 = 0"
    using Cons.prems(1) st(3) w by (auto simp: next_buffer_def dgram_inv_def)
  have "map_option snd (dgram_loop j cnt rcv iov (s2, g')) = log_all es g'" for g'
  proof (rule Cons.IH)
    show "at (iov ! 0) (nat (walk s2)) ?rest" using at1(2) st(8) w(3) by (simp add: nat_add_distrib)
  qed (use st Cons.prems k in \<open>simp_all add: e\<close>)
  then show ?case using w nb st(1,2,5) Cons.prems(2)
    by (cases "logP g (fresh_extra m) xs (length xs)") (auto simp: k e dgram_switch_def)
qed

lemma frames_receive:
  assumes "length temp = GREASE_MAX_MESSAGE_SIZE" "list_all sendable es"
    "data = concat (map (\<lambda>(m, xs). entry_frame m xs) es)"
    "length data \<le> GREASE_MAX_MESSAGE_SIZE" "length data \<le> rcv"
  shows "map_option snd (dgram_receive nfds rcv temp data g) = log_all es g"
proof -
  let ?cnt = "int (length data)" and ?iov = "scatter nbuffers rcv data"
  have i: "dgram_inv ?cnt (dgram_start nfds ?cnt (int rcv) temp)"
    using dgram_start_inv [OF assms(1)] assms(5) by simp
  have len: "2 * length xs \<le> 2 * length (concat (map (\<lambda>(m, xs). entry_frame m xs) xs)) + 1"
    for xs :: "(logMeta \<times> bytes) list"
    by (induction xs) (auto simp: entry_frame_def)
  have "dgram_receive nfds rcv temp data g =
      dgram_loop (2 * length data + 1) ?cnt (int rcv) ?iov (dgram_start nfds ?cnt (int rcv) temp, g)"
    using assms(5) by (simp add: dgram_receive_def Let_def nbuffers_def min_def del: dgram_loop.simps)
  moreover have "map_option snd (dgram_loop (2 * length data + 1) ?cnt (int rcv) ?iov
      (dgram_start nfds ?cnt (int rcv) temp, g)) = log_all es g"
  proof (rule dgram_loop_frames [OF i])
    show "at (?iov ! 0) (nat (walk (dgram_start nfds ?cnt (int rcv) temp))) (concat (map (\<lambda>(m, xs). entry_frame m xs) es))"
      using assms(3,5) by (simp add: scatter_first dgram_start_def at_def)
  qed (use assms len [of es] in \<open>simp_all add: dgram_start_def\<close>)
  ultimately show ?thesis by simp
qed

text \<open>C16: Framing. A datagram made of the frames of any number of entries, each with its metadata and
  text, has the effect of logging those entries one by one, in order, and nothing else.\<close>

theorem dgram_entries:
  assumes "length temp = GREASE_MAX_MESSAGE_SIZE" "list_all sendable es"
    "length (concat (map (\<lambda>(m, xs). entry_frame m xs) es)) \<le> min GREASE_MAX_MESSAGE_SIZE rcv"
  shows "map_option snd (dgram_receive nfds rcv temp (concat (map (\<lambda>(m, xs). entry_frame m xs) es)) g) =
    log_all es g"
  using frames_receive [OF assms(1,2) refl] assms(3) by simp

theorem dgram_entries_witness:
  "map_option snd (dgram_receive 5 131072 (replicate GREASE_MAX_MESSAGE_SIZE 0)
       (entry_frame ex_meta [0x61, 0x62] @ entry_frame meta_error [0x63]) ex_logger) =
     log_all [(ex_meta, [0x61, 0x62]), (meta_error, [0x63])] ex_logger"
proof -
  have "wf_meta ex_meta" "wf_meta meta_error" "m_extras ex_meta = 0" "m_extras meta_error = 0"
    by (simp_all add: ex_meta_def meta_error_def, simp_all add: DECL_LOG_META_def)
  then show ?thesis
    using dgram_entries [of "replicate GREASE_MAX_MESSAGE_SIZE 0" "[(ex_meta, [0x61, 0x62]), (meta_error, [0x63])]" 131072 5 ex_logger]
    by (simp add: sendable_def entry_frame_def length_meta_bytes sizeof_logMeta_def GREASE_MAX_MESSAGE_SIZE_def)
qed

section \<open>Pings and oversized entries\<close>

lemma receive_loop:
  assumes "length data \<le> rcv" "cnt = int (length data)"
  shows "dgram_receive nfds rcv temp data g =
    dgram_loop (2 * length data + 1) cnt (int rcv) (scatter nbuffers rcv data) (dgram_start nfds cnt (int rcv) temp, g)"
  using assms by (simp add: dgram_receive_def Let_def nbuffers_def min_def del: dgram_loop.simps)

lemma dgram_loop_step:
  assumes "walk s < cnt" "walk_buf s < cnt"
  shows "dgram_loop (Suc k) cnt rcv iov (s, g) = Option.bind (dgram_switch (iov ! iov_n s) (s, g)) (dgram_loop k cnt rcv iov)"
  using assms by (simp add: next_buffer_def)

lemma dgram_loop_done: "cnt \<le> walk s \<Longrightarrow> dgram_loop k cnt rcv iov (s, g) = Some (s, g)"
  by (cases k) simp_all

lemma dgram_ping:
  assumes "4 \<le> rcv"
  shows "\<exists>s. dgram_receive nfds rcv temp (le32 SINK_LOG_PING) g = Some (s, g) \<and> dg_sent s = [le32 SINK_LOG_PING_ACK]"
proof -
  let ?s = "dgram_start nfds 4 (int rcv) temp"
  have "at (scatter nbuffers rcv (le32 SINK_LOG_PING) ! 0) (nat 0) (le32 SINK_LOG_PING @ [])"
    using assms by (simp add: scatter_first at_def)
  then have "magic_at (scatter nbuffers rcv (le32 SINK_LOG_PING) ! 0) 0 = Some SINK_LOG_PING"
    by (rule at_magic) simp
  moreover have "walk ?s = 0" "walk_buf ?s = 0" "remain ?s = 4" "iov_n ?s = 0" "dg_state ?s = NEED_PREAMBLE" "dg_sent ?s = []"
    by (simp_all add: dgram_start_def)
  ultimately have sw: "dgram_switch (scatter nbuffers rcv (le32 SINK_LOG_PING) ! iov_n ?s) (?s, g) =
      Some (SD_WALK 8 (?s\<lparr>dg_sent := [le32 SINK_LOG_PING_ACK]\<rparr>), g)"
    by (simp add: dgram_switch_def dgram_need_preamble_def GREASE_CLIENT_PING_SIZE_def GREASE_CLIENT_HEADER_SIZE_def)
  have w: "walk (SD_WALK 8 (?s\<lparr>dg_sent := [le32 SINK_LOG_PING_ACK]\<rparr>)) = 8" by (simp add: SD_WALK_def dgram_start_def)
  have "dgram_receive nfds rcv temp (le32 SINK_LOG_PING) g =
      dgram_loop (Suc 8) 4 (int rcv) (scatter nbuffers rcv (le32 SINK_LOG_PING)) (?s, g)"
    using receive_loop [of "le32 SINK_LOG_PING" rcv 4] assms by simp
  also have "\<dots> = Some (SD_WALK 8 (?s\<lparr>dg_sent := [le32 SINK_LOG_PING_ACK]\<rparr>), g)"
    using sw w by (subst dgram_loop_step) (simp_all add: dgram_start_def dgram_loop_done)
  finally show ?thesis by simp
qed

text \<open>C39: An oversized entry. When a datagram holds more than \<open>GREASE_MAX_MESSAGE_SIZE\<close> bytes behind a
  header that announces more than the datagram holds, the listener copies them all into its
  temporary buffer of \<open>GREASE_MAX_MESSAGE_SIZE\<close> bytes, beyond its end.\<close>

theorem dgram_overruns_temp:
  assumes "length temp = GREASE_MAX_MESSAGE_SIZE" "GREASE_MAX_MESSAGE_SIZE < length body"
    "length body < unat e" "length body + 8 \<le> rcv" "rcv < 1073741824"
  shows "dgram_receive nfds rcv temp (le32 SINK_LOG_PREAMBLE @ le32 e @ body) g = None"
proof -
  let ?data = "le32 SINK_LOG_PREAMBLE @ le32 e @ body"
  let ?cnt = "int (length body + 8)" and ?buf = "scatter nbuffers rcv ?data ! 0"
  let ?s = "dgram_start nfds ?cnt (int rcv) temp"
  let ?s1 = "SD_WALK 8 (?s\<lparr>dg_state := IN_LOG, entry_size := e\<rparr>)"
  have at2: "at ?buf (nat 0) (le32 SINK_LOG_PREAMBLE @ le32 e @ body)"
    using assms(4) by (simp add: scatter_first at_def)
  then have "at ?buf (nat 4) (le32 e @ body)" by (simp add: at_append)
  then have m: "magic_at ?buf 0 = Some SINK_LOG_PREAMBLE" "magic_at ?buf 4 = Some e"
    using at_magic [OF at2] at_magic [of ?buf 4] by simp_all
  have s: "walk ?s = 0" "walk_buf ?s = 0" "remain ?s = ?cnt" "iov_n ?s = 0" "dg_state ?s = NEED_PREAMBLE"
    by (simp_all add: dgram_start_def)
  have s1: "walk ?s1 = 8" "walk_buf ?s1 = 8" "remain_in_buf ?s1 = int (length body)" "iov_n ?s1 = 0"
      "dg_state ?s1 = IN_LOG" "temp_buffer_walk ?s1 = 0" "entry_size ?s1 = e" "temp_buffer_entry ?s1 = temp"
    using assms(4,5) by (simp_all add: SD_WALK_def dgram_start_def)
  have np: "dgram_need_preamble ?buf ?s = Some ?s1"
    using m s by (simp add: dgram_need_preamble_def preamble_at_def GREASE_CLIENT_PING_SIZE_def
        GREASE_CLIENT_HEADER_SIZE_def SINK_LOG_PING_def SINK_LOG_PREAMBLE_def)
  have "int (length body) < uint e" using assms(3) by (metis of_nat_less_iff of_nat_unat)
  then have "\<not> e \<le> word_of_int (int (length body))"
    using word_le_remain [of "int (length body)" e] assms(4,5) by linarith
  then have il: "dgram_in_log ?buf ?s1 g = None"
    using s1 assms(1,2) by (simp add: dgram_in_log_def mem_copy_def buf_read_def buf_write_def del: SD_WALK_sel)
  have "dgram_receive nfds rcv temp ?data g =
      dgram_loop (Suc (Suc (2 * length body + 15))) ?cnt (int rcv) (scatter nbuffers rcv ?data) (?s, g)"
    using receive_loop [of ?data rcv ?cnt nfds temp g] assms(4) by (simp del: dgram_loop.simps)
  also have "\<dots> = dgram_loop (Suc (2 * length body + 15)) ?cnt (int rcv) (scatter nbuffers rcv ?data) (?s1, g)"
    using s np by (subst dgram_loop_step) (simp_all add: dgram_switch_def del: dgram_loop.simps SD_WALK_sel)
  also have "\<dots> = None"
    using s1 il gr_implies_not0 [OF assms(2)] by (subst dgram_loop_step) (simp_all add: dgram_switch_def del: dgram_loop.simps SD_WALK_sel)
  finally show ?thesis .
qed

theorem dgram_overruns_temp_witness:
  "dgram_receive 5 131072 (replicate GREASE_MAX_MESSAGE_SIZE 0)
     (le32 SINK_LOG_PREAMBLE @ le32 0x20000 @ replicate 65536 0x61) ex_logger = None"
  by (rule dgram_overruns_temp) (simp_all add: GREASE_MAX_MESSAGE_SIZE_def)

end
