(* ===== verification/Grease_Client.thy ===== *)
theory Grease_Client
  imports Dgram_Sink
begin

text \<open>
  The client of \<open>grease_client.c\<close>: how a process finds its logger (a logger in the same process, the
  sink's socket, or none), the datagram that \<open>grease_logToSink\<close> sends, and \<open>grease_printf\<close>. The
  static and thread-local variables are the fields of \<open>grease_client\<close>; the results of system calls
  are arguments, collected in \<open>sys\<close> for the set-up. The build without \<open>GREASE_IS_LOCAL\<close> is modelled.
\<close>

section \<open>State\<close>

datatype log_fn = LOG_NULL | LOG_TO_SINK | LOG_LOCAL   \<comment> \<open>\<open>grease_log\<close>\<close>

record grease_client =
  cl_grease_log :: log_fn
  cl_local_log :: bool             \<comment> \<open>\<open>local_log\<close> is not \<open>NULL\<close>\<close>
  cl_found_module :: int
  cl_default_origin :: OriginId
  cl_sink_fd :: int
  cl_send_buf_size :: int
  cl_err_cnt :: int
  cl_header_buffer :: bytes
  cl_sun_path :: bytes
  cl_my_tid :: int
  cl_iovlen :: nat                 \<comment> \<open>\<^verbatim>\<open>message.msg_iovlen\<close>\<close>
  cl_iov_lens :: "nat \<times> nat"       \<comment> \<open>of the header and of the metadata\<close>
  cl_logstr :: bytes               \<comment> \<open>\<open>_grease_logstr_buffer\<close>\<close>
  cl_closed :: bool

definition MODULE_SEARCH_NOT_RAN :: int where "MODULE_SEARCH_NOT_RAN = -1"
definition GREASE_C_MACRO_MAX_MESSAGE :: nat where "GREASE_C_MACRO_MAX_MESSAGE = 250"
definition SINK_MAX_ERRORS :: int where "SINK_MAX_ERRORS = 10"
definition SINK_BUFFERS_N :: nat where "SINK_BUFFERS_N = 3"
definition SUN_PATH_LEN :: nat where "SUN_PATH_LEN = 108"

definition client_new :: grease_client where
  "client_new =
     \<lparr>cl_grease_log = LOG_NULL, cl_local_log = False, cl_found_module = MODULE_SEARCH_NOT_RAN,
      cl_default_origin = 0, cl_sink_fd = 0, cl_send_buf_size = 0, cl_err_cnt = 0,
      cl_header_buffer = replicate GREASE_CLIENT_HEADER_SIZE 0, cl_sun_path = replicate SUN_PATH_LEN 0,
      cl_my_tid = 0, cl_iovlen = 0, cl_iov_lens = (0, 0),
      cl_logstr = replicate (GREASE_C_MACRO_MAX_MESSAGE + 1) 0, cl_closed = False\<rparr>"

section \<open>Sending\<close>

text \<open>
  \<open>grease_logToSink\<close>: what \<open>sendmsg\<close> gathers from the three buffers, and its result \<open>sent\<close>. \<open>s\<close> is
  the readable memory behind the text.
\<close>

definition gather :: "grease_client \<Rightarrow> logMeta \<Rightarrow> bytes \<Rightarrow> u32 \<Rightarrow> bytes option" where
  "gather c f s len =
     (if cl_iovlen c = SINK_BUFFERS_N then
        Option.bind (buf_read (cl_header_buffer c) 0 (fst (cl_iov_lens c))) (\<lambda>h.
        Option.bind (buf_read (meta_bytes f) 0 (snd (cl_iov_lens c))) (\<lambda>m.
          map_option (\<lambda>t. h @ m @ t) (buf_read s 0 (unat len))))
      else Some [])"

definition grease_logToSink ::
  "bool \<Rightarrow> grease_client \<Rightarrow> logMeta \<Rightarrow> bytes \<Rightarrow> u32 \<Rightarrow> (grease_ret \<times> bytes option \<times> grease_client) option" where
  "grease_logToSink sent c f s len =
     Option.bind (buf_write (cl_header_buffer c) 4 (le32 (len + of_nat sizeof_logMeta))) (\<lambda>h.
       let c1 = c\<lparr>cl_header_buffer := h\<rparr> in
       Option.bind (gather c1 f s len) (\<lambda>d.
         if sent then Some (GREASE_OK, Some d, c1)
         else
           (let c2 = c1\<lparr>cl_err_cnt := cl_err_cnt c1 + 1\<rparr>;
                c3 = (if cl_err_cnt c2 > SINK_MAX_ERRORS then c2\<lparr>cl_grease_log := LOG_NULL\<rparr> else c2)
            in Some (GREASE_SINK_FAILURE, None, c3))))"

text \<open>
  \<open>_grease_logToRaw\<close>. \<^verbatim>\<open>(logMeta *) tobuf+w\<close> counts in structures, so the origin is stored at
  \<open>w * sizeof(logMeta)\<close>.
\<close>

definition grease_logToRaw ::
  "OriginId \<Rightarrow> logMeta option \<Rightarrow> bytes \<Rightarrow> u32 \<Rightarrow> bytes option \<Rightarrow> u32 \<Rightarrow> (grease_ret \<times> bytes option \<times> u32) option" where
  "grease_logToRaw origin f s len tobuf buflen =
     (case tobuf of
        None \<Rightarrow> Some (GREASE_NO_BUFFER, None, buflen)
      | Some b \<Rightarrow>
          if unat buflen < sizeof_logMeta + unat len then Some (GREASE_NO_BUFFER, Some b, buflen)
          else
            Option.bind (buf_write b 0 (le32 SINK_LOG_PREAMBLE)) (\<lambda>b1.
            Option.bind (buf_write b1 4 (le32 (len + 8))) (\<lambda>b2.
            Option.bind (buf_write b2 8 (meta_bytes (case f of Some m \<Rightarrow> m | None \<Rightarrow> noMetaData))) (\<lambda>b3.
            Option.bind (buf_write b3 (8 * sizeof_logMeta + 8) (le32 origin)) (\<lambda>b4.
              (if unat len > 0
               then Option.bind (buf_read s 0 (unat len)) (\<lambda>t.
                      map_option (\<lambda>b5. (GREASE_OK, Some b5, len)) (buf_write b4 (8 + sizeof_logMeta) t))
               else Some (GREASE_OK, Some b4, len)))))))"

section \<open>Finding the logger\<close>

record dl_obj =
  dl_name :: bytes
  dl_opens :: bool
  dl_has_symbol :: bool            \<comment> \<open>\<open>grease_logLocal\<close> is in it\<close>

definition GREASE_LOG_SO_NAME :: bytes where
  "GREASE_LOG_SO_NAME = [0x67, 0x72, 0x65, 0x61, 0x73, 0x65, 0x4C, 0x6F, 0x67, 0x2E, 0x6E, 0x6F, 0x64, 0x65]"

definition strstr :: "bytes \<Rightarrow> bytes \<Rightarrow> bool" where
  "strstr hay needle \<longleftrightarrow> list_ex (\<lambda>k. take (length needle) (drop k hay) = needle) [0..<Suc (length hay)]"

definition grease_plhdr_callback :: "dl_obj \<Rightarrow> grease_client \<Rightarrow> grease_client" where
  "grease_plhdr_callback ob c =
     (if strstr (dl_name ob) GREASE_LOG_SO_NAME then
        (if dl_opens ob then
           (if dl_has_symbol ob then c\<lparr>cl_local_log := True, cl_found_module := 1\<rparr>
            else c\<lparr>cl_local_log := False\<rparr>)
         else c)
      else c)"

definition check_grease_symbols :: "dl_obj list \<Rightarrow> grease_client \<Rightarrow> int \<times> grease_client" where
  "check_grease_symbols objs c =
     (let c1 = fold grease_plhdr_callback objs (c\<lparr>cl_found_module := 0\<rparr>) in (cl_found_module c1, c1))"

text \<open>
  \<open>ping_sink\<close>: \<open>True\<close> is the result 0. \<open>reply\<close> is what \<open>recvfrom\<close> delivers, \<open>temp_buf\<close> the array it is
  put into.
\<close>

definition ping_sink :: "int \<Rightarrow> bool \<Rightarrow> bool \<Rightarrow> bool \<Rightarrow> bytes option \<Rightarrow> bytes \<Rightarrow> bool" where
  "ping_sink fd dir bound sent reply temp_buf =
     (if fd < 0 then False
      else if dir then
        (if \<not> bound then False
         else if \<not> sent then False
         else (case reply of
                 None \<Rightarrow> False
               | Some r \<Rightarrow> take 4 r @ drop (length r) temp_buf = le32 SINK_LOG_PING_ACK))
      else False)"

record sys =
  sy_tid :: int
  sy_pid :: u32
  sy_socket :: int
  sy_rcvbuf :: int                 \<comment> \<open>what \<open>getsockopt\<close> answers\<close>
  sy_ping :: bool                  \<comment> \<open>\<open>ping_sink\<close> succeeds\<close>
  sy_objs :: "dl_obj list"

definition GREASE_DEFAULT_SINK_PATH :: bytes where
  "GREASE_DEFAULT_SINK_PATH =
     [0x2F, 0x74, 0x6D, 0x70, 0x2F, 0x67, 0x72, 0x65, 0x61, 0x73, 0x65, 0x2E, 0x73, 0x6F, 0x63, 0x6B, 0x65, 0x74]"

definition sink_address :: "sys \<Rightarrow> bytes option \<Rightarrow> grease_client \<Rightarrow> grease_client option" where
  "sink_address y path c =
     (if sy_socket y < 0 then Some c
      else map_option (\<lambda>p. c\<lparr>cl_sun_path := p\<rparr>)
             (buf_write (replicate SUN_PATH_LEN 0) 0
               ((case path of Some p \<Rightarrow> p | None \<Rightarrow> GREASE_DEFAULT_SINK_PATH) @ [0])))"

definition setup_sink_dgram_socket ::
  "sys \<Rightarrow> bytes option \<Rightarrow> bool \<Rightarrow> grease_client \<Rightarrow> (nat \<times> grease_client) option" where
  "setup_sink_dgram_socket y path no_ping c =
     (let c0 = c\<lparr>cl_err_cnt := 0\<rparr> in
      if cl_my_tid c0 \<noteq> sy_tid y then
        Option.bind (sink_address y path (c0\<lparr>cl_sink_fd := sy_socket y\<rparr>)) (\<lambda>c1.
          let c2 = c1\<lparr>cl_send_buf_size := sy_rcvbuf y\<rparr> in
          if sy_rcvbuf y < 100 then Some (1, c2)
          else Option.bind (buf_write (cl_header_buffer c2) 0 (le32 SINK_LOG_PREAMBLE)) (\<lambda>h.
            let c3 = c2\<lparr>cl_iovlen := SINK_BUFFERS_N, cl_header_buffer := h,
                        cl_iov_lens := (GREASE_CLIENT_HEADER_SIZE, sizeof_logMeta)\<rparr>
            in if no_ping then Some (0, c3\<lparr>cl_my_tid := sy_tid y\<rparr>)
               else if sy_ping y then Some (0, c3\<lparr>cl_my_tid := sy_tid y\<rparr>)
               else Some (1, c3)))
      else Some (0, c0))"

definition use_local :: "grease_client \<Rightarrow> grease_ret \<times> grease_client" where
  "use_local c = (GREASE_OK, c\<lparr>cl_grease_log := (if cl_local_log c then LOG_LOCAL else LOG_NULL)\<rparr>)"

definition use_sink :: "(nat \<times> grease_client) \<Rightarrow> grease_ret \<times> grease_client" where
  "use_sink rc =
     (if fst rc = 0 then (GREASE_OK, (snd rc)\<lparr>cl_grease_log := LOG_TO_SINK\<rparr>)
      else (GREASE_FAILED, (snd rc)\<lparr>cl_grease_log := LOG_NULL\<rparr>))"

definition grease_initLogger :: "sys \<Rightarrow> grease_client \<Rightarrow> (grease_ret \<times> grease_client) option" where
  "grease_initLogger y c =
     (let c0 = c\<lparr>cl_default_origin := sy_pid y OR 0x15000000\<rparr> in
      if cl_found_module c0 \<noteq> MODULE_SEARCH_NOT_RAN \<and> cl_found_module c0 \<noteq> 0 then Some (use_local c0)
      else
        let (found, c1) = (if cl_found_module c0 \<noteq> MODULE_SEARCH_NOT_RAN then (0, c0)
                           else check_grease_symbols (sy_objs y) c0)
        in if found \<noteq> 0 then Some (use_local c1)
           else map_option use_sink (setup_sink_dgram_socket y None False c1))"

definition grease_fastInitLogger_extended ::
  "sys \<Rightarrow> bytes option \<Rightarrow> grease_client \<Rightarrow> (grease_ret \<times> grease_client) option" where
  "grease_fastInitLogger_extended y path c =
     (let (found, c1) = check_grease_symbols (sy_objs y) c
      in if found \<noteq> 0 then Some (use_local c1)
         else map_option use_sink (setup_sink_dgram_socket y path True c1))"

definition grease_fastInitLogger :: "sys \<Rightarrow> grease_client \<Rightarrow> (grease_ret \<times> grease_client) option" where
  "grease_fastInitLogger y c = grease_fastInitLogger_extended y None c"

definition grease_getConnectivityMethod :: "grease_client \<Rightarrow> nat" where
  "grease_getConnectivityMethod c =
     (case cl_grease_log c of
        LOG_TO_SINK \<Rightarrow> 3
      | LOG_NULL \<Rightarrow> 0
      | LOG_LOCAL \<Rightarrow> if cl_local_log c then 1 else 999)"

definition client_shutdown :: "grease_client \<Rightarrow> grease_client" where
  "client_shutdown c = (if cl_grease_log c = LOG_TO_SINK then c\<lparr>cl_closed := True\<rparr> else c)"

section \<open>Printing\<close>

text \<open>
  \<open>grease_printf\<close>: \<open>txt\<close> is the whole formatted text, what \<open>vsnprintf\<close> would write without a bound.
  When the logger does not take the message, the buffer is printed to \<open>stderr\<close> as a format; a
  conversion in it reads arguments that are gone, which is \<open>None\<close>.
\<close>

datatype printed = Logged | To_stderr bytes

definition vsnprintf :: "bytes \<Rightarrow> bytes \<Rightarrow> bytes" where
  "vsnprintf buf txt =
     (let t = take (GREASE_C_MACRO_MAX_MESSAGE - 1) txt @ [0] in t @ drop (length t) buf)"

definition c_string :: "bytes \<Rightarrow> bytes" where "c_string buf = takeWhile (\<lambda>c. c \<noteq> 0) buf"

definition grease_logLocal :: "grease \<Rightarrow> logMeta \<Rightarrow> bytes \<Rightarrow> u32 \<Rightarrow> (grease_ret \<times> grease) option" where
  "grease_logLocal g f s len = log_call g f s (unat len)"

definition printf_len :: "bytes \<Rightarrow> u32" where
  "printf_len txt =
     (let len = of_nat (length txt) :: u32
      in if len > of_nat GREASE_C_MACRO_MAX_MESSAGE then of_nat GREASE_C_MACRO_MAX_MESSAGE else len)"

definition print_stderr :: "bytes \<Rightarrow> printed option" where
  "print_stderr buf = (if 0x25 \<in> set (c_string buf) then None else Some (To_stderr (c_string buf @ [0x0A])))"

definition grease_printf ::
  "bool \<Rightarrow> logMeta \<Rightarrow> bytes \<Rightarrow> grease_client \<times> grease \<Rightarrow>
   (printed \<times> bytes option \<times> grease_client \<times> grease) option" where
  "grease_printf sent m txt cg =
     (let (c, g) = cg;
          buf = vsnprintf (cl_logstr c) txt;
          c0 = c\<lparr>cl_logstr := buf\<rparr>;
          len = printf_len txt;
          give_up = (\<lambda>d c g. map_option (\<lambda>p. (p, d, c, g)) (print_stderr buf))
      in case cl_grease_log c0 of
           LOG_NULL \<Rightarrow> give_up None c0 g
         | LOG_TO_SINK \<Rightarrow>
             Option.bind (grease_logToSink sent c0 m buf len) (\<lambda>(r, d, c1).
               if r = GREASE_OK then Some (Logged, d, c1, g) else give_up d c1 g)
         | LOG_LOCAL \<Rightarrow>
             Option.bind (grease_logLocal g m buf len) (\<lambda>(r, g1).
               if r = GREASE_OK then Some (Logged, None, c0, g1) else give_up None c0 g1))"

section \<open>Reachable clients\<close>

definition set_up :: "grease_client \<Rightarrow> bool" where
  "set_up c \<longleftrightarrow> cl_iovlen c = SINK_BUFFERS_N \<and> cl_iov_lens c = (GREASE_CLIENT_HEADER_SIZE, sizeof_logMeta) \<and>
     take 4 (cl_header_buffer c) = le32 SINK_LOG_PREAMBLE"

definition client_inv :: "grease_client \<Rightarrow> bool" where
  "client_inv c \<longleftrightarrow> length (cl_header_buffer c) = GREASE_CLIENT_HEADER_SIZE \<and>
     length (cl_logstr c) = GREASE_C_MACRO_MAX_MESSAGE + 1 \<and>
     (cl_my_tid c \<noteq> 0 \<or> cl_grease_log c = LOG_TO_SINK \<longrightarrow> set_up c)"

text \<open>The calls of the client's interface; a thread id is not 0.\<close>

inductive cstep :: "grease_client \<Rightarrow> grease_client \<Rightarrow> bool" where
  c_init: "sy_tid y \<noteq> 0 \<Longrightarrow> grease_initLogger y c = Some (r, c') \<Longrightarrow> cstep c c'"
| c_fast: "sy_tid y \<noteq> 0 \<Longrightarrow> grease_fastInitLogger_extended y path c = Some (r, c') \<Longrightarrow> cstep c c'"
| c_log: "grease_logToSink sent c f s len = Some (r, d, c') \<Longrightarrow> cstep c c'"
| c_printf: "grease_printf sent m txt (c, g) = Some (p, d, c', g') \<Longrightarrow> cstep c c'"
| c_shutdown: "cstep c (client_shutdown c)"

lemma client_new_inv: "client_inv client_new"
  by (simp add: client_inv_def client_new_def)

lemma plhdr_inv: "client_inv c \<Longrightarrow> client_inv (grease_plhdr_callback ob c)"
  by (auto simp: grease_plhdr_callback_def client_inv_def set_up_def)

lemma symbols_inv: "client_inv c \<Longrightarrow> client_inv (snd (check_grease_symbols objs c))"
proof -
  have "client_inv c \<Longrightarrow> client_inv (fold grease_plhdr_callback objs c)" for c
    by (induction objs arbitrary: c) (auto intro: plhdr_inv)
  moreover assume "client_inv c"
  then have "client_inv (c\<lparr>cl_found_module := 0\<rparr>)" by (auto simp: client_inv_def set_up_def)
  ultimately show ?thesis by (simp add: check_grease_symbols_def Let_def)
qed

lemma header_write:
  assumes "length b = GREASE_CLIENT_HEADER_SIZE" "buf_write b 0 (le32 SINK_LOG_PREAMBLE) = Some b'"
  shows "length b' = GREASE_CLIENT_HEADER_SIZE" "take 4 b' = le32 SINK_LOG_PREAMBLE"
  using assms buf_write_length [OF assms(2)] take_buf_write [OF assms(2)] by simp_all

lemma sink_address_keeps:
  assumes "sink_address y path c = Some c'"
  shows "cl_header_buffer c' = cl_header_buffer c" "cl_logstr c' = cl_logstr c" "cl_my_tid c' = cl_my_tid c"
    "cl_grease_log c' = cl_grease_log c" "cl_iovlen c' = cl_iovlen c" "cl_iov_lens c' = cl_iov_lens c"
  using assms by (auto simp: sink_address_def split: if_splits)

lemma setup_inv:
  assumes "client_inv c" "sy_tid y \<noteq> 0" "setup_sink_dgram_socket y path no_ping c = Some (r, c')"
  shows "client_inv c' \<and> (r = 0 \<longrightarrow> set_up c')"
proof (cases "cl_my_tid c = sy_tid y")
  case True
  then show ?thesis using assms by (auto simp: setup_sink_dgram_socket_def client_inv_def set_up_def)
next
  case False
  then obtain c1 where c1: "sink_address y path (c\<lparr>cl_err_cnt := 0, cl_sink_fd := sy_socket y\<rparr>) = Some c1"
    using assms(3) by (auto simp: setup_sink_dgram_socket_def bind_eq_Some_conv Let_def)
  note k = sink_address_keeps [OF c1]
  show ?thesis
  proof (cases "sy_rcvbuf y < 100")
    case True
    then have "c' = c1\<lparr>cl_send_buf_size := sy_rcvbuf y\<rparr>" "r = 1"
      using assms(3) False c1 by (simp_all add: setup_sink_dgram_socket_def)
    then show ?thesis using assms(1) k by (simp add: client_inv_def set_up_def)
  next
    case big: False
    then obtain h where h: "buf_write (cl_header_buffer c1) 0 (le32 SINK_LOG_PREAMBLE) = Some h"
      using assms(3) False c1 by (auto simp: setup_sink_dgram_socket_def bind_eq_Some_conv Let_def)
    have l: "length (cl_header_buffer c1) = GREASE_CLIENT_HEADER_SIZE"
      using assms(1) k(1) by (simp add: client_inv_def)
    have "cl_iovlen c' = SINK_BUFFERS_N" "cl_header_buffer c' = h" "cl_logstr c' = cl_logstr c1"
        "cl_iov_lens c' = (GREASE_CLIENT_HEADER_SIZE, sizeof_logMeta)"
      using assms(3) False c1 big h by (auto simp: setup_sink_dgram_socket_def Let_def split: if_splits)
    then show ?thesis using header_write [OF l h] assms(1) k by (auto simp: client_inv_def set_up_def)
  qed
qed

lemma setup_answers_at:
  assumes "client_inv c" "100 \<le> sy_rcvbuf y" "no_ping \<or> sy_ping y"
    and path: "length (case path of Some p \<Rightarrow> p | None \<Rightarrow> GREASE_DEFAULT_SINK_PATH) < SUN_PATH_LEN"
  shows "\<exists>c'. setup_sink_dgram_socket y path no_ping c = Some (0, c')"
proof (cases "cl_my_tid c = sy_tid y")
  case False
  let ?p = "case path of Some p \<Rightarrow> p | None \<Rightarrow> GREASE_DEFAULT_SINK_PATH"
  have "buf_write (replicate SUN_PATH_LEN 0) 0 (?p @ [0]) \<noteq> None" using path by (simp add: buf_write_def)
  then obtain c1 where c1: "sink_address y path (c\<lparr>cl_err_cnt := 0, cl_sink_fd := sy_socket y\<rparr>) = Some c1"
    by (cases "sy_socket y < 0") (auto simp: sink_address_def)
  then have "buf_write (cl_header_buffer c1) 0 (le32 SINK_LOG_PREAMBLE) \<noteq> None"
    using assms(1) sink_address_keeps(1) [OF c1]
    by (simp add: client_inv_def buf_write_def GREASE_CLIENT_HEADER_SIZE_def)
  then show ?thesis using c1 assms(2,3) False by (auto simp: setup_sink_dgram_socket_def Let_def)
qed (simp add: setup_sink_dgram_socket_def)

lemma setup_answers:
  assumes "client_inv c" "100 \<le> sy_rcvbuf y" "no_ping \<or> sy_ping y"
  shows "\<exists>c'. setup_sink_dgram_socket y None no_ping c = Some (0, c')"
  using setup_answers_at [OF assms, of None] by (simp add: SUN_PATH_LEN_def GREASE_DEFAULT_SINK_PATH_def)

lemma use_local_inv: "use_local c = (r, c') \<Longrightarrow> client_inv c \<Longrightarrow> client_inv c'"
  by (auto simp: use_local_def client_inv_def set_up_def split: if_splits)

lemma use_sink_inv:
  assumes "client_inv c" "sy_tid y \<noteq> 0"
    "map_option use_sink (setup_sink_dgram_socket y path no_ping c) = Some (r, c')"
  shows "client_inv c'"
proof -
  obtain k c1 where k: "setup_sink_dgram_socket y path no_ping c = Some (k, c1)" "use_sink (k, c1) = (r, c')"
    using assms(3) by auto
  from setup_inv [OF assms(1,2) k(1)] k(2) show ?thesis
    by (auto simp: use_sink_def client_inv_def set_up_def split: if_splits)
qed

lemma logToSink_inv:
  assumes "client_inv c" "grease_logToSink sent c f s len = Some (r, d, c')"
  shows "client_inv c'"
proof -
  obtain h where h: "buf_write (cl_header_buffer c) 4 (le32 (len + of_nat sizeof_logMeta)) = Some h"
      "cl_header_buffer c' = h" "cl_logstr c' = cl_logstr c" "cl_my_tid c' = cl_my_tid c"
      "cl_iovlen c' = cl_iovlen c" "cl_iov_lens c' = cl_iov_lens c"
      "cl_grease_log c' = cl_grease_log c \<or> cl_grease_log c' = LOG_NULL"
    using assms(2) by (auto simp: grease_logToSink_def bind_eq_Some_conv Let_def split: if_splits)
  have "take 4 h = take 4 (cl_header_buffer c)" "length h = length (cl_header_buffer c)"
    using h(1) by (auto simp: buf_write_def split: if_splits)
  then show ?thesis using assms(1) h by (auto simp: client_inv_def set_up_def)
qed

lemma vsnprintf_length: "length buf = GREASE_C_MACRO_MAX_MESSAGE + 1 \<Longrightarrow> length (vsnprintf buf txt) = length buf"
  by (auto simp: vsnprintf_def GREASE_C_MACRO_MAX_MESSAGE_def)

lemma printf_inv:
  assumes "client_inv c" "grease_printf sent m txt (c, g) = Some (p, d, c', g')"
  shows "client_inv c'"
proof -
  let ?c0 = "c\<lparr>cl_logstr := vsnprintf (cl_logstr c) txt\<rparr>"
  have i: "client_inv ?c0" using assms(1) vsnprintf_length by (auto simp: client_inv_def set_up_def)
  have "c' = ?c0 \<or> (\<exists>r d. grease_logToSink sent ?c0 m (vsnprintf (cl_logstr c) txt) (printf_len txt) = Some (r, d, c'))"
    using assms(2)
    by (auto simp: grease_printf_def Let_def bind_eq_Some_conv split: log_fn.splits if_splits)
  then show ?thesis using i logToSink_inv by blast
qed

lemma cstep_inv: "cstep c c' \<Longrightarrow> client_inv c \<Longrightarrow> client_inv c'"
proof (induction rule: cstep.induct)
  case (c_init y c r c')
  let ?c0 = "c\<lparr>cl_default_origin := sy_pid y OR 0x15000000\<rparr>"
  have i: "client_inv ?c0" using c_init(3) by (auto simp: client_inv_def set_up_def)
  have "\<exists>x. client_inv x \<and> (use_local x = (r, c') \<or>
      map_option use_sink (setup_sink_dgram_socket y None False x) = Some (r, c'))"
    using c_init(2) i symbols_inv [OF i, of "sy_objs y"]
    by (auto simp: grease_initLogger_def Let_def case_prod_beta split: if_splits)
  then show ?case using use_local_inv use_sink_inv [OF _ c_init(1)] by blast
next
  case (c_fast y path c r c')
  have "\<exists>x. client_inv x \<and> (use_local x = (r, c') \<or>
      map_option use_sink (setup_sink_dgram_socket y path True x) = Some (r, c'))"
    using c_fast(2) symbols_inv [OF c_fast(3), of "sy_objs y"]
    by (auto simp: grease_fastInitLogger_extended_def Let_def case_prod_beta split: if_splits)
  then show ?case using use_local_inv use_sink_inv [OF _ c_fast(1)] by blast
next
  case (c_shutdown c)
  then show ?case by (auto simp: client_shutdown_def client_inv_def set_up_def)
qed (use logToSink_inv printf_inv in blast)+

lemma reachable_inv: "cstep\<^sup>*\<^sup>* client_new c \<Longrightarrow> client_inv c"
  by (induction rule: rtranclp_induct) (auto intro: client_new_inv cstep_inv)

text \<open>A client that finds no logger in its own process is connected to the socket it is told.\<close>

lemma fast_init_connects:
  assumes "client_inv c" "sy_objs y = []" "sy_tid y \<noteq> 0" "100 \<le> sy_rcvbuf y"
    and path: "length (case path of Some p \<Rightarrow> p | None \<Rightarrow> GREASE_DEFAULT_SINK_PATH) < SUN_PATH_LEN"
  shows "\<exists>c'. grease_fastInitLogger_extended y path c = Some (GREASE_OK, c') \<and> cl_grease_log c' = LOG_TO_SINK \<and>
    client_inv c'"
proof -
  have i: "client_inv (c\<lparr>cl_found_module := 0\<rparr>)" using assms(1) by (auto simp: client_inv_def set_up_def)
  obtain c1 where c1: "setup_sink_dgram_socket y path True (c\<lparr>cl_found_module := 0\<rparr>) = Some (0, c1)"
    using setup_answers_at [OF i assms(4) _ path] by blast
  then have "grease_fastInitLogger_extended y path c = Some (GREASE_OK, c1\<lparr>cl_grease_log := LOG_TO_SINK\<rparr>)"
    using assms(2) by (simp add: grease_fastInitLogger_extended_def check_grease_symbols_def use_sink_def)
  then show ?thesis using setup_inv [OF i assms(3) c1] by (auto simp: client_inv_def set_up_def)
qed

section \<open>What is sent\<close>

lemma logToSink_frame:
  assumes "client_inv c" "set_up c" "wf_meta f" "unat len \<le> length s"
  shows "\<exists>c'. grease_logToSink True c f s len = Some (GREASE_OK, Some (entry_frame f (take (unat len) s)), c') \<and>
    cl_grease_log c' = cl_grease_log c"
proof -
  have h: "length (cl_header_buffer c) = 8" "take 4 (cl_header_buffer c) = le32 SINK_LOG_PREAMBLE"
    using assms(1,2) by (simp_all add: client_inv_def set_up_def GREASE_CLIENT_HEADER_SIZE_def)
  let ?h = "le32 SINK_LOG_PREAMBLE @ le32 (len + of_nat sizeof_logMeta)"
  have w: "buf_write (cl_header_buffer c) 4 (le32 (len + of_nat sizeof_logMeta)) = Some ?h"
    using h by (simp add: buf_write_def)
  have "buf_read ?h 0 8 = Some ?h" "buf_read (meta_bytes f) 0 sizeof_logMeta = Some (meta_bytes f)"
      "buf_read s 0 (unat len) = Some (take (unat len) s)"
    using length_meta_bytes [OF assms(3)] assms(4) by (simp_all add: buf_read_def)
  moreover have "of_nat (unat len) = len" by simp
  then have "of_nat (sizeof_logMeta + length (take (unat len) s)) = len + of_nat sizeof_logMeta"
    using assms(4) by (simp only: length_take min_absorb2 of_nat_add add.commute)
  ultimately show ?thesis using w assms(2)
    by (simp add: grease_logToSink_def gather_def set_up_def GREASE_CLIENT_HEADER_SIZE_def entry_frame_def
        del: of_nat_add)
qed

text \<open>The text a call of \<open>grease_printf\<close> hands on: all of a short text; of a long one 249 characters
  and the NUL.\<close>

definition logged_text :: "bytes \<Rightarrow> bytes" where
  "logged_text txt =
     (if length txt < GREASE_C_MACRO_MAX_MESSAGE then txt
      else take (GREASE_C_MACRO_MAX_MESSAGE - 1) txt @ [0])"

lemma printf_len_unat:
  assumes "length txt < 2147483648"
  shows "unat (printf_len txt) = min (length txt) GREASE_C_MACRO_MAX_MESSAGE"
proof -
  have "unat (of_nat (length txt) :: u32) = length txt" using assms by (simp add: unat_of_nat)
  then show ?thesis by (auto simp: printf_len_def word_less_nat_alt GREASE_C_MACRO_MAX_MESSAGE_def)
qed

lemma logged_text_take:
  assumes "length buf = GREASE_C_MACRO_MAX_MESSAGE + 1" "length txt < 2147483648"
  shows "take (unat (printf_len txt)) (vsnprintf buf txt) = logged_text txt"
  by (auto simp: printf_len_unat [OF assms(2)] logged_text_def vsnprintf_def Let_def
      GREASE_C_MACRO_MAX_MESSAGE_def min_def)

lemma printf_sends:
  assumes "client_inv c" "cl_grease_log c = LOG_TO_SINK" "wf_meta m" "length txt < 2147483648"
  shows "\<exists>c'. grease_printf True m txt (c, g) = Some (Logged, Some (entry_frame m (logged_text txt)), c', g) \<and>
    cl_grease_log c' = LOG_TO_SINK \<and> client_inv c'"
proof -
  let ?buf = "vsnprintf (cl_logstr c) txt" let ?c0 = "c\<lparr>cl_logstr := ?buf\<rparr>"
  have lb: "length (cl_logstr c) = GREASE_C_MACRO_MAX_MESSAGE + 1" using assms(1) by (simp add: client_inv_def)
  have i: "client_inv ?c0" "set_up ?c0"
    using assms(1,2) vsnprintf_length [OF lb] by (auto simp: client_inv_def set_up_def)
  have "unat (printf_len txt) \<le> length ?buf"
    using vsnprintf_length [OF lb, of "txt"] lb printf_len_unat [OF assms(4)] by (simp add: min_def)
  from logToSink_frame [OF i assms(3) this] obtain c' where
    c': "grease_logToSink True ?c0 m ?buf (printf_len txt) =
        Some (GREASE_OK, Some (entry_frame m (logged_text txt)), c')" "cl_grease_log c' = LOG_TO_SINK"
    using logged_text_take [OF lb assms(4)] assms(2) by auto
  then have "grease_printf True m txt (c, g) = Some (Logged, Some (entry_frame m (logged_text txt)), c', g)"
    using assms(2) by (simp add: grease_printf_def Let_def)
  then show ?thesis using c'(2) printf_inv [OF assms(1)] by blast
qed

text \<open>C18: Frames. However a client came to use the sink, the datagram it sends for a \<open>printf\<close> is the
  frame of its metadata and text: the whole text below 250 characters, and the first 249 and a
  NUL of a longer one; the client goes on using the sink.\<close>

theorem client_sends_frame:
  assumes "cstep\<^sup>*\<^sup>* client_new c" "cl_grease_log c = LOG_TO_SINK" "wf_meta m" "length txt < 2147483648"
  shows "\<exists>c'. grease_printf True m txt (c, g) =
      Some (Logged, Some (entry_frame m (if length txt < GREASE_C_MACRO_MAX_MESSAGE then txt
              else take (GREASE_C_MACRO_MAX_MESSAGE - 1) txt @ [0])), c', g) \<and>
    cl_grease_log c' = LOG_TO_SINK"
  using printf_sends [OF reachable_inv [OF assms(1)] assms(2-4), of g] by (auto simp: logged_text_def)

definition ex_sys :: sys where
  "ex_sys = \<lparr>sy_tid = 77, sy_pid = 76, sy_socket = 4, sy_rcvbuf = 131072, sy_ping = True, sy_objs = []\<rparr>"

definition ex_client :: grease_client where
  "ex_client = snd (the (grease_initLogger ex_sys client_new))"

lemma ex_client_init: "grease_initLogger ex_sys client_new = Some (GREASE_OK, ex_client)"
proof -
  have "map_option fst (grease_initLogger ex_sys client_new) = Some GREASE_OK" by code_simp
  then show ?thesis by (auto simp: ex_client_def)
qed

lemma ex_client_reached: "cstep\<^sup>*\<^sup>* client_new ex_client" "cl_grease_log ex_client = LOG_TO_SINK"
proof -
  have "sy_tid ex_sys \<noteq> 0" by (simp add: ex_sys_def)
  from cstep.c_init [OF this ex_client_init] show "cstep\<^sup>*\<^sup>* client_new ex_client" by blast
  show "cl_grease_log ex_client = LOG_TO_SINK" by code_simp
qed

theorem client_sends_frame_witness:
  "\<exists>c'. grease_printf True meta_error [0x61, 0x62] (ex_client, ex_logger) =
     Some (Logged, Some (entry_frame meta_error [0x61, 0x62]), c', ex_logger)"
  using client_sends_frame [OF ex_client_reached, of meta_error "[0x61, 0x62]" ex_logger]
  by (auto simp: meta_error_def GREASE_C_MACRO_MAX_MESSAGE_def)

text \<open>The sink is given up after more than \<open>SINK_MAX_ERRORS\<close> failing sends.\<close>

fun send_failing :: "nat \<Rightarrow> grease_client \<Rightarrow> logMeta \<Rightarrow> bytes \<Rightarrow> u32 \<Rightarrow> grease_client option" where
  "send_failing 0 c f s len = Some c"
| "send_failing (Suc k) c f s len =
     Option.bind (grease_logToSink False c f s len) (\<lambda>(r, d, c'). send_failing k c' f s len)"

lemma logToSink_fails:
  assumes "client_inv c" "set_up c" "wf_meta f" "unat len \<le> length s"
  shows "\<exists>c'. grease_logToSink False c f s len = Some (GREASE_SINK_FAILURE, None, c') \<and> client_inv c' \<and> set_up c' \<and>
    cl_err_cnt c' = cl_err_cnt c + 1 \<and>
    cl_grease_log c' = (if cl_err_cnt c + 1 > SINK_MAX_ERRORS then LOG_NULL else cl_grease_log c)"
proof -
  obtain d c1 where "grease_logToSink True c f s len = Some (GREASE_OK, Some d, c1)"
    using logToSink_frame [OF assms] by auto
  then obtain h where h: "buf_write (cl_header_buffer c) 4 (le32 (len + of_nat sizeof_logMeta)) = Some h"
      "gather (c\<lparr>cl_header_buffer := h\<rparr>) f s len = Some d"
    by (auto simp: grease_logToSink_def bind_eq_Some_conv Let_def)
  have t: "take 4 h = take 4 (cl_header_buffer c)" using h(1) by (auto simp: buf_write_def split: if_splits)
  let ?c2 = "c\<lparr>cl_header_buffer := h, cl_err_cnt := cl_err_cnt c + 1\<rparr>"
  let ?c' = "if cl_err_cnt ?c2 > SINK_MAX_ERRORS then ?c2\<lparr>cl_grease_log := LOG_NULL\<rparr> else ?c2"
  have s: "grease_logToSink False c f s len = Some (GREASE_SINK_FAILURE, None, ?c')"
    using h by (simp add: grease_logToSink_def Let_def)
  moreover have "set_up ?c'" using assms(2) t by (simp add: set_up_def)
  ultimately show ?thesis using logToSink_inv [OF assms(1) s] by auto
qed

lemma send_failing_spec:
  assumes "client_inv c" "set_up c" "wf_meta f" "unat len \<le> length s"
  shows "\<exists>c'. send_failing k c f s len = Some c' \<and> cl_err_cnt c' = cl_err_cnt c + int k \<and>
    cl_grease_log c' = (if 0 < k \<and> cl_err_cnt c + int k > SINK_MAX_ERRORS then LOG_NULL else cl_grease_log c)"
  using assms(1,2)
proof (induction k arbitrary: c)
  case (Suc k)
  from logToSink_fails [OF Suc.prems assms(3,4)] obtain c1 where
    c1: "grease_logToSink False c f s len = Some (GREASE_SINK_FAILURE, None, c1)" "client_inv c1" "set_up c1"
      "cl_err_cnt c1 = cl_err_cnt c + 1"
      "cl_grease_log c1 = (if cl_err_cnt c + 1 > SINK_MAX_ERRORS then LOG_NULL else cl_grease_log c)" by blast
  from Suc.IH [OF c1(2,3)] show ?case using c1 by (auto simp: algebra_simps)
qed simp

text \<open>Giving up. A client that has just been connected keeps using the sink through
  \<open>SINK_MAX_ERRORS\<close> failing sends in a row, and drops it, to print to \<open>stderr\<close>, with the next one.\<close>

lemma sink_given_up:
  assumes "sy_tid y \<noteq> 0" "cstep\<^sup>*\<^sup>* client_new c0" "grease_initLogger y c0 = Some (GREASE_OK, c)"
    "cl_grease_log c = LOG_TO_SINK" "wf_meta f" "unat len \<le> length s"
  shows "\<exists>c'. send_failing k c f s len = Some c' \<and>
    grease_getConnectivityMethod c' = (if int k > SINK_MAX_ERRORS then 0 else 3)"
proof -
  have i: "client_inv c" using cstep_inv [OF cstep.c_init [OF assms(1,3)]] reachable_inv [OF assms(2)] by blast
  have "set_up c" using i assms(4) by (simp add: client_inv_def)
  moreover have "cl_err_cnt c = 0"
    using assms(3,4)
    by (auto simp: grease_initLogger_def use_local_def use_sink_def setup_sink_dgram_socket_def sink_address_def
        Let_def case_prod_beta bind_eq_Some_conv split: if_splits)
  ultimately show ?thesis
    using send_failing_spec [OF i _ assms(5,6), of k] assms(4)
    by (auto simp: grease_getConnectivityMethod_def SINK_MAX_ERRORS_def)
qed

lemma sink_given_up_example:
  "\<exists>c'. send_failing 11 ex_client meta_error [0x61] 1 = Some c' \<and> grease_getConnectivityMethod c' = 0"
  using sink_given_up [OF _ rtranclp.rtrancl_refl ex_client_init ex_client_reached(2), of meta_error 1 "[0x61]" 11]
  by (auto simp: ex_sys_def meta_error_def SINK_MAX_ERRORS_def)

text \<open>\<open>_grease_logToRaw\<close> writes the origin 648 bytes into the buffer: every buffer that its size check
  lets pass and that is shorter than that is overrun.\<close>

lemma logToRaw_overruns:
  assumes "unat buflen = length b" "sizeof_logMeta + unat len \<le> length b" "length b < 652" "wf_meta m"
  shows "grease_logToRaw origin (Some m) s len (Some b) buflen = None"
proof -
  have "grease_logToRaw origin (Some m) s len (Some b) buflen \<noteq> Some r" for r
  proof
    assume "grease_logToRaw origin (Some m) s len (Some b) buflen = Some r"
    then obtain b1 b2 b3 b4 where "buf_write b 0 (le32 SINK_LOG_PREAMBLE) = Some b1"
        "buf_write b1 4 (le32 (len + 8)) = Some b2" "buf_write b2 8 (meta_bytes m) = Some b3"
        "buf_write b3 (8 * sizeof_logMeta + 8) (le32 origin) = Some b4"
      using assms(1,2) by (auto simp: grease_logToRaw_def bind_eq_Some_conv split: if_splits)
    then have "length b3 = length b" "8 * sizeof_logMeta + 8 + 4 \<le> length b3"
      by (auto dest!: buf_write_length simp: buf_write_def split: if_splits)
    then show False using assms(3) by (simp add: sizeof_logMeta_def)
  qed
  then show ?thesis by (cases "grease_logToRaw origin (Some m) s len (Some b) buflen") auto
qed

lemma logToRaw_overruns_example:
  "grease_logToRaw 7 (Some meta_error) [0x61] 1 (Some (replicate 200 0)) 200 = None"
  by (rule logToRaw_overruns) (simp_all add: sizeof_logMeta_def meta_error_def)

end
