(* ===== verification/Syslog_Sink.thy ===== *)
theory Syslog_Sink
  imports Grease_Client
begin

text \<open>
  \<open>SyslogDgramSink\<close> of \<open>logger.h\<close>: it takes the place of the system log's socket. Each datagram is
  matched with a regular expression into priority, date and text; \<open>RE2::FullMatch\<close> is the parameter
  \<open>full_match\<close>, which gives the number of the priority and the text. What does not match is meant to
  be logged as it is.
\<close>

section \<open>Tags of the facilities\<close>

definition GREASE_TAG_SYSLOG :: TagId where "GREASE_TAG_SYSLOG = 3"
definition GREASE_RESERVED_TAGS_START :: TagId where "GREASE_RESERVED_TAGS_START = 0xF000"

definition GREASE_RESERVED_TAGS_SYS_AUTH :: TagId where "GREASE_RESERVED_TAGS_SYS_AUTH = GREASE_RESERVED_TAGS_START + 1"
definition GREASE_RESERVED_TAGS_SYS_AUTHPRIV :: TagId where "GREASE_RESERVED_TAGS_SYS_AUTHPRIV = GREASE_RESERVED_TAGS_START + 2"
definition GREASE_RESERVED_TAGS_SYS_CRON :: TagId where "GREASE_RESERVED_TAGS_SYS_CRON = GREASE_RESERVED_TAGS_START + 3"
definition GREASE_RESERVED_TAGS_SYS_DAEMON :: TagId where "GREASE_RESERVED_TAGS_SYS_DAEMON = GREASE_RESERVED_TAGS_START + 4"
definition GREASE_RESERVED_TAGS_SYS_FTP :: TagId where "GREASE_RESERVED_TAGS_SYS_FTP = GREASE_RESERVED_TAGS_START + 5"
definition GREASE_RESERVED_TAGS_SYS_KERN :: TagId where "GREASE_RESERVED_TAGS_SYS_KERN = GREASE_RESERVED_TAGS_START + 6"
definition GREASE_RESERVED_TAGS_SYS_LPR :: TagId where "GREASE_RESERVED_TAGS_SYS_LPR = GREASE_RESERVED_TAGS_START + 7"
definition GREASE_RESERVED_TAGS_SYS_MAIL :: TagId where "GREASE_RESERVED_TAGS_SYS_MAIL = GREASE_RESERVED_TAGS_START + 8"
definition GREASE_RESERVED_TAGS_SYS_MARK :: TagId where "GREASE_RESERVED_TAGS_SYS_MARK = GREASE_RESERVED_TAGS_START + 9"
definition GREASE_RESERVED_TAGS_SYS_NEWS :: TagId where "GREASE_RESERVED_TAGS_SYS_NEWS = GREASE_RESERVED_TAGS_START + 10"
definition GREASE_RESERVED_TAGS_SYS_SECURITY :: TagId where "GREASE_RESERVED_TAGS_SYS_SECURITY = GREASE_RESERVED_TAGS_START + 11"
definition GREASE_RESERVED_TAGS_SYS_SYSLOG :: TagId where "GREASE_RESERVED_TAGS_SYS_SYSLOG = GREASE_RESERVED_TAGS_START + 12"
definition GREASE_RESERVED_TAGS_SYS_USER :: TagId where "GREASE_RESERVED_TAGS_SYS_USER = GREASE_RESERVED_TAGS_START + 13"
definition GREASE_RESERVED_TAGS_SYS_UUCP :: TagId where "GREASE_RESERVED_TAGS_SYS_UUCP = GREASE_RESERVED_TAGS_START + 14"
definition GREASE_RESERVED_TAGS_SYS_LOCAL0 :: TagId where "GREASE_RESERVED_TAGS_SYS_LOCAL0 = GREASE_RESERVED_TAGS_START + 15"
definition GREASE_RESERVED_TAGS_SYS_LOCAL1 :: TagId where "GREASE_RESERVED_TAGS_SYS_LOCAL1 = GREASE_RESERVED_TAGS_START + 16"
definition GREASE_RESERVED_TAGS_SYS_LOCAL2 :: TagId where "GREASE_RESERVED_TAGS_SYS_LOCAL2 = GREASE_RESERVED_TAGS_START + 17"
definition GREASE_RESERVED_TAGS_SYS_LOCAL3 :: TagId where "GREASE_RESERVED_TAGS_SYS_LOCAL3 = GREASE_RESERVED_TAGS_START + 18"
definition GREASE_RESERVED_TAGS_SYS_LOCAL4 :: TagId where "GREASE_RESERVED_TAGS_SYS_LOCAL4 = GREASE_RESERVED_TAGS_START + 19"
definition GREASE_RESERVED_TAGS_SYS_LOCAL5 :: TagId where "GREASE_RESERVED_TAGS_SYS_LOCAL5 = GREASE_RESERVED_TAGS_START + 20"
definition GREASE_RESERVED_TAGS_SYS_LOCAL6 :: TagId where "GREASE_RESERVED_TAGS_SYS_LOCAL6 = GREASE_RESERVED_TAGS_START + 21"
definition GREASE_RESERVED_TAGS_SYS_LOCAL7 :: TagId where "GREASE_RESERVED_TAGS_SYS_LOCAL7 = GREASE_RESERVED_TAGS_START + 22"

definition GREASE_SYSLOGFAC_TO_TAG_MAP :: "TagId list" where
  "GREASE_SYSLOGFAC_TO_TAG_MAP =
     [GREASE_RESERVED_TAGS_SYS_AUTH, GREASE_RESERVED_TAGS_SYS_AUTHPRIV,
      GREASE_RESERVED_TAGS_SYS_CRON, GREASE_RESERVED_TAGS_SYS_DAEMON,
      GREASE_RESERVED_TAGS_SYS_FTP, GREASE_RESERVED_TAGS_SYS_KERN,
      GREASE_RESERVED_TAGS_SYS_LPR, GREASE_RESERVED_TAGS_SYS_MAIL,
      GREASE_RESERVED_TAGS_SYS_MARK, GREASE_RESERVED_TAGS_SYS_NEWS,
      GREASE_RESERVED_TAGS_SYS_SECURITY, GREASE_RESERVED_TAGS_SYS_SYSLOG,
      GREASE_RESERVED_TAGS_SYS_USER, GREASE_RESERVED_TAGS_SYS_UUCP,
      GREASE_RESERVED_TAGS_SYS_LOCAL0, GREASE_RESERVED_TAGS_SYS_LOCAL1,
      GREASE_RESERVED_TAGS_SYS_LOCAL2, GREASE_RESERVED_TAGS_SYS_LOCAL3,
      GREASE_RESERVED_TAGS_SYS_LOCAL4, GREASE_RESERVED_TAGS_SYS_LOCAL5,
      GREASE_RESERVED_TAGS_SYS_LOCAL6, GREASE_RESERVED_TAGS_SYS_LOCAL7]"

text \<open>\<^verbatim>\<open>sizeof(GREASE_SYSLOGFAC_TO_TAG_MAP)\<close> counts bytes.\<close>

definition sizeof_tag_map :: nat where
  "sizeof_tag_map = 4 * length GREASE_SYSLOGFAC_TO_TAG_MAP"

text \<open>The macros of \<open>syslog.h\<close>.\<close>

definition LOG_PRI :: "int \<Rightarrow> nat" where "LOG_PRI p = nat (p AND 7)"
definition LOG_FAC :: "int \<Rightarrow> nat" where "LOG_FAC p = nat (drop_bit 3 (p AND 0x3F8))"

section \<open>The sink\<close>

type_synonym syslogDgramSink = unixDgramSink

definition syslogDgramSink_new :: "bytes option \<Rightarrow> syslogDgramSink" where
  "syslogDgramSink_new p = unixDgramSink_new p"

definition syslogDgramSink_bind ::
  "int \<Rightarrow> (int \<times> int) option \<Rightarrow> bool \<Rightarrow> syslogDgramSink \<Rightarrow> (bool \<times> syslogDgramSink) option" where
  "syslogDgramSink_bind fd pip bound s = unixDgramSink_bind fd pip bound s"

definition syslogDgramSink_stop :: "syslogDgramSink \<Rightarrow> syslogDgramSink" where
  "syslogDgramSink_stop s = s\<lparr>ud_stop_thread := True\<rparr>"

text \<open>The metadata of a matched message; a read outside the table of tags is \<open>None\<close>.\<close>

definition syslog_meta :: "int \<Rightarrow> logMeta \<Rightarrow> logMeta option" where
  "syslog_meta fac_pri meta =
     (let pri = LOG_PRI fac_pri; fac = LOG_FAC fac_pri;
          m1 = meta\<lparr>m_level := (if pri < 8 then GREASE_SYSLOGPRI_TO_LEVEL_MAP ! pri else GREASE_LEVEL_LOG)\<rparr>
      in if fac < sizeof_tag_map
         then (if fac < length GREASE_SYSLOGFAC_TO_TAG_MAP
               then Some (m1\<lparr>m_tag := GREASE_SYSLOGFAC_TO_TAG_MAP ! fac\<rparr>) else None)
         else Some (m1\<lparr>m_tag := GREASE_TAG_SYSLOG\<rparr>))"

text \<open>What is done with one buffer: the metadata afterwards, and the logger. Without a NUL in the buffer
  the matcher reads beyond it.\<close>

definition syslog_one ::
  "(bytes \<Rightarrow> (int \<times> bytes) option) \<Rightarrow> bytes \<Rightarrow> logMeta \<Rightarrow> grease \<Rightarrow> (logMeta \<times> grease) option" where
  "syslog_one full_match buf meta g =
     (if 0 \<notin> set buf then None
      else case full_match (c_string buf) of
        Some (fac_pri, cap_msg) \<Rightarrow>
          Option.bind (syslog_meta fac_pri meta) (\<lambda>m.
            map_option (\<lambda>(r, f, g'). (LOG_META_RESET_CACHE (em_m f), g'))
              (logP g (fresh_extra m) (cap_msg @ [0]) (length cap_msg)))
      | None \<Rightarrow>
          map_option (\<lambda>(r, f, g'). (LOG_META_RESET_CACHE (em_m f), g'))
            (logP g (fresh_extra meta) buf (length buf)))"

text \<open>
  The loop over the buffers; each has the length of the receive buffer, which \<open>recvmsg\<close> does not
  change. Buffers of length 0 would keep the loop going forever, which is \<open>None\<close>.
\<close>

fun syslog_loop ::
  "(bytes \<Rightarrow> (int \<times> bytes) option) \<Rightarrow> bytes list \<Rightarrow> int \<Rightarrow> logMeta \<Rightarrow> grease \<Rightarrow> grease option" where
  "syslog_loop full_match [] left meta g = Some g"
| "syslog_loop full_match (buf # bufs) left meta g =
     (if left > 0 then
        (if length buf > 0 then
           Option.bind (syslog_one full_match buf meta g) (\<lambda>(m, g').
             syslog_loop full_match bufs (left - int (length buf)) m g')
         else None)
      else Some g)"

definition syslog_receive ::
  "(bytes \<Rightarrow> (int \<times> bytes) option) \<Rightarrow> nat \<Rightarrow> bytes \<Rightarrow> grease \<Rightarrow> grease option" where
  "syslog_receive full_match rcv data g =
     syslog_loop full_match (scatter nbuffers rcv data) (int (min (length data) (nbuffers * rcv)))
       (DECL_LOG_META GREASE_TAG_SYSLOG GREASE_LEVEL_LOG 0) g"

section \<open>What is logged\<close>

lemma scatter_Cons: "scatter nbuffers rcv data = (take rcv data @ replicate (rcv - length data) 0) # scatter 9 rcv (drop rcv data)"
  by (simp add: nbuffers_def numeral_eq_Suc)

lemma syslog_first:
  assumes "data \<noteq> []" "length data < rcv" "0 \<notin> set data"
  shows "syslog_receive full_match rcv data g =
    map_option snd (syslog_one full_match (data @ replicate (rcv - length data) 0)
      (DECL_LOG_META GREASE_TAG_SYSLOG GREASE_LEVEL_LOG 0) g)"
    "c_string (data @ replicate (rcv - length data) 0) = data" "0 \<in> set (data @ replicate (rcv - length data) 0)"
proof -
  have "min (length data) (nbuffers * rcv) = length data" using assms(2) by (simp add: nbuffers_def)
  moreover have "syslog_loop full_match bufs (int (length data) - int rcv) m g' = Some g'" for bufs m g'
    using assms(2) by (cases bufs) auto
  ultimately show "syslog_receive full_match rcv data g =
      map_option snd (syslog_one full_match (data @ replicate (rcv - length data) 0)
        (DECL_LOG_META GREASE_TAG_SYSLOG GREASE_LEVEL_LOG 0) g)"
    using assms(1,2)
    by (cases "syslog_one full_match (data @ replicate (rcv - length data) 0)
          (DECL_LOG_META GREASE_TAG_SYSLOG GREASE_LEVEL_LOG 0) g")
      (auto simp: syslog_receive_def scatter_Cons)
  obtain k where "rcv - length data = Suc k" using assms(2) by (metis Suc_diff_Suc)
  then show "c_string (data @ replicate (rcv - length data) 0) = data"
    using assms(3) by (auto simp: c_string_def takeWhile_append takeWhile_eq_all_conv)
  show "0 \<in> set (data @ replicate (rcv - length data) 0)" using assms(2) by simp
qed

lemma LOG_PRI_bound: "LOG_PRI p < 8"
proof -
  have "p AND 7 \<le> 7" by (rule AND_upper2) simp
  then show ?thesis by (simp add: LOG_PRI_def nat_less_iff)
qed

text \<open>
  The facilities of \<open>syslog.h\<close> that have a tag of their own, with that tag. The labels of these tags are said to
  pair with \<open>syslog.h\<close>, but the table is in alphabetical order: of all facilities only daemon (3) and
  lpr (6) stand at their own number.
\<close>

definition syslog_h_facilities :: "(nat \<times> TagId) list" where
  "syslog_h_facilities =
     [(0, GREASE_RESERVED_TAGS_SYS_KERN), (1, GREASE_RESERVED_TAGS_SYS_USER), (2, GREASE_RESERVED_TAGS_SYS_MAIL),
      (3, GREASE_RESERVED_TAGS_SYS_DAEMON), (4, GREASE_RESERVED_TAGS_SYS_AUTH), (5, GREASE_RESERVED_TAGS_SYS_SYSLOG),
      (6, GREASE_RESERVED_TAGS_SYS_LPR), (7, GREASE_RESERVED_TAGS_SYS_NEWS), (8, GREASE_RESERVED_TAGS_SYS_UUCP),
      (9, GREASE_RESERVED_TAGS_SYS_CRON), (10, GREASE_RESERVED_TAGS_SYS_AUTHPRIV), (11, GREASE_RESERVED_TAGS_SYS_FTP),
      (16, GREASE_RESERVED_TAGS_SYS_LOCAL0), (17, GREASE_RESERVED_TAGS_SYS_LOCAL1), (18, GREASE_RESERVED_TAGS_SYS_LOCAL2),
      (19, GREASE_RESERVED_TAGS_SYS_LOCAL3), (20, GREASE_RESERVED_TAGS_SYS_LOCAL4), (21, GREASE_RESERVED_TAGS_SYS_LOCAL5),
      (22, GREASE_RESERVED_TAGS_SYS_LOCAL6), (23, GREASE_RESERVED_TAGS_SYS_LOCAL7)]"

lemma facility_tags_differ:
  "filter (\<lambda>(f, tag). f < length GREASE_SYSLOGFAC_TO_TAG_MAP \<and> GREASE_SYSLOGFAC_TO_TAG_MAP ! f = tag) syslog_h_facilities =
     [(3, GREASE_RESERVED_TAGS_SYS_DAEMON), (6, GREASE_RESERVED_TAGS_SYS_LPR)]"
  by code_simp

text \<open>C33: Syslog. A message that fits the receive buffer and matches, and whose facility is an index of the
  table, is logged with the level of its priority, the tag that stands at the facility's index in the table
  \<open>GREASE_SYSLOGFAC_TO_TAG_MAP\<close>, and the captured text. The tag is the table's and in general not the one of the
  facility's name: the table is not ordered as \<open>syslog.h\<close> numbers the facilities, although its tags are said to
  pair with them (lemma \<open>facility_tags_differ\<close>), so that facility 4, auth, gets the tag for ftp.\<close>

theorem syslog_logged:
  assumes "data \<noteq> []" "length data < rcv" "0 \<notin> set data" "full_match data = Some (p, msg)"
    "LOG_FAC p < length GREASE_SYSLOGFAC_TO_TAG_MAP"
  shows "syslog_receive full_match rcv data g =
    map_option (\<lambda>(r, f, g'). g')
      (logP g (fresh_extra (DECL_LOG_META (GREASE_SYSLOGFAC_TO_TAG_MAP ! LOG_FAC p)
                (GREASE_SYSLOGPRI_TO_LEVEL_MAP ! LOG_PRI p) 0)) msg (length msg))"
proof -
  have "syslog_meta p (DECL_LOG_META GREASE_TAG_SYSLOG GREASE_LEVEL_LOG 0) =
      Some (DECL_LOG_META (GREASE_SYSLOGFAC_TO_TAG_MAP ! LOG_FAC p) (GREASE_SYSLOGPRI_TO_LEVEL_MAP ! LOG_PRI p) 0)"
    using assms(5) LOG_PRI_bound [of p] by (simp add: syslog_meta_def sizeof_tag_map_def DECL_LOG_META_def Let_def)
  then have "syslog_one full_match (data @ replicate (rcv - length data) 0)
      (DECL_LOG_META GREASE_TAG_SYSLOG GREASE_LEVEL_LOG 0) g =
    map_option (\<lambda>(r, f, g'). (LOG_META_RESET_CACHE (em_m f), g'))
      (logP g (fresh_extra (DECL_LOG_META (GREASE_SYSLOGFAC_TO_TAG_MAP ! LOG_FAC p)
                (GREASE_SYSLOGPRI_TO_LEVEL_MAP ! LOG_PRI p) 0)) msg (length msg))"
    using syslog_first(2,3) [OF assms(1-3)] assms(4) by (simp only: syslog_one_def logP_prefix if_False not_not simp_thms
        option.case prod.case bind.bind_lunit refl if_True)
  then show ?thesis
    using syslog_first(1) [OF assms(1-3), of full_match g]
    by (simp add: option.map_comp comp_def case_prod_unfold)
qed

definition ex_match :: "bytes \<Rightarrow> (int \<times> bytes) option" where
  "ex_match s = (if take 4 s = [0x3C, 0x33, 0x34, 0x3E] then Some (34, drop 4 s) else None)"

theorem syslog_logged_witness:
  "syslog_receive ex_match 131072 [0x3C, 0x33, 0x34, 0x3E, 0x61, 0x62] ex_logger =
     map_option (\<lambda>(r, f, g'). g')
       (logP ex_logger (fresh_extra (DECL_LOG_META GREASE_RESERVED_TAGS_SYS_FTP GREASE_LEVEL_ERROR 0)) [0x61, 0x62] 2)"
proof -
  have "LOG_FAC 34 = 4" "LOG_PRI 34 = 2" by (simp_all add: LOG_FAC_def LOG_PRI_def)
  then show ?thesis
    using syslog_logged [of "[0x3C, 0x33, 0x34, 0x3E, 0x61, 0x62]" 131072 ex_match 34 "[0x61, 0x62]" ex_logger]
    by (simp add: ex_match_def GREASE_SYSLOGFAC_TO_TAG_MAP_def GREASE_SYSLOGPRI_TO_LEVEL_MAP_def flip: numeral_2_eq_2)
qed

text \<open>A facility behind the table, but below its size in bytes, is read from behind the table; the two last
  facilities of \<open>syslog.h\<close>, local6 and local7, are among them.\<close>

lemma syslog_facility_overrun:
  assumes "data \<noteq> []" "length data < rcv" "0 \<notin> set data" "full_match data = Some (p, msg)"
    "length GREASE_SYSLOGFAC_TO_TAG_MAP \<le> LOG_FAC p" "LOG_FAC p < sizeof_tag_map"
  shows "syslog_receive full_match rcv data g = None"
  using syslog_first(1) [OF assms(1-3), of full_match g] syslog_first(2,3) [OF assms(1-3)] assms(4-6)
  by (simp add: syslog_one_def syslog_meta_def Let_def)

text \<open>A syslog message that does not match is lost: it is logged with the length of the receive
  buffer, and with a receive buffer of more than \<open>GREASE_MAX_MESSAGE_SIZE\<close> bytes \<open>logP\<close> refuses it.\<close>

lemma syslog_unmatched_lost:
  assumes "data \<noteq> []" "length data < rcv" "0 \<notin> set data" "full_match data = None" "GREASE_MAX_MESSAGE_SIZE < rcv"
  shows "syslog_receive full_match rcv data g = Some g"
  using syslog_first(1) [OF assms(1-3), of full_match g] syslog_first(2,3) [OF assms(1-3)] assms(2,4,5)
  by (simp add: syslog_one_def logP_def)

lemma syslog_unmatched_lost_example:
  "syslog_receive ex_match 131072 [0x61, 0x62] ex_logger = Some ex_logger"
  by (rule syslog_unmatched_lost) (simp_all add: ex_match_def GREASE_MAX_MESSAGE_SIZE_def)

end
