(* ===== verification/File_Rotation.thy ===== *)
theory File_Rotation
  imports Dispatch
begin

text \<open>
  Rotation of the log files of a \<open>fileTarget\<close> (\<open>logger.h\<close>): the options, the names of rotated files,
  the scan for existing ones, the rotation itself and the decision to rotate when a write is
  complete. The file system is a map from paths to contents; the synchronous calls of libuv are
  its updates. A call that never returns (\<open>addMv\<close> on a full queue that only this thread empties)
  and libuv's failing assertion are the two values of \<open>rot_fail\<close>.
\<close>

section \<open>Options and files\<close>

record rotationOpts =
  ro_enabled :: bool
  ro_rotate_on_start :: bool
  ro_rotate_past :: u32
  ro_max_files :: u32
  ro_max_total_size :: u64
  ro_max_file_size :: u32

definition rotationOpts_new :: rotationOpts where
  "rotationOpts_new =
     \<lparr>ro_enabled = False, ro_rotate_on_start = False, ro_rotate_past = 0, ro_max_files = 0,
      ro_max_total_size = 0, ro_max_file_size = 0\<rparr>"

text \<open>The assignment always enables rotation; the copy constructor copies the flag.\<close>

definition rotationOpts_assign :: "rotationOpts \<Rightarrow> rotationOpts" where
  "rotationOpts_assign src = src\<lparr>ro_enabled := True\<rparr>"

record rotatedFile =
  rf_path :: "bytes option"
  rf_size :: u32
  rf_num :: nat

definition MAX_ROTATED_FILES :: nat where "MAX_ROTATED_FILES = 10"

text \<open>\<open>strRotateName\<close>; below \<open>MAX_ROTATED_FILES\<close> the number has one digit.\<close>

definition strRotateName :: "bytes \<Rightarrow> nat \<Rightarrow> bytes option" where
  "strRotateName s n =
     (if n < MAX_ROTATED_FILES \<and> n > 0 then Some (s @ [0x2E, of_nat (48 + n)]) else None)"

definition rotatedFile_new :: "bytes \<Rightarrow> nat \<Rightarrow> rotatedFile" where
  "rotatedFile_new s n = \<lparr>rf_path = strRotateName s n, rf_size = 0, rf_num = n\<rparr>"

definition rotatedFile_empty :: rotatedFile where
  "rotatedFile_empty = \<lparr>rf_path = None, rf_size = 0, rf_num = 0\<rparr>"

type_synonym file_system = "bytes \<rightharpoonup> bytes"

definition fs_rename :: "file_system \<Rightarrow> bytes option \<Rightarrow> bytes option \<Rightarrow> bool \<times> file_system" where
  "fs_rename fs old new =
     (case (old, new) of
        (Some p, Some q) \<Rightarrow>
          (case fs p of
             None \<Rightarrow> (False, fs)
           | Some c \<Rightarrow> (True, (fs(p := None))(q \<mapsto> c)))
      | _ \<Rightarrow> (False, fs))"

record fileTarget =
  ft_submittedWrites :: int
  ft_filerotation :: rotationOpts
  ft_current_size :: u32
  ft_all_files_size :: u64
  ft_myPath :: bytes
  ft_open :: bool                  \<comment> \<open>\<open>fileHandle\<close> is the file at \<open>myPath\<close>\<close>
  ft_rotatedFiles :: "rotatedFile circ"

definition rotated_new :: "rotatedFile circ" where
  "rotated_new = circ_new rotatedFile_empty (int MAX_ROTATED_FILES) True"

definition fileTarget_new :: "bytes \<Rightarrow> rotationOpts \<Rightarrow> fileTarget" where
  "fileTarget_new path opts =
     \<lparr>ft_submittedWrites = 0, ft_filerotation = opts, ft_current_size = 0, ft_all_files_size = 0,
      ft_myPath = path, ft_open = False, ft_rotatedFiles = rotated_new\<rparr>"

section \<open>Rotation\<close>

datatype rot_fail = Blocked | Aborted

definition rotate_one ::
  "fileTarget \<Rightarrow> int \<Rightarrow> rotatedFile \<Rightarrow> rotatedFile circ \<times> file_system \<Rightarrow>
   rot_fail + rotatedFile circ \<times> file_system" where
  "rotate_one ft n f st =
     (let (tempFiles, fs) = st; max_files = ro_max_files (ft_filerotation ft) in
      if max_files \<noteq> 0 \<and> n + 1 > uint max_files then
        (case rf_path f of
           None \<Rightarrow> Inl Aborted
         | Some p \<Rightarrow> Inr (tempFiles, fs(p := None)))
      else
        (let new_f = rotatedFile_new (ft_myPath ft) (rf_num f + 1);
             (ok, fs1) = fs_rename fs (rf_path f) (rf_path new_f)
         in case circ_add tempFiles new_f of
              None \<Rightarrow> Inl Blocked
            | Some t \<Rightarrow> Inr (t, fs1)))"

text \<open>The loop over \<open>rotatedFiles\<close>, which nobody adds to meanwhile: \<open>k\<close> is the number of entries.\<close>

fun rotate_loop ::
  "nat \<Rightarrow> fileTarget \<Rightarrow> int \<Rightarrow> rotatedFile circ \<Rightarrow> rotatedFile circ \<times> file_system \<Rightarrow>
   rot_fail + rotatedFile circ \<times> file_system" where
  "rotate_loop 0 ft n q st = Inr st"
| "rotate_loop (Suc k) ft n q st =
     (case circ_remove q of
        None \<Rightarrow> Inr st
      | Some (f, q') \<Rightarrow>
          (case rotate_one ft n f st of
             Inl e \<Rightarrow> Inl e
           | Inr st' \<Rightarrow> rotate_loop k ft (n - 1) q' st'))"

definition rotate_files :: "fileTarget \<Rightarrow> file_system \<Rightarrow> rot_fail + fileTarget \<times> file_system" where
  "rotate_files ft fs =
     (let n = circ_remain (ft_rotatedFiles ft) in
      case rotate_loop (nat n) ft n (ft_rotatedFiles ft) (rotated_new, fs) of
        Inl e \<Rightarrow> Inl e
      | Inr (tempFiles, fs1) \<Rightarrow>
          (let new_f = rotatedFile_new (ft_myPath ft) 1;
               (ok, fs2) = fs_rename fs1 (Some (ft_myPath ft)) (rf_path new_f)
           in case (if ok then circ_add tempFiles new_f else Some tempFiles) of
                None \<Rightarrow> Inl Blocked
              | Some t \<Rightarrow>
                  Inr (ft\<lparr>ft_rotatedFiles := fst (circ_transferFrom [] (ft_rotatedFiles ft) t),
                          ft_current_size := 0\<rparr>, fs2)))"

text \<open>\<open>check_files\<close>: the scan for \<^verbatim>\<open>path.1\<close>, \<^verbatim>\<open>path.2\<close>, \ldots, at most \<open>k\<close> of them.\<close>

fun find_rotated ::
  "nat \<Rightarrow> nat \<Rightarrow> fileTarget \<Rightarrow> file_system \<Rightarrow> rot_fail + fileTarget" where
  "find_rotated 0 n ft fs = Inr ft"
| "find_rotated (Suc k) n ft fs =
     (let f = rotatedFile_new (ft_myPath ft) n in
      case rf_path f of
        None \<Rightarrow> Inr ft
      | Some p \<Rightarrow>
          (case fs p of
             None \<Rightarrow> Inr ft
           | Some c \<Rightarrow>
               (case circ_add (ft_rotatedFiles ft) (f\<lparr>rf_size := of_nat (length c)\<rparr>) of
                  None \<Rightarrow> Inl Blocked
                | Some q \<Rightarrow>
                    find_rotated k (n + 1)
                      (ft\<lparr>ft_rotatedFiles := q, ft_all_files_size := ft_all_files_size ft + of_nat (length c)\<rparr>) fs)))"

definition check_files :: "fileTarget \<Rightarrow> file_system \<Rightarrow> rot_fail + bool \<times> fileTarget" where
  "check_files ft fs =
     (let opts = ft_filerotation ft;
          ft0 = ft\<lparr>ft_all_files_size := 0, ft_rotatedFiles := circ_clear rotatedFile_empty (ft_rotatedFiles ft)\<rparr>;
          (needs, ft1) = (case fs (ft_myPath ft) of
             None \<Rightarrow> (False, ft0)
           | Some c \<Rightarrow> (ro_max_file_size opts \<noteq> 0 \<and> unat (ro_max_file_size opts) < length c,
                        ft0\<lparr>ft_all_files_size := of_nat (length c), ft_current_size := of_nat (length c)\<rparr>))
      in case find_rotated MAX_ROTATED_FILES 1 ft1 fs of
           Inl e \<Rightarrow> Inl e
         | Inr ft2 \<Rightarrow>
             (let ft3 = ft2\<lparr>ft_rotatedFiles := circ_reverse (ft_rotatedFiles ft2)\<rparr>
              in Inr (needs \<or> ft_all_files_size ft3 > ro_max_total_size opts, ft3)))"

text \<open>Opening \<open>myPath\<close>, for appending; \<open>opens\<close> is whether it succeeds.\<close>

definition fs_open :: "bool \<Rightarrow> fileTarget \<Rightarrow> file_system \<Rightarrow> fileTarget \<times> file_system" where
  "fs_open opens ft fs =
     (if opens then (ft\<lparr>ft_open := True\<rparr>,
        fs(ft_myPath ft \<mapsto> (case fs (ft_myPath ft) of Some c \<Rightarrow> c | None \<Rightarrow> [])))
      else (ft, fs))"

text \<open>
  The second half of the constructor; the value also tells what \<open>readyCB\<close> is called with, here or in
  \<open>on_open\<close>. A path the system can open is shorter than \<open>MAX_STRDUP\<close>, so \<open>myPath\<close> is \<open>path\<close>.
\<close>

definition post_cstor ::
  "bool \<Rightarrow> bytes option \<Rightarrow> fileTarget \<Rightarrow> file_system \<Rightarrow> rot_fail + bool \<times> fileTarget \<times> file_system" where
  "post_cstor opens path ft fs =
     (case local_strdup_safe path of
        None \<Rightarrow> Inr (False, ft, fs)
      | Some p \<Rightarrow>
          (let ft0 = ft\<lparr>ft_myPath := p\<rparr> in
           case (if ro_enabled (ft_filerotation ft0) then check_files ft0 fs else Inr (False, ft0)) of
             Inl e \<Rightarrow> Inl e
           | Inr (needs, ft1) \<Rightarrow>
               (case (if ro_enabled (ft_filerotation ft1) \<and> (needs \<or> ro_rotate_on_start (ft_filerotation ft1))
                      then rotate_files ft1 fs else Inr (ft1, fs)) of
                  Inl e \<Rightarrow> Inl e
                | Inr (ft2, fs2) \<Rightarrow> Inr (opens, fs_open opens ft2 fs2))))"

definition check_and_maybe_rotate ::
  "bool \<Rightarrow> u32 option \<Rightarrow> fileTarget \<Rightarrow> file_system \<Rightarrow> rot_fail + fileTarget \<times> file_system" where
  "check_and_maybe_rotate opens sz ft fs =
     (let ft1 = ft\<lparr>ft_submittedWrites := ft_submittedWrites ft - 1,
                   ft_current_size := ft_current_size ft + (case sz of Some k \<Rightarrow> k | None \<Rightarrow> 0)\<rparr>
      in if ft_submittedWrites ft1 < 1 \<and> ro_enabled (ft_filerotation ft1)
             \<and> ft_current_size ft1 > ro_max_file_size (ft_filerotation ft1)
         then (case rotate_files (ft1\<lparr>ft_open := False\<rparr>) fs of
                 Inl e \<Rightarrow> Inl e
               | Inr (ft2, fs2) \<Rightarrow> Inr (fs_open opens ft2 fs2))
         else Inr (ft1, fs))"

text \<open>The writes: \<open>b\<close> are the bytes; what the file gets is appended when the handle is open.\<close>

definition fs_append :: "fileTarget \<Rightarrow> bytes \<Rightarrow> file_system \<Rightarrow> file_system" where
  "fs_append ft b fs =
     (case fs (ft_myPath ft) of
        Some c \<Rightarrow> if ft_open ft then fs(ft_myPath ft \<mapsto> c @ b) else fs
      | None \<Rightarrow> fs)"

definition file_flush :: "bytes \<Rightarrow> fileTarget \<Rightarrow> file_system \<Rightarrow> fileTarget \<times> file_system" where
  "file_flush b ft fs =
     (ft\<lparr>ft_current_size := ft_current_size ft + of_nat (length b),
         ft_submittedWrites := ft_submittedWrites ft + 1\<rparr>, fs_append ft b fs)"

definition file_write_cb :: "bool \<Rightarrow> fileTarget \<Rightarrow> file_system \<Rightarrow> rot_fail + fileTarget \<times> file_system" where
  "file_write_cb opens ft fs = check_and_maybe_rotate opens None ft fs"

definition file_flushSync ::
  "bool \<Rightarrow> bytes \<Rightarrow> fileTarget \<Rightarrow> file_system \<Rightarrow> rot_fail + fileTarget \<times> file_system" where
  "file_flushSync opens b ft fs = check_and_maybe_rotate opens None ft (fs_append ft b fs)"

text \<open>\<open>writeAsyncOverflow\<close>; \<open>got\<close> is the result of \<open>writev\<close>.\<close>

definition file_writeAsyncOverflow ::
  "bool \<Rightarrow> int \<Rightarrow> bytes \<Rightarrow> fileTarget \<Rightarrow> file_system \<Rightarrow> rot_fail + fileTarget \<times> file_system" where
  "file_writeAsyncOverflow opens got b ft fs =
     (let ft1 = ft\<lparr>ft_submittedWrites := ft_submittedWrites ft + 1\<rparr> in
      if got < 0 then Inr (ft1\<lparr>ft_submittedWrites := ft_submittedWrites ft1 - 1\<rparr>, fs)
      else check_and_maybe_rotate opens (Some (word_of_int got)) ft1 (fs_append ft1 (take (nat got) b) fs))"

definition file_writeSync :: "bytes \<Rightarrow> fileTarget \<Rightarrow> file_system \<Rightarrow> fileTarget \<times> file_system" where
  "file_writeSync b ft fs =
     (ft\<lparr>ft_current_size := ft_current_size ft + of_nat (length b)\<rparr>, fs_append ft b fs)"

section \<open>Names and entries\<close>

definition file_name :: "bytes \<Rightarrow> nat \<Rightarrow> bytes" where
  "file_name s i = (if i = 0 then s else s @ [0x2E, of_nat (48 + i)])"

lemma strRotateName_name: "0 < i \<Longrightarrow> i < 10 \<Longrightarrow> strRotateName s i = Some (file_name s i)"
  by (simp add: strRotateName_def file_name_def MAX_ROTATED_FILES_def)

lemma file_name_inj:
  assumes "i < 10" "j < 10"
  shows "file_name s i = file_name s j \<longleftrightarrow> i = j"
proof -
  have "unat (of_nat (48 + i) :: u8) = 48 + i" "unat (of_nat (48 + j) :: u8) = 48 + j"
    using assms by (simp_all add: unat_of_nat del: of_nat_add)
  then have "of_nat (48 + i) = (of_nat (48 + j) :: u8) \<Longrightarrow> i = j" by (metis add_left_cancel)
  then show ?thesis by (auto simp: file_name_def simp del: of_nat_add)
qed

text \<open>The queue holds the entries for the files \<open>k\<close>, \ldots, 1, in this order.\<close>

definition entries :: "bytes \<Rightarrow> nat list \<Rightarrow> rotatedFile circ \<Rightarrow> bool" where
  "entries s is q \<longleftrightarrow> circ_inv q \<and> csize q = int MAX_ROTATED_FILES \<and> isObjects q \<and>
     map (\<lambda>f. (rf_path f, rf_num f)) (circ_list q) = map (\<lambda>i. (strRotateName s i, i)) is"

lemma isObjects_add: "circ_add q x = Some q' \<Longrightarrow> isObjects q' = isObjects q"
  by (drule circ_add_Some) (simp add: circ_store_def Let_def)

lemma isObjects_remove: "circ_remove q = Some (x, q') \<Longrightarrow> isObjects q' = isObjects q"
  by (auto simp: circ_remove_def Let_def split: if_splits)

lemma entries_new: "entries s [] rotated_new"
  by (simp add: entries_def rotated_new_def circ_new_abs) (simp add: circ_new_def)

lemma entries_length: "entries s is q \<Longrightarrow> length (circ_list q) = length is"
  by (auto simp: entries_def dest: map_eq_imp_length_eq)

lemma entries_paths:
  assumes "entries s is q"
  shows "map rf_path (circ_list q) = map (strRotateName s) is"
proof -
  have "map fst (map (\<lambda>f. (rf_path f, rf_num f)) (circ_list q)) = map fst (map (\<lambda>i. (strRotateName s i, i)) is)"
    using assms by (simp only: entries_def)
  then show ?thesis by (simp add: comp_def)
qed

lemma entries_remain:
  assumes "entries s is q"
  shows "circ_remain q = int (length is)"
proof -
  have "0 \<le> circ_remain q" using circ_inv_remain [of q] assms by (simp add: entries_def)
  then show ?thesis using entries_length [OF assms] length_circ_list [of q] by simp
qed

lemma entries_add:
  assumes "entries s is q" "length is < MAX_ROTATED_FILES" "rf_path f = strRotateName s i" "rf_num f = i"
  shows "\<exists>q'. circ_add q f = Some q' \<and> entries s (is @ [i]) q'"
proof -
  have c: "circ_inv q" using assms(1) by (simp add: entries_def)
  obtain q' where q': "circ_add q f = Some q'"
    using circ_add_None_iff [OF c, of f] entries_length [OF assms(1)] assms(1,2) by (fastforce simp: entries_def)
  show ?thesis
    using q' circ_add_abs [OF c q'] isObjects_add [OF q'] assms by (simp add: entries_def)
qed

lemma entries_full:
  assumes "entries s is q" "length is = MAX_ROTATED_FILES"
  shows "circ_add q f = None"
  using circ_add_None_iff [of q f] entries_length [OF assms(1)] assms by (simp add: entries_def)

lemma entries_remove:
  assumes "entries s (i # is) q"
  shows "\<exists>f q'. circ_remove q = Some (f, q') \<and> entries s is q' \<and> rf_path f = strRotateName s i \<and> rf_num f = i"
proof -
  have c: "circ_inv q" using assms by (simp add: entries_def)
  obtain f q' where q': "circ_remove q = Some (f, q')"
    using circ_remove_None_iff [OF c] entries_length [OF assms] by fastforce
  show ?thesis
    using q' circ_remove_abs [OF c q'] isObjects_remove [OF q'] assms by (auto simp: entries_def)
qed

lemma entries_transfer:
  assumes "entries s is t"
  shows "entries s is (fst (circ_transferFrom [] q t))"
proof -
  obtain q' t' where e: "circ_transferFrom [] q t = (q', t')" by force
  have "circ_inv t" "isObjects t" using assms by (simp_all add: entries_def)
  from circ_transferFrom_abs [OF this e] show ?thesis
    using e assms by (auto simp: entries_def circ_transferFrom_def)
qed

lemma entries_reverse: "entries s is q \<Longrightarrow> entries s (rev is) (circ_reverse q)"
  using circ_reverse_abs [of q] by (auto simp: entries_def circ_reverse_def rev_map [symmetric])

lemma rev_upt_one:
  assumes "1 \<le> m"
  shows "rev [2..<Suc m] @ [1] = rev [1..<Suc m]"
proof -
  have "[1..<Suc m] = 1 # [Suc 1..<Suc m]" using assms by (intro upt_conv_Cons) simp
  then show ?thesis by (simp add: numeral_2_eq_2 del: upt_Suc)
qed

section \<open>Rotation with a limit\<close>

text \<open>One file moves on by one, or is dropped when it is the last that is kept.\<close>

definition moved :: "bytes \<Rightarrow> nat \<Rightarrow> nat \<Rightarrow> file_system \<Rightarrow> file_system" where
  "moved s M j F = (if j = M then F(file_name s j := None)
     else (F(file_name s j := None))(file_name s (Suc j) := F (file_name s j)))"

lemma rotate_one_spec:
  assumes "0 < M" "M < 10" "unat (ro_max_files (ft_filerotation ft)) = M" "j \<le> M" "0 < j"
    "rf_path f = Some (file_name (ft_myPath ft) j)" "rf_num f = j"
    "entries (ft_myPath ft) is t" "length is < MAX_ROTATED_FILES"
    "F (file_name (ft_myPath ft) j) \<noteq> None"
  shows "\<exists>t1. rotate_one ft (int j) f (t, F) = Inr (t1, moved (ft_myPath ft) M j F) \<and>
    entries (ft_myPath ft) (if j = M then is else is @ [Suc j]) t1"
proof -
  let ?s = "ft_myPath ft" let ?n = "file_name ?s"
  have "int (unat (ro_max_files (ft_filerotation ft))) = uint (ro_max_files (ft_filerotation ft))" by simp
  then have mf: "uint (ro_max_files (ft_filerotation ft)) = int M" "ro_max_files (ft_filerotation ft) \<noteq> 0"
    using assms(1) unfolding assms(3) by auto
  show ?thesis
  proof (cases "j = M")
    case True
    then show ?thesis using mf assms(6,8) by (simp add: rotate_one_def Let_def moved_def)
  next
    case False
    obtain c where c: "F (?n j) = Some c" using assms(10) by auto
    obtain t1 where "circ_add t (rotatedFile_new ?s (Suc j)) = Some t1" "entries ?s (is @ [Suc j]) t1"
      using entries_add [OF assms(8,9), of "rotatedFile_new ?s (Suc j)"] by (auto simp: rotatedFile_new_def)
    moreover have "strRotateName ?s (Suc j) = Some (?n (Suc j))"
      using strRotateName_name [of "Suc j" ?s] assms(2,4) False by simp
    ultimately show ?thesis using False assms(4-7) mf c
      by (simp add: rotate_one_def Let_def moved_def rotatedFile_new_def fs_rename_def)
  qed
qed

lemma rotate_loop_spec:
  assumes "0 < M" "M < 10" "unat (ro_max_files (ft_filerotation ft)) = M" "k \<le> M"
    "entries (ft_myPath ft) (rev [1..<Suc k]) q" "entries (ft_myPath ft) is t" "length is + k < 10"
    "\<And>i. 0 < i \<Longrightarrow> i \<le> k \<Longrightarrow> F (file_name (ft_myPath ft) i) \<noteq> None"
  shows "\<exists>t' F'. rotate_loop k ft (int k) q (t, F) = Inr (t', F') \<and>
    entries (ft_myPath ft) (is @ rev [2..<Suc (min (Suc k) M)]) t' \<and>
    (\<forall>i. 0 < i \<and> i \<le> k \<and> i < M \<longrightarrow> F' (file_name (ft_myPath ft) (Suc i)) = F (file_name (ft_myPath ft) i)) \<and>
    (\<forall>p. p \<notin> file_name (ft_myPath ft) ` {1..min (Suc k) M} \<longrightarrow> F' p = F p)"
  using assms(4-8)
proof (induction k arbitrary: q t F "is")
  case 0
  have "[2..<Suc (min (Suc 0) M)] = []" using assms(1) by simp
  then show ?case using 0 by auto
next
  case (Suc k)
  let ?s = "ft_myPath ft" let ?n = "file_name ?s"
  have "rev [1..<Suc (Suc k)] = Suc k # rev [1..<Suc k]" by simp
  then obtain f q' where f: "circ_remove q = Some (f, q')" "entries ?s (rev [1..<Suc k]) q'"
      "rf_path f = strRotateName ?s (Suc k)" "rf_num f = Suc k"
    using entries_remove Suc.prems(2) by metis
  have p: "rf_path f = Some (?n (Suc k))" using f(3) strRotateName_name [of "Suc k" ?s] Suc.prems(1) assms(2) by simp
  define F1 where "F1 = moved ?s M (Suc k) F"
  define is1 where "is1 = (if Suc k = M then is else is @ [Suc (Suc k)])"
  have "length is < MAX_ROTATED_FILES" using Suc.prems(4) by (simp add: MAX_ROTATED_FILES_def)
  then have "\<exists>t1. rotate_one ft (int (Suc k)) f (t, F) = Inr (t1, F1) \<and> entries ?s is1 t1"
    using rotate_one_spec [OF assms(1-3), of "Suc k" f "is" t F] p f(4) Suc.prems(1,3,5)
    by (simp add: F1_def is1_def)
  then obtain t1 where t1: "rotate_one ft (int (Suc k)) f (t, F) = Inr (t1, F1)" "entries ?s is1 t1" by blast
  have F1: "F1 (?n i) = F (?n i)" if "i \<le> k" for i
    using that Suc.prems(1) assms(2) file_name_inj [of i "Suc k" ?s] file_name_inj [of i "Suc (Suc k)" ?s]
    by (auto simp: F1_def moved_def)
  have "\<exists>t' F'. rotate_loop k ft (int k) q' (t1, F1) = Inr (t', F') \<and>
    entries ?s (is1 @ rev [2..<Suc (min (Suc k) M)]) t' \<and>
    (\<forall>i. 0 < i \<and> i \<le> k \<and> i < M \<longrightarrow> F' (?n (Suc i)) = F1 (?n i)) \<and>
    (\<forall>p. p \<notin> ?n ` {1..min (Suc k) M} \<longrightarrow> F' p = F1 p)"
    using Suc.IH [of q' is1 t1 F1] f(2) t1(2) F1 Suc.prems(1,4,5) by (auto simp: is1_def)
  then obtain t' F' where r: "rotate_loop k ft (int k) q' (t1, F1) = Inr (t', F')"
      "entries ?s (is1 @ rev [2..<Suc (min (Suc k) M)]) t'"
      "\<And>i. 0 < i \<Longrightarrow> i \<le> k \<Longrightarrow> i < M \<Longrightarrow> F' (?n (Suc i)) = F1 (?n i)"
      "\<And>p. p \<notin> ?n ` {1..min (Suc k) M} \<Longrightarrow> F' p = F1 p" by blast
  have "is1 @ rev [2..<Suc (min (Suc k) M)] = is @ rev [2..<Suc (min (Suc (Suc k)) M)]"
    using Suc.prems(1) by (auto simp: is1_def min_def)
  moreover have "F' (?n (Suc i)) = F (?n i)" if i: "0 < i" "i \<le> Suc k" "i < M" for i
  proof (cases "i = Suc k")
    case True
    have "?n (Suc (Suc k)) \<notin> ?n ` {1..min (Suc k) M}"
    proof
      assume "?n (Suc (Suc k)) \<in> ?n ` {1..min (Suc k) M}"
      then obtain j where "?n (Suc (Suc k)) = ?n j" "j \<le> Suc k" by auto
      then show False using file_name_inj [of "Suc (Suc k)" j ?s] i(3) True assms(2) by simp
    qed
    then show ?thesis using r(4) True i(3) by (auto simp: F1_def moved_def)
  next
    case False
    then show ?thesis using r(3) [of i] F1 [of i] i by auto
  qed
  moreover have "F' p = F p" if "p \<notin> ?n ` {1..min (Suc (Suc k)) M}" for p
  proof -
    have "p \<notin> ?n ` {1..min (Suc k) M}" "p \<noteq> ?n (Suc k)" "Suc k < M \<Longrightarrow> p \<noteq> ?n (Suc (Suc k))"
      using that Suc.prems(1) by force+
    then show ?thesis using r(4) [of p] Suc.prems(1) by (auto simp: F1_def moved_def)
  qed
  ultimately show ?case using f(1) t1(1) r(1,2) by (intro exI [of _ t'] exI [of _ F']) auto
qed

text \<open>
  The state of a target that rotates with a limit of \<open>M\<close> files: \<open>k\<close> rotated files are known, on the disk
  and in the queue, the oldest first.
\<close>

definition rot_inv :: "nat \<Rightarrow> nat \<Rightarrow> fileTarget \<Rightarrow> file_system \<Rightarrow> bool" where
  "rot_inv M k ft F \<longleftrightarrow> 0 < M \<and> M < MAX_ROTATED_FILES \<and> k \<le> M \<and>
     unat (ro_max_files (ft_filerotation ft)) = M \<and> entries (ft_myPath ft) (rev [1..<Suc k]) (ft_rotatedFiles ft) \<and>
     (\<forall>i. 0 < i \<and> i \<le> k \<longrightarrow> F (file_name (ft_myPath ft) i) \<noteq> None)"

text \<open>The contents of the current file and of the rotated ones, the newest first.\<close>

definition history :: "bytes \<Rightarrow> nat \<Rightarrow> file_system \<Rightarrow> bytes option list" where
  "history s k F = map (\<lambda>i. F (file_name s i)) [0..<Suc k]"

lemma history_nth: "i \<le> k \<Longrightarrow> history s k F ! i = F (file_name s i)"
  by (simp add: history_def del: upt_Suc)

lemma length_history [simp]: "length (history s k F) = Suc k"
  by (simp add: history_def)

lemma base_not_rotated:
  assumes "m < 10"
  shows "s \<notin> file_name s ` {1..m}"
proof
  assume "s \<in> file_name s ` {1..m}"
  then obtain j where "s = file_name s j" "0 < j" by auto
  then show False by (simp add: file_name_def)
qed

lemma history_shift:
  assumes "\<And>i. i < min (Suc k) M \<Longrightarrow> F' (file_name s (Suc i)) = F (file_name s i)"
    "k' = min (Suc k) M"
  shows "tl (history s k' F') = take M (history s k F)"
proof (rule nth_equalityI)
  show "length (tl (history s k' F')) = length (take M (history s k F))" using assms(2) by simp
  fix j assume "j < length (tl (history s k' F'))"
  then have j: "j < k'" by simp
  then have "tl (history s k' F') ! j = F' (file_name s (Suc j))"
    by (subst nth_tl) (simp_all add: history_nth)
  then show "tl (history s k' F') ! j = take M (history s k F) ! j"
    using assms(1) [of j] j assms(2) by (simp add: history_nth)
qed

lemma rotate_files_spec:
  assumes "rot_inv M k ft F" "F (ft_myPath ft) = Some c" "k' = min (Suc k) M"
  shows "\<exists>ft' F'. rotate_files ft F = Inr (ft', F') \<and> rot_inv M k' ft' F' \<and> F' (ft_myPath ft) = None \<and>
    tl (history (ft_myPath ft) k' F') = take M (history (ft_myPath ft) k F) \<and>
    ft_myPath ft' = ft_myPath ft \<and> ft_filerotation ft' = ft_filerotation ft \<and> ft_current_size ft' = 0 \<and>
    ft_submittedWrites ft' = ft_submittedWrites ft"
proof -
  let ?s = "ft_myPath ft" let ?n = "file_name ?s"
  have i: "0 < M" "M < 10" "unat (ro_max_files (ft_filerotation ft)) = M" "k \<le> M"
      "entries ?s (rev [1..<Suc k]) (ft_rotatedFiles ft)"
      "\<And>i. 0 < i \<Longrightarrow> i \<le> k \<Longrightarrow> F (?n i) \<noteq> None"
    using assms(1) by (auto simp: rot_inv_def MAX_ROTATED_FILES_def)
  have cr: "circ_remain (ft_rotatedFiles ft) = int k"
    using entries_remain [OF i(5)] by (simp del: upt_Suc)
  have "length ([] :: nat list) + k < 10" using i(2,4) by simp
  from rotate_loop_spec [OF i(1-5) entries_new this, of F, OF i(6)] obtain t F1 where
    l: "rotate_loop k ft (int k) (ft_rotatedFiles ft) (rotated_new, F) = Inr (t, F1)"
      "entries ?s (rev [2..<Suc k']) t"
      "\<And>i. 0 < i \<Longrightarrow> i \<le> k \<Longrightarrow> i < M \<Longrightarrow> F1 (?n (Suc i)) = F (?n i)"
      "\<And>p. p \<notin> ?n ` {1..k'} \<Longrightarrow> F1 p = F p"
    using assms(3) by auto
  have k': "1 \<le> k'" "k' < 10" using assms(3) i(1,2) by auto
  have b: "F1 ?s = Some c" using l(4) base_not_rotated [of k' ?s] k' assms(2) by simp
  let ?f = "rotatedFile_new ?s 1" let ?F = "(F1(?s := None))(?n 1 \<mapsto> c)"
  have p1: "rf_path ?f = Some (?n 1)" using strRotateName_name [of 1 ?s] by (simp add: rotatedFile_new_def)
  have "length (rev [2..<Suc k']) < MAX_ROTATED_FILES" using k' by (simp add: MAX_ROTATED_FILES_def del: upt_Suc)
  from entries_add [OF l(2) this, of ?f 1] obtain t' where
    t': "circ_add t ?f = Some t'" "entries ?s (rev [2..<Suc k'] @ [1]) t'"
    by (auto simp: rotatedFile_new_def)
  have rv: "rev [2..<Suc k'] @ [1] = rev [1..<Suc k']"
    using k'(1) by (rule rev_upt_one)
  let ?ft = "ft\<lparr>ft_rotatedFiles := fst (circ_transferFrom [] (ft_rotatedFiles ft) t'), ft_current_size := 0\<rparr>"
  have rf: "rotate_files ft F = Inr (?ft, ?F)"
    using cr l(1) b p1 t'(1) by (simp add: rotate_files_def Let_def fs_rename_def)
  have nb: "?n i = ?s \<longleftrightarrow> i = 0" "?n i = ?n 1 \<longleftrightarrow> i = 1" if "i < 10" for i
    using file_name_inj [of i 0 ?s] file_name_inj [of i 1 ?s] that by (simp_all add: file_name_def)
  have sh: "?F (?n (Suc i)) = F (?n i)" if "i < k'" for i
  proof (cases "i = 0")
    case True
    then show ?thesis using assms(2) by (simp add: file_name_def)
  next
    case False
    then show ?thesis using l(3) [of i] nb [of "Suc i"] that k'(2) assms(3) by auto
  qed
  have "?F (?n i) \<noteq> None" if "0 < i" "i \<le> k'" for i
  proof -
    from that have "i = Suc (i - 1)" "i - 1 < k'" by simp_all
    then obtain j where j: "i = Suc j" "j < k'" by blast
    have "F (?n j) \<noteq> None" using i(6) [of j] assms(2,3) j(2) by (cases "j = 0") (auto simp: file_name_def)
    then show ?thesis using sh [OF j(2)] j(1) by simp
  qed
  then have "rot_inv M k' ?ft ?F"
    using i(1-3) entries_transfer [OF t'(2), of "ft_rotatedFiles ft"] rv assms(3)
    by (auto simp: rot_inv_def MAX_ROTATED_FILES_def simp del: upt_Suc)
  moreover have "tl (history ?s k' ?F) = take M (history ?s k F)"
    by (rule history_shift) (use sh assms(3) in auto)
  moreover have "?F ?s = None" using nb [of 1] by (simp add: file_name_def)
  ultimately show ?thesis using rf by auto
qed

text \<open>C20: Rotation. When the last outstanding write of a target is complete and its file has grown past
  the limit, the file is rotated: the contents of the current and the rotated files move on by
  one, in order and unchanged, the oldest beyond \<open>max_files\<close> rotated files is dropped, and the
  current file is empty again. Stated for a limit of one to nine files.\<close>

theorem rotation_shifts:
  assumes "rot_inv M k ft F" "F (ft_myPath ft) = Some c" "ft_submittedWrites ft = 1"
    "ro_enabled (ft_filerotation ft)" "ro_max_file_size (ft_filerotation ft) < ft_current_size ft"
  shows "\<exists>ft' F'. file_write_cb True ft F = Inr (ft', F') \<and> rot_inv M (min (Suc k) M) ft' F' \<and>
    history (ft_myPath ft) (min (Suc k) M) F' = Some [] # take M (history (ft_myPath ft) k F) \<and>
    ft_current_size ft' = 0 \<and> ft_open ft'"
proof -
  let ?s = "ft_myPath ft" let ?k = "min (Suc k) M"
  let ?ft = "ft\<lparr>ft_submittedWrites := 0, ft_open := False\<rparr>"
  have "rot_inv M k ?ft F" using assms(1) by (simp add: rot_inv_def)
  from rotate_files_spec [OF this _ refl, of c] assms(2) obtain ft1 F1 where
    r: "rotate_files ?ft F = Inr (ft1, F1)" "rot_inv M ?k ft1 F1" "F1 ?s = None"
      "tl (history ?s ?k F1) = take M (history ?s k F)" "ft_myPath ft1 = ?s" "ft_current_size ft1 = 0"
    by auto
  let ?F = "F1(?s \<mapsto> [])"
  have cb: "file_write_cb True ft F = Inr (ft1\<lparr>ft_open := True\<rparr>, ?F)"
    using assms(3-5) r by (simp add: file_write_cb_def check_and_maybe_rotate_def fs_open_def)
  have other: "?F (file_name ?s i) = F1 (file_name ?s i)" if "0 < i" for i
    using that by (auto simp: file_name_def)
  have "rot_inv M ?k (ft1\<lparr>ft_open := True\<rparr>) ?F" using r(2,5) other by (auto simp: rot_inv_def)
  moreover have "history ?s ?k ?F = Some [] # tl (history ?s ?k F1)"
  proof (rule nth_equalityI)
    fix j assume "j < length (history ?s ?k ?F)"
    then have j: "j \<le> ?k" by (metis length_history less_Suc_eq_le)
    show "history ?s ?k ?F ! j = (Some [] # tl (history ?s ?k F1)) ! j"
    proof (cases j)
      case 0
      then show ?thesis using j history_nth [of 0 ?k ?s ?F] by (simp add: file_name_def)
    next
      case (Suc i)
      then show ?thesis using j other [of j] by (simp add: history_nth nth_tl)
    qed
  qed simp
  ultimately show ?thesis using cb r(4,6) by simp
qed

definition ex_path :: bytes where "ex_path = [0x2F, 0x6C]"

definition ex_file :: fileTarget where
  "ex_file = (fileTarget_new ex_path (rotationOpts_new\<lparr>ro_enabled := True, ro_max_files := 2\<rparr>))
     \<lparr>ft_submittedWrites := 1, ft_current_size := 1\<rparr>"

definition ex_disk :: file_system where "ex_disk = [ex_path \<mapsto> [0x61]]"

lemma ex_rot_inv: "rot_inv 2 0 ex_file ex_disk"
  using entries_new
  by (simp add: rot_inv_def ex_file_def fileTarget_new_def MAX_ROTATED_FILES_def rotationOpts_new_def)

theorem rotation_shifts_witness:
  "\<exists>ft' F'. file_write_cb True ex_file ex_disk = Inr (ft', F') \<and> rot_inv 2 1 ft' F' \<and>
     history ex_path 1 F' = [Some [], Some [0x61]] \<and> ft_current_size ft' = 0 \<and> ft_open ft'"
  using rotation_shifts [OF ex_rot_inv, of "[0x61]"]
  by (auto simp: ex_file_def ex_disk_def fileTarget_new_def rotationOpts_new_def history_def file_name_def)

section \<open>Start\<close>

lemma find_rotated_spec:
  assumes "entries (ft_myPath ft) [1..<n] (ft_rotatedFiles ft)" "0 < n" "n \<le> Suc k" "k < 10" "Suc k - n < d"
    "\<And>i. n \<le> i \<Longrightarrow> i \<le> k \<Longrightarrow> F (file_name (ft_myPath ft) i) \<noteq> None"
    "Suc k < 10 \<Longrightarrow> F (file_name (ft_myPath ft) (Suc k)) = None"
  shows "\<exists>ft'. find_rotated d n ft F = Inr ft' \<and> entries (ft_myPath ft) [1..<Suc k] (ft_rotatedFiles ft') \<and>
    ft_myPath ft' = ft_myPath ft \<and> ft_filerotation ft' = ft_filerotation ft"
  using assms(1-3,5-7)
proof (induction d arbitrary: n ft)
  case (Suc d)
  let ?s = "ft_myPath ft"
  show ?case
  proof (cases "n = Suc k")
    case True
    then have "find_rotated (Suc d) n ft F = Inr ft"
      using Suc.prems(6) strRotateName_name [of n ?s]
      by (cases "n < 10") (auto simp: rotatedFile_new_def strRotateName_def MAX_ROTATED_FILES_def)
    then show ?thesis using Suc.prems(1) True by simp
  next
    case False
    then have n: "n \<le> k" "n < 10" using Suc.prems(3) assms(4) by auto
    obtain c where c: "F (file_name ?s n) = Some c" using Suc.prems(5) [of n] n(1) by auto
    let ?f = "(rotatedFile_new ?s n)\<lparr>rf_size := of_nat (length c)\<rparr>"
    have "length [1..<n] < MAX_ROTATED_FILES" using n(2) by (simp add: MAX_ROTATED_FILES_def)
    from entries_add [OF Suc.prems(1) this, of ?f n] obtain q where
      q: "circ_add (ft_rotatedFiles ft) ?f = Some q" "entries ?s ([1..<n] @ [n]) q"
      by (auto simp: rotatedFile_new_def)
    let ?ft = "ft\<lparr>ft_rotatedFiles := q, ft_all_files_size := ft_all_files_size ft + of_nat (length c)\<rparr>"
    have "find_rotated (Suc d) n ft F = find_rotated d (n + 1) ?ft F"
      using strRotateName_name [of n ?s] n(2) Suc.prems(2) c q(1) by (simp add: rotatedFile_new_def)
    moreover have "entries (ft_myPath ?ft) [1..<n + 1] (ft_rotatedFiles ?ft)" using q(2) Suc.prems(2) by simp
    ultimately show ?thesis using Suc.IH [of ?ft "n + 1"] Suc.prems n(1) by auto
  qed
qed simp

lemma check_files_spec:
  assumes "circ_inv (ft_rotatedFiles ft)" "csize (ft_rotatedFiles ft) = int MAX_ROTATED_FILES" "isObjects (ft_rotatedFiles ft)"
    "k < 10" "\<And>i. 0 < i \<Longrightarrow> i \<le> k \<Longrightarrow> F (file_name (ft_myPath ft) i) \<noteq> None"
    "Suc k < 10 \<Longrightarrow> F (file_name (ft_myPath ft) (Suc k)) = None"
  shows "\<exists>needs ft'. check_files ft F = Inr (needs, ft') \<and>
    entries (ft_myPath ft) (rev [1..<Suc k]) (ft_rotatedFiles ft') \<and>
    ft_myPath ft' = ft_myPath ft \<and> ft_filerotation ft' = ft_filerotation ft"
proof -
  let ?q = "circ_clear rotatedFile_empty (ft_rotatedFiles ft)"
  define ft0 where "ft0 = ft\<lparr>ft_all_files_size := 0, ft_rotatedFiles := ?q\<rparr>"
  define ft1 where "ft1 = (case F (ft_myPath ft) of None \<Rightarrow> ft0
     | Some c \<Rightarrow> ft0\<lparr>ft_all_files_size := of_nat (length c), ft_current_size := of_nat (length c)\<rparr>)"
  have ft1: "ft_myPath ft1 = ft_myPath ft" "ft_filerotation ft1 = ft_filerotation ft" "ft_rotatedFiles ft1 = ?q"
    by (auto simp: ft1_def ft0_def split: option.splits)
  have "entries (ft_myPath ft) [] ?q"
    using circ_clear_abs [OF assms(1)] assms(2,3) by (simp add: entries_def) (simp add: circ_clear_def)
  then have "entries (ft_myPath ft1) [1..<1] (ft_rotatedFiles ft1)" by (simp add: ft1)
  from find_rotated_spec [OF this, of k MAX_ROTATED_FILES F] assms(4-6) obtain ft2 where
    "find_rotated MAX_ROTATED_FILES 1 ft1 F = Inr ft2" "entries (ft_myPath ft) [1..<Suc k] (ft_rotatedFiles ft2)"
      "ft_myPath ft2 = ft_myPath ft" "ft_filerotation ft2 = ft_filerotation ft"
    by (auto simp: ft1 MAX_ROTATED_FILES_def simp del: upt_Suc)
  moreover have "check_files ft F = (case find_rotated MAX_ROTATED_FILES 1 ft1 F of
        Inl e \<Rightarrow> Inl e
      | Inr ft2 \<Rightarrow> Inr ((case F (ft_myPath ft) of None \<Rightarrow> False
           | Some c \<Rightarrow> ro_max_file_size (ft_filerotation ft) \<noteq> 0 \<and>
               unat (ro_max_file_size (ft_filerotation ft)) < length c) \<or>
           ft_all_files_size ft2 > ro_max_total_size (ft_filerotation ft),
           ft2\<lparr>ft_rotatedFiles := circ_reverse (ft_rotatedFiles ft2)\<rparr>))"
    unfolding check_files_def Let_def ft0_def [symmetric]
    by (cases "F (ft_myPath ft)") (simp_all add: ft1_def split: sum.split)
  ultimately show ?thesis using entries_reverse by (auto simp del: upt_Suc)
qed

text \<open>C31: Restart. A new target with the same path and a limit of one to nine files finds, by scanning the
  disk, exactly the state in which rotation left it: every rotated file is known, in the order
  in which it will be moved.\<close>

theorem restart_finds_files:
  assumes "rot_inv M k ft F" "Suc k < 10 \<Longrightarrow> F (file_name (ft_myPath ft) (Suc k)) = None"
    "unat (ro_max_files opts) = M"
  shows "\<exists>needs ft'. check_files (fileTarget_new (ft_myPath ft) opts) F = Inr (needs, ft') \<and> rot_inv M k ft' F \<and>
    map rf_path (circ_list (ft_rotatedFiles ft')) = map rf_path (circ_list (ft_rotatedFiles ft))"
proof -
  let ?ft = "fileTarget_new (ft_myPath ft) opts"
  have e: "entries (ft_myPath ft) [] (ft_rotatedFiles ?ft)" using entries_new by (simp add: fileTarget_new_def)
  have p: "ft_myPath ?ft = ft_myPath ft" "ft_filerotation ?ft = opts" by (simp_all add: fileTarget_new_def)
  have q: "circ_inv (ft_rotatedFiles ?ft)" "csize (ft_rotatedFiles ?ft) = int MAX_ROTATED_FILES"
      "isObjects (ft_rotatedFiles ?ft)" using e by (simp_all add: entries_def)
  have "k < 10" using assms(1) by (simp add: rot_inv_def MAX_ROTATED_FILES_def)
  from check_files_spec [OF q this, of F] assms(1,2) obtain needs ft' where
    c: "check_files ?ft F = Inr (needs, ft')" "entries (ft_myPath ft) (rev [1..<Suc k]) (ft_rotatedFiles ft')"
      "ft_myPath ft' = ft_myPath ft" "ft_filerotation ft' = opts"
    by (auto simp: p rot_inv_def simp del: upt_Suc)
  have "rot_inv M k ft' F" using assms(1,3) c by (simp add: rot_inv_def del: upt_Suc)
  moreover have "entries (ft_myPath ft) (rev [1..<Suc k]) (ft_rotatedFiles ft)" using assms(1) by (simp add: rot_inv_def)
  ultimately show ?thesis using c(1) entries_paths [OF c(2)] entries_paths by metis
qed

theorem restart_finds_files_witness:
  "\<exists>needs ft'. check_files (fileTarget_new (ft_myPath ex_file) (rotationOpts_new\<lparr>ro_max_files := 2\<rparr>)) ex_disk = Inr (needs, ft') \<and>
     rot_inv 2 0 ft' ex_disk \<and>
     map rf_path (circ_list (ft_rotatedFiles ft')) = map rf_path (circ_list (ft_rotatedFiles ex_file))"
  by (rule restart_finds_files [OF ex_rot_inv])
    (simp_all add: ex_file_def fileTarget_new_def ex_disk_def file_name_def rotationOpts_new_def)

section \<open>Rotation without a limit\<close>

lemma rotate_loop_unlimited:
  assumes "ro_max_files (ft_filerotation ft) = 0" "entries (ft_myPath ft) (rev [1..<Suc k]) q"
    "entries (ft_myPath ft) is t" "length is + k \<le> MAX_ROTATED_FILES"
  shows "\<exists>t' F'. rotate_loop k ft n q (t, F) = Inr (t', F') \<and> entries (ft_myPath ft) (is @ rev [2..<Suc (Suc k)]) t' \<and>
    F' (ft_myPath ft) = F (ft_myPath ft)"
  using assms(2-4)
proof (induction k arbitrary: q t F "is" n)
  case (Suc k)
  let ?s = "ft_myPath ft" let ?f = "rotatedFile_new ?s (Suc (Suc k))"
  have "rev [1..<Suc (Suc k)] = Suc k # rev [1..<Suc k]" by simp
  then obtain f q' where f: "circ_remove q = Some (f, q')" "entries ?s (rev [1..<Suc k]) q'"
      "rf_path f = strRotateName ?s (Suc k)" "rf_num f = Suc k"
    using entries_remove Suc.prems(1) by metis
  have "length is < MAX_ROTATED_FILES" using Suc.prems(3) by simp
  from entries_add [OF Suc.prems(2) this, of ?f] obtain t1 where
    t1: "circ_add t ?f = Some t1" "entries ?s (is @ [Suc (Suc k)]) t1" by (auto simp: rotatedFile_new_def)
  let ?F = "snd (fs_rename F (rf_path f) (rf_path ?f))"
  have F: "?F ?s = F ?s"
    using f(3) by (auto simp: fs_rename_def rotatedFile_new_def strRotateName_def split: option.splits if_splits)
  have r1: "rotate_one ft n f (t, F) = Inr (t1, ?F)"
    using assms(1) f(4) t1(1) by (simp add: rotate_one_def Let_def case_prod_beta)
  have "length (is @ [Suc (Suc k)]) + k \<le> MAX_ROTATED_FILES" using Suc.prems(3) by simp
  from Suc.IH [OF f(2) t1(2) this, of "n - 1" ?F] show ?case using f(1) r1 F by auto
qed auto

lemma rotate_unlimited:
  assumes "ro_max_files (ft_filerotation ft) = 0" "entries (ft_myPath ft) (rev [1..<Suc k]) (ft_rotatedFiles ft)"
    "F (ft_myPath ft) \<noteq> None" "k \<le> MAX_ROTATED_FILES"
  shows "if k < MAX_ROTATED_FILES
    then \<exists>ft' F'. rotate_files ft F = Inr (ft', F') \<and> ft_myPath ft' = ft_myPath ft \<and>
      ft_filerotation ft' = ft_filerotation ft \<and> entries (ft_myPath ft) (rev [1..<Suc (Suc k)]) (ft_rotatedFiles ft')
    else rotate_files ft F = Inl Blocked"
proof -
  let ?s = "ft_myPath ft" let ?f = "rotatedFile_new ?s 1"
  have cr: "circ_remain (ft_rotatedFiles ft) = int k" using entries_remain [OF assms(2)] by (simp del: upt_Suc)
  have "length ([] :: nat list) + k \<le> MAX_ROTATED_FILES" using assms(4) by simp
  from rotate_loop_unlimited [OF assms(1,2) entries_new this, of "int k" F] obtain t F1 where
    l: "rotate_loop k ft (int k) (ft_rotatedFiles ft) (rotated_new, F) = Inr (t, F1)"
      "entries ?s (rev [2..<Suc (Suc k)]) t" "F1 ?s = F ?s" by auto
  obtain c where c: "F1 ?s = Some c" using l(3) assms(3) by auto
  have p1: "rf_path ?f = Some (file_name ?s 1)" using strRotateName_name [of 1 ?s] by (simp add: rotatedFile_new_def)
  have len: "length (rev [2..<Suc (Suc k)]) = k" by (simp del: upt_Suc)
  have rf: "rotate_files ft F = (case circ_add t ?f of None \<Rightarrow> Inl Blocked
     | Some t' \<Rightarrow> Inr (ft\<lparr>ft_rotatedFiles := fst (circ_transferFrom [] (ft_rotatedFiles ft) t'), ft_current_size := 0\<rparr>,
          (F1(?s := None))(file_name ?s 1 \<mapsto> c)))"
    using cr l(1) c p1 by (simp add: rotate_files_def Let_def fs_rename_def split: option.split)
  have rv: "rev [2..<Suc (Suc k)] @ [1] = rev [1..<Suc (Suc k)]"
    by (rule rev_upt_one) simp
  show ?thesis
  proof (cases "k < MAX_ROTATED_FILES")
    case True
    then obtain t' where "circ_add t ?f = Some t'" "entries ?s (rev [1..<Suc (Suc k)]) t'"
      using entries_add [OF l(2), of ?f 1] len rv by (auto simp: rotatedFile_new_def simp del: upt_Suc)
    then show ?thesis using rf True entries_transfer [of ?s _ t' "ft_rotatedFiles ft"] by (simp del: upt_Suc)
  next
    case False
    then show ?thesis using rf entries_full [OF l(2), of ?f] len assms(4) by simp
  qed
qed

text \<open>Rotating and opening the new file, \<open>n\<close> times.\<close>

fun rotations :: "nat \<Rightarrow> fileTarget \<Rightarrow> file_system \<Rightarrow> rot_fail + fileTarget \<times> file_system" where
  "rotations 0 ft fs = Inr (ft, fs)"
| "rotations (Suc n) ft fs =
     (case rotate_files ft fs of
        Inl e \<Rightarrow> Inl e
      | Inr (ft1, fs1) \<Rightarrow> (let (ft2, fs2) = fs_open True ft1 fs1 in rotations n ft2 fs2))"

lemma rotations_unlimited:
  assumes "ro_max_files (ft_filerotation ft) = 0" "entries (ft_myPath ft) (rev [1..<Suc k]) (ft_rotatedFiles ft)"
    "F (ft_myPath ft) \<noteq> None" "k \<le> MAX_ROTATED_FILES"
  shows "rotations n ft F = Inl Blocked \<longleftrightarrow> MAX_ROTATED_FILES < k + n"
  using assms
proof (induction n arbitrary: k ft F)
  case (Suc n)
  show ?case
  proof (cases "k < MAX_ROTATED_FILES")
    case True
    then obtain ft' F' where r: "rotate_files ft F = Inr (ft', F')" "ft_myPath ft' = ft_myPath ft"
        "ft_filerotation ft' = ft_filerotation ft" "entries (ft_myPath ft) (rev [1..<Suc (Suc k)]) (ft_rotatedFiles ft')"
      using rotate_unlimited [of ft k F] Suc.prems(1-4) by auto
    let ?o = "fs_open True ft' F'"
    have "rotations (Suc n) ft F = rotations n (fst ?o) (snd ?o)" using r(1) by (simp add: case_prod_beta)
    moreover have "rotations n (fst ?o) (snd ?o) = Inl Blocked \<longleftrightarrow> MAX_ROTATED_FILES < Suc k + n"
      by (rule Suc.IH) (use r Suc.prems(1) True in \<open>simp_all add: fs_open_def del: upt_Suc\<close>)
    ultimately show ?thesis by simp
  next
    case False
    then show ?thesis using rotate_unlimited [of ft k F] Suc.prems(1-4) by simp
  qed
qed simp

text \<open>C40: Without a limit. The option \<open>max_files\<close> set to 0, its default, for no limit: the first ten
  rotations of a target that starts without rotated files return, and the eleventh waits forever
  for room in the queue of the rotated files.\<close>

theorem unlimited_rotation_blocks:
  assumes "ro_max_files opts = 0" "F path = Some c"
  shows "rotations n (fileTarget_new path opts) F = Inl Blocked \<longleftrightarrow> 11 \<le> n"
proof -
  have "entries path (rev [1..<Suc 0]) rotated_new" using entries_new by simp
  then show ?thesis
    using rotations_unlimited [of "fileTarget_new path opts" 0 F n] assms
    by (simp add: fileTarget_new_def MAX_ROTATED_FILES_def) arith
qed

theorem unlimited_rotation_blocks_witness:
  "rotations 11 (fileTarget_new ex_path rotationOpts_new) ex_disk = Inl Blocked"
  using unlimited_rotation_blocks [of rotationOpts_new ex_disk ex_path "[0x61]" 11]
  by (simp add: rotationOpts_new_def ex_disk_def del: rotations.simps)

end
