(* ===== verification/Entry_Source.thy ===== *)
theory Entry_Source
  imports Klog_Parse
begin

text \<open>
  The contract between the logger's pool and the parts that fill its buffers. A source takes a pool
  buffer, fills it and hands it to the logger, or gives it back: \<open>pool_round\<close>. The locale
  \<open>entry_source\<close> says what the filling has to keep, and shows that the round then returns and
  loses no buffer. The locale \<open>klog_machine\<close> is the contract of the state machines of the two
  kernel log parsers; it gives an \<open>entry_source\<close>. With these the two kernel sinks are shown to
  survive any bytes.
\<close>

section \<open>A round of a source\<close>

definition pool_round ::
  "('s \<Rightarrow> singleLog \<Rightarrow> ('s \<times> bool \<times> singleLog) option) \<Rightarrow> 's \<Rightarrow> grease \<Rightarrow> (bool \<times> 's \<times> grease) option" where
  "pool_round fill s g =
     (case grabInLogBuffer g of
        (GREASE_OK, Some a, g1) \<Rightarrow>
          (case logs (env g1) a of
             None \<Rightarrow> None
           | Some l \<Rightarrow>
               Option.bind (fill s l) (\<lambda>(s', ok, l').
                 map_option (\<lambda>g2. (ok, s', g2))
                   ((if ok then submit_entry else returnBuffer_master) (put_entry g1 a l') a)))
      | _ \<Rightarrow> Some (False, s, g))"

lemma submit_entry_inv:
  assumes "pool_inv n (a # gr) g" "pool_log (bufferSize g) (Some l)"
  shows "\<exists>g'. submit_entry (put_entry g a l) a = Some g' \<and> pool_inv n gr g'"
proof -
  define l2 where "l2 = (if ref_cnt l \<noteq> NOT_REFED then l\<lparr>ref_cnt := ref_cnt l + 1\<rparr> else l)"
  have pl: "pool_log (bufferSize g) (Some l2)" using assms(2) by (simp add: pool_log_def l2_def)
  note inv = put_entry_inv [OF assms(1) pl, of a]
  have s: "submit_entry (put_entry g a l) a = submitBuffer (put_entry g a l2) a"
    by (simp add: submit_entry_def incRef_def put_entry_def l2_def)
  have "logs (env (put_entry g a l2)) a = Some l2" by (simp add: put_entry_def)
  moreover have "pool_log (bufferSize (put_entry g a l2)) (Some l2)" using pl by (simp add: put_entry_def)
  ultimately show ?thesis
    using enqueue_buffer_inv [OF inv] returnBuffer_master_inv [OF inv] unfolding s submitBuffer_def by fastforce
qed

lemma grab_cases:
  assumes "pool_inv n gr g"
  obtains "circ_list (masterBufferAvail g) = []" "grabInLogBuffer g = (GREASE_OVERFLOW, None, g)"
  | a p l where "grabInLogBuffer g = (GREASE_OK, Some a, g\<lparr>masterBufferAvail := p\<rparr>)"
      "pool_inv n (a # gr) (g\<lparr>masterBufferAvail := p\<rparr>)" "logs (env g) a = Some l"
      "pool_log (bufferSize g) (Some l)"
proof (cases "circ_list (masterBufferAvail g)")
  case Nil
  then have "circ_remove (masterBufferAvail g) = None"
    using circ_remove_None_iff assms by (auto simp: pool_inv_def)
  then show ?thesis using that(1) Nil by (simp add: grabInLogBuffer_def)
next
  case (Cons a as)
  from grab_some [OF assms Cons] that(2) show ?thesis by metis
qed

locale entry_source =
  fixes fill :: "'s \<Rightarrow> singleLog \<Rightarrow> ('s \<times> bool \<times> singleLog) option"
    and good :: "'s \<Rightarrow> bool"
  assumes fill_keeps: "good s \<Longrightarrow> pool_log sz (Some l) \<Longrightarrow>
    \<exists>s' ok l'. fill s l = Some (s', ok, l') \<and> pool_log sz (Some l') \<and> (ok \<longrightarrow> good s')"
begin

lemma round_keeps:
  assumes "pool_inv n gr g" "good s"
  shows "\<exists>ok s' g'. pool_round fill s g = Some (ok, s', g') \<and> pool_inv n gr g' \<and> (ok \<longrightarrow> good s')"
proof (rule grab_cases [OF assms(1)])
  assume "grabInLogBuffer g = (GREASE_OVERFLOW, None, g)"
  then show ?thesis using assms by (auto simp: pool_round_def)
next
  fix a p l
  let ?g = "g\<lparr>masterBufferAvail := p\<rparr>"
  assume g: "grabInLogBuffer g = (GREASE_OK, Some a, ?g)" "pool_inv n (a # gr) ?g"
    "logs (env g) a = Some l" "pool_log (bufferSize g) (Some l)"
  from fill_keeps [OF assms(2) g(4)] obtain s' ok l' where
    f: "fill s l = Some (s', ok, l')" "pool_log (bufferSize g) (Some l')" "ok \<longrightarrow> good s'" by blast
  have pl: "pool_log (bufferSize ?g) (Some l')" using f(2) by simp
  show ?thesis
    using g(1,3) f(1,3) submit_entry_inv [OF g(2) pl] returnBuffer_master_inv [OF put_entry_inv [OF g(2) pl]]
    by (cases ok) (fastforce simp: pool_round_def)+
qed

end

section \<open>The state machines of the kernel log\<close>

text \<open>A machine that is in the text of a line has stored where it starts.\<close>

definition cap_ok :: "klog_parser \<Rightarrow> bool" where
  "cap_ok p \<longleftrightarrow> (kl_state p \<in> {IN_BODY, END_LOG} \<longrightarrow> kl_cap p \<noteq> None)"

type_synonym klog_pos = "bytes \<times> nat \<times> nat \<times> klog_parse_state"

definition parse_fill ::
  "(nat \<Rightarrow> klog_parser \<Rightarrow> klog_parser option) \<Rightarrow> klog_pos \<Rightarrow> singleLog \<Rightarrow> (klog_pos \<times> bool \<times> singleLog) option" where
  "parse_fill sw = (\<lambda>(mem, pos, rest, st) l.
     map_option (\<lambda>r. ((kr_mem r, kr_moved r, kr_remain r, kr_state r), kr_ok r, kr_entry r))
       (parse_klog sw mem pos rest st l))"

definition pos_ok :: "klog_pos \<Rightarrow> bool" where
  "pos_ok = (\<lambda>(mem, pos, rest, st). pos + rest \<le> length mem \<and> st \<notin> {IN_BODY, END_LOG})"

lemma klog_copy_keeps:
  assumes "pool_log sz (Some l)" "cap + k \<le> length mem"
  shows "\<exists>b. klog_copy mem cap k (sl_buf l) = Some b \<and> pool_log sz (Some (l'\<lparr>sl_buf := b\<rparr>))"
proof -
  obtain base where b: "hb_base (sl_buf l) = Some base" "hb_ok (sl_buf l)" "hb_len (sl_buf l) = sz"
    using assms(1) by (auto simp: pool_log_def)
  have "at mem cap (take k (drop cap mem))" "length (take k (drop cap mem)) = k"
    using assms(2) by (auto simp: at_def)
  from klog_copy_fits [OF b(2,1) this(1)] this(2) b(3) show ?thesis by (auto simp: pool_log_def)
qed

lemma klog_loop_rest: "klog_loop sw r p = Some (p', r') \<Longrightarrow> r' \<le> r"
proof (induction r arbitrary: p)
  case (Suc r)
  then show ?case by (fastforce simp: bind_eq_Some_conv split: if_splits)
qed simp

locale klog_machine =
  fixes sw :: "nat \<Rightarrow> klog_parser \<Rightarrow> klog_parser option"
  assumes sw_keeps: "kl_look p < length (kl_mem p) \<Longrightarrow> kl_state p \<notin> {INVALID, END_LOG} \<Longrightarrow> cap_ok p \<Longrightarrow>
    \<exists>p'. sw (Suc r) p = Some p' \<and> kl_look p' = kl_look p \<and> length (kl_mem p') = length (kl_mem p) \<and> cap_ok p'"
begin

lemma loop_keeps:
  assumes "kl_look p + r \<le> length (kl_mem p)" "cap_ok p"
  shows "\<exists>p' r'. klog_loop sw r p = Some (p', r') \<and> kl_look p' + r' = kl_look p + r \<and>
    length (kl_mem p') = length (kl_mem p) \<and> cap_ok p' \<and>
    (kl_state p \<notin> {INVALID, END_LOG} \<and> kl_state p' = END_LOG \<longrightarrow> r' < r)"
  using assms
proof (induction r arbitrary: p)
  case (Suc r)
  show ?case
  proof (cases "kl_state p \<in> {INVALID, END_LOG}")
    case True
    then show ?thesis using Suc.prems by auto
  next
    case False
    from sw_keeps [OF _ this Suc.prems(2), of r] Suc.prems(1) obtain p1 where
      p1: "sw (Suc r) p = Some p1" "kl_look p1 = kl_look p" "length (kl_mem p1) = length (kl_mem p)" "cap_ok p1"
      by auto
    from Suc.IH [of "p1\<lparr>kl_look := kl_look p1 + 1\<rparr>"] p1 Suc.prems(1) obtain p' r' where
      p': "klog_loop sw r (p1\<lparr>kl_look := kl_look p1 + 1\<rparr>) = Some (p', r')" "kl_look p' + r' = Suc (kl_look p) + r"
        "length (kl_mem p') = length (kl_mem p)" "cap_ok p'" by (auto simp: cap_ok_def)
    have "r' \<le> r"
      using p' Suc.prems(1) klog_loop_rest [OF p'(1)] by simp
    then show ?thesis using p1(1) p' False by simp
  qed
qed auto

lemma parse_keeps:
  assumes "pos + rest \<le> length mem" "st \<notin> {IN_BODY, END_LOG}" "pool_log sz (Some l)"
  shows "\<exists>r. parse_klog sw mem pos rest st l = Some r \<and> pool_log sz (Some (kr_entry r)) \<and>
    kr_moved r + kr_remain r = pos + rest \<and> length (kr_mem r) = length mem \<and>
    (kr_ok r \<longrightarrow> kr_state r = LEVEL_BEGIN \<and> kr_remain r < rest)"
proof -
  let ?p = "\<lparr>kl_mem = mem, kl_look = pos, kl_state = st, kl_cap = None, kl_level = m_level (em_m (sl_meta l))\<rparr>"
  from loop_keeps [of ?p rest] assms(1,2) obtain p r where
    p: "klog_loop sw rest ?p = Some (p, r)" "kl_look p + r = pos + rest" "length (kl_mem p) = length mem" "cap_ok p"
      "st \<noteq> INVALID \<and> kl_state p = END_LOG \<longrightarrow> r < rest" by (auto simp: cap_ok_def)
  have pl: "pool_log sz (Some (l\<lparr>sl_meta := m\<rparr>))" for m using assms(3) by (simp add: pool_log_def)
  show ?thesis
  proof (cases "kl_state p = END_LOG")
    case False
    then show ?thesis using p pl by (simp add: parse_klog_def Let_def)
  next
    case True
    then obtain cap where cap: "kl_cap p = Some cap" using p(4) by (auto simp: cap_ok_def)
    have i: "st \<noteq> INVALID"
    proof
      assume "st = INVALID"
      then have "klog_loop sw rest ?p = Some (?p, rest)" by (cases rest) simp_all
      then show False using p(1) True \<open>st = INVALID\<close> by auto
    qed
    show ?thesis
    proof (cases "kl_look p > cap")
      case f: False
      then show ?thesis using p pl True cap by (simp add: parse_klog_def Let_def)
    next
      case t: True
      have "cap + (kl_look p - cap - 1) \<le> length (kl_mem p)" using t p(2,3) assms(1) by simp
      from klog_copy_keeps [OF assms(3) this] show ?thesis
        using p pl True cap t i by (fastforce simp: parse_klog_def Let_def)
    qed
  qed
qed

end

sublocale klog_machine \<subseteq> source: entry_source "parse_fill sw" pos_ok
proof unfold_locales
  fix s :: klog_pos and sz l
  assume s: "pos_ok s" "pool_log sz (Some l)"
  obtain mem pos rest st where e: "s = (mem, pos, rest, st)" by (cases s)
  from parse_keeps [of pos rest mem st sz l] s e show
    "\<exists>s' ok l'. parse_fill sw s l = Some (s', ok, l') \<and> pool_log sz (Some l') \<and> (ok \<longrightarrow> pos_ok s')"
    by (auto simp: parse_fill_def pos_ok_def)
qed

interpretation klog: klog_machine klog_switch
proof unfold_locales
  fix p :: klog_parser and r
  assume "kl_look p < length (kl_mem p)" "kl_state p \<notin> {INVALID, END_LOG}" "cap_ok p"
  then show "\<exists>p'. klog_switch (Suc r) p = Some p' \<and> kl_look p' = kl_look p \<and>
      length (kl_mem p') = length (kl_mem p) \<and> cap_ok p'"
    by (cases "kl_state p") (auto simp: klog_switch_def klog_level_end_def cap_ok_def Let_def split: option.split)
qed

interpretation devklog: klog_machine devklog_switch
proof unfold_locales
  fix p :: klog_parser and r
  assume "kl_look p < length (kl_mem p)" "kl_state p \<notin> {INVALID, END_LOG}" "cap_ok p"
  then show "\<exists>p'. devklog_switch (Suc r) p = Some p' \<and> kl_look p' = kl_look p \<and>
      length (kl_mem p') = length (kl_mem p) \<and> cap_ok p'"
    by (cases "kl_state p") (auto simp: devklog_switch_def devklog_level_end_def cap_ok_def Let_def split: option.split)
qed

section \<open>The kernel sinks survive any bytes\<close>

lemma klog_drain_round:
  "klog_drain (Suc k) g mem pos rest st =
     Option.bind (pool_round (parse_fill klog_switch) (mem, pos, rest, st) g) (\<lambda>(ok, (mem', pos', rest', st'), g').
       if ok then klog_drain k g' mem' pos' rest' st' else Some (g', mem'))"
  by (auto simp: pool_round_def parse_fill_def parse_single_klog_to_singleLog_def Option.bind_map_option
      option.map_comp o_def split: option.split prod.split grease_ret.split intro!: bind_option_cong)
    (simp add: map_conv_bind_option o_def)

lemma klog_round_moves:
  assumes "pool_inv n gr g" "pool_round (parse_fill klog_switch) (mem, pos, rest, LEVEL_BEGIN) g =
      Some (True, (mem', pos', rest', st'), g')" "pos + rest \<le> length mem"
  shows "st' = LEVEL_BEGIN \<and> rest' < rest \<and> pos' + rest' \<le> length mem'"
proof (rule grab_cases [OF assms(1)])
  assume "grabInLogBuffer g = (GREASE_OVERFLOW, None, g)"
  then show ?thesis using assms(2) by (simp add: pool_round_def)
next
  fix a p l
  assume g: "grabInLogBuffer g = (GREASE_OK, Some a, g\<lparr>masterBufferAvail := p\<rparr>)"
    "logs (env g) a = Some l" "pool_log (bufferSize g) (Some l)"
  from klog.parse_keeps [OF assms(3) _ g(3), of LEVEL_BEGIN] g(1,2) assms(2,3) show ?thesis
    by (fastforce simp: pool_round_def parse_fill_def bind_eq_Some_conv)
qed

lemma klog_drain_any:
  assumes "pool_inv n gr g" "pos + rest \<le> length mem" "rest < k" "rest < j"
  shows "\<exists>g' mem'. klog_drain k g mem pos rest LEVEL_BEGIN = Some (g', mem') \<and> pool_inv n gr g' \<and>
    klog_drain j g mem pos rest LEVEL_BEGIN = Some (g', mem')"
  using assms
proof (induction k arbitrary: g mem pos rest j)
  case (Suc k)
  obtain j' where j: "j = Suc j'" using Suc.prems(4) by (cases j) auto
  have "pos_ok (mem, pos, rest, LEVEL_BEGIN)" using Suc.prems(2) by (simp add: pos_ok_def)
  from klog.source.round_keeps [OF Suc.prems(1) this] obtain ok s' g' where
    r: "pool_round (parse_fill klog_switch) (mem, pos, rest, LEVEL_BEGIN) g = Some (ok, s', g')" "pool_inv n gr g'"
    by blast
  obtain mem' pos' rest' st' where s': "s' = (mem', pos', rest', st')" by (cases s')
  show ?case
  proof (cases ok)
    case True
    have "st' = LEVEL_BEGIN \<and> rest' < rest \<and> pos' + rest' \<le> length mem'"
      by (rule klog_round_moves [OF Suc.prems(1) _ Suc.prems(2)]) (use r(1) True s' in simp)
    then show ?thesis using Suc.IH [OF r(2), of pos' rest' mem' j'] Suc.prems(3,4) j r(1) s' True
      by (simp add: klog_drain_round del: klog_drain.simps)
  next
    case False
    then show ?thesis using r s' j by (simp add: klog_drain_round del: klog_drain.simps)
  qed
qed simp

lemma klog_read_any:
  assumes "pool_inv n gr g" "length data < length temp"
  shows "\<exists>g' mem. klog_read g temp data = Some (g', mem) \<and> pool_inv n gr g' \<and>
    (\<forall>k \<ge> length temp. klog_drain k g (data @ [0] @ drop (length data + 1) temp) 0 (length temp - 1) LEVEL_BEGIN =
       Some (g', mem))"
proof -
  let ?m = "data @ [0] @ drop (length data + 1) temp"
  have w: "buf_write temp 0 (data @ [0]) = Some ?m" using assms(2) by (simp add: buf_write_def)
  have l: "0 + (length temp - 1) \<le> length ?m" "length temp - 1 < length temp" using assms(2) by auto
  from klog_drain_any [OF assms(1) l l(2)] obtain g' mem where
    d: "klog_drain (length temp) g ?m 0 (length temp - 1) LEVEL_BEGIN = Some (g', mem)" "pool_inv n gr g'" by blast
  have "klog_drain k g ?m 0 (length temp - 1) LEVEL_BEGIN = Some (g', mem)" if "length temp \<le> k" for k
    using klog_drain_any [OF assms(1) l, of k] that l(2) d(1) by auto
  then show ?thesis using w d by (simp add: klog_read_def)
qed

text \<open>Robustness of the kernel log sink. Whatever bytes a read of the ring buffer delivers, the
  sink's loop ends, however many rounds it is given, without leaving its buffer, and the logger's
  pool keeps its buffers.\<close>

lemma klog_any:
  assumes "pool_inv n gr g" "length data < length temp"
  shows "\<exists>g' mem. klog_read g temp data = Some (g', mem) \<and> pool_inv n gr g' \<and>
    (\<forall>k \<ge> length temp. klog_drain k g (data @ [0] @ drop (length data + 1) temp) 0 (length temp - 1) LEVEL_BEGIN =
       Some (g', mem))"
  by (rule klog_read_any [OF assms])

lemma klog_any_example:
  "\<exists>g' mem. klog_read ex_logger (LMALLOC 16) [0x3C, 0x39, 0x3E, 0x00, 0xFF] = Some (g', mem) \<and> pool_inv 2 [] g'"
  using klog_any [OF ex_logger_parts(1), of "[0x3C, 0x39, 0x3E, 0x00, 0xFF]" "LMALLOC 16"]
  by (auto simp: LMALLOC_def simp del: klog_drain.simps)

section \<open>The second kernel sink\<close>

text \<open>While the listener of \<open>KernelProcKmsg2Sink\<close> runs it starts each round afresh; the pool buffer it
  holds when it ended is not lost.\<close>

definition kmsg_held :: "kmsg_sink \<Rightarrow> nat list" where
  "kmsg_held ks = (case ks_entry ks of None \<Rightarrow> [] | Some a \<Rightarrow> [a])"

definition kmsg_inv :: "nat \<Rightarrow> nat list \<Rightarrow> kmsg_sink \<Rightarrow> grease \<Rightarrow> bool" where
  "kmsg_inv n gr ks g \<longleftrightarrow> pool_inv n (kmsg_held ks @ gr) g \<and>
     (ks_running ks \<longrightarrow> ks_parse_state ks = LEVEL_BEGIN \<and> ks_read_into ks = 0 \<and> ks_entry ks = None)"

lemma kmsg_parse_any:
  assumes "pool_inv n (a # gr) g" "logs (env g) a = Some l" "pool_log (bufferSize g) (Some l)"
    "ks_parse_state ks = LEVEL_BEGIN" "ks_read_into ks = 0" "length data < length (ks_buf ks)"
  shows "\<exists>ks' g'. kmsg_parse data a ks g = Some (ks', g') \<and> kmsg_inv n gr ks' g' \<and> length (ks_buf ks') = length (ks_buf ks)"
proof -
  define mem where "mem = data @ [0] @ drop (length data + 1) (ks_buf ks)"
  have w: "buf_write (ks_buf ks) 0 (data @ [0]) = Some mem" "length mem = length (ks_buf ks)"
    using assms(6) by (simp_all add: buf_write_def mem_def)
  have "0 + length data \<le> length mem" using assms(6) w(2) by simp
  from devklog.parse_keeps [OF this _ assms(3), of LEVEL_BEGIN] obtain r where
    r: "parse_klog devklog_switch mem 0 (length data) LEVEL_BEGIN l = Some r" "pool_log (bufferSize g) (Some (kr_entry r))"
      "length (kr_mem r) = length mem" "kr_ok r \<longrightarrow> kr_state r = LEVEL_BEGIN" by auto
  note i = put_entry_inv [OF assms(1) r(2), of a]
  obtain g1 where g1: "submit_entry (put_entry g a (kr_entry r)) a = Some g1" "pool_inv n gr g1"
    using submit_entry_inv [OF assms(1) r(2)] by blast
  obtain g2 where g2: "returnBuffer_master (put_entry g a (kr_entry r)) a = Some g2" "pool_inv n gr g2"
    using returnBuffer_master_inv [OF i] by blast
  show ?thesis
    using assms(2,4,5) w r g1 g2 i
    by (auto simp: kmsg_parse_def parse_single_devklog_to_singleLog_def Let_def kmsg_inv_def kmsg_held_def)
qed

lemma kmsg_any:
  assumes "kmsg_inv n gr ks g" "ks_running ks" "length data < length (ks_buf ks)"
  shows "\<exists>ks' g'. kmsg_readable data ks g = Some (ks', g') \<and> kmsg_inv n gr ks' g' \<and> length (ks_buf ks') = length (ks_buf ks)"
proof -
  have ks: "pool_inv n gr g" "ks_parse_state ks = LEVEL_BEGIN" "ks_read_into ks = 0" "ks_entry ks = None"
    using assms(1,2) by (auto simp: kmsg_inv_def kmsg_held_def)
  show ?thesis
  proof (rule grab_cases [OF ks(1)])
    assume "grabInLogBuffer g = (GREASE_OVERFLOW, None, g)"
    then show ?thesis using ks by (auto simp: kmsg_readable_def kmsg_inv_def kmsg_held_def)
  next
    fix a p l
    let ?g = "g\<lparr>masterBufferAvail := p\<rparr>"
    assume g: "grabInLogBuffer g = (GREASE_OK, Some a, ?g)" "pool_inv n (a # gr) ?g"
      "logs (env g) a = Some l" "pool_log (bufferSize g) (Some l)"
    obtain g2 where g2: "returnBuffer_master ?g a = Some g2" "pool_inv n gr g2"
      using returnBuffer_master_inv [OF g(2)] by blast
    then show ?thesis
      using g ks kmsg_parse_any [OF g(2), of l ks data] assms(3)
      by (auto simp: kmsg_readable_def kmsg_inv_def kmsg_held_def)
  qed
qed

end
