(* ===== verification/Fd_Redirect.thy ===== *)
theory Fd_Redirect
  imports Entry_Source
begin

text \<open>
  The descriptors that the library logs for a process (\<open>grease_lib.cc\<close>): the tickets, the two tables
  for standard output and standard error, the calls that add and remove a descriptor, and the two
  poll callbacks, which differ in tag, level and stream type. The results of \<open>read\<close> are arguments:
  \<open>Some\<close> the bytes it delivers, none at the end of the stream, or \<open>None\<close> for an error such as
  \<open>EAGAIN\<close>.
\<close>

section \<open>Tickets and tables\<close>

record fdRedirectorTicket =
  tk_isValid :: bool
  tk_origin :: OriginId
  tk_tag :: TagId
  tk_level :: LevelMask
  tk_fd :: int
  tk_closed :: bool
  tk_polling :: bool               \<comment> \<open>\<open>uv_poll_start\<close> was called and not \<open>uv_poll_stop\<close>\<close>
  tk_cb :: bool                    \<comment> \<open>a callback was given\<close>

text \<open>\<open>initialised\<close> is whether libuv accepts the descriptor.\<close>

definition fdRedirectorTicket_new :: "bool \<Rightarrow> OriginId \<Rightarrow> int \<Rightarrow> bool \<Rightarrow> fdRedirectorTicket" where
  "fdRedirectorTicket_new initialised orig fd cb =
     \<lparr>tk_isValid = initialised, tk_origin = orig, tk_tag = 0, tk_level = 0, tk_fd = fd, tk_closed = False,
      tk_polling = False, tk_cb = cb\<rparr>"

definition isValid :: "fdRedirectorTicket \<Rightarrow> bool" where "isValid r = tk_isValid r"

datatype stream_type = GREASE_PROCESS_STDOUT | GREASE_PROCESS_STDERR

text \<open>The library's tables, the descriptors it closed and the callbacks it made.\<close>

record redirects =
  stdoutRedirectTable :: "int \<rightharpoonup> fdRedirectorTicket"
  stderrRedirectTable :: "int \<rightharpoonup> fdRedirectorTicket"
  defaultRedirectorClosedCB :: bool
  fds_closed :: "int list"
  closed_calls :: "(stream_type \<times> int) list"

definition redirects_new :: redirects where
  "redirects_new =
     \<lparr>stdoutRedirectTable = Map.empty, stderrRedirectTable = Map.empty, defaultRedirectorClosedCB = False,
      fds_closed = [], closed_calls = []\<rparr>"

definition table :: "stream_type \<Rightarrow> redirects \<Rightarrow> int \<rightharpoonup> fdRedirectorTicket" where
  "table s rs = (case s of GREASE_PROCESS_STDOUT \<Rightarrow> stdoutRedirectTable rs
                         | GREASE_PROCESS_STDERR \<Rightarrow> stderrRedirectTable rs)"

definition set_table :: "stream_type \<Rightarrow> (int \<rightharpoonup> fdRedirectorTicket) \<Rightarrow> redirects \<Rightarrow> redirects" where
  "set_table s m rs = (case s of GREASE_PROCESS_STDOUT \<Rightarrow> rs\<lparr>stdoutRedirectTable := m\<rparr>
                               | GREASE_PROCESS_STDERR \<Rightarrow> rs\<lparr>stderrRedirectTable := m\<rparr>)"

definition ticket_close :: "fdRedirectorTicket \<Rightarrow> redirects \<Rightarrow> fdRedirectorTicket \<times> redirects" where
  "ticket_close r rs =
     (if \<not> tk_closed r then (r\<lparr>tk_closed := True\<rparr>, rs\<lparr>fds_closed := fds_closed rs @ [tk_fd r]\<rparr>) else (r, rs))"

text \<open>\<open>addFDForStdout\<close> and \<open>addFDForStderr\<close>; \<open>True\<close> for \<open>GREASE_LIB_OK\<close>. A ticket that is replaced is
  deleted, which stops its polling and leaves its descriptor open.\<close>

definition addFD :: "stream_type \<Rightarrow> bool \<Rightarrow> int \<Rightarrow> OriginId \<Rightarrow> bool \<Rightarrow> redirects \<Rightarrow> bool \<times> redirects" where
  "addFD s initialised fd originId cb rs =
     (let r = fdRedirectorTicket_new initialised originId fd cb in
      if \<not> isValid r then (False, rs)
      else (True, set_table s ((table s rs)(fd \<mapsto> r\<lparr>tk_polling := True\<rparr>)) rs))"

definition addFDForStdout :: "bool \<Rightarrow> int \<Rightarrow> OriginId \<Rightarrow> bool \<Rightarrow> redirects \<Rightarrow> bool \<times> redirects" where
  "addFDForStdout = addFD GREASE_PROCESS_STDOUT"
definition addFDForStderr :: "bool \<Rightarrow> int \<Rightarrow> OriginId \<Rightarrow> bool \<Rightarrow> redirects \<Rightarrow> bool \<times> redirects" where
  "addFDForStderr = addFD GREASE_PROCESS_STDERR"

definition addDefaultRedirectorClosedCB :: "bool \<Rightarrow> redirects \<Rightarrow> redirects" where
  "addDefaultRedirectorClosedCB cb rs = rs\<lparr>defaultRedirectorClosedCB := cb\<rparr>"

definition removeFD :: "stream_type \<Rightarrow> int \<Rightarrow> redirects \<Rightarrow> redirects" where
  "removeFD s fd rs =
     (case table s rs fd of
        None \<Rightarrow> rs
      | Some r \<Rightarrow> snd (ticket_close r (set_table s ((table s rs)(fd := None)) rs)))"

definition removeFDForStdout :: "int \<Rightarrow> redirects \<Rightarrow> redirects" where
  "removeFDForStdout = removeFD GREASE_PROCESS_STDOUT"
definition removeFDForStderr :: "int \<Rightarrow> redirects \<Rightarrow> redirects" where
  "removeFDForStderr = removeFD GREASE_PROCESS_STDERR"

section \<open>The poll callbacks\<close>

definition GREASE_TAG_STDOUT :: TagId where "GREASE_TAG_STDOUT = 1"
definition GREASE_TAG_STDERR :: TagId where "GREASE_TAG_STDERR = 2"

definition std_tag :: "stream_type \<Rightarrow> TagId" where
  "std_tag s = (case s of GREASE_PROCESS_STDOUT \<Rightarrow> GREASE_TAG_STDOUT | GREASE_PROCESS_STDERR \<Rightarrow> GREASE_TAG_STDERR)"

definition std_level :: "stream_type \<Rightarrow> LevelMask" where
  "std_level s = (case s of GREASE_PROCESS_STDOUT \<Rightarrow> GREASE_LEVEL_LOG | GREASE_PROCESS_STDERR \<Rightarrow> GREASE_LEVEL_ERROR)"

definition fd_meta :: "stream_type \<Rightarrow> fdRedirectorTicket \<Rightarrow> logMeta \<Rightarrow> logMeta" where
  "fd_meta s r m =
     m\<lparr>m_origin := tk_origin r, m_tag := (if tk_tag r > 0 then tk_tag r else std_tag s),
       m_level := (if tk_level r > 0 then tk_level r else std_level s)\<rparr>"

text \<open>\<open>read\<close> into the entry, of at most \<open>handle.len\<close> bytes; the flag says whether there were any. The
  descriptor's state is the list of the results that are still to come, and whether its end was seen.\<close>

definition fd_fill ::
  "stream_type \<Rightarrow> fdRedirectorTicket \<Rightarrow> bytes option list \<times> bool \<Rightarrow> singleLog \<Rightarrow>
   ((bytes option list \<times> bool) \<times> bool \<times> singleLog) option" where
  "fd_fill s r st l =
     (case fst st of
        [] \<Rightarrow> Some (st, False, l)
      | None # reads \<Rightarrow> Some ((reads, snd st), False, l)
      | Some data # reads \<Rightarrow>
          (case hb_base (sl_buf l) of
             None \<Rightarrow> None
           | Some base \<Rightarrow>
               (let d = take (hb_len (sl_buf l)) data in
                Option.bind (buf_write base 0 d) (\<lambda>base'.
                  let b = (sl_buf l)\<lparr>hb_base := Some base'\<rparr>
                  in if d \<noteq> [] then
                       Some ((reads, snd st), True,
                         l\<lparr>sl_buf := b\<lparr>hb_used := length d\<rparr>,
                           sl_meta := (sl_meta l)\<lparr>em_m := fd_meta s r (em_m (sl_meta l))\<rparr>\<rparr>)
                     else Some ((reads, True), False, l\<lparr>sl_buf := b\<rparr>)))))"

text \<open>The loop, which ends with the first result that is no data or when no pool buffer is free.\<close>

fun fd_loop ::
  "nat \<Rightarrow> stream_type \<Rightarrow> fdRedirectorTicket \<Rightarrow> bytes option list \<times> bool \<Rightarrow> grease \<Rightarrow>
   ((bytes option list \<times> bool) \<times> grease) option" where
  "fd_loop 0 s r st g = None"
| "fd_loop (Suc k) s r st g =
     Option.bind (pool_round (fd_fill s r) st g)
       (\<lambda>(ok, st', g'). if ok then fd_loop k s r st' g' else Some (st', g'))"

definition UV_READABLE :: int where "UV_READABLE = 1"

text \<open>\<open>_greaseLib_handle_stdoutFd_cb\<close> and \<open>_greaseLib_handle_stderrFd_cb\<close> for the descriptor \<open>fd\<close>; the
  result also holds the results of \<open>read\<close> that were not asked for.\<close>

definition handle_fd ::
  "stream_type \<Rightarrow> int \<Rightarrow> int \<Rightarrow> int \<Rightarrow> bytes option list \<Rightarrow> redirects \<times> grease \<Rightarrow>
   (bytes option list \<times> redirects \<times> grease) option" where
  "handle_fd s fd status events reads st =
     (let (rs, g) = st in
      case table s rs fd of
        None \<Rightarrow> Some (reads, rs, g)
      | Some r \<Rightarrow>
          if status = 0 \<and> events AND UV_READABLE \<noteq> 0 then
            map_option (\<lambda>((reads', ended), g').
                if ended then
                  (let (r1, rs1) = ticket_close r rs;
                       rs2 = set_table s ((table s rs1)(fd \<mapsto> r1\<lparr>tk_polling := False\<rparr>)) rs1
                   in (reads', (if tk_cb r \<or> defaultRedirectorClosedCB rs
                               then rs2\<lparr>closed_calls := closed_calls rs2 @ [(s, tk_fd r)]\<rparr> else rs2), g'))
                else (reads', rs, g'))
              (fd_loop (length reads + 1) s r (reads, False) g)
          else Some (reads, rs, g))"

section \<open>The contract\<close>

interpretation fd: entry_source "fd_fill s r" "\<lambda>_. True" for s r
proof unfold_locales
  fix st :: "bytes option list \<times> bool" and sz l
  assume "pool_log sz (Some l)"
  then obtain base where b: "hb_base (sl_buf l) = Some base" "length base = hb_len (sl_buf l)"
      "hb_len (sl_buf l) = sz" "hb_used (sl_buf l) \<le> sz"
    by (auto simp: pool_log_def hb_ok_def)
  then show "\<exists>s' ok l'. fd_fill s r st l = Some (s', ok, l') \<and> pool_log sz (Some l') \<and> (ok \<longrightarrow> True)"
    by (cases "fst st") (auto simp: fd_fill_def pool_log_def hb_ok_def buf_write_def Let_def split: option.split)
qed

lemma fd_round_moves:
  assumes "pool_round (fd_fill s r) st g = Some (True, st', g')"
  shows "length (fst st') < length (fst st)"
proof -
  have "fd_fill s r st l = Some (st', True, l') \<Longrightarrow> length (fst st') < length (fst st)" for l l'
    by (cases "fst st") (auto simp: fd_fill_def Let_def bind_eq_Some_conv split: option.splits if_splits)
  then show ?thesis using assms
    by (fastforce simp: pool_round_def bind_eq_Some_conv split: prod.splits grease_ret.splits option.splits)
qed

lemma fd_loop_any:
  assumes "pool_inv n gr g" "length (fst st) < k"
  shows "\<exists>st' g'. fd_loop k s r st g = Some (st', g') \<and> pool_inv n gr g'"
  using assms
proof (induction k arbitrary: g st)
  case (Suc k)
  from fd.round_keeps [OF Suc.prems(1), of s r st] obtain ok st' g' where
    r: "pool_round (fd_fill s r) st g = Some (ok, st', g')" "pool_inv n gr g'" by blast
  show ?case
  proof (cases ok)
    case True
    then show ?thesis using r Suc.IH [OF r(2), of st'] fd_round_moves [of s r st g st' g'] Suc.prems(2) by simp
  qed (use r in simp)
qed simp

lemma handle_fd_any:
  assumes "pool_inv n gr g"
  shows "\<exists>reads' rs' g'. handle_fd s fd status events reads (rs, g) = Some (reads', rs', g') \<and> pool_inv n gr g'"
proof (cases "table s rs fd")
  case None
  then show ?thesis using assms by (simp add: handle_fd_def)
next
  case (Some r)
  obtain rd e g' where "fd_loop (length reads + 1) s r (reads, False) g = Some ((rd, e), g')" "pool_inv n gr g'"
    using fd_loop_any [OF assms, of "(reads, False)" "length reads + 1" s r] by auto
  then show ?thesis using Some assms by (cases e) (simp_all add: handle_fd_def Let_def case_prod_beta)
qed

section \<open>What a process prints is logged\<close>

definition chunk_in :: "stream_type \<Rightarrow> fdRedirectorTicket \<Rightarrow> bytes \<Rightarrow> singleLog option \<Rightarrow> bool" where
  "chunk_in s r data x \<longleftrightarrow> (\<exists>l base. x = Some l \<and>
     m_origin (em_m (sl_meta l)) = tk_origin r \<and>
     m_tag (em_m (sl_meta l)) = (if tk_tag r > 0 then tk_tag r else std_tag s) \<and>
     m_level (em_m (sl_meta l)) = (if tk_level r > 0 then tk_level r else std_level s) \<and>
     hb_used (sl_buf l) = length data \<and> hb_base (sl_buf l) = Some base \<and> take (length data) base = data)"

lemma fd_round_data:
  assumes "pool_inv n gr g" "circ_list (masterBufferAvail g) = a # as" "data \<noteq> []" "length data \<le> bufferSize g"
    "cmd_room g (Suc k)"
  shows "\<exists>g' l. pool_round (fd_fill s r) (Some data # reads, e) g = Some (True, (reads, e), g') \<and> pool_inv n gr g' \<and>
    cmd_room g' k \<and> circ_list (internalCmdQueue (env g')) = circ_list (internalCmdQueue (env g)) @ [new_log_cmd a] \<and>
    logs (env g') = (logs (env g))(a \<mapsto> l) \<and> chunk_in s r data (Some l) \<and>
    circ_list (masterBufferAvail g') = as \<and> bufferSize g' = bufferSize g \<and> a \<notin> set as \<and>
    (\<forall>l0. logs (env g) a = Some l0 \<longrightarrow> sl_meta l = (sl_meta l0)\<lparr>em_m := fd_meta s r (em_m (sl_meta l0))\<rparr>)"
proof (rule grab_some [OF assms(1,2)])
  fix p l
  let ?g = "g\<lparr>masterBufferAvail := p\<rparr>"
  assume g: "grabInLogBuffer g = (GREASE_OK, Some a, ?g)" "circ_list p = as" "pool_inv n (a # gr) ?g"
    "logs (env g) a = Some l" "pool_log (bufferSize g) (Some l)" "a \<notin> set as"
  obtain base where b: "hb_base (sl_buf l) = Some base" "length base = hb_len (sl_buf l)" "hb_len (sl_buf l) = bufferSize g"
    using g(5) by (auto simp: pool_log_def hb_ok_def)
  define l1 where "l1 = l\<lparr>sl_buf := (sl_buf l)\<lparr>hb_base := Some (data @ drop (length data) base), hb_used := length data\<rparr>,
    sl_meta := (sl_meta l)\<lparr>em_m := fd_meta s r (em_m (sl_meta l))\<rparr>\<rparr>"
  have f: "fd_fill s r (Some data # reads, e) l = Some ((reads, e), True, l1)"
    using b assms(3,4) by (simp add: fd_fill_def buf_write_def l1_def)
  have pl: "pool_log (bufferSize ?g) (Some l1)" "0 < hb_used (sl_buf l1)"
    using b assms(3,4) by (simp_all add: pool_log_def hb_ok_def l1_def)
  have c: "cmd_room ?g (Suc k)" using assms(5) by (simp add: cmd_room_def)
  from submit_parsed [OF g(3) pl c] obtain g2 l2 where
    g2: "submit_entry (put_entry ?g a l1) a = Some g2" "pool_inv n gr g2" "cmd_room g2 k"
      "circ_list (internalCmdQueue (env g2)) = circ_list (internalCmdQueue (env g)) @ [new_log_cmd a]"
      "logs (env g2) = (logs (env g))(a \<mapsto> l2)" "sl_buf l2 = sl_buf l1" "sl_meta l2 = sl_meta l1"
      "masterBufferAvail g2 = p" "bufferSize g2 = bufferSize g" by auto
  have "chunk_in s r data (Some l2)" using g2(6,7) by (simp add: chunk_in_def l1_def fd_meta_def)
  moreover have "pool_round (fd_fill s r) (Some data # reads, e) g = Some (True, (reads, e), g2)"
    using g(1,4) f g2(1) by (simp add: pool_round_def)
  moreover have "sl_meta l2 = (sl_meta l)\<lparr>em_m := fd_meta s r (em_m (sl_meta l))\<rparr>" using g2(7) by (simp add: l1_def)
  ultimately show ?thesis using g2 g(2,4,6) by auto
qed

lemma fd_round_end:
  assumes "pool_inv n gr g" "circ_list (masterBufferAvail g) = a # as" "x = None \<or> x = Some []"
  shows "\<exists>g'. pool_round (fd_fill s r) (x # reads, e) g = Some (False, (reads, e \<or> x \<noteq> None), g') \<and> pool_inv n gr g' \<and>
    internalCmdQueue (env g') = internalCmdQueue (env g) \<and> (\<forall>b. b \<noteq> a \<longrightarrow> logs (env g') b = logs (env g) b)"
proof (rule grab_some [OF assms(1,2)])
  fix p l
  let ?g = "g\<lparr>masterBufferAvail := p\<rparr>"
  assume g: "grabInLogBuffer g = (GREASE_OK, Some a, ?g)" "pool_inv n (a # gr) ?g"
    "logs (env g) a = Some l" "pool_log (bufferSize g) (Some l)"
  obtain base where b: "hb_base (sl_buf l) = Some base" using g(4) by (auto simp: pool_log_def)
  have f: "fd_fill s r (x # reads, e) l = Some ((reads, e \<or> x \<noteq> None), False, l)"
    using b assms(3) by (auto simp: fd_fill_def buf_write_def Let_def)
  have "pool_inv n (a # gr) (put_entry ?g a l)" by (rule put_entry_inv [OF g(2)]) (use g(4) in simp)
  from returnBuffer_master_inv [OF this] obtain g' where
    g': "returnBuffer_master (put_entry ?g a l) a = Some g'" "pool_inv n gr g'"
      "internalCmdQueue (env g') = internalCmdQueue (env (put_entry ?g a l))" by blast
  have "logs (env g') b = logs (env g) b" if "b \<noteq> a" for b
    using g'(1) that by (auto simp: returnBuffer_master_def put_entry_def split: option.splits)
  then show ?thesis using g(1,3) f g' by (simp add: pool_round_def put_entry_def)
qed

lemma fd_loop_data:
  assumes "pool_inv n gr g" "list_all (\<lambda>d. d \<noteq> [] \<and> length d \<le> bufferSize g) ds" "x = None \<or> x = Some []"
    "length ds < length (circ_list (masterBufferAvail g))" "cmd_room g (length ds)" "length ds < k"
  shows "\<exists>g'. fd_loop k s r (map Some ds @ [x], False) g = Some (([], x \<noteq> None), g') \<and> pool_inv n gr g' \<and>
    circ_list (internalCmdQueue (env g')) = circ_list (internalCmdQueue (env g)) @
      map new_log_cmd (take (length ds) (circ_list (masterBufferAvail g))) \<and>
    list_all2 (\<lambda>d a. chunk_in s r d (logs (env g') a)) ds (take (length ds) (circ_list (masterBufferAvail g))) \<and>
    (\<forall>b. b \<notin> set (circ_list (masterBufferAvail g)) \<longrightarrow> logs (env g') b = logs (env g) b)"
  using assms
proof (induction ds arbitrary: g k)
  case Nil
  obtain a as where as: "circ_list (masterBufferAvail g) = a # as"
    using Nil.prems(4) by (cases "circ_list (masterBufferAvail g)") auto
  obtain k' where k: "k = Suc k'" using Nil.prems(6) by (cases k) auto
  from fd_round_end [OF Nil.prems(1) as Nil.prems(3), of s r "[]" False] k show ?case by (auto simp: as)
next
  case (Cons d ds)
  obtain a as where as: "circ_list (masterBufferAvail g) = a # as"
    using Cons.prems(4) by (cases "circ_list (masterBufferAvail g)") auto
  obtain k' where k: "k = Suc k'" using Cons.prems(6) by (cases k) auto
  from fd_round_data [OF Cons.prems(1) as, of d "length ds" s r "map Some ds @ [x]" False] Cons.prems(2,5)
  obtain g1 l where
    g1: "pool_round (fd_fill s r) (Some d # map Some ds @ [x], False) g = Some (True, (map Some ds @ [x], False), g1)"
      "pool_inv n gr g1" "cmd_room g1 (length ds)"
      "circ_list (internalCmdQueue (env g1)) = circ_list (internalCmdQueue (env g)) @ [new_log_cmd a]"
      "logs (env g1) = (logs (env g))(a \<mapsto> l)" "chunk_in s r d (Some l)" "circ_list (masterBufferAvail g1) = as"
      "bufferSize g1 = bufferSize g" "a \<notin> set as" by auto
  from Cons.IH [OF g1(2), of k'] Cons.prems(2-4,6) g1(3,7,8) as k obtain g' where
    g': "fd_loop k' s r (map Some ds @ [x], False) g1 = Some (([], x \<noteq> None), g')" "pool_inv n gr g'"
      "circ_list (internalCmdQueue (env g')) = circ_list (internalCmdQueue (env g1)) @ map new_log_cmd (take (length ds) as)"
      "list_all2 (\<lambda>d a. chunk_in s r d (logs (env g') a)) ds (take (length ds) as)"
      "\<forall>b. b \<notin> set as \<longrightarrow> logs (env g') b = logs (env g1) b" by auto
  have "chunk_in s r d (logs (env g') a)" using g'(5) g1(5,6,9) by simp
  then show ?case using k g1(1,4,5) g' as by auto
qed

text \<open>C21: Redirected output. When a descriptor that is logged for a process becomes readable and delivers
  the chunks \<open>ds\<close>, each fitting a pool buffer, then every chunk is queued for the logger in order, with the
  process's origin and the tag and level of its ticket or of the stream. At the end of the
  stream the descriptor is closed, no longer polled, and the callback is called with it; otherwise
  the tables stay as they were. No pool buffer is lost.\<close>

theorem fd_output_logged:
  assumes "pool_inv n gr g" "table s rs fd = Some r" "tk_fd r = fd" "\<not> tk_closed r"
    "list_all (\<lambda>d. d \<noteq> [] \<and> length d \<le> bufferSize g) ds" "x = None \<or> x = Some []"
    "length ds < length (circ_list (masterBufferAvail g))" "cmd_room g (length ds)"
  shows "\<exists>rs' g'. handle_fd s fd 0 UV_READABLE (map Some ds @ [x]) (rs, g) = Some ([], rs', g') \<and> pool_inv n gr g' \<and>
    circ_list (internalCmdQueue (env g')) = circ_list (internalCmdQueue (env g)) @
      map new_log_cmd (take (length ds) (circ_list (masterBufferAvail g))) \<and>
    list_all2 (\<lambda>d a. chunk_in s r d (logs (env g') a)) ds (take (length ds) (circ_list (masterBufferAvail g))) \<and>
    (if x = None then rs' = rs
     else table s rs' fd = Some (r\<lparr>tk_closed := True, tk_polling := False\<rparr>) \<and>
       fds_closed rs' = fds_closed rs @ [fd] \<and>
       closed_calls rs' = closed_calls rs @ (if tk_cb r \<or> defaultRedirectorClosedCB rs then [(s, fd)] else []))"
proof -
  have u: "UV_READABLE AND UV_READABLE \<noteq> 0" by (simp add: UV_READABLE_def)
  from fd_loop_data [OF assms(1,5-8), of "length (map Some ds @ [x]) + 1" s r] obtain g' where
    g': "fd_loop (length (map Some ds @ [x]) + 1) s r (map Some ds @ [x], False) g = Some (([], x \<noteq> None), g')"
      "pool_inv n gr g'"
      "circ_list (internalCmdQueue (env g')) = circ_list (internalCmdQueue (env g)) @
        map new_log_cmd (take (length ds) (circ_list (masterBufferAvail g)))"
      "list_all2 (\<lambda>d a. chunk_in s r d (logs (env g') a)) ds (take (length ds) (circ_list (masterBufferAvail g)))"
    by auto
  show ?thesis
  proof (cases "x = None")
    case True
    then show ?thesis using g' assms(2) u by (simp add: handle_fd_def del: fd_loop.simps)
  next
    case False
    then show ?thesis using g' assms(2-4) u
      by (cases s) (auto simp add: handle_fd_def ticket_close_def set_table_def table_def simp del: fd_loop.simps)
  qed
qed

definition ex_redirects :: redirects where
  "ex_redirects = snd (addFDForStderr True 7 42 True redirects_new)"

theorem fd_output_logged_witness:
  "\<exists>rs' g'. handle_fd GREASE_PROCESS_STDERR 7 0 UV_READABLE [Some [0x68, 0x69], Some []] (ex_redirects, ex_logger) =
       Some ([], rs', g') \<and>
     circ_list (internalCmdQueue (env g')) = [new_log_cmd 0] \<and> fds_closed rs' = [7] \<and>
     closed_calls rs' = [(GREASE_PROCESS_STDERR, 7)]"
proof -
  let ?r = "(fdRedirectorTicket_new True 42 7 True)\<lparr>tk_polling := True\<rparr>"
  have t: "table GREASE_PROCESS_STDERR ex_redirects 7 = Some ?r" "fds_closed ex_redirects = []" "closed_calls ex_redirects = []"
    by (simp_all add: ex_redirects_def addFDForStderr_def addFD_def fdRedirectorTicket_new_def isValid_def
        table_def set_table_def redirects_new_def)
  have r: "tk_fd ?r = 7" "\<not> tk_closed ?r" "tk_cb ?r" by (simp_all add: fdRedirectorTicket_new_def)
  have bs: "bufferSize ex_logger = 64" by code_simp
  have "csize (internalCmdQueue (env ex_logger)) = 200"
    using arg_cong [OF ex_logger_env, of "\<lambda>e. csize (internalCmdQueue e)"] by (simp add: env_new_def circ_new_def)
  then have room: "cmd_room ex_logger (length [[0x68, 0x69 :: u8]])" using ex_logger_parts(3) by (simp add: cmd_room_def)
  show ?thesis
    using fd_output_logged [OF ex_logger_parts(1) t(1) r(1,2) _ _ _ room, of "Some []"] ex_logger_parts(2,3) bs t(2,3) r(3)
    by (auto simp del: fd_loop.simps)
qed

end
