(* ===== verification/Pipe_Sink.thy ===== *)
theory Pipe_Sink
  imports Dgram_Sink
begin

text \<open>
  \<open>PipeSink\<close> of \<open>logger.h\<close>: the sink of a stream socket, which the source marks as not complete.
  Modelled are the sink with its buffers, the client with its state machine, and \<open>on_read\<close> with every
  conversion between \<open>int\<close> and \<open>size_t\<close>. A read is given as the buffer it filled: the code walks
  over \<open>buf.len\<close> bytes, whatever \<open>nread\<close> says. Pointers to \<open>heapBuf\<close> are numbers, and
  what an accepted connection or a closed handle does inside libuv is left out.
\<close>

section \<open>The sink\<close>

definition DEFAULT_BUFFER_SIZE :: nat where "DEFAULT_BUFFER_SIZE = 2000"
definition SINK_BUFFER_SIZE :: nat where "SINK_BUFFER_SIZE = DEFAULT_BUFFER_SIZE * 2"
definition BUFFERS_PER_SINK :: nat where "BUFFERS_PER_SINK = 4"

datatype pipe_state = PIPE_NEED_PREAMBLE | PIPE_IN_PREAMBLE | PIPE_IN_LOG_ENTRY

record PipeClient =
  pc_temp :: bytes
  temp_used :: int
  state_remain :: int
  log_entry_size :: int
  pc_state :: pipe_state

text \<open>The bytes of a new client's \<open>temp\<close> are not initialised: they are the argument.\<close>

definition PipeClient_new :: "bytes \<Rightarrow> PipeClient" where
  "PipeClient_new raw = \<lparr>pc_temp = raw, temp_used = 0, state_remain = int GREASE_CLIENT_HEADER_SIZE,
     log_entry_size = 0, pc_state = PIPE_NEED_PREAMBLE\<rparr>"

definition resetState :: "PipeClient \<Rightarrow> PipeClient" where
  "resetState c = c\<lparr>pc_state := PIPE_NEED_PREAMBLE, state_remain := int GREASE_CLIENT_HEADER_SIZE,
     temp_used := 0, log_entry_size := 0\<rparr>"

record PipeSink =
  ps_buffers :: "nat circ"
  ps_heap :: "nat \<rightharpoonup> heapBuf"          \<comment> \<open>the buffers that exist\<close>
  ps_path :: "bytes option"
  ps_id :: nat
  ps_clients :: "PipeClient list"       \<comment> \<open>the clients that were allocated\<close>
  ps_deleted :: bool

definition PipeSink_new :: "bytes option \<Rightarrow> nat \<Rightarrow> PipeSink option" where
  "PipeSink_new path i =
     map_option (\<lambda>q. \<lparr>ps_buffers = q,
         ps_heap = (\<lambda>b. if b < BUFFERS_PER_SINK then Some (heapBuf_new SINK_BUFFER_SIZE) else None),
         ps_path = path, ps_id = i, ps_clients = [], ps_deleted = False\<rparr>)
       (put_all circ_add [0..<BUFFERS_PER_SINK] (circ_new 0 (int BUFFERS_PER_SINK) False))"

definition PipeSink_returnBuffer :: "nat \<Rightarrow> PipeSink \<Rightarrow> PipeSink option" where
  "PipeSink_returnBuffer b s = map_option (\<lambda>q. s\<lparr>ps_buffers := q\<rparr>) (circ_add (ps_buffers s) b)"

text \<open>\<open>bind\<close> asserts that there is a path.\<close>

definition PipeSink_bind :: "PipeSink \<Rightarrow> bool option" where
  "PipeSink_bind s = (case ps_path s of None \<Rightarrow> None | Some p \<Rightarrow> Some True)"

text \<open>\<open>alloc_cb\<close>: the buffer with the length that libuv is told, or no buffer and the length 0.\<close>

definition alloc_cb :: "PipeSink \<Rightarrow> ((nat \<times> nat) option \<times> PipeSink) option" where
  "alloc_cb s =
     (case circ_remove (ps_buffers s) of
        None \<Rightarrow> Some (None, s)
      | Some (b, q) \<Rightarrow>
          map_option (\<lambda>h. (Some (b, hb_len h),
              s\<lparr>ps_buffers := q, ps_heap := (ps_heap s)(b \<mapsto> h\<lparr>hb_return_cb := Some (ps_id s)\<rparr>)\<rparr>))
            (ps_heap s b))"

text \<open>\<open>on_new_conn\<close>, with the branch that libuv 1 selects: nobody starts to read from the client, and
  after a failing \<open>uv_accept\<close> the sink is deleted, not the client.\<close>

definition on_new_conn :: "int \<Rightarrow> int \<Rightarrow> bytes \<Rightarrow> PipeSink \<Rightarrow> PipeSink" where
  "on_new_conn status accepted raw s =
     (if status = 0 then
        (let s1 = s\<lparr>ps_clients := ps_clients s @ [PipeClient_new raw]\<rparr> in
         if accepted < 0 then s1\<lparr>ps_deleted := True\<rparr> else s1)
      else s)"

text \<open>The destructor deletes the buffers that are in the queue; the result is what is left on the heap.\<close>

definition PipeSink_delete :: "PipeSink \<Rightarrow> nat \<rightharpoonup> heapBuf" where
  "PipeSink_delete s =
     (let (bs, q) = drain_n circ_remove (nat (csize (ps_buffers s))) (ps_buffers s)
      in (ps_heap s) |` (- set bs))"

section \<open>One read\<close>

text \<open>Conversion to \<open>size_t\<close>, and the total size of an entry, which is of that type.\<close>

definition usize :: "int \<Rightarrow> int" where "usize x = x mod 2 ^ 64"

definition GREASE_TOTAL_MSG_SIZE :: "int \<Rightarrow> int" where
  "GREASE_TOTAL_MSG_SIZE len = usize (len + int GREASE_CLIENT_HEADER_SIZE)"

text \<open>\<open>logFromRaw\<close> takes an \<open>int\<close>; a negative one is a huge size when it is compared.\<close>

definition pipe_log :: "grease \<Rightarrow> bytes \<Rightarrow> int \<Rightarrow> grease option" where
  "pipe_log g base len = (if cint len < 0 then None else map_option snd (logFromRaw g base (nat (cint len))))"

definition pipe_need_preamble :: "bytes \<Rightarrow> int \<times> PipeClient \<Rightarrow> (int \<times> PipeClient) option" where
  "pipe_need_preamble buf wc =
     (let (w, c) = wc; n = int (length buf) in
      if int GREASE_CLIENT_HEADER_SIZE \<le> n then
        map_option (\<lambda>c'. (cint (w + int GREASE_CLIENT_HEADER_SIZE), c'))
          (Option.bind (magic_at buf 0) (\<lambda>m.
             if m = SINK_LOG_PREAMBLE
             then map_option (\<lambda>e. c\<lparr>pc_state := PIPE_IN_LOG_ENTRY, log_entry_size := sint e\<rparr>) (magic_at buf 4)
             else Some (resetState c)))
      else
        map_option (\<lambda>t. (cint (w + n), c\<lparr>state_remain := cint (usize (4 - n)), pc_temp := t, pc_state := PIPE_IN_PREAMBLE\<rparr>))
          (mem_copy (pc_temp c) (temp_used c) buf w n))"

definition pipe_in_preamble :: "bytes \<Rightarrow> int \<times> PipeClient \<Rightarrow> (int \<times> PipeClient) option" where
  "pipe_in_preamble buf wc =
     (let (w, c) = wc; len = int (length buf);
          n = (if len < usize (state_remain c) then cint len else state_remain c)
      in Option.bind (mem_copy (pc_temp c) (temp_used c) buf 0 n) (\<lambda>t.
           let c1 = c\<lparr>pc_temp := t, state_remain := cint (state_remain c - n)\<rparr> in
           map_option (\<lambda>c'. (cint (w + n), c'))
             (if state_remain c1 = 0 then
                Option.bind (magic_at t 0) (\<lambda>m.
                  if m = SINK_LOG_PREAMBLE
                  then map_option (\<lambda>e. c1\<lparr>log_entry_size := sint e, temp_used := 0, pc_state := PIPE_IN_LOG_ENTRY\<rparr>)
                         (magic_at t 4)
                  else Some (resetState c1))
              else Some c1)))"

definition pipe_in_log ::
  "bytes \<Rightarrow> (int \<times> PipeClient) \<times> grease \<Rightarrow> ((int \<times> PipeClient) \<times> grease) option" where
  "pipe_in_log buf st =
     (let ((w, c), g) = st; len = int (length buf); rest = usize (len - w);
          total = GREASE_TOTAL_MSG_SIZE (log_entry_size c)
      in if temp_used c = 0 then
           (if total \<le> rest then
              map_option (\<lambda>g'. ((cint (w + log_entry_size c), resetState c), g')) (pipe_log g buf total)
            else
              map_option (\<lambda>t. ((cint (w + len), c\<lparr>pc_temp := t, temp_used := cint len\<rparr>), g))
                (mem_copy (pc_temp c) 0 buf w rest))
         else
           (let need = cint (total - temp_used c) in
            if usize need \<le> rest then
              Option.bind (mem_copy (pc_temp c) (temp_used c) buf w need) (\<lambda>t.
                map_option (\<lambda>g'. ((cint (w + need), resetState (c\<lparr>pc_temp := t\<rparr>)), g')) (pipe_log g t total))
            else
              map_option (\<lambda>t. let w' = cint (w + rest) in
                  ((w', c\<lparr>pc_temp := t, temp_used := cint (temp_used c + usize (len - w'))\<rparr>), g))
                (mem_copy (pc_temp c) (temp_used c) buf w rest)))"

definition pipe_switch ::
  "bytes \<Rightarrow> (int \<times> PipeClient) \<times> grease \<Rightarrow> ((int \<times> PipeClient) \<times> grease) option" where
  "pipe_switch buf st =
     (let ((w, c), g) = st in
      case pc_state c of
        PIPE_NEED_PREAMBLE \<Rightarrow> map_option (\<lambda>wc. (wc, g)) (pipe_need_preamble buf (w, c))
      | PIPE_IN_PREAMBLE \<Rightarrow> map_option (\<lambda>wc. (wc, g)) (pipe_in_preamble buf (w, c))
      | PIPE_IN_LOG_ENTRY \<Rightarrow> pipe_in_log buf st)"

text \<open>The loop, for at most \<open>k\<close> rounds: it may run forever (\<open>pipe_endless\<close>).\<close>

definition pipe_goes_on :: "bytes \<Rightarrow> (int \<times> PipeClient) \<times> grease \<Rightarrow> bool" where
  "pipe_goes_on buf st \<longleftrightarrow> usize (fst (fst st)) < int (length buf)"

fun pipe_rounds ::
  "nat \<Rightarrow> bytes \<Rightarrow> (int \<times> PipeClient) \<times> grease \<Rightarrow> ((int \<times> PipeClient) \<times> grease) option" where
  "pipe_rounds 0 buf st = Some st"
| "pipe_rounds (Suc k) buf st =
     (if pipe_goes_on buf st then Option.bind (pipe_switch buf st) (pipe_rounds k buf) else Some st)"

text \<open>\<open>on_read\<close>: whether the loop has ended, the client unless it was closed, and the logger.\<close>

definition on_read ::
  "nat \<Rightarrow> int \<Rightarrow> bytes \<Rightarrow> PipeClient \<Rightarrow> grease \<Rightarrow> (bool \<times> PipeClient option \<times> grease) option" where
  "on_read k nread buf c g =
     (if nread = -1 then Some (True, None, g)
      else map_option (\<lambda>st. (\<not> pipe_goes_on buf st, Some (snd (fst st)), snd st)) (pipe_rounds k buf ((0, c), g)))"

section \<open>The buffers\<close>

lemma PipeSink_new_buffers:
  "\<exists>s. PipeSink_new path i = Some s \<and> circ_inv (ps_buffers s) \<and> circ_list (ps_buffers s) = [0, 1, 2, 3] \<and>
     csize (ps_buffers s) = 4 \<and> dom (ps_heap s) = {0, 1, 2, 3} \<and> (\<forall>b\<in>dom (ps_heap s). ps_heap s b = Some (heapBuf_new 4000))"
proof -
  let ?q = "circ_new (0 :: nat) (int BUFFERS_PER_SINK) False"
  have c: "circ_inv ?q" "circ_list ?q = []" "csize ?q = 4"
    using circ_new_abs [of "int BUFFERS_PER_SINK" "0 :: nat" False] by (simp_all add: circ_new_def BUFFERS_PER_SINK_def)
  obtain q where q: "put_all circ_add [0..<BUFFERS_PER_SINK] ?q = Some q" "circ_inv q"
      "circ_list q = [0..<BUFFERS_PER_SINK]" "nat (csize q) = 4"
    using circ_fifo.put_all_view [OF c(1), of "[0..<BUFFERS_PER_SINK]"] c by (auto simp: BUFFERS_PER_SINK_def)
  have four: "[0..<BUFFERS_PER_SINK] = [0, 1, 2, 3]" "{b. b < BUFFERS_PER_SINK} = {0, 1, 2, 3}" "SINK_BUFFER_SIZE = 4000"
    by (auto simp: BUFFERS_PER_SINK_def upt_conv_Cons SINK_BUFFER_SIZE_def DEFAULT_BUFFER_SIZE_def)
  have "csize q = 4" using q(4) by linarith
  then show ?thesis using q(2,3) unfolding PipeSink_new_def q(1) four(3)
    by (auto simp: four dom_def split: if_splits)
qed

text \<open>A read takes the oldest buffer; when all are in use there is none, and \<open>on_read\<close> never gives one back.\<close>

lemma alloc_takes:
  assumes "circ_inv (ps_buffers s)" "circ_list (ps_buffers s) = b # bs" "ps_heap s b = Some h"
  shows "\<exists>s'. alloc_cb s = Some (Some (b, hb_len h), s') \<and> circ_inv (ps_buffers s') \<and> circ_list (ps_buffers s') = bs \<and>
    dom (ps_heap s') = dom (ps_heap s)"
proof -
  obtain q where "circ_remove (ps_buffers s) = Some (b, q)"
    using circ_fifo.get_None_iff [OF assms(1)] circ_fifo.get_view [OF assms(1)] assms(2)
    by (cases "circ_remove (ps_buffers s)") auto
  then show ?thesis using circ_fifo.get_view [OF assms(1)] assms(2,3) by (auto simp: alloc_cb_def)
qed

lemma alloc_none:
  assumes "circ_inv (ps_buffers s)" "circ_list (ps_buffers s) = []"
  shows "alloc_cb s = Some (None, s)"
  using circ_fifo.get_None_iff [OF assms(1)] assms(2) by (simp add: alloc_cb_def)

lemma PipeSink_delete_leaves:
  assumes "circ_inv (ps_buffers s)"
  shows "PipeSink_delete s = (ps_heap s) |` (- set (circ_list (ps_buffers s)))"
proof -
  obtain q where "drain_n circ_remove (nat (csize (ps_buffers s))) (ps_buffers s) = (circ_list (ps_buffers s), q)"
    using circ_fifo.drain_view [OF assms circ_fifo.view_cap [OF assms]] by blast
  then show ?thesis by (simp add: PipeSink_delete_def)
qed

lemma PipeSink_delete_all: "PipeSink_new path i = Some s \<Longrightarrow> PipeSink_delete s = Map.empty"
proof -
  assume "PipeSink_new path i = Some s"
  then have s: "circ_inv (ps_buffers s)" "set (circ_list (ps_buffers s)) = dom (ps_heap s)"
    using PipeSink_new_buffers [of path i] by auto
  then show ?thesis using PipeSink_delete_leaves [OF s(1)] by (auto simp: restrict_map_def)
qed

section \<open>What a read does\<close>

lemma usize_id [simp]: "0 \<le> x \<Longrightarrow> x < 18446744073709551616 \<Longrightarrow> usize x = x"
  by (simp add: usize_def)

lemma read_header:
  assumes "take 8 buf = le32 m @ le32 e"
  shows "magic_at buf 0 = Some m" "magic_at buf 4 = Some e" "8 \<le> length buf"
proof -
  show l: "8 \<le> length buf" using arg_cong [OF assms, of length] by simp
  have "buf = le32 m @ le32 e @ drop 8 buf" using assms by (metis append_assoc append_take_drop_id)
  then have "take 4 buf = le32 m" "take 4 (drop 4 buf) = le32 e" by (metis append_eq_conv_conj length_le32, metis append_eq_conv_conj length_le32)
  then show "magic_at buf 0 = Some m" "magic_at buf 4 = Some e" using l by (simp_all add: magic_at_def buf_read_def)
qed

text \<open>With a whole header in the buffer, the one at its start is read, wherever the walk has come to.\<close>

lemma need_preamble_header:
  assumes "take 8 buf = le32 SINK_LOG_PREAMBLE @ le32 e" "0 \<le> w" "w + 8 < 2147483648" "pc_state c = PIPE_NEED_PREAMBLE"
  shows "pipe_switch buf ((w, c), g) = Some ((w + 8, c\<lparr>pc_state := PIPE_IN_LOG_ENTRY, log_entry_size := sint e\<rparr>), g)"
  using read_header [OF assms(1)] assms(2-4)
  by (simp add: pipe_switch_def pipe_need_preamble_def GREASE_CLIENT_HEADER_SIZE_def)

text \<open>The blocks that reach \<open>logFromRaw\<close>, the same one \<open>n\<close> times.\<close>

fun raw_times :: "nat \<Rightarrow> bytes \<Rightarrow> nat \<Rightarrow> grease \<Rightarrow> grease option" where
  "raw_times 0 base len g = Some g"
| "raw_times (Suc n) base len g = Option.bind (map_option snd (logFromRaw g base len)) (raw_times n base len)"

lemma in_log_whole:
  assumes "pc_state c = PIPE_IN_LOG_ENTRY" "temp_used c = 0" "log_entry_size c = int e" "0 \<le> w"
    "w + int e + 8 \<le> int (length buf)" "length buf < 2147483648"
  shows "pipe_switch buf ((w, c), g) =
    map_option (\<lambda>g'. ((w + int e, resetState c), g')) (map_option snd (logFromRaw g buf (e + 8)))"
proof -
  have "nat (int e + 8) = e + 8" by simp
  then show ?thesis using assms
    by (simp add: pipe_switch_def pipe_in_log_def Let_def GREASE_TOTAL_MSG_SIZE_def GREASE_CLIENT_HEADER_SIZE_def
        pipe_log_def option.map_comp comp_def)
qed

text \<open>One frame at a time: two rounds log the block at the start of the buffer and move on by a frame.\<close>

lemma pipe_frame_rounds:
  assumes "take 8 buf = le32 SINK_LOG_PREAMBLE @ le32 (of_nat e)" "length buf < 2147483648"
    "pc_state c = PIPE_NEED_PREAMBLE" "temp_used c = 0" "resetState c = c" "0 \<le> w" "w + int e + 16 \<le> int (length buf)"
  shows "pipe_rounds (Suc (Suc k)) buf ((w, c), g) =
    Option.bind (map_option snd (logFromRaw g buf (e + 8))) (\<lambda>g'. pipe_rounds k buf ((w + int e + 8, c), g'))"
proof -
  let ?c = "c\<lparr>pc_state := PIPE_IN_LOG_ENTRY, log_entry_size := int e\<rparr>"
  have e: "sint (of_nat e :: u32) = int e" using assms(2,6,7) cint_id [of "int e"] by (simp add: cint_def)
  have r: "resetState ?c = c" using assms(5) by (simp add: resetState_def)
  have one: "pipe_switch buf ((w, c), g) = Some ((w + 8, ?c), g)"
    using need_preamble_header [OF assms(1) assms(6) _ assms(3), of g] assms(2,7) e by simp
  have two: "pipe_switch buf ((w + 8, ?c), g) = map_option (\<lambda>g'. ((w + 8 + int e, c), g')) (map_option snd (logFromRaw g buf (e + 8)))"
    using in_log_whole [of ?c e "w + 8" buf g] assms r by simp
  have "w < int (length buf)" "w + 8 < int (length buf)" using assms(7) by auto
  then have go: "pipe_goes_on buf ((w, c), g)" "pipe_goes_on buf ((w + 8, ?c), g)"
    using assms(2,6) by (simp_all add: pipe_goes_on_def)
  show ?thesis using one two go
    by (cases "logFromRaw g buf (e + 8)") (auto simp: algebra_simps)
qed

lemma pipe_new_reset [simp]: "resetState (PipeClient_new raw) = PipeClient_new raw"
  "pc_state (PipeClient_new raw) = PIPE_NEED_PREAMBLE" "temp_used (PipeClient_new raw) = 0"
  by (simp_all add: resetState_def PipeClient_new_def)

lemma pipe_frames:
  assumes "take 8 buf = le32 SINK_LOG_PREAMBLE @ le32 (of_nat e)" "length buf < 2147483648"
    "0 \<le> w" "w + int n * (int e + 8) + 8 = int (length buf)"
  shows "pipe_rounds (2 * n + 1) buf ((w, PipeClient_new raw), g) = map_option (\<lambda>g'. ((int (length buf),
      (PipeClient_new raw)\<lparr>pc_state := PIPE_IN_LOG_ENTRY, log_entry_size := sint (of_nat e :: u32)\<rparr>), g'))
    (raw_times n buf (e + 8) g)"
  using assms(3,4)
proof (induction n arbitrary: w g)
  case 0
  then have "pipe_goes_on buf ((w, PipeClient_new raw), g)" using assms(2) by (simp add: pipe_goes_on_def)
  then show ?case using need_preamble_header [OF assms(1) 0(1), of "PipeClient_new raw" g] 0 assms(2) by simp
next
  case (Suc n)
  have w: "w + int e + 8 + int n * (int e + 8) + 8 = int (length buf)" using Suc.prems(2) by (simp add: algebra_simps)
  then have "w + int e + 16 \<le> int (length buf)" using mult_nonneg_nonneg [of "int n" "int e + 8"] by linarith
  from pipe_frame_rounds [OF assms(1,2) _ _ _ Suc.prems(1) this, of "PipeClient_new raw" "2 * n + 1" g]
  have "pipe_rounds (Suc (Suc (2 * n + 1))) buf ((w, PipeClient_new raw), g) =
      Option.bind (map_option snd (logFromRaw g buf (e + 8)))
        (\<lambda>g'. pipe_rounds (2 * n + 1) buf ((w + int e + 8, PipeClient_new raw), g'))" by simp
  then show ?case using Suc.IH [OF _ w] Suc.prems(1)
    by (cases "logFromRaw g buf (e + 8)") (simp_all del: pipe_rounds.simps)
qed

lemma pipe_tag:
  assumes "take 8 buf = le32 SINK_LOG_PREAMBLE @ le32 e" "extra_of_bytes buf = Some f"
  shows "m_tag (em_m f) = SINK_LOG_PREAMBLE" "m_level (em_m f) = e"
proof -
  have b: "buf = le32 SINK_LOG_PREAMBLE @ le32 e @ drop 8 buf" using assms(1) by (metis append_assoc append_take_drop_id)
  obtain m where m: "meta_of_bytes buf = Some m" "em_m f = m"
    using assms(2) by (auto simp: extra_of_bytes_def fresh_extra_def split: option.splits if_splits)
  obtain ws where ws: "rd32s 5 buf = Some ws" "m_tag m = ws ! 0" "m_level m = ws ! 1"
    using m(1) by (auto simp: meta_of_bytes_def split: option.splits)
  have "rd32s 5 (le32 SINK_LOG_PREAMBLE @ le32 e @ drop 8 buf) = Some ws" using ws(1) b by simp
  then have "ws ! 0 = SINK_LOG_PREAMBLE" "ws ! 1 = e"
    by (auto simp: eval_nat_numeral split: option.splits)
  then show "m_tag (em_m f) = SINK_LOG_PREAMBLE" "m_level (em_m f) = e" using m ws by simp_all
qed

text \<open>The pipe sink mixes frames up. A read that holds \<open>n\<close> frames of the same size and eight more
  bytes makes a new client log the block at the start of the buffer \<open>n\<close> times, and none of the others:
  the header is looked for at the start of the buffer and not where the walk has come to. The block
  is logged with its own header in the place of the metadata, so the tag is the preamble and the
  level the size. The loop ends, in the middle of an entry.\<close>

lemma pipe_repeats_first:
  assumes "take 8 buf = le32 SINK_LOG_PREAMBLE @ le32 (of_nat e)" "length buf = n * (e + 8) + 8"
    "length buf < 2147483648" "nread \<noteq> -1"
  shows "on_read (2 * n + 1) nread buf (PipeClient_new raw) g =
      map_option (\<lambda>g'. (True, Some ((PipeClient_new raw)\<lparr>pc_state := PIPE_IN_LOG_ENTRY,
        log_entry_size := sint (of_nat e :: u32)\<rparr>), g')) (raw_times n buf (e + 8) g) \<and>
    (\<forall>f. extra_of_bytes buf = Some f \<longrightarrow> m_tag (em_m f) = SINK_LOG_PREAMBLE \<and> m_level (em_m f) = of_nat e)"
proof -
  have l: "0 + int n * (int e + 8) + 8 = int (length buf)" using assms(2) by simp
  have "usize (int (length buf)) = int (length buf)" using assms(3) by simp
  then have "on_read (2 * n + 1) nread buf (PipeClient_new raw) g =
      map_option (\<lambda>g'. (True, Some ((PipeClient_new raw)\<lparr>pc_state := PIPE_IN_LOG_ENTRY,
        log_entry_size := sint (of_nat e :: u32)\<rparr>), g')) (raw_times n buf (e + 8) g)"
    using assms(4) unfolding on_read_def pipe_frames [OF assms(1,3) order.refl l]
    by (simp add: option.map_comp comp_def pipe_goes_on_def)
  then show ?thesis using pipe_tag [OF assms(1)] by blast
qed

lemma raw_times_total:
  assumes "pool_inv n gr g" "len \<le> length base" "sizeof_logMeta + sizeof_ignore_list \<le> length base"
  shows "\<exists>g'. raw_times k base len g = Some g' \<and> pool_inv n gr g'"
  using assms(1)
proof (induction k arbitrary: g)
  case (Suc k)
  from logFromRaw_total [OF Suc.prems assms(2,3)] Suc.IH show ?case by fastforce
qed auto

lemma pipe_repeats_first_example:
  "\<exists>c g'. on_read 5 184 (le32 SINK_LOG_PREAMBLE @ le32 80 @ replicate 176 0x61) (PipeClient_new (replicate 4000 0)) ex_logger =
       Some (True, Some c, g') \<and> pc_state c = PIPE_IN_LOG_ENTRY \<and>
     raw_times 2 (le32 SINK_LOG_PREAMBLE @ le32 80 @ replicate 176 0x61) 88 ex_logger = Some g'"
proof -
  let ?buf = "le32 SINK_LOG_PREAMBLE @ le32 80 @ replicate 176 0x61"
  have b: "take 8 ?buf = le32 SINK_LOG_PREAMBLE @ le32 (of_nat 80)" "length ?buf = 2 * (80 + 8) + 8" "length ?buf < 2147483648"
    by simp_all
  obtain g' where "raw_times 2 ?buf 88 ex_logger = Some g'"
    using raw_times_total [OF ex_logger_parts(1), of 88 ?buf 2] by (auto simp: sizeof_logMeta_def sizeof_ignore_list_def MAX_IGNORE_LIST_def)
  then show ?thesis using pipe_repeats_first [OF b, of 184 "replicate 4000 0" ex_logger] by simp
qed

section \<open>Faults\<close>

text \<open>An announced size of -8 makes the walk go back and forth: the loop never ends.\<close>

lemma pipe_endless:
  assumes "take 8 buf = le32 SINK_LOG_PREAMBLE @ le32 (- 8)" "8 < length buf" "length buf < 2147483648"
  shows "\<exists>st. pipe_rounds k buf ((0, PipeClient_new raw), g) = Some st \<and> pipe_goes_on buf st \<and> snd st = g"
proof -
  let ?c = "PipeClient_new raw"
  let ?d = "?c\<lparr>pc_state := PIPE_IN_LOG_ENTRY, log_entry_size := - 8\<rparr>"
  have s: "sint (- 8 :: u32) = - 8" by simp
  have one: "pipe_switch buf ((0, ?c), g) = Some ((8, ?d), g)"
    using need_preamble_header [OF assms(1), of 0 ?c g] s by simp
  have two: "pipe_switch buf ((8, ?d), g) = Some ((0, ?c), g)"
    using assms(2,3) by (simp add: pipe_switch_def pipe_in_log_def GREASE_TOTAL_MSG_SIZE_def GREASE_CLIENT_HEADER_SIZE_def
        pipe_log_def logFromRaw_def sizeof_logMeta_def PipeClient_new_def resetState_def)
  have go: "pipe_goes_on buf ((0, ?c), g)" "pipe_goes_on buf ((8, ?d), g)" using assms(2) by (auto simp: pipe_goes_on_def)
  have "(\<exists>st. pipe_rounds k buf ((0, ?c), g) = Some st \<and> pipe_goes_on buf st \<and> snd st = g) \<and>
      (\<exists>st. pipe_rounds k buf ((8, ?d), g) = Some st \<and> pipe_goes_on buf st \<and> snd st = g)"
    by (induction k) (use one two go in auto)
  then show ?thesis by blast
qed

text \<open>libuv hands out whole buffers, and \<open>on_read\<close> takes the length of the buffer for that of the
  data: the second read of an entry that needs three of them writes behind \<open>temp\<close>.\<close>

lemma pipe_overruns_temp:
  assumes "take 8 buf = le32 SINK_LOG_PREAMBLE @ le32 (of_nat e)" "length buf = SINK_BUFFER_SIZE" "length raw = SINK_BUFFER_SIZE"
    "2 * SINK_BUFFER_SIZE < e" "e < 2147483640" "length buf2 = SINK_BUFFER_SIZE" "nread \<noteq> -1"
  shows "\<exists>c. on_read 2 nread buf (PipeClient_new raw) g = Some (True, Some c, g) \<and> on_read (Suc k) nread buf2 c g = None"
proof -
  let ?c = "(PipeClient_new raw)\<lparr>pc_state := PIPE_IN_LOG_ENTRY, log_entry_size := int e\<rparr>"
  have z: "length buf = 4000" "length raw = 4000" "length buf2 = 4000" "8000 < e"
    using assms(2-4,6) by (simp_all add: SINK_BUFFER_SIZE_def DEFAULT_BUFFER_SIZE_def)
  have e: "sint (of_nat e :: u32) = int e" using assms(5) cint_id [of "int e"] by (simp add: cint_def)
  have tot: "GREASE_TOTAL_MSG_SIZE (int e) = int e + 8" using assms(5)
    by (simp add: GREASE_TOTAL_MSG_SIZE_def GREASE_CLIENT_HEADER_SIZE_def)
  have one: "pipe_switch buf ((0, PipeClient_new raw), g) = Some ((8, ?c), g)"
    using need_preamble_header [OF assms(1), of 0 "PipeClient_new raw" g] e by simp
  obtain t where t: "mem_copy raw 0 buf 8 3992 = Some t" using mem_copy_total [of 0 8 3992 buf raw] z by auto
  let ?d = "?c\<lparr>pc_temp := t, temp_used := 4000\<rparr>"
  have two: "pipe_switch buf ((8, ?c), g) = Some ((4008, ?d), g)"
    using z t by (simp add: pipe_switch_def pipe_in_log_def Let_def tot PipeClient_new_def)
  have lt: "length t = 4000" using t z buf_write_length [of raw 0] by (auto simp: mem_copy_def bind_eq_Some_conv)
  have "pipe_switch buf2 ((0, ?d), g) = None"
    using assms(5) z lt by (simp add: pipe_switch_def pipe_in_log_def Let_def tot mem_copy_def buf_read_def buf_write_def)
  then have "on_read (Suc k) nread buf2 ?d g = None"
    using assms(7) z by (auto simp: on_read_def pipe_goes_on_def)
  moreover have "on_read 2 nread buf (PipeClient_new raw) g = Some (True, Some ?d, g)"
    using one two assms(7) z by (simp add: on_read_def pipe_goes_on_def eval_nat_numeral)
  ultimately show ?thesis by blast
qed

end
