(* ===== verification/Kernel_Sink.thy ===== *)
theory Kernel_Sink
  imports Entry_Source Dgram_Sink
begin

text \<open>
  The objects \<open>KernelProcKmsgSink\<close> and \<open>KernelProcKmsg2Sink\<close> of \<open>logger.h\<close>, which have the same
  fields: constructor, \<open>bind\<close>, \<open>stop\<close> and the threads \<open>listener_work\<close>. A thread is a function of the
  events it sees, each with the value of \<open>stop_thread\<close> that it finds behind it; the parsing of what
  was read is in \<open>Klog_Parse\<close>. The results of \<open>klogctl\<close>, \<open>pipe\<close>, \<open>open\<close>, \<open>select\<close> and \<open>read\<close> are arguments.
\<close>

unbundle bit_operations_syntax

section \<open>The objects\<close>

record kernSink =
  kn_id :: nat
  kn_stop_thread :: bool
  kn_kernlog_fd :: int
  kn_kernbufsize :: int
  kn_valid :: bool
  kn_wakeup :: "int \<times> int"
  kn_ready :: bool

text \<open>The size is written as \<^verbatim>\<open>2^14\<close>, an exclusive or.\<close>

definition kernSink_new :: "nat \<Rightarrow> kernSink" where
  "kernSink_new i = \<lparr>kn_id = i, kn_stop_thread = False, kn_kernlog_fd = 0, kn_kernbufsize = 2 XOR 14,
     kn_valid = False, kn_wakeup = (-1, -1), kn_ready = False\<rparr>"

definition kernSink_bind :: "int \<Rightarrow> (int \<times> int) option \<Rightarrow> kernSink \<Rightarrow> bool \<times> kernSink" where
  "kernSink_bind klogctl pip s =
     (let s1 = s\<lparr>kn_kernbufsize := klogctl\<rparr>;
          s2 = (if kn_kernbufsize s1 > 0 then s1\<lparr>kn_valid := True\<rparr> else s1);
          s3 = (case pip of None \<Rightarrow> s2 | Some w \<Rightarrow> s2\<lparr>kn_wakeup := w\<rparr>)
      in (kn_ready s3, s3))"

definition kernSink_stop :: "kernSink \<Rightarrow> kernSink" where
  "kernSink_stop s = s\<lparr>kn_stop_thread := True\<rparr>"

section \<open>The thread that polls\<close>

text \<open>What \<open>select\<close> reports. After a timeout the log is read until nothing is unread: the list has
  what each \<open>klogctl\<close> delivers, \<open>None\<close> a failing one.\<close>

datatype klog_event = KlogSelectError | KlogTimeout "bytes option list" | KlogPipe

definition SINK_KLOG_TV_USEC_START :: nat where "SINK_KLOG_TV_USEC_START = 250000"

text \<open>A failing read has the result -1 and writes the byte in front of the buffer.\<close>

fun klog_reads :: "bytes option list \<Rightarrow> bytes \<Rightarrow> grease \<Rightarrow> (nat \<times> bytes \<times> grease) option" where
  "klog_reads [] temp g = Some (0, temp, g)"
| "klog_reads (None # rs) temp g = None"
| "klog_reads (Some d # rs) temp g =
     Option.bind (klog_read g temp d) (\<lambda>(g', mem). map_option (\<lambda>(n, r). (Suc n, r)) (klog_reads rs mem g'))"

definition klog_wait :: "nat \<Rightarrow> nat" where
  "klog_wait reads =
     (if reads = 0 then SINK_KLOG_TV_USEC_START * 4
      else if reads = 1 then SINK_KLOG_TV_USEC_START * 2 else SINK_KLOG_TV_USEC_START)"

definition klog_step :: "klog_event \<Rightarrow> nat \<times> bytes \<times> grease \<Rightarrow> (nat \<times> bytes \<times> grease) option" where
  "klog_step ev st =
     (case ev of
        KlogTimeout rs \<Rightarrow> map_option (\<lambda>(n, temp, g). (klog_wait n, temp, g)) (klog_reads rs (fst (snd st)) (snd (snd st)))
      | _ \<Rightarrow> Some st)"

fun klog_listen :: "(klog_event \<times> bool) list \<Rightarrow> nat \<times> bytes \<times> grease \<Rightarrow> (nat \<times> bytes \<times> grease) option" where
  "klog_listen [] st = Some st"
| "klog_listen ((ev, stop) # es) st =
     Option.bind (klog_step ev st) (\<lambda>st'. if stop then Some st' else klog_listen es st')"

definition klog_listener_work :: "(klog_event \<times> bool) list \<Rightarrow> kernSink \<Rightarrow> grease \<Rightarrow> grease option" where
  "klog_listener_work evs s g =
     (if \<not> kn_valid s then Some g
      else map_option (\<lambda>st. snd (snd st))
        (klog_listen evs (SINK_KLOG_TV_USEC_START, LMALLOC (nat (cint (kn_kernbufsize s * 2))), g)))"

section \<open>The thread that waits\<close>

text \<open>An event is what the readable device delivers (nothing for a failing read), or \<open>None\<close> when
  \<open>select\<close> failed or reports the pipe. After a \<^verbatim>\<open>break\<close> the thread has ended.\<close>

fun kmsg_listen :: "(bytes option \<times> bool) list \<Rightarrow> kmsg_sink \<times> grease \<Rightarrow> (kmsg_sink \<times> grease) option" where
  "kmsg_listen [] st = Some st"
| "kmsg_listen ((ev, stop) # es) st =
     Option.bind (case ev of None \<Rightarrow> Some st | Some data \<Rightarrow> kmsg_readable data (fst st) (snd st)) (\<lambda>st'.
       if \<not> ks_running (fst st') then Some st'
       else if stop then kmsg_stop (fst st') (snd st')
       else kmsg_listen es st')"

definition kmsg_listener_work ::
  "int \<Rightarrow> (bytes option \<times> bool) list \<Rightarrow> kernSink \<Rightarrow> grease \<Rightarrow> (kernSink \<times> kmsg_sink option \<times> grease) option" where
  "kmsg_listener_work fd evs s g =
     (if \<not> kn_valid s then Some (s, None, g)
      else if fd > 0 then
        map_option (\<lambda>(ks, g'). (s, Some ks, g')) (kmsg_listen evs (kmsg_new (nat (kn_kernbufsize s)), g))
      else Some (s\<lparr>kn_ready := False, kn_valid := False\<rparr>, None, g))"

section \<open>Reading on and on\<close>

text \<open>The parser works in place and keeps the size of the buffer.\<close>

lemma klog_round_length:
  assumes "pool_inv n gr g" "pool_round (parse_fill klog_switch) (mem, pos, rest, LEVEL_BEGIN) g =
      Some (ok, (mem', pos', rest', st'), g')" "pos + rest \<le> length mem"
  shows "length mem' = length mem"
proof (rule grab_cases [OF assms(1)])
  assume "grabInLogBuffer g = (GREASE_OVERFLOW, None, g)"
  then show ?thesis using assms(2) by (simp add: pool_round_def)
next
  fix a p l
  assume g: "grabInLogBuffer g = (GREASE_OK, Some a, g\<lparr>masterBufferAvail := p\<rparr>)"
    "logs (env g) a = Some l" "pool_log (bufferSize g) (Some l)"
  from klog.parse_keeps [OF assms(3) _ g(3), of LEVEL_BEGIN] g(1,2) assms(2) show ?thesis
    by (fastforce simp: pool_round_def parse_fill_def bind_eq_Some_conv)
qed

lemma klog_drain_length:
  assumes "pool_inv n gr g" "pos + rest \<le> length mem" "klog_drain k g mem pos rest LEVEL_BEGIN = Some (g', mem')"
  shows "length mem' = length mem"
  using assms
proof (induction k arbitrary: g mem pos rest)
  case (Suc k)
  have "pos_ok (mem, pos, rest, LEVEL_BEGIN)" using Suc.prems(2) by (simp add: pos_ok_def)
  from klog.source.round_keeps [OF Suc.prems(1) this] obtain ok s1 g1 where
    r: "pool_round (parse_fill klog_switch) (mem, pos, rest, LEVEL_BEGIN) g = Some (ok, s1, g1)" "pool_inv n gr g1"
    by blast
  obtain m1 p1 r1 st1 where s1: "s1 = (m1, p1, r1, st1)" by (cases s1)
  have l: "length m1 = length mem" by (rule klog_round_length [OF Suc.prems(1) r(1) [unfolded s1] Suc.prems(2)])
  show ?case
  proof (cases ok)
    case True
    have "st1 = LEVEL_BEGIN \<and> r1 < rest \<and> p1 + r1 \<le> length m1"
      by (rule klog_round_moves [OF Suc.prems(1) _ Suc.prems(2)]) (use r(1) True s1 in simp)
    then show ?thesis using Suc.IH [OF r(2), of p1 r1 m1] Suc.prems(3) r(1) s1 True l
      by (simp add: klog_drain_round del: klog_drain.simps)
  next
    case False
    then show ?thesis using Suc.prems(3) r s1 l by (simp add: klog_drain_round del: klog_drain.simps)
  qed
qed simp

lemma klog_read_keeps:
  assumes "pool_inv n gr g" "length data < length temp"
  shows "\<exists>g' mem. klog_read g temp data = Some (g', mem) \<and> pool_inv n gr g' \<and> length mem = length temp"
proof -
  let ?m = "data @ [0] @ drop (length data + 1) temp"
  from klog_read_any [OF assms] obtain g' mem where
    d: "klog_read g temp data = Some (g', mem)" "pool_inv n gr g'"
      "klog_drain (length temp) g ?m 0 (length temp - 1) LEVEL_BEGIN = Some (g', mem)" by auto
  have "length mem = length ?m" by (rule klog_drain_length [OF assms(1) _ d(3)]) (use assms(2) in simp)
  then show ?thesis using d assms(2) by auto
qed

lemma klog_reads_keeps:
  assumes "pool_inv n gr g" "\<forall>r \<in> set rs. \<exists>d. r = Some d \<and> length d < length temp"
  shows "\<exists>temp' g'. klog_reads rs temp g = Some (length rs, temp', g') \<and> pool_inv n gr g' \<and> length temp' = length temp"
  using assms
proof (induction rs arbitrary: temp g)
  case (Cons r rs)
  then obtain d where d: "r = Some d" "length d < length temp" by auto
  from klog_read_keeps [OF Cons.prems(1) d(2)] obtain g1 m1 where
    r: "klog_read g temp d = Some (g1, m1)" "pool_inv n gr g1" "length m1 = length temp" by blast
  from Cons.IH [OF r(2), of m1] Cons.prems(2) r d(1) show ?case by auto
qed simp

text \<open>What the kernel can deliver into a buffer of \<open>sz\<close> bytes: a poll reads at most \<open>sz - 1\<close>; the second
  sink reads up to \<open>sz\<close>, and a read that fills its buffer would put the terminator behind it.\<close>

definition klog_fits :: "nat \<Rightarrow> klog_event \<Rightarrow> bool" where
  "klog_fits sz ev \<longleftrightarrow> (case ev of KlogTimeout rs \<Rightarrow> \<forall>r \<in> set rs. \<exists>d. r = Some d \<and> length d < sz | _ \<Rightarrow> True)"

definition kmsg_fits :: "nat \<Rightarrow> bytes option \<Rightarrow> bool" where
  "kmsg_fits sz ev \<longleftrightarrow> (case ev of Some d \<Rightarrow> length d < sz | None \<Rightarrow> True)"

lemma klog_step_keeps:
  assumes "pool_inv n gr g" "klog_fits (length temp) ev"
  shows "\<exists>u' temp' g'. klog_step ev (u, temp, g) = Some (u', temp', g') \<and> pool_inv n gr g' \<and> length temp' = length temp"
  using assms klog_reads_keeps [OF assms(1)]
  by (cases ev) (fastforce simp: klog_step_def klog_fits_def)+

lemma klog_listen_keeps:
  assumes "pool_inv n gr g" "\<forall>(ev, stop) \<in> set evs. klog_fits (length temp) ev"
  shows "\<exists>u' temp' g'. klog_listen evs (u, temp, g) = Some (u', temp', g') \<and> pool_inv n gr g' \<and> length temp' = length temp"
  using assms
proof (induction evs arbitrary: u temp g)
  case (Cons e evs)
  obtain ev stop where e: "e = (ev, stop)" by force
  from klog_step_keeps [OF Cons.prems(1), of temp ev u] Cons.prems(2) e obtain u1 t1 g1 where
    s: "klog_step ev (u, temp, g) = Some (u1, t1, g1)" "pool_inv n gr g1" "length t1 = length temp" by auto
  from Cons.IH [OF s(2), of t1 u1] Cons.prems(2) s e show ?case by auto
qed simp

lemma kmsg_listen_keeps:
  assumes "kmsg_inv n gr ks g" "ks_running ks" "\<forall>(ev, stop) \<in> set evs. kmsg_fits (length (ks_buf ks)) ev"
  shows "\<exists>ks' g'. kmsg_listen evs (ks, g) = Some (ks', g') \<and> kmsg_inv n gr ks' g'"
  using assms
proof (induction evs arbitrary: ks g)
  case (Cons e evs)
  obtain ev stop where e: "e = (ev, stop)" by force
  have "\<exists>ks1 g1. (case ev of None \<Rightarrow> Some (ks, g) | Some data \<Rightarrow> kmsg_readable data ks g) = Some (ks1, g1) \<and>
      kmsg_inv n gr ks1 g1 \<and> length (ks_buf ks1) = length (ks_buf ks)"
    using kmsg_any [OF Cons.prems(1,2)] Cons.prems e by (cases ev) (auto simp: kmsg_fits_def)
  then obtain ks1 g1 where k: "(case ev of None \<Rightarrow> Some (ks, g) | Some data \<Rightarrow> kmsg_readable data ks g) = Some (ks1, g1)"
      "kmsg_inv n gr ks1 g1" "length (ks_buf ks1) = length (ks_buf ks)" by blast
  have "kmsg_stop ks1 g1 = Some (ks1\<lparr>ks_running := False\<rparr>, g1) \<and> kmsg_inv n gr (ks1\<lparr>ks_running := False\<rparr>) g1" if "ks_running ks1"
    using k(2) that by (auto simp: kmsg_inv_def kmsg_stop_def kmsg_held_def)
  then show ?case using Cons.IH [OF k(2)] Cons.prems(3) e k by (auto cong: option.case_cong)
qed simp

text \<open>A failing read of the ring buffer, and a read that fills the second sink's buffer, leave the buffer.\<close>

lemma klog_reads_fail:
  assumes "pool_inv n gr g" "\<forall>r \<in> set rs. \<exists>d. r = Some d \<and> length d < length temp"
  shows "klog_reads (rs @ None # rs') temp g = None"
  using assms
proof (induction rs arbitrary: temp g)
  case (Cons r rs)
  then obtain d where d: "r = Some d" "length d < length temp" by auto
  from klog_read_keeps [OF Cons.prems(1) d(2)] obtain g1 m1 where
    r: "klog_read g temp d = Some (g1, m1)" "pool_inv n gr g1" "length m1 = length temp" by blast
  from Cons.IH [OF r(2), of m1] Cons.prems(2) r d(1) show ?case by simp
qed simp

lemma klog_failed_read:
  assumes "pool_inv n gr g" "\<forall>(ev, stop) \<in> set evs. klog_fits (length temp) ev \<and> \<not> stop"
    "klog_fits (length temp) (KlogTimeout rs)"
  shows "klog_listen (evs @ (KlogTimeout (rs @ None # rs'), stop) # es) (u, temp, g) = None"
  using assms
proof (induction evs arbitrary: u temp g)
  case Nil
  then show ?case using klog_reads_fail [OF Nil.prems(1)] by (simp add: klog_step_def klog_fits_def)
next
  case (Cons e evs)
  obtain ev st where e: "e = (ev, st)" by force
  from klog_step_keeps [OF Cons.prems(1), of temp ev u] Cons.prems(2) e obtain u1 t1 g1 where
    s: "klog_step ev (u, temp, g) = Some (u1, t1, g1)" "pool_inv n gr g1" "length t1 = length temp" by auto
  from Cons.IH [OF s(2), of t1 u1] Cons.prems(2,3) s e show ?case by simp
qed

lemma kmsg_full_read:
  assumes "pool_inv n gr g" "circ_list (masterBufferAvail g) \<noteq> []" "0 < sz" "length data = sz"
  shows "kmsg_readable data (kmsg_new sz) g = None"
proof (rule grab_cases [OF assms(1)])
  assume "grabInLogBuffer g = (GREASE_OVERFLOW, None, g)"
  then have "circ_remove (masterBufferAvail g) = None" by (auto simp: grabInLogBuffer_def split: option.splits)
  then show ?thesis using assms(1,2) circ_fifo.get_None_iff by (auto simp: pool_inv_def)
next
  fix a p l
  assume "grabInLogBuffer g = (GREASE_OK, Some a, g\<lparr>masterBufferAvail := p\<rparr>)"
  then show ?thesis using assms(3,4)
    by (auto simp: kmsg_readable_def kmsg_new_def kmsg_parse_def buf_write_def LMALLOC_def)
qed

text \<open>C32: The threads of the kernel sinks, and where they fail. Once \<open>bind\<close> found the size of the kernel's buffer,
  both threads run through all events, as long as every read of the first succeeds with fewer bytes than its
  buffer has and every read of the second delivers fewer bytes than its buffer has. They do not
  leave the buffer they made from that size, each read is parsed to its end, and the pool keeps its
  buffers, apart from the one that the second sink may hold when it ended. These limits are sharp: after any such
  events a failing \<open>klogctl\<close> makes the first thread write in front of its buffer, and a record that fills
  the second sink's buffer makes that thread write behind it. Neither sink ever says that it is ready.\<close>

theorem kernel_listeners:
  assumes "0 < klogctl" "klogctl < 1073741824" "pool_inv n gr g" "0 < fd"
    "\<forall>(ev, stop) \<in> set evs. klog_fits (2 * nat klogctl) ev" "\<forall>(ev, stop) \<in> set evs2. kmsg_fits (nat klogctl) ev"
  shows "\<exists>s. kernSink_bind klogctl pip (kernSink_new i) = (False, s) \<and>
    (\<exists>g'. klog_listener_work evs s g = Some g' \<and> pool_inv n gr g') \<and>
    (\<exists>ks g'. kmsg_listener_work fd evs2 s g = Some (s, Some ks, g') \<and> pool_inv n (kmsg_held ks @ gr) g') \<and>
    (\<forall>rs rs' stop es. list_all (\<lambda>(ev, st). \<not> st) evs \<and> klog_fits (2 * nat klogctl) (KlogTimeout rs) \<longrightarrow>
       klog_listener_work (evs @ (KlogTimeout (rs @ None # rs'), stop) # es) s g = None) \<and>
    (\<forall>data stop es. circ_list (masterBufferAvail g) \<noteq> [] \<and> length data = nat klogctl \<longrightarrow>
       kmsg_listener_work fd ((Some data, stop) # es) s g = None)"
proof -
  obtain s where s: "kernSink_bind klogctl pip (kernSink_new i) = (False, s)" "kn_valid s" "kn_kernbufsize s = klogctl"
    using assms(1) by (auto simp: kernSink_bind_def kernSink_new_def Let_def split: option.splits)
  let ?t = "LMALLOC (nat (klogctl * 2))"
  have t: "length ?t = 2 * nat klogctl" using assms(1) by (simp add: LMALLOC_def nat_mult_distrib)
  have w: "klog_listener_work es s g = map_option (\<lambda>st. snd (snd st)) (klog_listen es (SINK_KLOG_TV_USEC_START, ?t, g))" for es
    using s assms(1,2) by (simp add: klog_listener_work_def)
  obtain u t' g' where "klog_listen evs (SINK_KLOG_TV_USEC_START, ?t, g) = Some (u, t', g')" "pool_inv n gr g'"
    using klog_listen_keeps [OF assms(3), of evs ?t SINK_KLOG_TV_USEC_START] assms(5) t by auto
  then have one: "klog_listener_work evs s g = Some g' \<and> pool_inv n gr g'" by (simp add: w)
  have "kmsg_inv n gr (kmsg_new (nat klogctl)) g" "ks_running (kmsg_new (nat klogctl))"
      "length (ks_buf (kmsg_new (nat klogctl))) = nat klogctl"
    using assms(3) by (simp_all add: kmsg_inv_def kmsg_new_def kmsg_held_def LMALLOC_def)
  then obtain ks g2 where "kmsg_listen evs2 (kmsg_new (nat klogctl), g) = Some (ks, g2)" "kmsg_inv n gr ks g2"
    using kmsg_listen_keeps [of n gr "kmsg_new (nat klogctl)" g evs2] assms(6) by auto
  then have two: "kmsg_listener_work fd evs2 s g = Some (s, Some ks, g2) \<and> pool_inv n (kmsg_held ks @ gr) g2"
    using s assms(4) by (simp add: kmsg_listener_work_def kmsg_inv_def)
  have fail: "klog_listener_work (evs @ (KlogTimeout (rs @ None # rs'), stop) # es) s g = None"
    if "list_all (\<lambda>(ev, st). \<not> st) evs" "klog_fits (2 * nat klogctl) (KlogTimeout rs)" for rs rs' stop es
    using klog_failed_read [OF assms(3), of evs ?t rs rs' stop es] that assms(5) t
    by (fastforce simp: w list_all_iff)
  have full: "kmsg_listener_work fd ((Some data, stop) # es) s g = None"
    if "circ_list (masterBufferAvail g) \<noteq> []" "length data = nat klogctl" for data stop es
    using kmsg_full_read [OF assms(3) that(1) _ that(2)] assms(1,4) s by (simp add: kmsg_listener_work_def)
  show ?thesis using s(1) one two fail full by blast
qed

theorem kernel_listeners_witness:
  "\<exists>s. kernSink_bind 32 (Some (5, 6)) (kernSink_new 1) = (False, s) \<and>
    (\<exists>g'. klog_listener_work [(KlogTimeout [Some [0x3C, 0x36, 0x3E], Some [0x61]], False)] s ex_logger = Some g' \<and>
       pool_inv 2 [] g') \<and>
    (\<exists>ks g'. kmsg_listener_work 7 [(Some [0x36, 0x2C, 0x31, 0x3B, 0x68, 0x0A], False), (None, True)] s ex_logger = Some (s, Some ks, g') \<and>
       pool_inv 2 (kmsg_held ks @ []) g') \<and>
    klog_listener_work [(KlogTimeout [Some [0x3C, 0x36, 0x3E], Some [0x61]], False), (KlogTimeout [None], True)] s ex_logger = None \<and>
    kmsg_listener_work 7 [(Some (replicate 32 0x20), True)] s ex_logger = None"
proof -
  have f: "\<forall>(ev, stop) \<in> set [(KlogTimeout [Some [0x3C, 0x36, 0x3E], Some [0x61]], False)]. klog_fits (2 * nat 32) ev"
      "\<forall>(ev, stop) \<in> set [(Some [0x36, 0x2C, 0x31, 0x3B, 0x68, 0x0A], False), (None, True)]. kmsg_fits (nat 32) ev"
      "klog_fits (2 * nat 32) (KlogTimeout [])"
    by (simp_all add: klog_fits_def kmsg_fits_def)
  from kernel_listeners [OF _ _ ex_logger_parts(1) _ f(1,2), of 7 "Some (5, 6)" 1] obtain s where
    s: "kernSink_bind 32 (Some (5, 6)) (kernSink_new 1) = (False, s)"
      "\<exists>g'. klog_listener_work [(KlogTimeout [Some [0x3C, 0x36, 0x3E], Some [0x61]], False)] s ex_logger = Some g' \<and> pool_inv 2 [] g'"
      "\<exists>ks g'. kmsg_listener_work 7 [(Some [0x36, 0x2C, 0x31, 0x3B, 0x68, 0x0A], False), (None, True)] s ex_logger = Some (s, Some ks, g') \<and>
         pool_inv 2 (kmsg_held ks @ []) g'"
      "\<And>rs rs' stop es. klog_fits (2 * nat 32) (KlogTimeout rs) \<Longrightarrow>
         klog_listener_work ([(KlogTimeout [Some [0x3C, 0x36, 0x3E], Some [0x61]], False)] @ (KlogTimeout (rs @ None # rs'), stop) # es) s ex_logger = None"
      "\<And>data stop es. length data = nat 32 \<Longrightarrow> kmsg_listener_work 7 ((Some data, stop) # es) s ex_logger = None"
    using ex_logger_parts(2) by auto
  show ?thesis using s(1-3) s(4) [OF f(3), of "[]" True "[]"] s(5) [of "replicate 32 0x20" True "[]"] by auto
qed

text \<open>A sink for which the kernel's buffer has no size, or whose device cannot be opened, logs nothing.\<close>

lemma kernel_sink_unusable:
  "klogctl \<le> 0 \<Longrightarrow> kernSink_bind klogctl pip (kernSink_new i) = (False, s) \<Longrightarrow>
     klog_listener_work evs s g = Some g \<and> kmsg_listener_work fd evs2 s g = Some (s, None, g)"
  "fd \<le> 0 \<Longrightarrow> kn_valid s \<Longrightarrow> kmsg_listener_work fd evs2 s g = Some (s\<lparr>kn_ready := False, kn_valid := False\<rparr>, None, g)"
  by (auto simp: kernSink_bind_def kernSink_new_def klog_listener_work_def kmsg_listener_work_def Let_def split: option.splits)

end
