(* ===== verification/Grease_Lib.thy ===== *)
theory Grease_Lib
  imports Syslog_Sink File_Rotation Fd_Redirect Pipe_Sink Kernel_Sink
begin

text \<open>
  The calls of the library (\<open>grease_lib.cc\<close>, \<open>grease_lib.h\<close>) around a logger: options, labels, unused
  ids, targets and sinks. The calls on filters are in \<open>Filters\<close>, those on descriptors in
  \<open>Fd_Redirect\<close>. The state \<open>lib\<close> holds the logger, the counters and tables of the library, the file
  targets whose file is still being opened, and the callbacks that were made. The results of
  system calls are arguments. A call that uses a deleted target, or reads behind a string, is
  \<open>None\<close>.
\<close>

section \<open>State\<close>

datatype lib_sink =
    SinkPipe PipeSink | SinkDgram unixDgramSink | SinkSyslog syslogDgramSink | SinkKlog kernSink | SinkKlog2 kernSink

record lib =
  lib_grease :: grease
  lib_redirects :: redirects
  lib_show_errors :: bool
  nextOriginId :: OriginId
  nextTagId :: TagId
  nextTargetId :: TargetId
  nextSinkId :: SinkId
  nextOptsId :: u32
  lib_sinks :: "SinkId \<rightharpoonup> lib_sink"
  lib_opening :: "(u32 \<times> logTarget \<times> fileTarget) list"  \<comment> \<open>with the \<open>optsId\<close>, the oldest first\<close>
  lib_files :: "TargetId \<rightharpoonup> fileTarget"
  lib_started :: "(TargetId \<times> u32) list"                  \<comment> \<open>\<open>targetStartCB\<close>: target and \<open>optsId\<close>\<close>

definition START_TAG_ID :: TagId where "START_TAG_ID = 1000"
definition START_ORIGIN_ID :: OriginId where "START_ORIGIN_ID = 1000"

definition lib_new :: "grease \<Rightarrow> lib" where
  "lib_new g =
     \<lparr>lib_grease = g, lib_redirects = redirects_new, lib_show_errors = False, nextOriginId = START_ORIGIN_ID,
      nextTagId = START_TAG_ID, nextTargetId = 1, nextSinkId = 0, nextOptsId = 1, lib_sinks = Map.empty,
      lib_opening = [], lib_files = Map.empty, lib_started = []\<rparr>"

section \<open>Options, labels and ids\<close>

record GreaseLibOpts =
  LevelFilterOut :: u32
  lo_defaultFilterOut :: bool
  lo_show_filters :: bool
  lo_callback_errors :: bool
  lo_show_errors :: bool

definition setGlobalOpts :: "GreaseLibOpts option \<Rightarrow> lib \<Rightarrow> lib_ret \<times> lib" where
  "setGlobalOpts opts L =
     (case opts of
        None \<Rightarrow> (LIB_INVALID_PARAMS, L)
      | Some o' \<Rightarrow>
          (GREASE_LIB_OK,
           L\<lparr>lib_show_errors := lo_show_errors o',
             lib_grease := (lib_grease L)\<lparr>filters := (filters (lib_grease L))
               \<lparr>levelFilterOutMask := LevelFilterOut o', defaultFilterOut := lo_defaultFilterOut o'\<rparr>\<rparr>\<rparr>))"

text \<open>The three calls that add a label; \<open>upd\<close> is the table they change.\<close>

definition add_label ::
  "(((u32 \<rightharpoonup> logLabel) \<Rightarrow> (u32 \<rightharpoonup> logLabel)) \<Rightarrow> grease_env \<Rightarrow> grease_env) \<Rightarrow>
   u32 \<Rightarrow> bytes option \<Rightarrow> int \<Rightarrow> lib \<Rightarrow> (lib_ret \<times> lib) option" where
  "add_label upd val utf8 len L =
     (case utf8 of
        Some s \<Rightarrow>
          if len > 0 then
            map_option (\<lambda>label. (GREASE_LIB_OK, L\<lparr>lib_grease := (lib_grease L)\<lparr>env :=
                upd (\<lambda>t. t(val \<mapsto> label)) (env (lib_grease L))\<rparr>\<rparr>))
              (logLabel_fromUTF8 s (nat len))
          else Some (LIB_INVALID_PARAMS, L)
      | None \<Rightarrow> Some (LIB_INVALID_PARAMS, L))"

definition addTagLabel :: "u32 \<Rightarrow> bytes option \<Rightarrow> int \<Rightarrow> lib \<Rightarrow> (lib_ret \<times> lib) option" where
  "addTagLabel = add_label tagLabels_update"
definition addOriginLabel :: "u32 \<Rightarrow> bytes option \<Rightarrow> int \<Rightarrow> lib \<Rightarrow> (lib_ret \<times> lib) option" where
  "addOriginLabel = add_label originLabels_update"
definition addLevelLabel :: "u32 \<Rightarrow> bytes option \<Rightarrow> int \<Rightarrow> lib \<Rightarrow> (lib_ret \<times> lib) option" where
  "addLevelLabel = add_label levelLabels_update"

definition ascii :: "string \<Rightarrow> bytes" where "ascii s = map of_char s"

fun add_labels ::
  "(u32 \<Rightarrow> bytes option \<Rightarrow> int \<Rightarrow> lib \<Rightarrow> (lib_ret \<times> lib) option) \<Rightarrow> (u32 \<times> string) list \<Rightarrow> lib \<Rightarrow> lib option" where
  "add_labels add [] L = Some L"
| "add_labels add ((v, s) # ls) L =
     Option.bind (add v (Some (ascii s)) (int (length s)) L) (\<lambda>(r, L'). add_labels add ls L')"

definition std_levels :: "(u32 \<times> string) list" where
  "std_levels =
     [(GREASE_LEVEL_LOG, ''LOG''), (GREASE_LEVEL_ERROR, ''ERROR''), (GREASE_LEVEL_WARN, ''WARN''),
      (GREASE_LEVEL_DEBUG, ''DEBUG''), (GREASE_LEVEL_DEBUG2, ''DEBUG2''), (GREASE_LEVEL_DEBUG3, ''DEBUG3''),
      (GREASE_LEVEL_USER1, ''USER1''), (GREASE_LEVEL_USER2, ''USER2''), (GREASE_LEVEL_SUCCESS, ''SUCCESS''),
      (GREASE_LEVEL_INFO, ''INFO''), (GREASE_LEVEL_TRACE, ''TRACE'')]"

definition setupStandardLevels :: "lib \<Rightarrow> lib option" where
  "setupStandardLevels = add_labels addLevelLabel std_levels"

definition GREASE_ECHO_TAG :: TagId where "GREASE_ECHO_TAG = 0xFFF1"

definition std_tags :: "(u32 \<times> string) list" where
  "std_tags =
     [(GREASE_TAG_SYSLOG, ''syslog''), (GREASE_TAG_STDOUT, ''stdout''), (GREASE_TAG_STDERR, ''stderr''),
      (GREASE_TAG_KERNEL, ''kernel''), (GREASE_ECHO_TAG, ''grease-echo''),
      (GREASE_RESERVED_TAGS_SYS_AUTH, ''sys-auth''), (GREASE_RESERVED_TAGS_SYS_AUTHPRIV, ''sys-authpriv''),
      (GREASE_RESERVED_TAGS_SYS_CRON, ''sys-cron''), (GREASE_RESERVED_TAGS_SYS_DAEMON, ''sys-daemon''),
      (GREASE_RESERVED_TAGS_SYS_FTP, ''sys-ftp''), (GREASE_RESERVED_TAGS_SYS_KERN, ''sys-kern''),
      (GREASE_RESERVED_TAGS_SYS_LPR, ''sys-lpr''), (GREASE_RESERVED_TAGS_SYS_MAIL, ''sys-mail''),
      (GREASE_RESERVED_TAGS_SYS_MARK, ''sys-mark''), (GREASE_RESERVED_TAGS_SYS_NEWS, ''sys-news''),
      (GREASE_RESERVED_TAGS_SYS_SECURITY, ''sys-security''), (GREASE_RESERVED_TAGS_SYS_SYSLOG, ''sys-syslog''),
      (GREASE_RESERVED_TAGS_SYS_USER, ''sys-user''), (GREASE_RESERVED_TAGS_SYS_UUCP, ''sys-uucp''),
      (GREASE_RESERVED_TAGS_SYS_LOCAL0, ''sys-local0''), (GREASE_RESERVED_TAGS_SYS_LOCAL1, ''sys-local1''),
      (GREASE_RESERVED_TAGS_SYS_LOCAL2, ''sys-local2''), (GREASE_RESERVED_TAGS_SYS_LOCAL3, ''sys-local3''),
      (GREASE_RESERVED_TAGS_SYS_LOCAL4, ''sys-local4''), (GREASE_RESERVED_TAGS_SYS_LOCAL5, ''sys-local5''),
      (GREASE_RESERVED_TAGS_SYS_LOCAL6, ''sys-local6''), (GREASE_RESERVED_TAGS_SYS_LOCAL7, ''sys-local7'')]"

definition setupStandardTags :: "lib \<Rightarrow> lib option" where
  "setupStandardTags = add_labels addTagLabel std_tags"

text \<open>The id that is handed out, and the counter after it.\<close>

definition getUnusedOriginId :: "lib \<Rightarrow> OriginId \<times> lib" where
  "getUnusedOriginId L =
     (let n = nextOriginId L + 1
      in (nextOriginId L, L\<lparr>nextOriginId := (if n \<ge> GREASE_RESERVED_TAGS_START then START_ORIGIN_ID else n)\<rparr>))"

definition getUnusedTagId :: "lib \<Rightarrow> TagId \<times> lib" where
  "getUnusedTagId L =
     (let n = nextTagId L + 1
      in (nextTagId L, L\<lparr>nextTagId := (if n \<ge> GREASE_RESERVED_TAGS_START then START_TAG_ID else n)\<rparr>))"

section \<open>Targets\<close>

record GreaseLibTargetFileOpts =
  tf_enabledFlags :: u32
  tf_mode :: u32
  tf_flags :: u32
  tf_max_files :: u32
  tf_max_file_size :: u32
  tf_max_total_size :: u64

definition GreaseLibTargetFileOpts_new :: GreaseLibTargetFileOpts where
  "GreaseLibTargetFileOpts_new =
     \<lparr>tf_enabledFlags = 0, tf_mode = 0, tf_flags = 0, tf_max_files = 0, tf_max_file_size = 0, tf_max_total_size = 0\<rparr>"

definition set_flag_GreaseLibTargetFileOpts :: "u32 \<Rightarrow> GreaseLibTargetFileOpts \<Rightarrow> GreaseLibTargetFileOpts" where
  "set_flag_GreaseLibTargetFileOpts flag o' = o'\<lparr>tf_enabledFlags := tf_enabledFlags o' OR flag\<rparr>"

definition GREASE_LIB_SET_FILEOPTS_MAXFILES :: u32 where "GREASE_LIB_SET_FILEOPTS_MAXFILES = 0x40000000"
definition GREASE_LIB_SET_FILEOPTS_MAXFILESIZE :: u32 where "GREASE_LIB_SET_FILEOPTS_MAXFILESIZE = 0x80000000"
definition GREASE_LIB_SET_FILEOPTS_MAXTOTALSIZE :: u32 where "GREASE_LIB_SET_FILEOPTS_MAXTOTALSIZE = 0x01000000"
definition GREASE_LIB_SET_FILEOPTS_ROTATEONSTART :: u32 where "GREASE_LIB_SET_FILEOPTS_ROTATEONSTART = 0x02000000"
definition GREASE_LIB_SET_FILEOPTS_ROTATE :: u32 where "GREASE_LIB_SET_FILEOPTS_ROTATE = 0x04000000"

text \<open>A format of the options: the string and its length.\<close>

type_synonym fmt_opt = "(bytes \<times> nat) option"

record GreaseLibTargetOpts =
  to_delim :: fmt_opt
  to_tty :: bool
  to_file :: "bytes option"
  to_optsId :: u32
  to_targetCB :: bool
  to_fileOpts :: "GreaseLibTargetFileOpts option"
  format_pre :: fmt_opt
  format_time :: fmt_opt
  format_level :: fmt_opt
  format_tag :: fmt_opt
  format_origin :: fmt_opt
  format_post :: fmt_opt
  format_pre_msg :: fmt_opt
  to_num_banks :: u32
  to_flags :: u32

definition GreaseLibTargetOpts_new :: "lib \<Rightarrow> GreaseLibTargetOpts \<times> lib" where
  "GreaseLibTargetOpts_new L =
     (\<lparr>to_delim = None, to_tty = False, to_file = None, to_optsId = nextOptsId L, to_targetCB = False,
       to_fileOpts = None, format_pre = None, format_time = None, format_level = None, format_tag = None,
       format_origin = None, format_post = None, format_pre_msg = None, to_num_banks = 0, to_flags = 0\<rparr>,
      L\<lparr>nextOptsId := nextOptsId L + 1\<rparr>)"

definition set_flag_GreaseLibTargetOpts :: "u32 \<Rightarrow> GreaseLibTargetOpts \<Rightarrow> GreaseLibTargetOpts" where
  "set_flag_GreaseLibTargetOpts flag o' = o'\<lparr>to_flags := to_flags o' OR flag\<rparr>"

text \<open>The rotation options that are made from the options of a file target.\<close>

definition lib_rotation :: "GreaseLibTargetFileOpts option \<Rightarrow> rotationOpts" where
  "lib_rotation fo =
     (case fo of
        None \<Rightarrow> rotationOpts_new
      | Some f \<Rightarrow>
          let on = (\<lambda>flag. tf_enabledFlags f AND flag \<noteq> 0) in
          if on GREASE_LIB_SET_FILEOPTS_ROTATE then
            rotationOpts_new
              \<lparr>ro_max_files := (if on GREASE_LIB_SET_FILEOPTS_MAXFILES then tf_max_files f else 0),
               ro_max_file_size := (if on GREASE_LIB_SET_FILEOPTS_MAXFILESIZE then tf_max_file_size f else 0),
               ro_max_total_size := (if on GREASE_LIB_SET_FILEOPTS_MAXTOTALSIZE then tf_max_total_size f else 0),
               ro_rotate_on_start := on GREASE_LIB_SET_FILEOPTS_ROTATEONSTART\<rparr>
          else rotationOpts_new)"

definition lib_delim :: "GreaseLibTargetOpts \<Rightarrow> delim_data option" where
  "lib_delim opts =
     (case to_delim opts of
        Some (d, n) \<Rightarrow> setDelim delim_empty d n
      | None \<Rightarrow> map_option (\<lambda>b. delim_empty\<lparr>dd_delim := b\<rparr>) (hb_sprintf heapBuf_empty [0x0A]))"

definition set_fmt ::
  "(bytes \<Rightarrow> nat \<Rightarrow> logTarget \<Rightarrow> logTarget option) \<Rightarrow> fmt_opt \<Rightarrow> logTarget \<Rightarrow> logTarget option" where
  "set_fmt setter f t = (case f of None \<Rightarrow> Some t | Some (s, n) \<Rightarrow> setter s n t)"

definition set_formats :: "GreaseLibTargetOpts \<Rightarrow> logTarget \<Rightarrow> logTarget option" where
  "set_formats opts t =
     Option.bind (set_fmt setLevelFormat (format_level opts) (setCallback (to_targetCB opts) t)) (\<lambda>t.
     Option.bind (set_fmt setOriginFormat (format_origin opts) t) (\<lambda>t.
     Option.bind (set_fmt setTagFormat (format_tag opts) t) (\<lambda>t.
     Option.bind (set_fmt setPostFormat (format_post opts) t) (\<lambda>t.
     Option.bind (set_fmt setPreFormat (format_pre opts) t) (\<lambda>t.
     Option.bind (set_fmt setPreMsgFormat (format_pre_msg opts) t) (\<lambda>t.
       set_fmt setTimeFormat (format_time opts) t))))))"

definition NUM_BANKS :: nat where "NUM_BANKS = 4"

definition lib_kind :: "GreaseLibTargetOpts \<Rightarrow> target_kind" where
  "lib_kind opts = (if to_tty opts then TtyTarget else if to_file opts \<noteq> None then FileTarget else CallbackTarget)"

text \<open>
  \<open>addTarget\<close>. The target is an object the logger points to, so what is set after \<open>targetReady\<close>
  registered it is set in the registered target too. \<open>ready\<close> is whether the terminal could be
  opened; one that could not is deleted in its constructor and used afterwards. A file is
  opened later, in \<open>target_opened\<close>. That a callback target is given its delimiter a second time changes
  nothing.
\<close>

definition addTarget :: "bool \<Rightarrow> bool \<Rightarrow> GreaseLibTargetOpts \<Rightarrow> file_system \<Rightarrow> lib \<Rightarrow> (lib \<times> file_system) option" where
  "addTarget ready libCB opts fs L =
     (let i = nextTargetId L; L1 = L\<lparr>nextTargetId := i + 1\<rparr>; g = lib_grease L;
          banks = (if to_num_banks opts > 0 then unat (to_num_banks opts) else NUM_BANKS);
          started = (if libCB then [(i, to_optsId opts)] else [])
      in Option.bind (lib_delim opts) (\<lambda>d.
         Option.bind (logTarget_new (lib_kind opts) (bufferSize g) i d banks) (\<lambda>t0.
         Option.bind (set_formats opts (setFlag (to_flags opts) t0)) (\<lambda>t.
           case lib_kind opts of
             FileTarget \<Rightarrow>
               (case post_cstor ready (to_file opts) (fileTarget_new [] (lib_rotation (to_fileOpts opts))) fs of
                  Inl e \<Rightarrow> None
                | Inr (r, ft, fs1) \<Rightarrow> Some (L1\<lparr>lib_opening := lib_opening L @ [(to_optsId opts, t, ft)]\<rparr>, fs1))
           | TtyTarget \<Rightarrow>
               map_option (\<lambda>g'. (L1\<lparr>lib_grease := g', lib_started := lib_started L @ started\<rparr>, fs))
                 (targetReady True ready t g)
           | CallbackTarget \<Rightarrow>
               map_option (\<lambda>g'. (L1\<lparr>lib_grease := g', lib_started := lib_started L @ started\<rparr>, fs))
                 (targetReady True True t g)))))"

text \<open>\<open>on_open\<close> of the oldest file target that is being opened.\<close>

definition target_opened :: "bool \<Rightarrow> lib \<Rightarrow> lib option" where
  "target_opened libCB L =
     (case lib_opening L of
        [] \<Rightarrow> Some L
      | (oi, t, ft) # rest \<Rightarrow>
          map_option (\<lambda>g'. L\<lparr>lib_grease := g', lib_opening := rest,
              lib_files := (lib_files L)(myId t \<mapsto> ft),
              lib_started := lib_started L @ (if libCB \<and> myId t \<noteq> 0 then [(myId t, oi)] else [])\<rparr>)
            (targetReady True (ft_open ft) t (lib_grease L)))"

definition modifyDefaultTarget :: "bool \<Rightarrow> GreaseLibTargetOpts \<Rightarrow> file_system \<Rightarrow> lib \<Rightarrow> (lib \<times> file_system) option" where
  "modifyDefaultTarget ready opts fs L =
     (let g = lib_grease L in
      if to_tty opts \<or> to_file opts \<noteq> None then
        Option.bind (lib_delim opts) (\<lambda>d.
        Option.bind (logTarget_new (lib_kind opts) (bufferSize g) 0 d NUM_BANKS) (\<lambda>t0.
        Option.bind (set_formats opts (setFlag (to_flags opts) t0)) (\<lambda>t.
          if to_tty opts then map_option (\<lambda>g'. (L\<lparr>lib_grease := g'\<rparr>, fs)) (targetReady True ready t g)
          else
            (case post_cstor ready (to_file opts) (fileTarget_new [] (lib_rotation (to_fileOpts opts))) fs of
               Inl e \<Rightarrow> None
             | Inr (r, ft, fs1) \<Rightarrow> Some (L\<lparr>lib_opening := lib_opening L @ [(to_optsId opts, t, ft)]\<rparr>, fs1)))))
      else
        (case defaultTarget g of
           None \<Rightarrow> None
         | Some t0 \<Rightarrow>
             Option.bind (case to_delim opts of
                 Some (d, n) \<Rightarrow> map_option (\<lambda>dd. t0\<lparr>t_delim := dd\<rparr>) (setDelim (t_delim t0) d n)
               | None \<Rightarrow> Some t0) (\<lambda>t1.
               map_option (\<lambda>t. (L\<lparr>lib_grease := g\<lparr>defaultTarget := Some t\<rparr>\<rparr>, fs))
                 (set_formats opts (setFlag (to_flags opts) t1)))))"

text \<open>\<open>disableTarget\<close>, \<open>enableTarget\<close> and \<open>flush\<close>, which look in the table of targets only.\<close>

definition set_writes :: "bool \<Rightarrow> TargetId \<Rightarrow> lib \<Rightarrow> lib_ret \<times> lib" where
  "set_writes v i L =
     (case targets (lib_grease L) i of
        None \<Rightarrow> (GREASE_LIB_NOT_FOUND, L)
      | Some t \<Rightarrow> (GREASE_LIB_OK, L\<lparr>lib_grease := (lib_grease L)\<lparr>targets :=
                     (targets (lib_grease L))(i \<mapsto> disableWrites v t)\<rparr>\<rparr>))"

definition disableTarget :: "TargetId \<Rightarrow> lib \<Rightarrow> lib_ret \<times> lib" where "disableTarget = set_writes True"
definition enableTarget :: "TargetId \<Rightarrow> lib \<Rightarrow> lib_ret \<times> lib" where "enableTarget = set_writes False"

definition lib_flush :: "TargetId \<Rightarrow> lib \<Rightarrow> (lib_ret \<times> lib) option" where
  "lib_flush i L =
     (case targets (lib_grease L) i of
        None \<Rightarrow> Some (GREASE_LIB_NOT_FOUND, L)
      | Some t \<Rightarrow>
          map_option (\<lambda>(e, t'). (GREASE_LIB_OK, L\<lparr>lib_grease := (lib_grease L)\<lparr>env := e,
              targets := (targets (lib_grease L))(i \<mapsto> t')\<rparr>\<rparr>))
            (flushAll (env (lib_grease L)) t True False))"

definition logCharBuffer :: "extra_logMeta \<Rightarrow> bytes \<Rightarrow> nat \<Rightarrow> lib \<Rightarrow> (grease_ret \<times> extra_logMeta \<times> lib) option" where
  "logCharBuffer f utf8 len L =
     map_option (\<lambda>(r, f', g'). (r, f', L\<lparr>lib_grease := g'\<rparr>)) (logP (lib_grease L) f utf8 len)"

section \<open>Sinks\<close>

definition GREASE_PATH_MAX :: nat where "GREASE_PATH_MAX = 4096"

record GreaseLibSink =
  gs_path :: bytes                 \<comment> \<open>the array of \<open>GREASE_PATH_MAX\<close> bytes\<close>
  gs_sink_type :: u32
  gs_id :: SinkId

text \<open>\<open>strncpy\<close> fills the array, without a terminator when the path is as long as the array.\<close>

definition GreaseLibSink_new :: "u32 \<Rightarrow> bytes option \<Rightarrow> GreaseLibSink" where
  "GreaseLibSink_new ty path =
     \<lparr>gs_path = take GREASE_PATH_MAX ((case path of Some p \<Rightarrow> p | None \<Rightarrow> []) @ replicate GREASE_PATH_MAX 0),
      gs_sink_type = ty, gs_id = 0\<rparr>"

definition add_sink :: "lib_sink \<Rightarrow> GreaseLibSink \<Rightarrow> lib \<Rightarrow> lib_ret \<times> GreaseLibSink \<times> lib" where
  "add_sink s sink L =
     (GREASE_LIB_OK, sink\<lparr>gs_id := nextSinkId L\<rparr>,
      L\<lparr>nextSinkId := nextSinkId L + 1, lib_sinks := (lib_sinks L)(nextSinkId L \<mapsto> s)\<rparr>)"

text \<open>The results of \<open>socket\<close>, \<open>pipe\<close>, \<open>bind\<close> and \<open>klogctl\<close> are arguments. What \<open>bind\<close> of the sink returns is ignored.\<close>

definition addSink ::
  "int \<Rightarrow> (int \<times> int) option \<Rightarrow> bool \<Rightarrow> int \<Rightarrow> GreaseLibSink \<Rightarrow> lib \<Rightarrow> (lib_ret \<times> GreaseLibSink \<times> lib) option" where
  "addSink fd pip bound klogctl sink L =
     (let path = c_string (gs_path sink); ty = gs_sink_type sink; i = unat (nextSinkId L) in
      if ty = 2 then
        Option.bind (PipeSink_new (Some path) i) (\<lambda>s.
          map_option (\<lambda>ok. add_sink (SinkPipe s) sink L) (PipeSink_bind s))
      else if ty = 1 then
        map_option (\<lambda>(ok, s). add_sink (SinkDgram s) sink L)
          (unixDgramSink_bind fd pip bound (unixDgramSink_new (Some path)))
      else if ty = 3 then
        map_option (\<lambda>(ok, s). add_sink (SinkSyslog s) sink L)
          (syslogDgramSink_bind fd pip bound (syslogDgramSink_new (Some path)))
      else if ty = 4 then Some (add_sink (SinkKlog (snd (kernSink_bind klogctl pip (kernSink_new i)))) sink L)
      else if ty = 5 then Some (add_sink (SinkKlog2 (snd (kernSink_bind klogctl pip (kernSink_new i)))) sink L)
      else Some (LIB_INVALID_PARAMS, sink, L))"

text \<open>Every sink with a path that fits is registered under the next id, even when its socket cannot be bound.\<close>

lemma addSink_registers:
  assumes "gs_sink_type sink \<in> {1, 2, 3, 4, 5}" "length (c_string (gs_path sink)) < SUN_PATH_SIZE"
  shows "\<exists>s. addSink fd pip bound klogctl sink L = Some (add_sink s sink L)"
proof -
  have "\<exists>r. unixDgramSink_bind fd pip bound (unixDgramSink_new (Some (c_string (gs_path sink)))) = Some r"
    using assms(2) by (auto simp: unixDgramSink_bind_def unixDgramSink_new_def buf_write_def Let_def split: option.split)
  moreover obtain ps where "PipeSink_new (Some (c_string (gs_path sink))) (unat (nextSinkId L)) = Some ps" "PipeSink_bind ps = Some True"
    using PipeSink_new_buffers [of "Some (c_string (gs_path sink))" "unat (nextSinkId L)"]
    by (auto simp: PipeSink_new_def PipeSink_bind_def)
  ultimately show ?thesis using assms(1)
    by (auto simp: addSink_def Let_def syslogDgramSink_bind_def syslogDgramSink_new_def)
qed

section \<open>Labels\<close>

lemma setUTF8_label:
  assumes "n \<le> length s"
  shows "\<exists>l'. logLabel_setUTF8 l s n = Some l' \<and> hb_base l' = Some (take n s @ [0]) \<and> hb_len l' = Suc n"
  using assms hb_memcpy_plain [of "hb_malloc l (Suc n)" "replicate (Suc n) 0" n s]
  by (simp add: logLabel_setUTF8_def hb_malloc_def hb_ok_def LMALLOC_def del: replicate_Suc) (simp add: min_def)

lemma fromUTF8_label:
  assumes "n \<le> length s"
  shows "\<exists>l'. logLabel_fromUTF8 s n = Some l' \<and> hb_base l' = Some (take n s @ [0]) \<and> hb_len l' = Suc n"
  using setUTF8_label [OF assms, of heapBuf_empty] by (simp add: logLabel_setUTF8_def logLabel_fromUTF8_def)

lemma label_text: "hb_base l = Some (take n s @ [0]) \<Longrightarrow> cstr l = takeWhile (\<lambda>c. c \<noteq> 0) (take n s)"
  by (auto simp: cstr_def takeWhile_append takeWhile_eq_all_conv intro: takeWhile_eq_all_conv [THEN iffD2, symmetric])

lemma add_label_shown:
  assumes "s \<noteq> []" "0 \<notin> set s"
  shows "\<exists>l. add_label upd v (Some s) (int (length s)) L =
      Some (GREASE_LIB_OK, L\<lparr>lib_grease := (lib_grease L)\<lparr>env := upd (\<lambda>t. t(v \<mapsto> l)) (env (lib_grease L))\<rparr>\<rparr>) \<and>
    (\<forall>tbl. label_arg (tbl(v \<mapsto> l)) v = Some s \<and> (\<forall>w. w \<noteq> v \<longrightarrow> label_arg (tbl(v \<mapsto> l)) w = label_arg tbl w))"
proof -
  obtain l where l: "logLabel_fromUTF8 s (length s) = Some l" "hb_base l = Some (take (length s) s @ [0])"
      "hb_len l = Suc (length s)" using fromUTF8_label [of "length s" s] by auto
  have "cstr l = s" using label_text [OF l(2)] assms(2) by (auto simp: takeWhile_eq_all_conv)
  then show ?thesis using l(1,3) assms(1)
    by (auto simp: add_label_def label_arg_def logLabel_length_def)
qed

text \<open>Labels. A label of at least one character without a NUL that is given to a tag is what the
  headers of messages with that tag are printed with, and the labels of all other tags stay; the
  same for origins and levels.\<close>

lemma labels_shown:
  assumes "s \<noteq> []" "0 \<notin> set s"
  shows "(\<exists>L'. addTagLabel v (Some s) (int (length s)) L = Some (GREASE_LIB_OK, L') \<and>
      label_arg (tagLabels (env (lib_grease L'))) v = Some s \<and>
      (\<forall>w. w \<noteq> v \<longrightarrow> label_arg (tagLabels (env (lib_grease L'))) w = label_arg (tagLabels (env (lib_grease L))) w)) \<and>
    (\<exists>L'. addOriginLabel v (Some s) (int (length s)) L = Some (GREASE_LIB_OK, L') \<and>
      label_arg (originLabels (env (lib_grease L'))) v = Some s \<and>
      (\<forall>w. w \<noteq> v \<longrightarrow> label_arg (originLabels (env (lib_grease L'))) w = label_arg (originLabels (env (lib_grease L))) w)) \<and>
    (\<exists>L'. addLevelLabel v (Some s) (int (length s)) L = Some (GREASE_LIB_OK, L') \<and>
      label_arg (levelLabels (env (lib_grease L'))) v = Some s \<and>
      (\<forall>w. w \<noteq> v \<longrightarrow> label_arg (levelLabels (env (lib_grease L'))) w = label_arg (levelLabels (env (lib_grease L))) w))"
  using add_label_shown [OF assms, of tagLabels_update v L] add_label_shown [OF assms, of originLabels_update v L]
    add_label_shown [OF assms, of levelLabels_update v L]
  by (auto simp: addTagLabel_def addOriginLabel_def addLevelLabel_def)

lemma labels_shown_example:
  "\<exists>L'. addTagLabel 7 (Some [0x6E, 0x65, 0x74]) 3 (lib_new ex_logger) = Some (GREASE_LIB_OK, L') \<and>
     label_arg (tagLabels (env (lib_grease L'))) 7 = Some [0x6E, 0x65, 0x74]"
  using labels_shown [of "[0x6E, 0x65, 0x74]" 7 "lib_new ex_logger"] by auto

section \<open>Unused ids\<close>

fun take_ids :: "(lib \<Rightarrow> u32 \<times> lib) \<Rightarrow> nat \<Rightarrow> lib \<Rightarrow> u32 list" where
  "take_ids get 0 L = []"
| "take_ids get (Suc k) L = (let (i, L') = get L in i # take_ids get k L')"

text \<open>The ids from \<open>START_TAG_ID\<close> to the first reserved one.\<close>

abbreviation n_ids :: nat where "n_ids \<equiv> 60440"

lemma next_id:
  assumes "j < n_ids"
  shows "(let n = (of_nat (1000 + j) :: u32) + 1 in if n \<ge> GREASE_RESERVED_TAGS_START then 1000 else n) =
    of_nat (1000 + Suc j mod n_ids)"
proof -
  have "(of_nat (1000 + j) :: u32) + 1 = of_nat (1000 + Suc j)" by simp
  moreover have "unat (of_nat (1000 + Suc j) :: u32) = 1000 + Suc j"
    using assms by (simp add: unat_of_nat del: of_nat_add of_nat_Suc)
  then have "GREASE_RESERVED_TAGS_START \<le> (of_nat (1000 + Suc j) :: u32) \<longleftrightarrow> 0xF000 \<le> 1000 + Suc j"
    by (simp only: word_le_nat_alt) (simp add: GREASE_RESERVED_TAGS_START_def)
  ultimately show ?thesis using assms by (auto simp: Let_def mod_if)
qed

lemma take_ids_run:
  assumes "\<And>L. get L = (nxt L, upd L (let n = nxt L + 1 in if n \<ge> GREASE_RESERVED_TAGS_START then 1000 else n))"
    "\<And>L v. nxt (upd L v) = v" "nxt L = of_nat (1000 + j)" "j < n_ids"
  shows "take_ids get k L = map (\<lambda>m. of_nat (1000 + (j + m) mod n_ids)) [0..<k]"
  using assms(3,4)
proof (induction k arbitrary: L j)
  case (Suc k)
  let ?L = "upd L (of_nat (1000 + Suc j mod n_ids))"
  have "get L = (of_nat (1000 + j), ?L)" using assms(1) [of L] next_id [OF Suc.prems(2)] Suc.prems(1) by simp
  moreover have "take_ids get k ?L = map (\<lambda>m. of_nat (1000 + (Suc j mod n_ids + m) mod n_ids)) [0..<k]"
    by (rule Suc.IH) (simp_all add: assms(2))
  moreover have "(Suc j mod n_ids + m) mod n_ids = (j + Suc m) mod n_ids" for m by (simp add: mod_simps)
  ultimately show ?case using Suc.prems(2)
    by (simp add: upt_conv_Cons map_Suc_upt [symmetric] o_def del: upt_Suc)
qed simp

lemma ids_facts:
  "length xs \<le> n_ids \<Longrightarrow> xs = map (\<lambda>m. of_nat (1000 + m mod n_ids) :: u32) [0..<k] \<Longrightarrow> distinct xs"
  "i \<in> set (map (\<lambda>m. of_nat (1000 + m mod n_ids) :: u32) [0..<k]) \<Longrightarrow> 1000 \<le> i \<and> i < GREASE_RESERVED_TAGS_START"
proof -
  have u: "unat (of_nat (1000 + m mod n_ids) :: u32) = 1000 + m mod n_ids" for m
    using mod_less_divisor [of n_ids m] by (simp add: unat_of_nat del: of_nat_add)
  show "distinct xs" if "length xs \<le> n_ids" "xs = map (\<lambda>m. of_nat (1000 + m mod n_ids) :: u32) [0..<k]"
  proof -
    have "inj_on (\<lambda>m. of_nat (1000 + m mod n_ids) :: u32) (set [0..<k])"
    proof (rule inj_onI)
      fix x y assume xy: "x \<in> set [0..<k]" "y \<in> set [0..<k]"
        "(of_nat (1000 + x mod n_ids) :: u32) = of_nat (1000 + y mod n_ids)"
      have "1000 + x mod n_ids = 1000 + y mod n_ids" using u [of x] u [of y] xy(3) by metis
      then show "x = y" using xy(1,2) that by simp
    qed
    then show ?thesis unfolding that(2) distinct_map by simp
  qed
  show "1000 \<le> i \<and> i < GREASE_RESERVED_TAGS_START" if "i \<in> set (map (\<lambda>m. of_nat (1000 + m mod n_ids) :: u32) [0..<k])"
  proof -
    obtain m where m: "unat i = 1000 + m mod n_ids" using \<open>i \<in> _\<close> u by auto
    have "m mod n_ids < n_ids" by simp
    then show ?thesis using m by (simp add: word_le_nat_alt word_less_nat_alt GREASE_RESERVED_TAGS_START_def)
  qed
qed

text \<open>C37: Unused ids. The tag ids that a fresh library hands out lie between \<open>START_TAG_ID\<close> and the reserved
  tags, and the first 60440 of them are different from each other; likewise the origin ids.\<close>

theorem unused_ids:
  "(\<forall>i \<in> set (take_ids getUnusedTagId k (lib_new g)). START_TAG_ID \<le> i \<and> i < GREASE_RESERVED_TAGS_START) \<and>
   (\<forall>i \<in> set (take_ids getUnusedOriginId k (lib_new g)). START_ORIGIN_ID \<le> i \<and> i < GREASE_RESERVED_TAGS_START) \<and>
   (k \<le> n_ids \<longrightarrow> distinct (take_ids getUnusedTagId k (lib_new g)) \<and> distinct (take_ids getUnusedOriginId k (lib_new g)))"
proof -
  have 1: "take_ids getUnusedTagId k (lib_new g) = map (\<lambda>m. of_nat (1000 + (0 + m) mod n_ids)) [0..<k]"
    by (rule take_ids_run [where nxt = nextTagId and upd = "\<lambda>L v. L\<lparr>nextTagId := v\<rparr>"])
      (simp_all add: getUnusedTagId_def START_TAG_ID_def lib_new_def Let_def)
  have 2: "take_ids getUnusedOriginId k (lib_new g) = map (\<lambda>m. of_nat (1000 + (0 + m) mod n_ids)) [0..<k]"
    by (rule take_ids_run [where nxt = nextOriginId and upd = "\<lambda>L v. L\<lparr>nextOriginId := v\<rparr>"])
      (simp_all add: getUnusedOriginId_def START_ORIGIN_ID_def lib_new_def Let_def)
  show ?thesis unfolding 1 2
    using ids_facts(1) [OF _ refl, of k] ids_facts(2) [of _ k] by (simp add: START_TAG_ID_def START_ORIGIN_ID_def)
qed

theorem unused_ids_witness: "distinct (take_ids getUnusedTagId 3 (lib_new ex_logger))"
  using unused_ids [of 3 ex_logger] by simp

section \<open>Rotation through the library\<close>

text \<open>The options of the library never switch rotation on: a file target that is made from them does
  not rotate at its start, and a completed write, whatever the size of the file, only lowers the
  number of outstanding writes.\<close>

lemma lib_never_rotates:
  "(ft_filerotation ft = lib_rotation fo \<longrightarrow>
      file_write_cb opens ft fs = Inr (ft\<lparr>ft_submittedWrites := ft_submittedWrites ft - 1\<rparr>, fs)) \<and>
   post_cstor opens (Some p) (fileTarget_new [] (lib_rotation fo)) fs =
     Inr (opens, fs_open opens (fileTarget_new (take MAX_STRDUP p) (lib_rotation fo)) fs)"
proof -
  have "\<not> ro_enabled (lib_rotation fo)"
    by (auto simp: lib_rotation_def rotationOpts_new_def Let_def split: option.split)
  then show ?thesis
    by (auto simp: file_write_cb_def check_and_maybe_rotate_def post_cstor_def local_strdup_safe_def
        fileTarget_new_def Let_def)
qed

lemma lib_never_rotates_example:
  "file_write_cb True (fileTarget_new [0x61] (lib_rotation (Some (set_flag_GreaseLibTargetFileOpts
       (GREASE_LIB_SET_FILEOPTS_ROTATE OR GREASE_LIB_SET_FILEOPTS_MAXFILESIZE) GreaseLibTargetFileOpts_new)))
       \<lparr>ft_current_size := 1000, ft_submittedWrites := 1\<rparr>) (\<lambda>p. None) =
     Inr (fileTarget_new [0x61] (lib_rotation (Some (set_flag_GreaseLibTargetFileOpts
       (GREASE_LIB_SET_FILEOPTS_ROTATE OR GREASE_LIB_SET_FILEOPTS_MAXFILESIZE) GreaseLibTargetFileOpts_new)))
       \<lparr>ft_current_size := 1000, ft_submittedWrites := 0\<rparr>, \<lambda>p. None)"
  using lib_never_rotates [of "fileTarget_new [0x61] (lib_rotation (Some (set_flag_GreaseLibTargetFileOpts
       (GREASE_LIB_SET_FILEOPTS_ROTATE OR GREASE_LIB_SET_FILEOPTS_MAXFILESIZE) GreaseLibTargetFileOpts_new)))
       \<lparr>ft_current_size := 1000, ft_submittedWrites := 1\<rparr>" _ True "\<lambda>p. None"]
  by (simp add: fileTarget_new_def)

section \<open>A target that was added\<close>

definition fmt_ok :: "fmt_opt \<Rightarrow> bool" where
  "fmt_ok f \<longleftrightarrow> (case f of None \<Rightarrow> True | Some (s, n) \<Rightarrow> n \<le> length s)"

text \<open>The text of a format option; \<open>[]\<close> when it is not given.\<close>

definition fmt_text :: "fmt_opt \<Rightarrow> bytes" where
  "fmt_text f = (case f of None \<Rightarrow> [] | Some (s, n) \<Rightarrow> takeWhile (\<lambda>c. c \<noteq> 0) (take n s))"

lemma set_fmt_spec:
  assumes "\<And>s n t. setter s n t = map_option (upd t) (logLabel_setUTF8 (sel t) s n)" "upd t (sel t) = t"
    "fmt_ok f" "sel t = heapBuf_empty"
  shows "\<exists>l. set_fmt setter f t = Some (upd t l) \<and> cstr l = fmt_text f"
proof (cases f)
  case None
  then show ?thesis using assms(2,4)
    by (intro exI [of _ "sel t"]) (simp add: set_fmt_def fmt_text_def cstr_def heapBuf_empty_def)
next
  case (Some p)
  obtain s n where p: "p = (s, n)" by force
  have "n \<le> length s" using assms(3) Some p by (simp add: fmt_ok_def)
  from setUTF8_label [OF this, of "sel t"] show ?thesis
    using Some p assms(1) label_text by (fastforce simp: set_fmt_def fmt_text_def)
qed

lemmas set_fmt_specs =
  set_fmt_spec [where setter = setLevelFormat and upd = "\<lambda>t l. t\<lparr>levelFormat := l\<rparr>" and sel = levelFormat,
    OF setLevelFormat_def]
  set_fmt_spec [where setter = setOriginFormat and upd = "\<lambda>t l. t\<lparr>originFormat := l\<rparr>" and sel = originFormat,
    OF setOriginFormat_def]
  set_fmt_spec [where setter = setTagFormat and upd = "\<lambda>t l. t\<lparr>tagFormat := l\<rparr>" and sel = tagFormat,
    OF setTagFormat_def]
  set_fmt_spec [where setter = setPostFormat and upd = "\<lambda>t l. t\<lparr>t_postFormat := l\<rparr>" and sel = t_postFormat,
    OF setPostFormat_def]
  set_fmt_spec [where setter = setPreFormat and upd = "\<lambda>t l. t\<lparr>t_preFormat := l\<rparr>" and sel = t_preFormat,
    OF setPreFormat_def]
  set_fmt_spec [where setter = setPreMsgFormat and upd = "\<lambda>t l. t\<lparr>preMsgFormat := l\<rparr>" and sel = preMsgFormat,
    OF setPreMsgFormat_def]
  set_fmt_spec [where setter = setTimeFormat and upd = "\<lambda>t l. t\<lparr>timeFormat := l\<rparr>" and sel = timeFormat,
    OF setTimeFormat_def]

definition opts_ok :: "GreaseLibTargetOpts \<Rightarrow> bool" where
  "opts_ok opts \<longleftrightarrow> list_all fmt_ok [to_delim opts, format_pre opts, format_time opts, format_level opts,
     format_tag opts, format_origin opts, format_post opts, format_pre_msg opts]"

definition no_formats :: "logTarget \<Rightarrow> bool" where
  "no_formats t \<longleftrightarrow> list_all (\<lambda>l. l = heapBuf_empty) [timeFormat t, tagFormat t, originFormat t, levelFormat t,
     t_preFormat t, t_postFormat t, preMsgFormat t]"

text \<open>The formats of the target are those of the options.\<close>

definition has_formats :: "GreaseLibTargetOpts \<Rightarrow> logTarget \<Rightarrow> bool" where
  "has_formats opts t \<longleftrightarrow>
     cstr (timeFormat t) = fmt_text (format_time opts) \<and> cstr (tagFormat t) = fmt_text (format_tag opts) \<and>
     cstr (originFormat t) = fmt_text (format_origin opts) \<and> cstr (levelFormat t) = fmt_text (format_level opts) \<and>
     cstr (t_preFormat t) = fmt_text (format_pre opts) \<and> cstr (t_postFormat t) = fmt_text (format_post opts) \<and>
     cstr (preMsgFormat t) = fmt_text (format_pre_msg opts)"

lemma set_formats_spec:
  assumes "opts_ok opts" "no_formats t"
  shows "\<exists>a b c d e f h. set_formats opts t = Some ((setCallback (to_targetCB opts) t)
      \<lparr>levelFormat := a, originFormat := b, tagFormat := c, t_postFormat := d, t_preFormat := e, preMsgFormat := f,
       timeFormat := h\<rparr>) \<and>
    has_formats opts (t\<lparr>levelFormat := a, originFormat := b, tagFormat := c, t_postFormat := d, t_preFormat := e,
      preMsgFormat := f, timeFormat := h\<rparr>)"
proof -
  let ?t = "setCallback (to_targetCB opts) t"
  have t: "no_formats ?t" using assms(2) by (simp add: setCallback_def no_formats_def)
  note ok = assms(1) [unfolded opts_ok_def, simplified] t [unfolded no_formats_def, simplified]
  obtain a where a: "set_fmt setLevelFormat (format_level opts) ?t = Some (?t\<lparr>levelFormat := a\<rparr>)"
      "cstr a = fmt_text (format_level opts)" using set_fmt_specs(1) ok by force
  let ?t1 = "?t\<lparr>levelFormat := a\<rparr>"
  obtain b where b: "set_fmt setOriginFormat (format_origin opts) ?t1 = Some (?t1\<lparr>originFormat := b\<rparr>)"
      "cstr b = fmt_text (format_origin opts)" using set_fmt_specs(2) [of ?t1] ok by force
  let ?t2 = "?t1\<lparr>originFormat := b\<rparr>"
  obtain c where c: "set_fmt setTagFormat (format_tag opts) ?t2 = Some (?t2\<lparr>tagFormat := c\<rparr>)"
      "cstr c = fmt_text (format_tag opts)" using set_fmt_specs(3) [of ?t2] ok by force
  let ?t3 = "?t2\<lparr>tagFormat := c\<rparr>"
  obtain d where d: "set_fmt setPostFormat (format_post opts) ?t3 = Some (?t3\<lparr>t_postFormat := d\<rparr>)"
      "cstr d = fmt_text (format_post opts)" using set_fmt_specs(4) [of ?t3] ok by force
  let ?t4 = "?t3\<lparr>t_postFormat := d\<rparr>"
  obtain e where e: "set_fmt setPreFormat (format_pre opts) ?t4 = Some (?t4\<lparr>t_preFormat := e\<rparr>)"
      "cstr e = fmt_text (format_pre opts)" using set_fmt_specs(5) [of ?t4] ok by force
  let ?t5 = "?t4\<lparr>t_preFormat := e\<rparr>"
  obtain f where f: "set_fmt setPreMsgFormat (format_pre_msg opts) ?t5 = Some (?t5\<lparr>preMsgFormat := f\<rparr>)"
      "cstr f = fmt_text (format_pre_msg opts)" using set_fmt_specs(6) [of ?t5] ok by force
  let ?t6 = "?t5\<lparr>preMsgFormat := f\<rparr>"
  obtain h where h: "set_fmt setTimeFormat (format_time opts) ?t6 = Some (?t6\<lparr>timeFormat := h\<rparr>)"
      "cstr h = fmt_text (format_time opts)" using set_fmt_specs(7) [of ?t6] ok by force
  have "set_formats opts t = Some (?t6\<lparr>timeFormat := h\<rparr>)"
    using a(1) b(1) c(1) d(1) e(1) f(1) h(1) by (simp add: set_formats_def)
  moreover have "has_formats opts (t\<lparr>levelFormat := a, originFormat := b, tagFormat := c, t_postFormat := d,
      t_preFormat := e, preMsgFormat := f, timeFormat := h\<rparr>)"
    by (simp add: has_formats_def a(2) b(2) c(2) d(2) e(2) f(2) h(2))
  ultimately show ?thesis by blast
qed

definition delim_text :: "fmt_opt \<Rightarrow> bytes" where
  "delim_text f = (case f of None \<Rightarrow> [0x0A] | Some (s, n) \<Rightarrow> take n s)"

lemma lib_delim_spec:
  assumes "fmt_ok (to_delim opts)"
  shows "\<exists>d. lib_delim opts = Some d \<and> hb_ok (dd_delim d) \<and> dbytes d = delim_text (to_delim opts)"
proof (cases "to_delim opts")
  case None
  then show ?thesis
    by (simp add: lib_delim_def hb_sprintf_def buf_read_def dbytes_def delim_text_def hb_ok_def)
next
  case (Some p)
  obtain s n where p: "p = (s, n)" by force
  have "n \<le> length s" using assms Some p by (simp add: fmt_ok_def)
  then show ?thesis
    using Some p hb_memcpy_plain [of "hb_malloc heapBuf_empty n" "replicate n 0" n s]
    by (simp add: lib_delim_def setDelim_def delim_empty_def hb_malloc_def hb_ok_def LMALLOC_def dbytes_def delim_text_def)
qed

lemma logTarget_new_fields:
  assumes "logTarget_new kind sz i d n = Some t"
  shows "no_formats t \<and> t_delim t = d \<and> bankSize t = sz \<and> myId t = i \<and> t_flags t = 0 \<and> \<not> t_disabled t \<and>
    numBanks t = n \<and> t_kind t = kind"
  using assms by (auto simp: logTarget_new_def no_formats_def)

lemma target_inv_formats:
  "target_inv e (t\<lparr>levelFormat := a, originFormat := b, tagFormat := c, t_postFormat := d, t_preFormat := x,
     preMsgFormat := y, timeFormat := z\<rparr>) = target_inv e t"
  "target_inv e (setCallback v t) = target_inv e t" "target_inv e (setFlag w t) = target_inv e t"
  by (simp_all add: target_inv_def owned_def setCallback_def setFlag_def)

text \<open>The configured target that \<open>addTarget\<close> and \<open>modifyDefaultTarget\<close> make.\<close>

lemma configured_target:
  assumes "opts_ok opts" "0 < n" "circ_inv (callerLogCallbacks e)"
    "cb_banks i (circ_list (callerLogCallbacks e)) = []"
  shows "\<exists>d t0 t. lib_delim opts = Some d \<and> logTarget_new kind sz i d n = Some t0 \<and>
    set_formats opts (setFlag (to_flags opts) t0) = Some t \<and> target_inv e t \<and> has_formats opts t \<and>
    t_flags t = to_flags opts \<and> \<not> t_disabled t \<and> bankSize t = sz \<and> myId t = i \<and> numBanks t = n \<and> t_kind t = kind \<and>
    dbytes (t_delim t) = delim_text (to_delim opts)"
proof -
  have "fmt_ok (to_delim opts)" using assms(1) by (simp add: opts_ok_def)
  from lib_delim_spec [OF this] obtain d where
    d: "lib_delim opts = Some d" "hb_ok (dd_delim d)" "dbytes d = delim_text (to_delim opts)" by blast
  from logTarget_new_ready [OF assms(2) d(2) assms(3,4)] obtain t0 where
    t0: "logTarget_new kind sz i d n = Some t0" "target_inv e t0" by blast
  note fl = logTarget_new_fields [OF t0(1)]
  let ?t = "setFlag (to_flags opts) t0"
  have nf: "no_formats ?t" using fl by (simp add: setFlag_def no_formats_def)
  from set_formats_spec [OF assms(1) nf] obtain a b c x y z w where
    t: "set_formats opts ?t = Some ((setCallback (to_targetCB opts) ?t)\<lparr>levelFormat := a, originFormat := b,
      tagFormat := c, t_postFormat := x, t_preFormat := y, preMsgFormat := z, timeFormat := w\<rparr>)"
      "has_formats opts (?t\<lparr>levelFormat := a, originFormat := b, tagFormat := c, t_postFormat := x,
        t_preFormat := y, preMsgFormat := z, timeFormat := w\<rparr>)" by blast
  let ?u = "(setCallback (to_targetCB opts) ?t)\<lparr>levelFormat := a, originFormat := b,
      tagFormat := c, t_postFormat := x, t_preFormat := y, preMsgFormat := z, timeFormat := w\<rparr>"
  have "target_inv e ?u" using t0(2) by (simp only: target_inv_formats)
  moreover have "has_formats opts ?u" using t(2) by (simp add: has_formats_def)
  moreover have "t_flags ?u = to_flags opts" "\<not> t_disabled ?u" "bankSize ?u = sz" "myId ?u = i" "numBanks ?u = n"
      "t_kind ?u = kind" "t_delim ?u = d"
    using fl by (simp_all add: setCallback_def setFlag_def)
  ultimately show ?thesis using d t0(1) t(1) by blast
qed

text \<open>C22: Adding a target. A terminal that can be opened, or a callback target, is registered under the next
  id, which the library counts on: a target in its initial state (every bank accounted for, no
  writes disabled), with the flags, the delimiter (a newline unless one is given), the formats and
  the number of banks of the options. The logger's other targets, its filters, its pool and its
  queue stay as they were.\<close>

theorem added_target:
  assumes "opts_ok opts" "to_file opts = None" "to_tty opts \<longrightarrow> ready" "nextTargetId L \<noteq> 0"
    "circ_inv (callerLogCallbacks (env (lib_grease L)))"
    "cb_banks (nextTargetId L) (circ_list (callerLogCallbacks (env (lib_grease L)))) = []"
  shows "\<exists>L' t. addTarget ready libCB opts fs L = Some (L', fs) \<and> nextTargetId L' = nextTargetId L + 1 \<and>
    find_target (lib_grease L') (nextTargetId L) = Some t \<and> target_inv (env (lib_grease L')) t \<and> has_formats opts t \<and>
    t_flags t = to_flags opts \<and> \<not> t_disabled t \<and> dbytes (t_delim t) = delim_text (to_delim opts) \<and>
    numBanks t = (if to_num_banks opts > 0 then unat (to_num_banks opts) else NUM_BANKS) \<and>
    bankSize t = bufferSize (lib_grease L) \<and>
    (\<forall>j. j \<noteq> nextTargetId L \<longrightarrow> find_target (lib_grease L') j = find_target (lib_grease L) j) \<and>
    env (lib_grease L') = env (lib_grease L) \<and> filters (lib_grease L') = filters (lib_grease L) \<and>
    masterBufferAvail (lib_grease L') = masterBufferAvail (lib_grease L)"
proof -
  let ?n = "if to_num_banks opts > 0 then unat (to_num_banks opts) else NUM_BANKS"
  have "0 < ?n" by (auto simp: NUM_BANKS_def unat_gt_0)
  from configured_target [OF assms(1) this assms(5,6), of "lib_kind opts" "bufferSize (lib_grease L)"] obtain d t0 t where
    t: "lib_delim opts = Some d" "logTarget_new (lib_kind opts) (bufferSize (lib_grease L)) (nextTargetId L) d ?n = Some t0"
      "set_formats opts (setFlag (to_flags opts) t0) = Some t" "target_inv (env (lib_grease L)) t" "has_formats opts t"
      "t_flags t = to_flags opts" "\<not> t_disabled t" "bankSize t = bufferSize (lib_grease L)" "myId t = nextTargetId L"
      "numBanks t = ?n" "dbytes (t_delim t) = delim_text (to_delim opts)" by blast
  let ?g = "(lib_grease L)\<lparr>targets := (targets (lib_grease L))(nextTargetId L \<mapsto> t),
    target_order := (if nextTargetId L \<in> set (target_order (lib_grease L)) then target_order (lib_grease L)
                     else target_order (lib_grease L) @ [nextTargetId L])\<rparr>"
  have r: "targetReady True True t (lib_grease L) = Some ?g" using t(9) assms(4) by (simp add: targetReady_def)
  let ?L = "L\<lparr>nextTargetId := nextTargetId L + 1, lib_grease := ?g,
    lib_started := lib_started L @ (if libCB then [(nextTargetId L, to_optsId opts)] else [])\<rparr>"
  have "addTarget ready libCB opts fs L = Some (?L, fs)"
    using t(1-3) r assms(2,3) by (simp add: addTarget_def Let_def lib_kind_def)
  moreover have "find_target ?g (nextTargetId L) = Some t"
      "\<forall>j. j \<noteq> nextTargetId L \<longrightarrow> find_target ?g j = find_target (lib_grease L) j"
    using assms(4) by (simp_all add: find_target_def)
  ultimately show ?thesis using t(4-8,10,11) by (intro exI [of _ ?L] exI [of _ t]) simp
qed

definition ex_opts :: GreaseLibTargetOpts where
  "ex_opts = (fst (GreaseLibTargetOpts_new (lib_new ex_logger)))
     \<lparr>to_targetCB := True, format_tag := Some ([0x3C, 0x25, 0x73, 0x3E], 4)\<rparr>"

theorem added_target_witness:
  "\<exists>L' t. addTarget False True ex_opts (\<lambda>p. None) (lib_new ex_logger) = Some (L', \<lambda>p. None) \<and>
     find_target (lib_grease L') 1 = Some t \<and> target_inv (env (lib_grease L')) t \<and>
     cstr (tagFormat t) = [0x3C, 0x25, 0x73, 0x3E] \<and> dbytes (t_delim t) = [0x0A] \<and> numBanks t = 4"
proof -
  have o: "opts_ok ex_opts" "to_file ex_opts = None" "\<not> to_tty ex_opts" "to_delim ex_opts = None" "to_num_banks ex_opts = 0"
      "fmt_text (format_tag ex_opts) = [0x3C, 0x25, 0x73, 0x3E]"
    by (simp_all add: opts_ok_def ex_opts_def GreaseLibTargetOpts_new_def fmt_ok_def fmt_text_def)
  have "callerLogCallbacks (env ex_logger) = callerLogCallbacks env_new"
    using arg_cong [OF ex_logger_env, of callerLogCallbacks] by simp
  then have c: "circ_inv (callerLogCallbacks (env (lib_grease (lib_new ex_logger))))"
      "circ_list (callerLogCallbacks (env (lib_grease (lib_new ex_logger)))) = []"
    using env_new_cb by (simp_all add: lib_new_def)
  have i: "nextTargetId (lib_new ex_logger) = 1" by (simp add: lib_new_def)
  show ?thesis
    using added_target [OF o(1,2), of False "lib_new ex_logger" True "\<lambda>p. None"] o(3-6) c i
    by (auto simp: has_formats_def delim_text_def NUM_BANKS_def)
qed

end
