(* ===== verification/Grease_System.thy ===== *)
theory Grease_System
  imports Grease_Lib
begin

text \<open>
  The logger with all its sources at work: datagrams of other processes, messages of the system log,
  the two kernel logs, descriptors of processes, calls of the program itself, and between them the
  logger thread and the library's calls, in any order. The state is the library and the kernel
  sink with its own state.
\<close>

section \<open>What comes in\<close>

type_synonym matcher = "bytes \<Rightarrow> (int \<times> bytes) option"

datatype intake =
    Datagram int nat bytes bytes             \<comment> \<open>argument of \<open>select\<close>, receive buffer, temporary buffer, data\<close>
  | SyslogMessage nat bytes
  | KernelText bytes bytes                   \<comment> \<open>the sink's buffer and the text\<close>
  | KernelRecord bytes
  | FdReady stream_type int int int "bytes option list"
  | LogCall extra_logMeta bytes nat

definition receive :: "matcher \<Rightarrow> intake \<Rightarrow> lib \<times> kmsg_sink \<Rightarrow> (lib \<times> kmsg_sink) option" where
  "receive full_match i s =
     (let (L, ks) = s; g = lib_grease L; put = (\<lambda>g'. (L\<lparr>lib_grease := g'\<rparr>, ks)) in
      case i of
        Datagram n rcv temp data \<Rightarrow> map_option (put \<circ> snd) (dgram_receive n rcv temp data g)
      | SyslogMessage rcv data \<Rightarrow> map_option put (syslog_receive full_match rcv data g)
      | KernelText temp data \<Rightarrow> map_option (put \<circ> fst) (klog_read g temp data)
      | KernelRecord data \<Rightarrow>
          (if ks_running ks then map_option (\<lambda>(ks', g'). (L\<lparr>lib_grease := g'\<rparr>, ks')) (kmsg_readable data ks g)
           else Some s)
      | FdReady st fd status events reads \<Rightarrow>
          map_option (\<lambda>(reads', rs', g'). (L\<lparr>lib_grease := g', lib_redirects := rs'\<rparr>, ks))
            (handle_fd st fd status events reads (lib_redirects L, g))
      | LogCall f txt len \<Rightarrow> map_option (\<lambda>(r, f', L'). (L', ks)) (logCharBuffer f txt len L))"

text \<open>
  The limits within which an input stays inside the buffers of its sink: a datagram of at most
  \<open>GREASE_MAX_MESSAGE_SIZE\<close> bytes with room for the metadata behind it, a message of the system log that is shorter
  than the receive buffer and whose facility is not between the end of the table of tags and its size in
  bytes, kernel text and records shorter than the sinks' buffers, and a call with readable text. Lemma
  \<open>limits_needed\<close> and \<open>dgram_overruns_temp\<close> show what lies outside.
\<close>

definition intake_ok :: "matcher \<Rightarrow> nat \<Rightarrow> intake \<Rightarrow> bool" where
  "intake_ok full_match ksz i \<longleftrightarrow>
     (case i of
        Datagram n rcv temp data \<Rightarrow> length temp = GREASE_MAX_MESSAGE_SIZE \<and> length data \<le> GREASE_MAX_MESSAGE_SIZE \<and>
          length data + sizeof_logMeta + sizeof_ignore_list \<le> rcv
      | SyslogMessage rcv data \<Rightarrow> length data < rcv \<and>
          (case full_match (c_string (data @ [0])) of
             None \<Rightarrow> True
           | Some (p, msg) \<Rightarrow> LOG_FAC p < length GREASE_SYSLOGFAC_TO_TAG_MAP \<or> sizeof_tag_map \<le> LOG_FAC p)
      | KernelText temp data \<Rightarrow> length data < length temp
      | KernelRecord data \<Rightarrow> length data < ksz
      | FdReady st fd status events reads \<Rightarrow> True
      | LogCall f txt len \<Rightarrow> len \<le> length txt)"

section \<open>Every source keeps the pool\<close>

text \<open>No pool buffer is lost: the kernel sink holds the only one that is neither free nor queued.\<close>

definition sys_inv :: "nat \<Rightarrow> nat \<Rightarrow> lib \<times> kmsg_sink \<Rightarrow> bool" where
  "sys_inv n ksz s \<longleftrightarrow> kmsg_inv n [] (snd s) (lib_grease (fst s)) \<and> length (ks_buf (snd s)) = ksz \<and>
     (\<forall>(oi, t, ft) \<in> set (lib_opening (fst s)). t_overflow t = [])"

lemma syslog_any:
  assumes "pool_inv n gr g" "intake_ok full_match ksz (SyslogMessage rcv data)"
  shows "\<exists>g'. syslog_receive full_match rcv data g = Some g' \<and> pool_inv n gr g'"
proof (cases "data = []")
  case True
  then show ?thesis using assms(1) by (simp add: syslog_receive_def scatter_Cons)
next
  case False
  let ?buf = "data @ replicate (rcv - length data) 0" let ?m = "DECL_LOG_META GREASE_TAG_SYSLOG GREASE_LEVEL_LOG 0"
  have l: "length data < rcv" using assms(2) by (simp add: intake_ok_def)
  then obtain k where k: "rcv - length data = Suc k" by (metis Suc_diff_Suc)
  have c: "c_string ?buf = c_string (data @ [0])" by (auto simp: k c_string_def takeWhile_append)
  have stop: "syslog_loop full_match bufs (int (length data) - int rcv) m g' = Some g'" for bufs m g'
    using l by (cases bufs) auto
  have nb: "min (length data) (nbuffers * rcv) = length data" using l by (simp add: nbuffers_def)
  have "\<exists>m g'. syslog_one full_match ?buf ?m g = Some (m, g') \<and> pool_inv n gr g'"
  proof (cases "full_match (c_string ?buf)")
    case None
    from logP_total [OF assms(1), of "length ?buf" ?buf "fresh_extra ?m"] show ?thesis
      using None k by (auto simp: syslog_one_def)
  next
    case (Some pm)
    obtain p msg where pm: "pm = (p, msg)" by force
    then have "LOG_FAC p < length GREASE_SYSLOGFAC_TO_TAG_MAP \<or> sizeof_tag_map \<le> LOG_FAC p"
      using assms(2) Some c by (simp add: intake_ok_def)
    then have "syslog_meta p ?m \<noteq> None" by (auto simp: syslog_meta_def sizeof_tag_map_def Let_def)
    then obtain m where m: "syslog_meta p ?m = Some m" by blast
    from logP_total [OF assms(1), of "length msg" "msg @ [0]" "fresh_extra m"] show ?thesis
      using Some pm m k by (auto simp: syslog_one_def)
  qed
  then show ?thesis using False l nb stop
    by (auto simp: syslog_receive_def scatter_Cons)
qed

lemma receive_keeps:
  assumes "sys_inv n ksz s" "intake_ok full_match ksz i"
  shows "\<exists>s'. receive full_match i s = Some s' \<and> sys_inv n ksz s'"
proof -
  obtain L ks where s: "s = (L, ks)" by force
  let ?g = "lib_grease L"
  have ki: "kmsg_inv n [] ks ?g" "length (ks_buf ks) = ksz"
    and op: "\<forall>(oi, t, ft) \<in> set (lib_opening L). t_overflow t = []" using assms(1) s by (simp_all add: sys_inv_def)
  then have p: "pool_inv n (kmsg_held ks) ?g" by (simp add: kmsg_inv_def)
  have ok: "sys_inv n ksz (L', ks)" if "pool_inv n (kmsg_held ks) (lib_grease L')" "lib_opening L' = lib_opening L" for L'
    using that ki op by (simp add: sys_inv_def kmsg_inv_def)
  show ?thesis
  proof (cases i)
    case (Datagram nf rcv temp data)
    then show ?thesis using dgram_walks [OF p, of temp data rcv nf] assms(2) s ok
      by (fastforce simp: receive_def intake_ok_def)
  next
    case (SyslogMessage rcv data)
    then show ?thesis using syslog_any [OF p] assms(2) s ok by (fastforce simp: receive_def)
  next
    case (KernelText temp data)
    then show ?thesis using klog_read_any [OF p, of data temp] assms(2) s ok
      by (fastforce simp: receive_def intake_ok_def)
  next
    case (KernelRecord data)
    then show ?thesis using kmsg_any [OF ki(1), of data] assms s ki(2) op
      by (cases "ks_running ks") (auto simp: receive_def intake_ok_def sys_inv_def)
  next
    case (FdReady st fd status events reads)
    then show ?thesis using handle_fd_any [OF p, of st fd status events reads "lib_redirects L"] s ok
      by (fastforce simp: receive_def)
  next
    case (LogCall f tx len)
    then show ?thesis using logP_total [OF p, of len tx f] assms(2) s ok
      by (fastforce simp: receive_def intake_ok_def logCharBuffer_def)
  qed
qed

section \<open>All interleavings\<close>

text \<open>
  The steps: an input, a command of the logger thread (a message, a large message, the writing out of
  a target's buffers, the shutdown), the flush timer, a write that a device completed, the callbacks
  to the program and a buffer it gives back, the request to shut down, and the library's calls on
  targets, filters, sinks, labels and descriptors.
\<close>

inductive sys_step :: "matcher \<Rightarrow> nat \<Rightarrow> lib \<times> kmsg_sink \<Rightarrow> lib \<times> kmsg_sink \<Rightarrow> bool"
  for full_match :: matcher and ksz :: nat where
  s_receive: "intake_ok full_match ksz i \<Longrightarrow> receive full_match i s = Some s' \<Longrightarrow> sys_step full_match ksz s s'"
| s_command: "circ_remove (internalCmdQueue (env (lib_grease L))) = Some (r, q) \<Longrightarrow>
    handle_cmd render tm r ((lib_grease L)\<lparr>env := (env (lib_grease L))\<lparr>internalCmdQueue := q\<rparr>\<rparr>) = Some g' \<Longrightarrow>
    sys_step full_match ksz (L, ks) (L\<lparr>lib_grease := g'\<rparr>, ks)"
| s_timer: "flushTimer_cb (lib_grease L) = Some g' \<Longrightarrow> sys_step full_match ksz (L, ks) (L\<lparr>lib_grease := g'\<rparr>, ks)"
| s_written: "on_target i (\<lambda>e t. write_cb e t b nocb) (lib_grease L) = Some g' \<Longrightarrow>
    sys_step full_match ksz (L, ks) (L\<lparr>lib_grease := g'\<rparr>, ks)"
| s_overflow_written: "on_target i (\<lambda>e t. write_overflow_cb e t w nocb) (lib_grease L) = Some g' \<Longrightarrow>
    sys_step full_match ksz (L, ks) (L\<lparr>lib_grease := g'\<rparr>, ks)"
| s_callbacks: "callV8LogCallbacks k (lib_grease L) = Some g' \<Longrightarrow> sys_step full_match ksz (L, ks) (L\<lparr>lib_grease := g'\<rparr>, ks)"
| s_given_back: "sys_step full_match ksz (L, ks) (L\<lparr>lib_grease := returnBufferToTarget i b (lib_grease L)\<rparr>, ks)"
| s_shutdown: "sys_step full_match ksz (L, ks) (L\<lparr>lib_grease := grease_shutdown_request (lib_grease L)\<rparr>, ks)"
| s_target: "addTarget ready libCB opts fs L = Some (L', fs') \<Longrightarrow> sys_step full_match ksz (L, ks) (L', ks)"
| s_opened: "target_opened libCB L = Some L' \<Longrightarrow> sys_step full_match ksz (L, ks) (L', ks)"
| s_default: "modifyDefaultTarget ready opts fs L = Some (L', fs') \<Longrightarrow> sys_step full_match ksz (L, ks) (L', ks)"
| s_writes: "sys_step full_match ksz (L, ks) (snd (set_writes v i L), ks)"
| s_filter: "lib_addFilter a (filters (lib_grease L)) f = Some (r, f', fs) \<Longrightarrow>
    sys_step full_match ksz (L, ks) (L\<lparr>lib_grease := (lib_grease L)\<lparr>filters := fs\<rparr>\<rparr>, ks)"
| s_disable: "sys_step full_match ksz (L, ks)
    (L\<lparr>lib_grease := (lib_grease L)\<lparr>filters := snd (set_disabled v (filters (lib_grease L)) f')\<rparr>\<rparr>, ks)"
| s_opts: "sys_step full_match ksz (L, ks) (snd (setGlobalOpts o' L), ks)"
| s_tag: "addTagLabel v t len L = Some (r, L') \<Longrightarrow> sys_step full_match ksz (L, ks) (L', ks)"
| s_origin: "addOriginLabel v t len L = Some (r, L') \<Longrightarrow> sys_step full_match ksz (L, ks) (L', ks)"
| s_level: "addLevelLabel v t len L = Some (r, L') \<Longrightarrow> sys_step full_match ksz (L, ks) (L', ks)"
| s_sink: "addSink fd pip bound klogctl sink L = Some (r, sink', L') \<Longrightarrow> sys_step full_match ksz (L, ks) (L', ks)"
| s_fd: "addFD st v fd i cb (lib_redirects L) = (ok, rs) \<Longrightarrow>
    sys_step full_match ksz (L, ks) (L\<lparr>lib_redirects := rs\<rparr>, ks)"
| s_unfd: "sys_step full_match ksz (L, ks) (L\<lparr>lib_redirects := removeFD st fd (lib_redirects L)\<rparr>, ks)"

text \<open>The library's calls leave alone what the pool is about; new targets have no large message on its way.\<close>

definition same_pool :: "lib \<Rightarrow> lib \<Rightarrow> bool" where
  "same_pool L L' \<longleftrightarrow>
     masterBufferAvail (lib_grease L') = masterBufferAvail (lib_grease L) \<and>
     bufferSize (lib_grease L') = bufferSize (lib_grease L) \<and>
     internalCmdQueue (env (lib_grease L')) = internalCmdQueue (env (lib_grease L)) \<and>
     callerLogCallbacks (env (lib_grease L')) = callerLogCallbacks (env (lib_grease L)) \<and>
     logs (env (lib_grease L')) = logs (env (lib_grease L)) \<and>
     next_log (env (lib_grease L')) = next_log (env (lib_grease L)) \<and>
     ((\<forall>(oi, t, ft) \<in> set (lib_opening L). t_overflow t = []) \<longrightarrow>
        (\<forall>(oi, t, ft) \<in> set (lib_opening L'). t_overflow t = []) \<and>
        (\<forall>n. targets_clear n (lib_grease L) \<longrightarrow> targets_clear n (lib_grease L')))"

lemma same_pool_inv: "same_pool L L' \<Longrightarrow> sys_inv n ksz (L, ks) \<Longrightarrow> sys_inv n ksz (L', ks)"
  by (simp add: same_pool_def sys_inv_def kmsg_inv_def pool_inv_def queued_def cmds_clear_def cb_clear_def)

lemma targetReady_pool:
  assumes "targetReady v w t (lib_grease L) = Some g'" "t_overflow t = []"
  shows "same_pool L (L\<lparr>lib_grease := g'\<rparr>)"
proof -
  have "targets_clear n g'" if "targets_clear n (lib_grease L)" for n
    using targetReady_clear [OF assms(1) that] assms(2) by (simp add: t_clear_def)
  then show ?thesis using assms(1) by (auto simp: targetReady_def same_pool_def split: if_splits)
qed

lemma set_fmt_overflow:
  assumes "\<And>x k u v. f x k u = Some v \<Longrightarrow> t_overflow v = t_overflow u" "set_fmt f o' t = Some t'"
  shows "t_overflow t' = t_overflow t"
  using assms by (auto simp: set_fmt_def split: option.splits)

lemma format_overflow:
  "setTimeFormat x k u = Some v \<Longrightarrow> t_overflow v = t_overflow u" "setTagFormat x k u = Some v \<Longrightarrow> t_overflow v = t_overflow u"
  "setOriginFormat x k u = Some v \<Longrightarrow> t_overflow v = t_overflow u" "setLevelFormat x k u = Some v \<Longrightarrow> t_overflow v = t_overflow u"
  "setPreFormat x k u = Some v \<Longrightarrow> t_overflow v = t_overflow u" "setPostFormat x k u = Some v \<Longrightarrow> t_overflow v = t_overflow u"
  "setPreMsgFormat x k u = Some v \<Longrightarrow> t_overflow v = t_overflow u"
  by (auto simp: setTimeFormat_def setTagFormat_def setOriginFormat_def setLevelFormat_def setPreFormat_def
      setPostFormat_def setPreMsgFormat_def)

lemma set_formats_overflow:
  assumes "set_formats opts t = Some t'"
  shows "t_overflow t' = t_overflow t"
proof -
  obtain t1 t2 t3 t4 t5 t6 where
    f: "set_fmt setLevelFormat (format_level opts) (setCallback (to_targetCB opts) t) = Some t1"
    "set_fmt setOriginFormat (format_origin opts) t1 = Some t2" "set_fmt setTagFormat (format_tag opts) t2 = Some t3"
    "set_fmt setPostFormat (format_post opts) t3 = Some t4" "set_fmt setPreFormat (format_pre opts) t4 = Some t5"
    "set_fmt setPreMsgFormat (format_pre_msg opts) t5 = Some t6" "set_fmt setTimeFormat (format_time opts) t6 = Some t'"
    using assms by (auto simp: set_formats_def bind_eq_Some_conv)
  have "t_overflow t' = t_overflow t6" by (rule set_fmt_overflow [OF format_overflow(1) f(7)])
  also have "\<dots> = t_overflow t5" by (rule set_fmt_overflow [OF format_overflow(7) f(6)])
  also have "\<dots> = t_overflow t4" by (rule set_fmt_overflow [OF format_overflow(5) f(5)])
  also have "\<dots> = t_overflow t3" by (rule set_fmt_overflow [OF format_overflow(6) f(4)])
  also have "\<dots> = t_overflow t2" by (rule set_fmt_overflow [OF format_overflow(2) f(3)])
  also have "\<dots> = t_overflow t1" by (rule set_fmt_overflow [OF format_overflow(3) f(2)])
  also have "\<dots> = t_overflow t" using set_fmt_overflow [OF format_overflow(4) f(1)] by (simp add: setCallback_def)
  finally show ?thesis .
qed

lemma new_target_overflow:
  "logTarget_new kind sz i d banks = Some t0 \<Longrightarrow> set_formats opts (setFlag fl t0) = Some t \<Longrightarrow> t_overflow t = []"
  by (auto simp: logTarget_new_def setFlag_def dest!: set_formats_overflow)

lemma same_pool_opening:
  "t_overflow t = [] \<Longrightarrow> same_pool L (L\<lparr>lib_opening := lib_opening L @ [(oi, t, ft)]\<rparr>)"
  by (auto simp: same_pool_def)

lemma same_pool_upd:
  "same_pool L L' \<Longrightarrow> same_pool L (L'\<lparr>nextTargetId := k\<rparr>)" "same_pool L L' \<Longrightarrow> same_pool L (L'\<lparr>lib_started := x\<rparr>)"
  "same_pool L L' \<Longrightarrow> same_pool L (L'\<lparr>lib_files := y\<rparr>)"
  by (simp_all add: same_pool_def)

lemma addTarget_pool:
  assumes "addTarget ready libCB opts fs L = Some (L', fs')"
  shows "same_pool L L'"
proof -
  let ?L = "L\<lparr>nextTargetId := nextTargetId L + 1\<rparr>"
  let ?st = "lib_started L @ (if libCB then [(nextTargetId L, to_optsId opts)] else [])"
  let ?c = "post_cstor ready (to_file opts) (fileTarget_new [] (lib_rotation (to_fileOpts opts))) fs"
  let ?ready = "\<lambda>v t. map_option (\<lambda>g'. (?L\<lparr>lib_grease := g', lib_started := ?st\<rparr>, fs)) (targetReady True v t (lib_grease L))"
  obtain d banks t0 t where t: "logTarget_new (lib_kind opts) (bufferSize (lib_grease L)) (nextTargetId L) d banks = Some t0"
      "set_formats opts (setFlag (to_flags opts) t0) = Some t"
    and r: "(case lib_kind opts of
        FileTarget \<Rightarrow> (case ?c of Inl e \<Rightarrow> None
          | Inr (r, ft, fs1) \<Rightarrow> Some (?L\<lparr>lib_opening := lib_opening L @ [(to_optsId opts, t, ft)]\<rparr>, fs1))
      | TtyTarget \<Rightarrow> ?ready ready t | CallbackTarget \<Rightarrow> ?ready True t) = Some (L', fs')"
    using assms unfolding addTarget_def Let_def bind_eq_Some_conv by blast
  have o: "t_overflow t = []" by (rule new_target_overflow [OF t])
  have p: "same_pool L (?L\<lparr>lib_grease := g', lib_started := ?st\<rparr>)" if "targetReady True v t (lib_grease L) = Some g'" for v g'
    using targetReady_pool [OF that o] by (simp add: same_pool_def)
  show ?thesis using r p same_pool_upd(1) [OF same_pool_opening [OF o]]
    by (cases "lib_kind opts") (auto simp: same_pool_def split: sum.splits)
qed

lemma target_opened_pool:
  assumes "target_opened libCB L = Some L'"
  shows "same_pool L L'"
proof (cases "lib_opening L")
  case (Cons x rest)
  obtain oi t ft where x: "x = (oi, t, ft)" by (cases x)
  obtain g' y z where g: "targetReady True (ft_open ft) t (lib_grease L) = Some g'"
      "L' = L\<lparr>lib_grease := g', lib_opening := rest, lib_files := y, lib_started := z\<rparr>"
    using assms Cons x by (auto simp: target_opened_def)
  have "targets_clear n g'" if "t_overflow t = []" "targets_clear n (lib_grease L)" for n
    using targetReady_clear [OF g(1) that(2)] that(1) by (simp add: t_clear_def)
  moreover have "masterBufferAvail g' = masterBufferAvail (lib_grease L)" "bufferSize g' = bufferSize (lib_grease L)"
      "env g' = env (lib_grease L)" using g(1) by (auto simp: targetReady_def split: if_splits)
  ultimately show ?thesis using g(2) Cons x by (auto simp: same_pool_def)
qed (use assms in \<open>simp add: target_opened_def same_pool_def\<close>)

lemma modifyDefaultTarget_pool:
  assumes "modifyDefaultTarget ready opts fs L = Some (L', fs')"
  shows "same_pool L L'"
proof (cases "to_tty opts \<or> to_file opts \<noteq> None")
  case True
  let ?c = "post_cstor ready (to_file opts) (fileTarget_new [] (lib_rotation (to_fileOpts opts))) fs"
  obtain d t0 t where t: "logTarget_new (lib_kind opts) (bufferSize (lib_grease L)) 0 d NUM_BANKS = Some t0"
      "set_formats opts (setFlag (to_flags opts) t0) = Some t"
    and r: "(if to_tty opts then map_option (\<lambda>g'. (L\<lparr>lib_grease := g'\<rparr>, fs)) (targetReady True ready t (lib_grease L))
        else case ?c of Inl e \<Rightarrow> None
         | Inr (r, ft, fs1) \<Rightarrow> Some (L\<lparr>lib_opening := lib_opening L @ [(to_optsId opts, t, ft)]\<rparr>, fs1)) = Some (L', fs')"
    using assms unfolding modifyDefaultTarget_def Let_def if_P [OF True] bind_eq_Some_conv by blast
  have o: "t_overflow t = []" by (rule new_target_overflow [OF t])
  show ?thesis using r same_pool_opening [OF o] targetReady_pool [OF _ o] by (auto split: if_splits sum.splits)
next
  case False
  let ?d = "\<lambda>t0. case to_delim opts of Some (d, n) \<Rightarrow> map_option (\<lambda>dd. t0\<lparr>t_delim := dd\<rparr>) (setDelim (t_delim t0) d n)
    | None \<Rightarrow> Some t0"
  have m: "(case defaultTarget (lib_grease L) of None \<Rightarrow> None | Some t0 \<Rightarrow> Option.bind (?d t0) (\<lambda>t1.
      map_option (\<lambda>t. (L\<lparr>lib_grease := (lib_grease L)\<lparr>defaultTarget := Some t\<rparr>\<rparr>, fs))
        (set_formats opts (setFlag (to_flags opts) t1)))) = Some (L', fs')"
    using assms unfolding modifyDefaultTarget_def Let_def if_not_P [OF False] .
  obtain t0 where t0: "defaultTarget (lib_grease L) = Some t0" using m by (cases "defaultTarget (lib_grease L)") auto
  obtain t1 where t1: "?d t0 = Some t1" using m t0 by (cases "?d t0") auto
  obtain t where t: "set_formats opts (setFlag (to_flags opts) t1) = Some t"
      "L' = L\<lparr>lib_grease := (lib_grease L)\<lparr>defaultTarget := Some t\<rparr>\<rparr>" using m t0 t1 by auto
  have "t_overflow t1 = t_overflow t0" using t1 by (auto split: option.splits)
  then have "t_overflow t = t_overflow t0" using set_formats_overflow [OF t(1)] by (simp add: setFlag_def)
  then show ?thesis using t0 t(2) by (auto simp: same_pool_def targets_clear_def find_target_def t_clear_def)
qed

lemma set_writes_pool: "same_pool L (snd (set_writes v i L))"
  by (auto simp: set_writes_def same_pool_def targets_clear_def find_target_def t_clear_def disableWrites_def split: option.splits if_splits)

lemmas targets_pool = addTarget_pool target_opened_pool modifyDefaultTarget_pool set_writes_pool

lemma fields_pool:
  "same_pool L (L\<lparr>lib_grease := (lib_grease L)\<lparr>filters := fs\<rparr>\<rparr>)" "same_pool L (snd (setGlobalOpts o' L))"
  "same_pool L (L\<lparr>lib_redirects := rs\<rparr>)"
  by (auto simp: same_pool_def setGlobalOpts_def split: option.splits)

lemma labels_pool:
  "addTagLabel v t len L = Some (r, L') \<Longrightarrow> same_pool L L'"
  "addOriginLabel v t len L = Some (r, L') \<Longrightarrow> same_pool L L'"
  "addLevelLabel v t len L = Some (r, L') \<Longrightarrow> same_pool L L'"
  by (auto simp: addTagLabel_def addOriginLabel_def addLevelLabel_def add_label_def same_pool_def
      split: option.splits if_splits)

lemma addSink_pool: "addSink fd pip bound klogctl sink L = Some (r, sink', L') \<Longrightarrow> same_pool L L'"
  by (auto simp: addSink_def add_sink_def Let_def bind_eq_Some_conv same_pool_def split: if_splits)

text \<open>A step of the logger is one of \<open>lstep\<close>.\<close>

lemma lstep_sys:
  assumes "lstep (kmsg_held ks, lib_grease L) (kmsg_held ks, g')" "sys_inv n ksz (L, ks)"
  shows "sys_inv n ksz (L\<lparr>lib_grease := g'\<rparr>, ks)"
  using lstep_inv [OF assms(1)] assms(2) by (simp add: sys_inv_def kmsg_inv_def)

lemma sys_step_inv:
  assumes "sys_step full_match ksz s s'" "sys_inv n ksz s"
  shows "sys_inv n ksz s'"
  using assms
proof (induction rule: sys_step.induct)
  case (s_receive i s s')
  then show ?case using receive_keeps by fastforce
qed (blast intro: lstep_sys l_handle l_timer l_written l_overflow_written l_callbacks l_given_back l_shutdown
    same_pool_inv targets_pool labels_pool fields_pool addSink_pool)+

lemma sys_reachable_inv:
  assumes "(sys_step full_match ksz)\<^sup>*\<^sup>* s s'" "sys_inv n ksz s"
  shows "sys_inv n ksz s'"
  using assms by (induction rule: rtranclp_induct) (auto intro: sys_step_inv)

lemma sys_start:
  assumes "0 < n" "0 < sz" "grease_new_n n sz = Some g"
  shows "sys_inv n ksz (lib_new g, kmsg_new ksz)"
  using grease_new_pool [OF assms(1,2)] assms(3)
  by (auto simp: sys_inv_def kmsg_inv_def kmsg_held_def lib_new_def kmsg_new_def LMALLOC_def)

text \<open>
  Outside these limits: a facility of 22 to 87 is read from behind the table of tags, kernel text as long as the
  first kernel sink's buffer and a record as long as the second one's put their terminator behind it.
\<close>

lemma limits_needed:
  "data \<noteq> [] \<Longrightarrow> length data < rcv \<Longrightarrow> 0 \<notin> set data \<Longrightarrow> full_match data = Some (p, msg) \<Longrightarrow>
     22 \<le> LOG_FAC p \<Longrightarrow> LOG_FAC p < 88 \<Longrightarrow> receive full_match (SyslogMessage rcv data) s = None"
  "length temp \<le> length data \<Longrightarrow> receive full_match (KernelText temp data) s = None"
  "sys_inv n ksz (L, kmsg_new ksz) \<Longrightarrow> 0 < ksz \<Longrightarrow> circ_list (masterBufferAvail (lib_grease L)) \<noteq> [] \<Longrightarrow>
     length data = ksz \<Longrightarrow> receive full_match (KernelRecord data) (L, kmsg_new ksz) = None"
proof -
  show "receive full_match (SyslogMessage rcv data) s = None"
    if "data \<noteq> []" "length data < rcv" "0 \<notin> set data" "full_match data = Some (p, msg)" "22 \<le> LOG_FAC p" "LOG_FAC p < 88"
    using syslog_facility_overrun [where full_match = full_match, OF that(1-4)] that(5,6)
    by (cases s) (simp add: receive_def sizeof_tag_map_def GREASE_SYSLOGFAC_TO_TAG_MAP_def)
  show "receive full_match (KernelText temp data) s = None" if "length temp \<le> length data"
    using that by (cases s) (simp add: receive_def klog_read_def buf_write_def)
  show "receive full_match (KernelRecord data) (L, kmsg_new ksz) = None"
    if "sys_inv n ksz (L, kmsg_new ksz)" "0 < ksz" "circ_list (masterBufferAvail (lib_grease L)) \<noteq> []" "length data = ksz"
  proof -
    have "pool_inv n [] (lib_grease L)" using that(1) by (simp add: sys_inv_def kmsg_inv_def kmsg_held_def kmsg_new_def)
    from kmsg_full_read [OF this that(3,2,4)] show ?thesis by (simp add: receive_def kmsg_new_def)
  qed
qed

text \<open>C2: Every source at work, within its limits. After any sequence of inputs within the limits of \<open>intake_ok\<close>,
  commands of the logger thread (large
  messages, writes of targets and the shutdown among them), flushes, completed writes, callbacks to
  the program and calls of the library, from a logger that was just made, every further input
  within the limits is taken in: no source reads or writes outside its buffers, blocks or fails for what it was
  sent, and each pool buffer is free, queued for the logger thread, or held by the kernel sink. The limits: a
  datagram of at most 65535 bytes with room for the metadata behind it in the receive buffer, a message of the
  system log shorter than the receive buffer whose facility is not one of 22 to 87, kernel text and records
  shorter than the buffers they are read into, a logging call with readable text; output of processes has none.
  Outside of them the code does leave its buffers (lemma \<open>limits_needed\<close>).\<close>

theorem inputs_in_limits_taken:
  assumes "0 < n" "0 < sz" "grease_new_n n sz = Some g" "(sys_step full_match ksz)\<^sup>*\<^sup>* (lib_new g, kmsg_new ksz) s"
    "intake_ok full_match ksz i"
  shows "\<exists>L ks. receive full_match i s = Some (L, ks) \<and> sys_step full_match ksz s (L, ks) \<and>
    pool_inv n (kmsg_held ks) (lib_grease L)"
proof -
  have "sys_inv n ksz s" by (rule sys_reachable_inv [OF assms(4) sys_start [OF assms(1-3)]])
  from receive_keeps [OF this assms(5)] obtain L ks where
    r: "receive full_match i s = Some (L, ks)" "sys_inv n ksz (L, ks)" by fastforce
  then show ?thesis using s_receive [OF assms(5) r(1)] by (auto simp: sys_inv_def kmsg_inv_def)
qed

theorem inputs_in_limits_taken_witness:
  "\<exists>L ks. receive ex_match (KernelRecord [0x36, 0x2C, 0x31, 0x3B, 0x68, 0x0A])
       (lib_new (the (grease_new_n 2 64)), kmsg_new 32) = Some (L, ks) \<and> pool_inv 2 (kmsg_held ks) (lib_grease L)"
proof -
  obtain g where g: "grease_new_n 2 64 = Some g" using grease_new_pool [of 2 64] by auto
  have "intake_ok ex_match 32 (KernelRecord [0x36, 0x2C, 0x31, 0x3B, 0x68, 0x0A])" by (simp add: intake_ok_def)
  from inputs_in_limits_taken [OF _ _ g rtranclp.rtrancl_refl this] g show ?thesis by auto
qed

end
