(* ===== verification/Grease_Echo.thy ===== *)
theory Grease_Echo
  imports Grease_Lib
begin

text \<open>
  The command \<open>grease_echo\<close> (\<open>grease_echo.c\<close>): the loop over its options, the choice of the level and
  the message it sends with the client. \<open>argv\<close> is the list of the arguments, whose strings have no
  NUL; \<open>argv[argc]\<close> is \<open>NULL\<close>, and a use of it or of what lies behind it, and a read behind the end of a
  string, is \<open>None\<close>. What it prints on the terminal is a list of values.
\<close>

section \<open>Arguments\<close>

definition arg :: "bytes list \<Rightarrow> nat \<Rightarrow> bytes option" where
  "arg argv i = (if i < length argv then Some (argv ! i) else None)"

text \<open>\<^verbatim>\<open>!strcmp(argv[i]+2,name)\<close>\<close>

definition opt_is :: "bytes list \<Rightarrow> nat \<Rightarrow> string \<Rightarrow> bool option" where
  "opt_is argv i name =
     Option.bind (arg argv i) (\<lambda>s. if length s < 2 then None else Some (drop 2 s = ascii name))"

text \<open>\<open>atoi\<close> of the C library; a number that is not an \<open>int\<close> is undefined.\<close>

definition isspace :: "u8 \<Rightarrow> bool" where "isspace c \<longleftrightarrow> c = 0x20 \<or> (0x09 \<le> c \<and> c \<le> 0x0D)"

definition isdigit :: "u8 \<Rightarrow> bool" where "isdigit c \<longleftrightarrow> 0x30 \<le> c \<and> c \<le> 0x39"

definition digits_value :: "bytes \<Rightarrow> int" where
  "digits_value ds = foldl (\<lambda>v d. 10 * v + (uint d - 0x30)) 0 ds"

definition atoi :: "bytes \<Rightarrow> int option" where
  "atoi s =
     (let t = dropWhile isspace s;
          neg = (t \<noteq> [] \<and> hd t = 0x2D);
          u = (if t \<noteq> [] \<and> (hd t = 0x2D \<or> hd t = 0x2B) then tl t else t);
          v = digits_value (takeWhile isdigit u);
          z = (if neg then - v else v)
      in if - (2 ^ 31) \<le> z \<and> z < 2 ^ 31 then Some z else None)"

text \<open>A format string of \<open>printf\<close> with no arguments behind it: what it prints.\<close>

fun format_noargs :: "bytes \<Rightarrow> bytes option" where
  "format_noargs [] = Some []"
| "format_noargs (c # cs) =
     (if c = 0x25 then
        (case cs of [] \<Rightarrow> None | d # ds \<Rightarrow> if d = 0x25 then map_option ((#) 0x25) (format_noargs ds) else None)
      else map_option ((#) c) (format_noargs cs))"

section \<open>The program\<close>

definition GREASE_RESERVED_ORIGINS_START :: int where "GREASE_RESERVED_ORIGINS_START = 0xFFF0"
definition GREASE_GREASEECHO_ORIGIN :: OriginId where "GREASE_GREASEECHO_ORIGIN = 0xFFF1"

datatype echo_print =
    P_usage | P_not_running | P_running | P_got bytes | P_got_int int | P_no_integer | P_out_of_range
  | P_error_not_running | P_origin OriginId | P_unknown_level | P_log printed

record echo_opts =
  opt_n :: nat
  socket_path :: "bytes option"
  echo_origin :: OriginId
  eo_said :: "echo_print list"

definition echo_opts_new :: echo_opts where
  "echo_opts_new = \<lparr>opt_n = 0, socket_path = None, echo_origin = GREASE_GREASEECHO_ORIGIN, eo_said = []\<rparr>"

text \<open>One round of the loop over the options; the flag is \<open>_loop\<close>.\<close>

definition echo_socket :: "bytes list \<Rightarrow> echo_opts \<Rightarrow> (bool \<times> echo_opts) option" where
  "echo_socket argv v =
     map_option (\<lambda>s. if s then (True, v\<lparr>socket_path := arg argv (opt_n v + 2), opt_n := opt_n v + 2\<rparr>) else (False, v))
       (opt_is argv (opt_n v + 1) ''socket'')"

definition echo_set_origin :: "bytes list \<Rightarrow> bool \<times> echo_opts \<Rightarrow> (bool \<times> echo_opts) option" where
  "echo_set_origin argv lv =
     (let (loop, v) = lv in
      Option.bind (opt_is argv (opt_n v + 1) ''origin'') (\<lambda>is_origin.
        if is_origin then
          Option.bind (arg argv (opt_n v + 2)) (\<lambda>a.
          Option.bind (atoi a) (\<lambda>z.
            let v1 = v\<lparr>eo_said := eo_said v @ [P_got a, P_got_int z]\<rparr> in
            if z = 0 then Some (loop, v1\<lparr>eo_said := eo_said v1 @ [P_no_integer]\<rparr>)
            else
              let v2 = (if z < 1 \<or> z > GREASE_RESERVED_ORIGINS_START
                        then v1\<lparr>eo_said := eo_said v1 @ [P_out_of_range]\<rparr> else v1)
              in Some (True, v2\<lparr>echo_origin := of_int z, opt_n := opt_n v2 + 2\<rparr>)))
        else Some (loop, v)))"

definition echo_round :: "bytes list \<Rightarrow> echo_opts \<Rightarrow> (bool \<times> echo_opts) option" where
  "echo_round argv v = Option.bind (echo_socket argv v) (echo_set_origin argv)"

lemma opt_is_within: "opt_is argv i name = Some b \<Longrightarrow> i < length argv"
  by (auto simp: opt_is_def arg_def bind_eq_Some_conv split: if_splits)

lemma echo_round_progress:
  assumes "echo_round argv v = Some (True, v')"
  shows "opt_n v < opt_n v'" "opt_n v + 1 < length argv"
proof -
  obtain l w where s: "echo_socket argv v = Some (l, w)" and r: "echo_set_origin argv (l, w) = Some (True, v')"
    using assms by (auto simp: echo_round_def bind_eq_Some_conv)
  have w: "opt_n w = (if l then opt_n v + 2 else opt_n v)" and "opt_n v + 1 < length argv"
    using s opt_is_within by (auto simp: echo_socket_def split: if_splits)
  have "opt_n v' = opt_n w + 2 \<or> (l \<and> opt_n v' = opt_n w)"
    using r by (auto simp: echo_set_origin_def bind_eq_Some_conv Let_def split: if_splits)
  then show "opt_n v < opt_n v'" using w by (auto split: if_splits)
  show "opt_n v + 1 < length argv" by fact
qed

function echo_options :: "bytes list \<Rightarrow> echo_opts \<Rightarrow> echo_opts option" where
  "echo_options argv v =
     (case echo_round argv v of
        None \<Rightarrow> None
      | Some (loop, v') \<Rightarrow> if loop then echo_options argv v' else Some v')"
  by pat_completeness auto
termination
proof (relation "measure (\<lambda>(argv, v). length argv - opt_n v)")
  fix argv v x loop v' assume "echo_round argv v = Some x" "(loop, v') = x" loop
  then have "echo_round argv v = Some (True, v')" by auto
  from echo_round_progress [OF this]
  show "((argv, v'), argv, v) \<in> measure (\<lambda>(argv, v). length argv - opt_n v)" by simp
qed simp

declare echo_options.simps [simp del]

definition level_options :: "(string \<times> LevelMask) list" where
  "level_options =
     [(''error'', GREASE_LEVEL_ERROR), (''warn'', GREASE_LEVEL_WARN), (''success'', GREASE_LEVEL_SUCCESS),
      (''debug'', GREASE_LEVEL_DEBUG), (''debug2'', GREASE_LEVEL_DEBUG2), (''debug3'', GREASE_LEVEL_DEBUG3),
      (''user1'', GREASE_LEVEL_USER1), (''user2'', GREASE_LEVEL_USER2)]"

record echo_result =
  er_exit :: int
  er_said :: "echo_print list"
  er_sent :: "bytes option"        \<comment> \<open>the datagram that was sent\<close>
  er_client :: grease_client
  er_own :: grease

text \<open>\<open>grease_printf(&echo_meta, fmt); bye(e)\<close>; \<open>sent\<close> is the success of \<open>sendmsg\<close>.\<close>

definition echo_log ::
  "bool \<Rightarrow> LevelMask \<Rightarrow> bytes \<Rightarrow> int \<Rightarrow> echo_opts \<Rightarrow> grease_client \<times> grease \<Rightarrow> echo_result option" where
  "echo_log sent level fmt e v cg =
     Option.bind (format_noargs fmt) (\<lambda>txt.
       map_option (\<lambda>(p, d, c, own).
           \<lparr>er_exit = e, er_said = eo_said v @ [P_log p], er_sent = d, er_client = client_shutdown c, er_own = own\<rparr>)
         (grease_printf sent (DECL_LOG_META GREASE_ECHO_TAG level (echo_origin v)) txt cg))"

definition echo_init :: "sys \<Rightarrow> echo_opts \<Rightarrow> grease_client \<Rightarrow> (echo_opts \<times> grease_client) option" where
  "echo_init y v c =
     map_option (\<lambda>(r, c'). (if r \<noteq> GREASE_OK then v\<lparr>eo_said := eo_said v @ [P_error_not_running]\<rparr> else v, c'))
       (grease_fastInitLogger_extended y (socket_path v) c)"

fun echo_level :: "bytes list \<Rightarrow> nat \<Rightarrow> (string \<times> LevelMask) list \<Rightarrow> LevelMask option option" where
  "echo_level argv i [] = Some None"
| "echo_level argv i ((name, level) # ls) =
     Option.bind (opt_is argv i name) (\<lambda>b. if b then Some (Some level) else echo_level argv i ls)"

text \<open>The branch with a level. \<open>--info\<close> is looked for in \<open>argv[n+1]\<close>, where \<open>n\<close> is 1.\<close>

definition echo_at_level ::
  "bool \<Rightarrow> bytes list \<Rightarrow> echo_opts \<Rightarrow> grease_client \<times> grease \<Rightarrow> echo_result option" where
  "echo_at_level sent argv v cg =
     Option.bind (opt_is argv 2 ''info'') (\<lambda>info.
       if info then echo_log sent GREASE_LEVEL_INFO (argv ! 2) 0 v cg
       else
         Option.bind (echo_level argv (opt_n v + 1) level_options) (\<lambda>lo.
           case lo of
             Some level \<Rightarrow>
               echo_log sent level (argv ! (opt_n v + 2)) 0
                 (if level = GREASE_LEVEL_DEBUG then v\<lparr>eo_said := eo_said v @ [P_origin (echo_origin v)]\<rparr> else v) cg
           | None \<Rightarrow>
               echo_log sent GREASE_LEVEL_LOG (argv ! (opt_n v + 2)) 1
                 (v\<lparr>eo_said := eo_said v @ [P_unknown_level]\<rparr>) cg))"

definition echo_plain ::
  "bool \<Rightarrow> sys \<Rightarrow> bytes list \<Rightarrow> echo_opts \<Rightarrow> grease_client \<times> grease \<Rightarrow> echo_result option" where
  "echo_plain sent y argv v cg =
     Option.bind (echo_init y v (fst cg)) (\<lambda>(v1, c1).
     Option.bind (arg argv (opt_n v1 + 1)) (\<lambda>a.
       if a \<noteq> [] then echo_log sent GREASE_LEVEL_LOG a 0 v1 (c1, snd cg)
       else Some \<lparr>er_exit = 0, er_said = eo_said v1, er_sent = None, er_client = client_shutdown c1, er_own = snd cg\<rparr>))"

definition echo_check :: "sys \<Rightarrow> grease_client \<times> grease \<Rightarrow> echo_result option" where
  "echo_check y cg =
     map_option (\<lambda>(r, c).
         \<lparr>er_exit = (if r \<noteq> GREASE_OK then 1 else 0), er_said = [if r \<noteq> GREASE_OK then P_not_running else P_running],
          er_sent = None, er_client = client_shutdown c, er_own = snd cg\<rparr>)
       (grease_initLogger y (fst cg))"

definition echo_main :: "bool \<Rightarrow> sys \<Rightarrow> bytes list \<Rightarrow> grease \<Rightarrow> echo_result option" where
  "echo_main sent y argv own =
     (let c = client_new;
          stop = (\<lambda>said. \<lparr>er_exit = 1, er_said = said, er_sent = None, er_client = c, er_own = own\<rparr>)
      in
      if length argv < 2 then Some (stop [])
      else if take 2 (argv ! 1) = [0x2D, 0x2D] then
        if drop 2 (argv ! 1) = ascii ''help'' then Some (stop [P_usage])
        else if drop 2 (argv ! 1) = ascii ''check'' then echo_check y (c, own)
        else
          Option.bind (echo_options argv echo_opts_new) (\<lambda>v.
          Option.bind (echo_init y v c) (\<lambda>(v1, c1).
            if opt_n v1 + 2 < length argv \<and> argv ! (opt_n v1 + 2) \<noteq> []
            then echo_at_level sent argv v1 (c1, own)
            else echo_plain sent y argv v1 (c1, own)))
      else echo_plain sent y argv echo_opts_new (c, own))"

section \<open>What the options do\<close>

datatype echo_option = Socket bytes | Origin bytes

fun option_words :: "echo_option \<Rightarrow> bytes list" where
  "option_words (Socket p) = [ascii ''--socket'', p]"
| "option_words (Origin a) = [ascii ''--origin'', a]"

fun option_ok :: "echo_option \<Rightarrow> bool" where
  "option_ok (Socket p) = True"
| "option_ok (Origin a) = (case atoi a of None \<Rightarrow> False | Some z \<Rightarrow> z \<noteq> 0)"

fun apply_option :: "echo_option \<Rightarrow> bytes option \<times> OriginId \<Rightarrow> bytes option \<times> OriginId" where
  "apply_option (Socket p) (q, origin) = (Some p, origin)"
| "apply_option (Origin a) (q, origin) = (q, of_int (the (atoi a)))"

definition settings :: "echo_opts \<Rightarrow> bytes option \<times> OriginId" where
  "settings v = (socket_path v, echo_origin v)"

lemma arg_drop: "drop i argv = x # xs \<Longrightarrow> arg argv i = Some x \<and> drop (Suc i) argv = xs"
  by (metis arg_def drop_Suc drop_eq_Nil2 linorder_not_less list.discI list.sel(3) nth_via_drop tl_drop)

lemma opt_is_drop: "drop i argv = x # xs \<Longrightarrow> 2 \<le> length x \<Longrightarrow> opt_is argv i name = Some (drop 2 x = ascii name)"
  using arg_drop [of i argv x xs] by (simp add: opt_is_def)

lemma option_names:
  "drop 2 (ascii ''--socket'') = ascii ''socket''" "drop 2 (ascii ''--origin'') = ascii ''origin''"
  "2 \<le> length (ascii ''--socket'')" "2 \<le> length (ascii ''--origin'')"
  "ascii ''socket'' \<noteq> ascii ''origin''"
  by (simp_all add: ascii_def)

lemma echo_socket_takes:
  assumes "drop (opt_n v + 1) argv = ascii ''--socket'' # p # rest"
  shows "\<exists>w. echo_socket argv v = Some (True, w) \<and> settings w = apply_option (Socket p) (settings v) \<and>
    opt_n w = opt_n v + 2"
  using opt_is_drop [OF assms option_names(3), of "''socket''"] arg_drop [of "opt_n v + 2" argv p rest]
    arg_drop [OF assms] by (simp add: echo_socket_def option_names settings_def)

lemma echo_socket_skips:
  assumes "drop (opt_n v + 1) argv = w # rest" "2 \<le> length w" "drop 2 w \<noteq> ascii ''socket''"
  shows "echo_socket argv v = Some (False, v)"
  using opt_is_drop [OF assms(1,2)] assms(3) by (simp add: echo_socket_def)

lemma echo_origin_takes:
  assumes "drop (opt_n v + 1) argv = ascii ''--origin'' # a # rest" "option_ok (Origin a)"
  shows "\<exists>w. echo_set_origin argv (l, v) = Some (True, w) \<and> settings w = apply_option (Origin a) (settings v) \<and>
    opt_n w = opt_n v + 2"
  using opt_is_drop [OF assms(1) option_names(4), of "''origin''"] arg_drop [of "opt_n v + 2" argv a rest]
    arg_drop [OF assms(1)] assms(2) by (auto simp: echo_set_origin_def option_names settings_def Let_def split: option.splits)

lemma echo_origin_skips:
  assumes "drop (opt_n v + 1) argv = w # rest" "2 \<le> length w" "drop 2 w \<noteq> ascii ''origin''"
  shows "echo_set_origin argv (l, v) = Some (l, v)"
  using opt_is_drop [OF assms(1,2)] assms(3) by (simp add: echo_set_origin_def)

lemma drop_two: "drop (n + 1) (argv :: bytes list) = a # b # rest \<Longrightarrow> drop (n + 2 + 1) argv = rest"
  using arg_drop [of "n + 1" argv a "b # rest"] arg_drop [of "Suc (n + 1)" argv b rest] by simp

definition echo_continue :: "bytes list \<Rightarrow> bool \<times> echo_opts \<Rightarrow> echo_opts option" where
  "echo_continue argv lv =
     Option.bind (echo_set_origin argv lv) (\<lambda>(loop, v). if loop then echo_options argv v else Some v)"

lemma echo_options_halves: "echo_options argv v = Option.bind (echo_socket argv v) (echo_continue argv)"
  by (subst echo_options.simps)
    (auto simp: echo_round_def echo_continue_def fun_eq_iff split: option.splits bind_splits)

text \<open>Any sequence of socket and origin options is taken, in its order, up to the first other word.\<close>

lemma echo_options_run:
  assumes "drop (opt_n v + 1) argv = concat (map option_words opts) @ w # rest" "list_all option_ok opts"
    and w: "2 \<le> length w" "drop 2 w \<noteq> ascii ''socket''" "drop 2 w \<noteq> ascii ''origin''"
  defines "good \<equiv> \<lambda>r opts v. \<exists>v'. r = Some v' \<and> settings v' = fold apply_option opts (settings v) \<and>
    opt_n v' = opt_n v + 2 * length opts"
  shows "good (echo_options argv v) opts v \<and> good (echo_continue argv (True, v)) opts v"
  using assms(1,2)
proof (induction opts arbitrary: v)
  case Nil
  then have d: "drop (opt_n v + 1) argv = w # rest" by simp
  have "echo_options argv v = Some v"
    using echo_socket_skips [OF d w(1,2)] echo_origin_skips [OF d w(1,3)]
    by (simp add: echo_options_halves echo_continue_def)
  then show ?case using echo_origin_skips [OF d w(1,3)] by (simp add: echo_continue_def good_def)
next
  case (Cons x xs)
  show ?case
  proof (cases x)
    case (Socket p)
    then have d: "drop (opt_n v + 1) argv = ascii ''--socket'' # p # concat (map option_words xs) @ w # rest"
      using Cons.prems(1) by simp
    obtain u where u: "echo_socket argv v = Some (True, u)" "settings u = apply_option x (settings v)"
        "opt_n u = opt_n v + 2" using echo_socket_takes [OF d] Socket by auto
    have "good (echo_continue argv (True, u)) xs u"
      using Cons.IH [of u] drop_two [OF d] u(3) Cons.prems(2) by simp
    then have "good (echo_options argv v) (x # xs) v" using u by (auto simp: good_def echo_options_halves)
    moreover have "echo_set_origin argv (True, v) = Some (True, v)"
      using echo_origin_skips [OF d] option_names by simp
    ultimately show ?thesis by (simp add: echo_continue_def)
  next
    case (Origin a)
    then have d: "drop (opt_n v + 1) argv = ascii ''--origin'' # a # concat (map option_words xs) @ w # rest"
      using Cons.prems(1) by simp
    have s: "echo_socket argv v = Some (False, v)" using echo_socket_skips [OF d] option_names by simp
    have "good (echo_continue argv (l, v)) (x # xs) v" for l
    proof -
      obtain u where u: "echo_set_origin argv (l, v) = Some (True, u)" "settings u = apply_option x (settings v)"
          "opt_n u = opt_n v + 2" using echo_origin_takes [OF d] Cons.prems(2) Origin by auto
      have "good (echo_options argv u) xs u" using Cons.IH [of u] drop_two [OF d] u(3) Cons.prems(2) by simp
      then show ?thesis using u by (auto simp: good_def echo_continue_def)
    qed
    then show ?thesis using s by (simp add: echo_options_halves)
  qed
qed

section \<open>What is sent\<close>

lemma format_plain: "0x25 \<notin> set s \<Longrightarrow> format_noargs s = Some s"
  by (induction s) auto

lemma echo_log_sends:
  assumes "client_inv c" "cl_grease_log c = LOG_TO_SINK" "0x25 \<notin> set msg" "length msg < GREASE_C_MACRO_MAX_MESSAGE"
  shows "\<exists>r. echo_log True level msg e v (c, own) = Some r \<and> er_exit r = e \<and>
    er_sent r = Some (entry_frame (DECL_LOG_META GREASE_ECHO_TAG level (echo_origin v)) msg)"
proof -
  have "length msg < 2147483648" using assms(4) by (simp add: GREASE_C_MACRO_MAX_MESSAGE_def)
  from printf_sends [OF assms(1,2) wf_DECL this, of GREASE_ECHO_TAG level "echo_origin v" own]
  show ?thesis using assms(4) by (auto simp: echo_log_def format_plain [OF assms(3)] logged_text_def)
qed

abbreviation sock_ok :: "bytes option \<Rightarrow> bool" where
  "sock_ok path \<equiv> length (case path of Some p \<Rightarrow> p | None \<Rightarrow> GREASE_DEFAULT_SINK_PATH) < SUN_PATH_LEN"

lemma length_option_words: "length (concat (map option_words opts)) = 2 * length opts"
proof (induction opts)
  case (Cons x xs)
  then show ?case by (cases x) simp_all
qed simp

lemma first_word:
  "let h = hd (concat (map option_words opts) @ a # rest) in
     h = a \<or> (take 2 h = [0x2D, 0x2D] \<and> drop 2 h \<noteq> ascii ''help'' \<and> drop 2 h \<noteq> ascii ''check'')"
proof (cases opts)
  case (Cons x xs)
  then show ?thesis by (cases x) (simp_all add: ascii_def)
qed simp

text \<open>The program up to the choice of the level.\<close>

lemma echo_main_level:
  assumes argv: "argv = prog # concat (map option_words opts) @ [[0x2D, 0x2D] @ w, msg]" "msg \<noteq> []"
    and opts: "list_all option_ok opts" "fold apply_option opts (None, GREASE_GREASEECHO_ORIGIN) = (sock, origin)"
    and w: "w \<noteq> ascii ''socket''" "w \<noteq> ascii ''origin''" "w \<noteq> ascii ''help''" "w \<noteq> ascii ''check''"
    and y: "sock_ok sock" "sy_tid y \<noteq> 0" "sy_objs y = []" "100 \<le> sy_rcvbuf y"
  shows "\<exists>v c. echo_main True y argv own = echo_at_level True argv v (c, own) \<and>
    opt_n v = 2 * length opts \<and> echo_origin v = origin \<and> client_inv c \<and> cl_grease_log c = LOG_TO_SINK"
proof -
  have "drop (opt_n echo_opts_new + 1) argv = concat (map option_words opts) @ ([0x2D, 0x2D] @ w) # [msg]"
    using argv(1) by (simp add: echo_opts_new_def)
  from echo_options_run [OF this opts(1)] w(1,2)
  obtain v where v: "echo_options argv echo_opts_new = Some v" "settings v = (sock, origin)" "opt_n v = 2 * length opts"
    using opts(2) by (auto simp: settings_def echo_opts_new_def)
  have sv: "socket_path v = sock" "echo_origin v = origin" using v(2) by (simp_all add: settings_def)
  obtain c where c: "grease_fastInitLogger_extended y (socket_path v) client_new = Some (GREASE_OK, c)"
      "cl_grease_log c = LOG_TO_SINK" "client_inv c"
    using fast_init_connects [OF client_new_inv y(3,2,4), of sock] y(1) sv(1) by auto
  have i: "echo_init y v client_new = Some (v, c)" using c(1) by (simp add: echo_init_def)
  have l: "length argv = 2 * length opts + 3" "argv ! (2 * length opts + 2) = msg"
    using argv(1) length_option_words [of opts] by (simp_all add: nth_append)
  have "argv ! 1 = hd (concat (map option_words opts) @ ([0x2D, 0x2D] @ w) # [msg])"
    using argv(1) by (simp add: hd_conv_nth)
  then have one: "take 2 (argv ! 1) = [0x2D, 0x2D]" "drop 2 (argv ! 1) \<noteq> ascii ''help''" "drop 2 (argv ! 1) \<noteq> ascii ''check''"
    using first_word [of opts "[0x2D, 0x2D] @ w" "[msg]"] w(3,4) by (auto simp: Let_def)
  have "echo_main True y argv own = echo_at_level True argv v (c, own)"
    using one l v(1,3) i argv(2) by (simp add: echo_main_def)
  then show ?thesis using v(3) sv(2) c by blast
qed

lemma level_option_found:
  assumes "(name, level) \<in> set level_options" "\<And>n. opt_is argv i n = Some (ascii name = ascii n)"
  shows "echo_level argv i level_options = Some (Some level)"
  using assms(1) by (auto simp: assms(2) level_options_def ascii_def)

lemma level_option_names:
  assumes "(name, level) \<in> set level_options"
  shows "ascii name \<noteq> ascii ''socket''" "ascii name \<noteq> ascii ''origin''" "ascii name \<noteq> ascii ''help''"
    "ascii name \<noteq> ascii ''check''"
  using assms by (auto simp: level_options_def ascii_def)

text \<open>C34: The command. \<open>grease_echo\<close> with any sequence of \<open>--socket\<close> and \<open>--origin\<close> options, one of the
  level options in its table and a text below 250 characters exits with 0 and sends one datagram; a
  sink that receives it logs the text once, with the echo tag, that level and the last origin
  given (or the one of \<open>grease_echo\<close>). The second argument must have two characters, since the code
  compares what follows them with \<open>info\<close>, and the text must have no conversion of \<open>printf\<close>.\<close>

theorem echo_logged:
  assumes argv: "argv = prog # concat (map option_words opts) @ [[0x2D, 0x2D] @ ascii name, msg]"
    and opts: "list_all option_ok opts" "fold apply_option opts (None, GREASE_GREASEECHO_ORIGIN) = (sock, origin)"
    and level: "(name, level) \<in> set level_options" "2 \<le> length (argv ! 2)" "drop 2 (argv ! 2) \<noteq> ascii ''info''"
    and msg: "msg \<noteq> []" "0x25 \<notin> set msg" "length msg < GREASE_C_MACRO_MAX_MESSAGE"
    and y: "sock_ok sock" "sy_tid y \<noteq> 0" "sy_objs y = []" "100 \<le> sy_rcvbuf y"
    and sink: "length temp = GREASE_MAX_MESSAGE_SIZE" "512 \<le> rcv"
  shows "\<exists>r d. echo_main True y argv own = Some r \<and> er_exit r = 0 \<and> er_sent r = Some d \<and>
    map_option snd (dgram_receive nfds rcv temp d g) =
      log_all [(DECL_LOG_META GREASE_ECHO_TAG level origin, msg)] g"
proof -
  note n = level_option_names [OF level(1)]
  obtain v c where v: "echo_main True y argv own = echo_at_level True argv v (c, own)" "opt_n v = 2 * length opts"
      "echo_origin v = origin" "client_inv c" "cl_grease_log c = LOG_TO_SINK"
    using echo_main_level [OF argv msg(1) opts n y, of own] by blast
  have d: "drop (opt_n v + 1) argv = [[0x2D, 0x2D] @ ascii name, msg]"
    using argv v(2) length_option_words [of opts] by simp
  have "echo_level argv (opt_n v + 1) level_options = Some (Some level)"
    using level_option_found [OF level(1)] opt_is_drop [OF d] by simp
  moreover have "opt_is argv 2 ''info'' = Some False" "argv ! (opt_n v + 2) = msg"
    using level(2,3) d argv v(2) length_option_words [of opts] by (simp_all add: opt_is_def arg_def nth_append)
  moreover let ?v = "if level = GREASE_LEVEL_DEBUG then v\<lparr>eo_said := eo_said v @ [P_origin (echo_origin v)]\<rparr> else v"
  have "echo_origin ?v = origin" using v(3) by simp
  ultimately obtain r where r: "echo_main True y argv own = Some r" "er_exit r = 0"
      "er_sent r = Some (entry_frame (DECL_LOG_META GREASE_ECHO_TAG level origin) msg)"
    using v(1) echo_log_sends [OF v(4,5) msg(2,3), of level 0 ?v own]
    by (auto simp: echo_at_level_def)
  have "length (entry_frame (DECL_LOG_META GREASE_ECHO_TAG level origin) msg) = 88 + length msg"
    by (simp add: entry_frame_def sizeof_logMeta_def length_meta_bytes)
  moreover have "m_extras (DECL_LOG_META GREASE_ECHO_TAG level origin) = 0" by (simp add: DECL_LOG_META_def)
  ultimately show ?thesis using r msg(1,3) sink
      frames_receive [OF sink(1), of "[(DECL_LOG_META GREASE_ECHO_TAG level origin, msg)]" _ rcv nfds g]
    by (simp add: sendable_def GREASE_MAX_MESSAGE_SIZE_def GREASE_C_MACRO_MAX_MESSAGE_def)
qed

theorem echo_logged_witness:
  "\<exists>r d. echo_main True ex_sys (map ascii [''grease_echo'', ''--origin'', ''42'', ''--warn'', ''fan stopped'']) ex_logger = Some r \<and>
     er_exit r = 0 \<and> er_sent r = Some d \<and>
     map_option snd (dgram_receive 5 131072 (replicate GREASE_MAX_MESSAGE_SIZE 0) d ex_logger) =
       log_all [(DECL_LOG_META GREASE_ECHO_TAG GREASE_LEVEL_WARN 42, ascii ''fan stopped'')] ex_logger"
proof -
  have a: "atoi [52, 50] = Some 42" by code_simp
  have av: "map ascii [''grease_echo'', ''--origin'', ''42'', ''--warn'', ''fan stopped''] =
      ascii ''grease_echo'' # concat (map option_words [Origin (ascii ''42'')]) @ [[0x2D, 0x2D] @ ascii ''warn'', ascii ''fan stopped'']"
    by (simp add: ascii_def)
  show ?thesis
    by (rule echo_logged [OF av, where sock = None])
      (simp_all add: a ascii_def level_options_def ex_sys_def GREASE_C_MACRO_MAX_MESSAGE_def SUN_PATH_LEN_def
        GREASE_DEFAULT_SINK_PATH_def)
qed

text \<open>
  The usage lists \<open>--info\<close>, but it is compared with the text that follows it: the text is logged at
  level LOG, "Unknown LEVEL" is printed and the command fails.
\<close>

lemma echo_info_unknown:
  assumes "2 \<le> length msg" "drop 2 msg \<noteq> ascii ''info''" "0x25 \<notin> set msg" "length msg < GREASE_C_MACRO_MAX_MESSAGE"
    and y: "sy_tid y \<noteq> 0" "sy_objs y = []" "100 \<le> sy_rcvbuf y"
  shows "\<exists>r. echo_main True y [prog, [0x2D, 0x2D] @ ascii ''info'', msg] own = Some r \<and> er_exit r = 1 \<and>
    er_sent r = Some (entry_frame (DECL_LOG_META GREASE_ECHO_TAG GREASE_LEVEL_LOG GREASE_GREASEECHO_ORIGIN) msg)"
proof -
  let ?argv = "[prog, [0x2D, 0x2D] @ ascii ''info'', msg]"
  have "msg \<noteq> []" using assms(1) by auto
  then have "\<exists>v c. echo_main True y ?argv own = echo_at_level True ?argv v (c, own) \<and> opt_n v = 0 \<and>
      echo_origin v = GREASE_GREASEECHO_ORIGIN \<and> client_inv c \<and> cl_grease_log c = LOG_TO_SINK"
    using echo_main_level [of ?argv prog "[]" "ascii ''info''" msg None GREASE_GREASEECHO_ORIGIN y own] assms
    by (auto simp: ascii_def SUN_PATH_LEN_def GREASE_DEFAULT_SINK_PATH_def)
  then obtain v c where v: "echo_main True y ?argv own = echo_at_level True ?argv v (c, own)" "opt_n v = 0"
      "echo_origin v = GREASE_GREASEECHO_ORIGIN" "client_inv c" "cl_grease_log c = LOG_TO_SINK" by blast
  have "opt_is ?argv 2 ''info'' = Some False" "echo_level ?argv 1 level_options = Some None"
    using assms(1,2) by (simp_all add: opt_is_def arg_def level_options_def ascii_def)
  then show ?thesis
    using v echo_log_sends [OF v(4,5) assms(3,4), of GREASE_LEVEL_LOG 1 "v\<lparr>eo_said := eo_said v @ [P_unknown_level]\<rparr>" own]
    by (simp add: echo_at_level_def)
qed

text \<open>A text that starts with no option is logged at level LOG, with exit code 0.\<close>

lemma echo_text_logged:
  assumes "msg \<noteq> []" "take 2 msg \<noteq> [0x2D, 0x2D]" "0x25 \<notin> set msg" "length msg < GREASE_C_MACRO_MAX_MESSAGE"
    and y: "sy_tid y \<noteq> 0" "sy_objs y = []" "100 \<le> sy_rcvbuf y"
  shows "\<exists>r. echo_main True y (prog # msg # rest) own = Some r \<and> er_exit r = 0 \<and>
    er_sent r = Some (entry_frame (DECL_LOG_META GREASE_ECHO_TAG GREASE_LEVEL_LOG GREASE_GREASEECHO_ORIGIN) msg)"
proof -
  obtain c where c: "grease_fastInitLogger_extended y None client_new = Some (GREASE_OK, c)"
      "cl_grease_log c = LOG_TO_SINK" "client_inv c"
    using fast_init_connects [OF client_new_inv y(2,1,3), of None]
    by (auto simp: SUN_PATH_LEN_def GREASE_DEFAULT_SINK_PATH_def)
  show ?thesis
    using assms(1,2) c echo_log_sends [OF c(3,2) assms(3,4), of GREASE_LEVEL_LOG 0 echo_opts_new own]
    by (simp add: echo_main_def echo_plain_def echo_init_def echo_opts_new_def arg_def)
qed

text \<open>A socket option without what must follow it is used as far as memory goes: the command has no
  defined result.\<close>

lemma echo_socket_alone: "echo_main sent y [prog, ascii ''--socket'', path] own = None"
proof -
  have "echo_round [prog, ascii ''--socket'', path] echo_opts_new = None"
    by (simp add: echo_round_def echo_socket_def echo_set_origin_def opt_is_def arg_def echo_opts_new_def ascii_def)
  then show ?thesis by (simp add: echo_main_def echo_options.simps ascii_def)
qed

end
