(* ===== verification/Target_Start.thy ===== *)
theory Target_Start
  imports Grease_Lib
begin

text \<open>
  Errors and the report of a started target. The first part is \<open>err_ev\<close> of \<open>error-common.h\<close> and
  \<open>error-common.cc\<close>: an error number with a text on the heap, the table of the library's own error
  codes, and the copy for the program. The second part are the callbacks \<open>start_logger_cb\<close>,
  \<open>start_target_cb\<close> and \<open>callTargetCallback\<close> of \<open>logger.cc\<close>, which hand the result of a target's start to the program
  at once or through the queue \<open>targetCallbackQueue\<close>, and \<open>addTarget_actionCB\<close> of \<open>grease_lib.cc\<close>, the one that the
  library installs, with \<open>targetReady\<close> and \<open>on_open\<close>, which call it. A heap block of a text is the list of its bytes; what the C library's
  \<open>strerror_r\<close> writes for an error number is the argument \<open>strerror\<close>.
\<close>

section \<open>Errors\<close>

record err_ev =
  ev_errstr :: "bytes option"      \<comment> \<open>the block \<open>errstr\<close> points to\<close>
  ev_errno :: int

definition err_ev_new :: err_ev where "err_ev_new = \<lparr>ev_errstr = None, ev_errno = 0\<rparr>"

definition ERRCMN_CUSTOM_ERROR_CUTOFF :: int where "ERRCMN_CUSTOM_ERROR_CUTOFF = 4000"
definition GREASE_UNKNOWN_FAILURE :: int where "GREASE_UNKNOWN_FAILURE = 4001"
definition GREASE_UNKNOWN_TTY :: int where "GREASE_UNKNOWN_TTY = 4002"
definition GREASE_UNKNOWN_NO_PATH :: int where "GREASE_UNKNOWN_NO_PATH = 4003"

definition custom_errs :: "(bytes \<times> int) list" where
  "custom_errs =
     [(ascii ''Unknown TTY.'', GREASE_UNKNOWN_TTY), (ascii ''Unknown failure.'', GREASE_UNKNOWN_FAILURE),
      (ascii ''Call needs path.'', GREASE_UNKNOWN_NO_PATH)]"

text \<open>The loop over the table from index \<open>n-1\<close> down; an index behind the table is \<open>None\<close>.\<close>

fun custom_loop :: "nat \<Rightarrow> int \<Rightarrow> bytes option option" where
  "custom_loop 0 e = Some None"
| "custom_loop (Suc n) e =
     (if n < length custom_errs
      then (if snd (custom_errs ! n) = e then Some (Some (fst (custom_errs ! n))) else custom_loop n e)
      else None)"

text \<open>\<open>sizeof(custom_errs)\<close>: a pointer, an \<open>int\<close> and padding for each entry.\<close>

definition sizeof_custom_errs :: nat where "sizeof_custom_errs = 16 * length custom_errs"

definition get_custom_err_str :: "int \<Rightarrow> bytes option option" where
  "get_custom_err_str e = custom_loop sizeof_custom_errs e"

definition max_error_buf :: nat where "max_error_buf = 255"

definition get_error_str :: "(int \<Rightarrow> bytes) \<Rightarrow> int \<Rightarrow> bytes" where
  "get_error_str strerror e =
     (let t = take (max_error_buf - 1) (strerror e) in t @ replicate (max_error_buf - length t) 0)"

definition setError :: "(int \<Rightarrow> bytes) \<Rightarrow> int \<Rightarrow> bytes option \<Rightarrow> err_ev \<Rightarrow> err_ev option" where
  "setError strerror e m v =
     (let block = (\<lambda>s. map_option (\<lambda>t. t @ [0]) (local_strdup_safe (Some s))) in
      case m of
        Some s \<Rightarrow> Some (v\<lparr>ev_errno := e, ev_errstr := block s\<rparr>)
      | None \<Rightarrow>
          if e < ERRCMN_CUSTOM_ERROR_CUTOFF
          then Some (v\<lparr>ev_errno := e, ev_errstr := Some (get_error_str strerror e)\<rparr>)
          else map_option (\<lambda>custom. v\<lparr>ev_errno := e,
                   ev_errstr := (case custom of Some s \<Rightarrow> block s | None \<Rightarrow> block (ascii ''Unknown Error.''))\<rparr>)
                 (get_custom_err_str e))"

definition err_ev_of :: "(int \<Rightarrow> bytes) \<Rightarrow> int \<Rightarrow> err_ev option" where
  "err_ev_of strerror e = setError strerror e None err_ev_new"

definition hasErr :: "err_ev \<Rightarrow> bool" where "hasErr v \<longleftrightarrow> ev_errno v \<noteq> 0"

definition ev_clear :: "err_ev \<Rightarrow> err_ev" where "ev_clear v = v\<lparr>ev_errstr := None, ev_errno := 0\<rparr>"

text \<open>The move assignment: the new values of both sides.\<close>

definition ev_move :: "err_ev \<Rightarrow> err_ev \<Rightarrow> err_ev \<times> err_ev" where
  "ev_move this o' =
     (this\<lparr>ev_errstr := ev_errstr o', ev_errno := ev_errno o'\<rparr>, o'\<lparr>ev_errstr := None, ev_errno := 0\<rparr>)"

definition GREASE_LIB_MAX_ERR_STRING :: nat where "GREASE_LIB_MAX_ERR_STRING = 256"

record GreaseLibError =
  le_errstr :: bytes
  le_errno :: int

text \<open>\<open>strncpy\<close> of \<open>n\<close> bytes: what it writes; a source without a terminator ends in its first \<open>n\<close> bytes or is
  read behind its end.\<close>

definition strncpy :: "bytes \<Rightarrow> nat \<Rightarrow> bytes option" where
  "strncpy src n =
     (if 0 \<in> set (take n src) \<or> n \<le> length src then Some (take n (c_string src @ replicate n 0)) else None)"

definition toGreaseLibError :: "err_ev \<Rightarrow> GreaseLibError option" where
  "toGreaseLibError v =
     Option.bind (ev_errstr v) (\<lambda>b.
       map_option (\<lambda>t. \<lparr>le_errstr = t, le_errno = ev_errno v\<rparr>) (strncpy b GREASE_LIB_MAX_ERR_STRING))"

section \<open>Reporting a started target\<close>

record target_start_info =
  needsAsyncQueue :: bool
  si_err :: err_ev
  si_optsId :: u32
  targetStartCB :: bool            \<comment> \<open>the program gave a callback\<close>
  si_targId :: TargetId

definition target_start_info_new :: target_start_info where
  "target_start_info_new =
     \<lparr>needsAsyncQueue = False, si_err = err_ev_new, si_optsId = 0, targetStartCB = False, si_targId = 0\<rparr>"

text \<open>The calls of the program's callback, with their two arguments.\<close>

datatype started =
    Started_logger
  | Started_target TargetId
  | Started_info TargetId u32
  | Start_failed GreaseLibError

record starts =
  targetCallbackQueue :: "target_start_info circ"
  st_called :: "started list"
  st_dropped :: "target_start_info list"   \<comment> \<open>for which the queue had no room\<close>

definition MAX_TARGET_CALLBACK_STACK :: int where "MAX_TARGET_CALLBACK_STACK = 20"

definition starts_new :: starts where
  "starts_new =
     \<lparr>targetCallbackQueue = circ_new target_start_info_new MAX_TARGET_CALLBACK_STACK True,
      st_called = [], st_dropped = []\<rparr>"

definition queue_start :: "err_ev \<Rightarrow> target_start_info \<Rightarrow> starts \<Rightarrow> starts" where
  "queue_start err info S =
     (let info1 = info\<lparr>si_err := fst (ev_move (si_err info) err)\<rparr>;
          (ok, q) = circ_add_wait (targetCallbackQueue S) info1
      in if ok then S\<lparr>targetCallbackQueue := q\<rparr> else S\<lparr>st_dropped := st_dropped S @ [info1]\<rparr>)"

definition call_started :: "err_ev \<Rightarrow> target_start_info \<Rightarrow> starts \<Rightarrow> starts option" where
  "call_started err info S =
     (if targetStartCB info then
        (if \<not> hasErr err then Some (S\<lparr>st_called := st_called S @ [Started_target (si_targId info)]\<rparr>)
         else map_option (\<lambda>le. S\<lparr>st_called := st_called S @ [Start_failed le]\<rparr>) (toGreaseLibError err))
      else Some S)"

definition start_logger_cb :: "err_ev \<Rightarrow> target_start_info \<Rightarrow> starts \<Rightarrow> starts" where
  "start_logger_cb err info S =
     (if needsAsyncQueue info then queue_start err info S
      else if targetStartCB info then S\<lparr>st_called := st_called S @ [Started_logger]\<rparr> else S)"

definition start_target_cb :: "err_ev \<Rightarrow> target_start_info \<Rightarrow> starts \<Rightarrow> starts option" where
  "start_target_cb err info S =
     (if needsAsyncQueue info then Some (queue_start err info S) else call_started err info S)"

text \<open>The loop of \<open>callTargetCallback\<close>, for at most \<open>k\<close> entries.\<close>

fun callTargetCallback :: "nat \<Rightarrow> starts \<Rightarrow> starts option" where
  "callTargetCallback k S =
     (case circ_remove (targetCallbackQueue S) of
        None \<Rightarrow> Some S
      | Some (info, q) \<Rightarrow>
          (case k of
             0 \<Rightarrow> None
           | Suc k' \<Rightarrow>
               Option.bind (call_started (si_err info) info (S\<lparr>targetCallbackQueue := q\<rparr>)) (callTargetCallback k')))"

declare callTargetCallback.simps [simp del]

text \<open>
  \<open>addTarget_actionCB\<close>. The arguments of its \<open>strncpy\<close> are exchanged: it copies the uninitialised array
  \<open>garbage\<close> of 256 bytes over the error's own text, and the program gets that array.
\<close>

definition addTarget_actionCB :: "bytes \<Rightarrow> err_ev \<Rightarrow> target_start_info \<Rightarrow> starts \<Rightarrow> (err_ev \<times> starts) option" where
  "addTarget_actionCB garbage err info S =
     (if targetStartCB info then
        (if hasErr err then
           Option.bind (ev_errstr err) (\<lambda>b.
           Option.bind (strncpy garbage GREASE_LIB_MAX_ERR_STRING) (\<lambda>t.
             map_option (\<lambda>b'. (err\<lparr>ev_errstr := Some b'\<rparr>,
                 S\<lparr>st_called := st_called S @ [Start_failed \<lparr>le_errstr = garbage, le_errno = ev_errno err\<rparr>]\<rparr>))
               (buf_write b 0 t)))
         else Some (err, S\<lparr>st_called := st_called S @ [Started_info (si_targId info) (si_optsId info)]\<rparr>))
      else Some (err, S))"

section \<open>Texts\<close>

lemma custom_loop_behind: "length custom_errs < n \<Longrightarrow> custom_loop n e = None"
  by (cases n) simp_all

text \<open>
  The loop starts at the size in bytes, so the first entry it reads lies far behind the table: no
  custom code has a defined text. Started at the number of entries it would find every label.
\<close>

lemma custom_codes_undefined: "get_custom_err_str e = None"
  unfolding get_custom_err_str_def by (rule custom_loop_behind) (simp add: sizeof_custom_errs_def custom_errs_def)

lemma custom_loop_finds:
  "(label, code) \<in> set custom_errs \<Longrightarrow> custom_loop (length custom_errs) code = Some (Some label)"
  by (auto simp: custom_errs_def GREASE_UNKNOWN_TTY_def GREASE_UNKNOWN_FAILURE_def GREASE_UNKNOWN_NO_PATH_def)

text \<open>A file target without a path reports \<open>GREASE_UNKNOWN_NO_PATH\<close>, for which there is no defined text.\<close>

lemma no_path_undefined: "setError strerror GREASE_UNKNOWN_NO_PATH None err_ev_new = None"
  by (simp add: setError_def custom_codes_undefined GREASE_UNKNOWN_NO_PATH_def ERRCMN_CUSTOM_ERROR_CUTOFF_def)

lemma length_get_error_str: "length (get_error_str strerror e) = max_error_buf"
  by (simp add: get_error_str_def Let_def max_error_buf_def)

lemma c_string_pad: "0 \<notin> set xs \<Longrightarrow> 0 < n \<Longrightarrow> c_string (xs @ replicate n 0) = xs"
  by (induction xs) (auto simp: c_string_def gr0_conv_Suc)

lemma get_error_str_text:
  assumes "0 \<notin> set (strerror e)"
  shows "c_string (get_error_str strerror e) = take 254 (strerror e)" "0 \<in> set (take 256 (get_error_str strerror e))"
proof -
  let ?t = "take 254 (strerror e)"
  have z: "0 \<notin> set ?t" using assms by (meson in_set_takeD)
  have n: "0 < max_error_buf - length ?t" by (simp add: max_error_buf_def min_def)
  have e: "get_error_str strerror e = ?t @ replicate (max_error_buf - length ?t) 0"
    by (simp add: get_error_str_def Let_def max_error_buf_def)
  then show "c_string (get_error_str strerror e) = ?t" using c_string_pad [OF z n] by simp
  have "take 256 (get_error_str strerror e) = get_error_str strerror e"
    using length_get_error_str [of strerror e] by (simp add: max_error_buf_def)
  then show "0 \<in> set (take 256 (get_error_str strerror e))" using e n by (simp add: max_error_buf_def)
qed

text \<open>The text of a system error reaches the program whole, or cut at 254 characters, and terminated.\<close>

lemma system_error_text:
  assumes "e < ERRCMN_CUSTOM_ERROR_CUTOFF" "0 \<notin> set (strerror e)"
  shows "\<exists>v le. setError strerror e None w = Some v \<and> toGreaseLibError v = Some le \<and> le_errno le = e \<and>
    c_string (le_errstr le) = take 254 (strerror e) \<and> length (le_errstr le) = GREASE_LIB_MAX_ERR_STRING"
proof -
  note t = get_error_str_text [of strerror, OF assms(2)]
  let ?t = "take 254 (strerror e)"
  have "0 \<notin> set ?t" using assms(2) by (meson in_set_takeD)
  moreover have "0 < 256 - length ?t" by simp
  ultimately have "c_string (?t @ replicate (256 - length ?t) 0) = ?t" by (rule c_string_pad)
  moreover have "take 256 (?t @ replicate 256 0) = ?t @ replicate (256 - length ?t) 0" by simp
  ultimately have "c_string (take 256 (?t @ replicate 256 0)) = ?t" by argo
  then show ?thesis using t assms(1)
    by (simp add: setError_def toGreaseLibError_def strncpy_def GREASE_LIB_MAX_ERR_STRING_def)
qed

section \<open>Every start is reported\<close>

text \<open>What the program is told about a start.\<close>

definition report :: "err_ev \<times> target_start_info \<Rightarrow> started list" where
  "report ei = (let (err, info) = ei in
     if targetStartCB info
     then [if hasErr err then Start_failed (the (toGreaseLibError err)) else Started_target (si_targId info)] else [])"

definition start_ok :: "err_ev \<times> target_start_info \<Rightarrow> bool" where
  "start_ok ei \<longleftrightarrow> needsAsyncQueue (snd ei) \<and> (hasErr (fst ei) \<longrightarrow> toGreaseLibError (fst ei) \<noteq> None)"

fun start_targets :: "(err_ev \<times> target_start_info) list \<Rightarrow> starts \<Rightarrow> starts option" where
  "start_targets [] S = Some S"
| "start_targets ((err, info) # eis) S = Option.bind (start_target_cb err info S) (start_targets eis)"

definition queued :: "err_ev \<times> target_start_info \<Rightarrow> target_start_info" where
  "queued ei = (snd ei)\<lparr>si_err := fst ei\<rparr>"

lemma ev_move_fst [simp]: "fst (ev_move this o') = o'"
  by (simp add: ev_move_def)

lemma start_targets_queue:
  assumes "circ_inv (targetCallbackQueue S)" "list_all start_ok eis"
    "length (circ_list (targetCallbackQueue S)) + length eis \<le> nat (csize (targetCallbackQueue S))"
  shows "\<exists>q. start_targets eis S = Some (S\<lparr>targetCallbackQueue := q\<rparr>) \<and> circ_inv q \<and>
    circ_list q = circ_list (targetCallbackQueue S) @ map queued eis"
  using assms
proof (induction eis arbitrary: S)
  case (Cons ei eis)
  obtain err info where ei: "ei = (err, info)" by force
  obtain q where q: "circ_add (targetCallbackQueue S) (queued ei) = Some q"
    using circ_add_None_iff [OF Cons.prems(1), of "queued ei"] Cons.prems(3) by fastforce
  note a = circ_add_abs [OF Cons.prems(1) q]
  have "start_target_cb err info S = Some (S\<lparr>targetCallbackQueue := q\<rparr>)"
    using Cons.prems(2) q ei
    by (simp add: start_target_cb_def start_ok_def queue_start_def circ_add_wait_add queued_def)
  then show ?case using Cons.IH [of "S\<lparr>targetCallbackQueue := q\<rparr>"] a Cons.prems(2,3) ei by simp
next
  case Nil
  then show ?case by (intro exI [of _ "targetCallbackQueue S"]) simp
qed

lemma call_started_reports:
  assumes "start_ok (err, info)"
  shows "call_started err info S = Some (S\<lparr>st_called := st_called S @ report (err, info)\<rparr>)"
  using assms by (auto simp: call_started_def report_def start_ok_def)

lemma callTargetCallback_reports:
  assumes "circ_inv (targetCallbackQueue S)" "circ_list (targetCallbackQueue S) = map queued eis"
    "list_all start_ok eis" "length eis \<le> k"
  shows "\<exists>q. callTargetCallback k S = Some (S\<lparr>targetCallbackQueue := q, st_called := st_called S @ concat (map report eis)\<rparr>) \<and>
    circ_inv q \<and> circ_list q = []"
  using assms
proof (induction eis arbitrary: S k)
  case Nil
  then show ?case using circ_remove_None_iff [OF Nil.prems(1)]
    by (intro exI [of _ "targetCallbackQueue S"]) (simp add: callTargetCallback.simps)
next
  case (Cons ei eis)
  obtain k' where k: "k = Suc k'" using Cons.prems(4) by (cases k) auto
  obtain info q where rm: "circ_remove (targetCallbackQueue S) = Some (info, q)"
    using circ_remove_None_iff [OF Cons.prems(1)] Cons.prems(2) by fastforce
  note a = circ_remove_abs [OF Cons.prems(1) rm]
  have i: "info = queued ei" "circ_list q = map queued eis" using a(2) Cons.prems(2) by auto
  have ok: "start_ok (si_err info, info)" "report (si_err info, info) = report ei"
    using Cons.prems(3) i(1) by (cases ei; simp add: start_ok_def queued_def report_def)+
  let ?S = "S\<lparr>targetCallbackQueue := q, st_called := st_called S @ report ei\<rparr>"
  have "callTargetCallback k S = callTargetCallback k' ?S"
    using rm k call_started_reports [OF ok(1), of "S\<lparr>targetCallbackQueue := q\<rparr>"] ok(2)
    by (subst callTargetCallback.simps) simp
  then show ?case using Cons.IH [of ?S k'] a(1) i(2) Cons.prems(3,4) k by simp
qed

text \<open>
  The queue of results. Starts reported to \<open>start_target_cb\<close> are queued for \<open>callTargetCallback\<close>, which calls the
  program's callback once for each of them that has one, in the order of the starts, with the target's
  id or with the error, and empties the queue; up to 20 starts fit. In the library's build
  \<open>start_target_cb\<close> is compiled but never installed: only the calls of the node.js binding install it, and
  \<open>addTarget\<close> of the library installs \<open>addTarget_actionCB\<close>, which is the subject of the next section.
\<close>

lemma starts_reported:
  assumes "list_all start_ok eis" "length eis \<le> 20"
  shows "\<exists>S1 S2. start_targets eis starts_new = Some S1 \<and> callTargetCallback 20 S1 = Some S2 \<and>
    st_called S2 = concat (map report eis) \<and> st_dropped S2 = [] \<and> circ_list (targetCallbackQueue S2) = []"
proof -
  have n: "circ_inv (targetCallbackQueue starts_new)" "circ_list (targetCallbackQueue starts_new) = []"
      "nat (csize (targetCallbackQueue starts_new)) = 20" "st_called starts_new = []" "st_dropped starts_new = []"
    using circ_new_abs [of 20 target_start_info_new True]
    by (simp_all add: starts_new_def MAX_TARGET_CALLBACK_STACK_def) (simp add: circ_new_def)
  obtain q where q: "start_targets eis starts_new = Some (starts_new\<lparr>targetCallbackQueue := q\<rparr>)" "circ_inv q"
      "circ_list q = map queued eis"
    using start_targets_queue [OF n(1) assms(1)] assms(2) n(2,3) by auto
  let ?S1 = "starts_new\<lparr>targetCallbackQueue := q\<rparr>"
  obtain q2 where "callTargetCallback 20 ?S1 =
      Some (?S1\<lparr>targetCallbackQueue := q2, st_called := st_called ?S1 @ concat (map report eis)\<rparr>)" "circ_list q2 = []"
    using callTargetCallback_reports [of ?S1 eis 20] q(2,3) assms by auto
  then show ?thesis using q(1) n(4,5)
    by (intro exI [of _ ?S1] exI [of _ "?S1\<lparr>targetCallbackQueue := q2, st_called := concat (map report eis)\<rparr>"]) simp
qed

definition ex_info :: "TargetId \<Rightarrow> target_start_info" where
  "ex_info i = target_start_info_new\<lparr>needsAsyncQueue := True, targetStartCB := True, si_targId := i\<rparr>"

lemma starts_reported_example:
  "\<exists>S1 S2. start_targets [(err_ev_new, ex_info 3), (the (setError (\<lambda>e. ascii ''No such file'') (-2) None err_ev_new), ex_info 4)]
       starts_new = Some S1 \<and> callTargetCallback 20 S1 = Some S2 \<and>
     map (\<lambda>r. case r of Start_failed le \<Rightarrow> (0, c_string (le_errstr le)) | Started_target i \<Rightarrow> (i, []) | _ \<Rightarrow> (0, []))
       (st_called S2) = [(3, []), (0, ascii ''No such file'')]"
proof -
  let ?e = "the (setError (\<lambda>e. ascii ''No such file'') (-2) None err_ev_new)"
  have f: "toGreaseLibError ?e \<noteq> None" "hasErr ?e" "\<not> hasErr err_ev_new"
      "c_string (le_errstr (the (toGreaseLibError ?e))) = ascii ''No such file''"
    by code_simp+
  then show ?thesis
    using starts_reported [of "[(err_ev_new, ex_info 3), (?e, ex_info 4)]"]
    by (auto simp: start_ok_def report_def ex_info_def)
qed

text \<open>A start for which the queue has no room is lost: the program never hears of it.\<close>

lemma start_dropped:
  assumes "circ_inv (targetCallbackQueue S)" "length (circ_list (targetCallbackQueue S)) = nat (csize (targetCallbackQueue S))"
    "needsAsyncQueue info"
  shows "start_target_cb err info S = Some (S\<lparr>st_dropped := st_dropped S @ [queued (err, info)]\<rparr>)"
  using assms circ_add_None_iff [OF assms(1), of "queued (err, info)"]
  by (simp add: start_target_cb_def queue_start_def circ_add_wait_add queued_def)

text \<open>
  The callback of \<open>addTarget\<close> on a system error writes one byte behind the error's text: the block has
  255 bytes and \<open>strncpy\<close> writes 256.
\<close>

lemma addTarget_error_overruns:
  assumes "setError strerror e None w = Some err" "e \<noteq> 0" "targetStartCB info"
  shows "addTarget_actionCB garbage err info S = None"
proof (cases "e < ERRCMN_CUSTOM_ERROR_CUTOFF")
  case True
  then have "ev_errstr err = Some (get_error_str strerror e)" "ev_errno err = e"
    using assms(1) by (auto simp: setError_def)
  moreover have "length t = 256" if "strncpy garbage 256 = Some t" for t
    using that by (auto simp: strncpy_def split: if_splits)
  ultimately show ?thesis using assms(2,3) length_get_error_str [of strerror e]
    by (cases "strncpy garbage 256")
      (simp_all add: addTarget_actionCB_def hasErr_def GREASE_LIB_MAX_ERR_STRING_def buf_write_def max_error_buf_def)
next
  case False
  then show ?thesis using assms(1) by (simp add: setError_def custom_codes_undefined)
qed

section \<open>Starts in the library\<close>

text \<open>
  \<open>targetReady\<close> with the callback that \<open>addTarget\<close> installed. A target that came up is registered and its callback
  called; for one that failed the callback is called with the id 0, then the target is deleted and its
  id read.
\<close>

definition targetReady_cb ::
  "bytes \<Rightarrow> bool \<Rightarrow> err_ev \<Rightarrow> logTarget \<Rightarrow> target_start_info \<Rightarrow> grease \<times> starts \<Rightarrow> (grease \<times> starts) option" where
  "targetReady_cb garbage ready err t info st =
     (let info1 = info\<lparr>si_targId := (if ready then myId t else 0)\<rparr> in
      Option.bind (addTarget_actionCB garbage err info1 (snd st)) (\<lambda>(err', S).
        map_option (\<lambda>g. (g, S)) (targetReady True ready t (fst st))))"

text \<open>\<open>fileTarget::on_open\<close>, in the logger's thread, with the result of \<open>uv_fs_open\<close>.\<close>

definition on_open ::
  "(int \<Rightarrow> bytes) \<Rightarrow> bytes \<Rightarrow> int \<Rightarrow> logTarget \<Rightarrow> target_start_info \<Rightarrow> grease \<times> starts \<Rightarrow> (grease \<times> starts) option" where
  "on_open strerror garbage result t info st =
     (if result \<ge> 0 then targetReady_cb garbage True err_ev_new t info st
      else Option.bind (setError strerror result None err_ev_new) (\<lambda>err.
             targetReady_cb garbage False err t info st))"

fun open_all ::
  "(int \<Rightarrow> bytes) \<Rightarrow> bytes \<Rightarrow> (int \<times> logTarget \<times> target_start_info) list \<Rightarrow> grease \<times> starts \<Rightarrow> (grease \<times> starts) option" where
  "open_all strerror garbage [] st = Some st"
| "open_all strerror garbage ((r, t, info) # os) st =
     Option.bind (on_open strerror garbage r t info st) (open_all strerror garbage os)"

text \<open>What the program is told about a file that opened.\<close>

definition opened_report :: "int \<times> logTarget \<times> target_start_info \<Rightarrow> started list" where
  "opened_report o' = (case o' of (r, t, info) \<Rightarrow>
     if targetStartCB info then [Started_info (myId t) (si_optsId info)] else [])"

lemma on_open_ready:
  assumes "0 \<le> r" "myId t \<noteq> 0"
  shows "\<exists>g'. on_open strerror garbage r t info (g, S) = Some (g', S\<lparr>st_called := st_called S @ opened_report (r, t, info)\<rparr>) \<and>
    find_target g' (myId t) = Some t \<and> (\<forall>i. i \<noteq> myId t \<longrightarrow> find_target g' i = find_target g i)"
  using assms
  by (auto simp: on_open_def targetReady_cb_def addTarget_actionCB_def hasErr_def err_ev_new_def opened_report_def
      targetReady_def find_target_def)

lemma on_open_failed: "r < 0 \<Longrightarrow> on_open strerror garbage r t info st = None"
  by (auto simp: on_open_def targetReady_cb_def targetReady_def bind_eq_None_conv)

lemma open_all_ready:
  assumes "\<forall>(r, t, info) \<in> set os. 0 \<le> r \<and> myId t \<noteq> 0" "distinct (map (\<lambda>(r, t, info). myId t) os)"
  shows "\<exists>g'. open_all strerror garbage os (g, S) = Some (g', S\<lparr>st_called := st_called S @ concat (map opened_report os)\<rparr>) \<and>
    (\<forall>(r, t, info) \<in> set os. find_target g' (myId t) = Some t) \<and>
    (\<forall>i. i \<notin> (\<lambda>(r, t, info). myId t) ` set os \<longrightarrow> find_target g' i = find_target g i)"
  using assms
proof (induction os arbitrary: g S)
  case (Cons o' os)
  obtain r t info where o': "o' = (r, t, info)" by (cases o')
  from on_open_ready [of r t strerror garbage info g S] Cons.prems(1) o' obtain g1 where
    g1: "on_open strerror garbage r t info (g, S) = Some (g1, S\<lparr>st_called := st_called S @ opened_report o'\<rparr>)"
      "find_target g1 (myId t) = Some t" "\<forall>i. i \<noteq> myId t \<longrightarrow> find_target g1 i = find_target g i" by auto
  from Cons.IH [of g1 "S\<lparr>st_called := st_called S @ opened_report o'\<rparr>"] Cons.prems obtain g' where
    g': "open_all strerror garbage os (g1, S\<lparr>st_called := st_called S @ opened_report o'\<rparr>) =
        Some (g', S\<lparr>st_called := st_called S @ opened_report o' @ concat (map opened_report os)\<rparr>)"
      "\<forall>(r, t, info) \<in> set os. find_target g' (myId t) = Some t"
      "\<forall>i. i \<notin> (\<lambda>(r, t, info). myId t) ` set os \<longrightarrow> find_target g' i = find_target g1 i" by auto
  have "myId t \<notin> (\<lambda>(r, t, info). myId t) ` set os" using Cons.prems(2) o' by simp
  then have "find_target g' (myId t) = Some t" using g'(3) g1(2) by simp
  then show ?case using g' g1 o' by (intro exI [of _ g']) auto
qed simp

lemma open_all_failed:
  assumes "\<exists>(r, t, info) \<in> set os. r < 0" "\<forall>(r, t, info) \<in> set os. myId t \<noteq> 0"
  shows "open_all strerror garbage os (g, S) = None"
  using assms
proof (induction os arbitrary: g S)
  case (Cons o' os)
  obtain r t info where o': "o' = (r, t, info)" by (cases o')
  show ?case
  proof (cases "r < 0")
    case False
    from on_open_ready [of r t strerror garbage info g S] False Cons.prems(2) o' obtain g1 S1 where
      "on_open strerror garbage r t info (g, S) = Some (g1, S1)" by auto
    then show ?thesis using Cons.IH [of g1 S1] Cons.prems False o' by auto
  qed (simp add: o' on_open_failed)
qed simp

text \<open>C35: Starts of file targets in the library. If all the files of targets that \<open>addTarget\<close> made open, each target
  is registered under its id, and the program's start callback has been called, at once and in the order
  in which the files opened, for each target that was given one, with the ids of the target and of its options;
  the queue of results is not used, and no other target changes. If one of the files does not open, the run has
  no defined result, whether or not there is a callback: \<open>addTarget_actionCB\<close> writes behind the error's text, and
  \<open>targetReady\<close> reads the target it has deleted.\<close>

theorem lib_starts_reported:
  assumes "\<forall>(r, t, info) \<in> set os. myId t \<noteq> 0" "distinct (map (\<lambda>(r, t, info). myId t) os)"
  shows "if list_all (\<lambda>(r, t, info). 0 \<le> r) os
    then \<exists>g' S'. open_all strerror garbage os (g, S) = Some (g', S') \<and>
      st_called S' = st_called S @ concat (map opened_report os) \<and>
      targetCallbackQueue S' = targetCallbackQueue S \<and> st_dropped S' = st_dropped S \<and>
      list_all (\<lambda>(r, t, info). find_target g' (myId t) = Some t) os \<and>
      (\<forall>i. i \<notin> (\<lambda>(r, t, info). myId t) ` set os \<longrightarrow> find_target g' i = find_target g i)
    else open_all strerror garbage os (g, S) = None"
proof (cases "list_all (\<lambda>(r, t, info). 0 \<le> r) os")
  case True
  then have "\<forall>(r, t, info) \<in> set os. 0 \<le> r \<and> myId t \<noteq> 0" using assms(1) by (fastforce simp: list_all_iff)
  from open_all_ready [OF this assms(2), of strerror garbage g S] True show ?thesis by (auto simp: list_all_iff)
next
  case False
  then have "\<exists>(r, t, info) \<in> set os. r < 0" by (auto simp: list_all_iff case_prod_beta not_le)
  from open_all_failed [OF this assms(1)] False show ?thesis by simp
qed

definition ex_start :: "TargetId \<Rightarrow> u32 \<Rightarrow> int \<Rightarrow> int \<times> logTarget \<times> target_start_info" where
  "ex_start i oi r = (r, (ex_target FileTarget)\<lparr>myId := i\<rparr>,
     target_start_info_new\<lparr>needsAsyncQueue := True, targetStartCB := True, si_optsId := oi\<rparr>)"

theorem lib_starts_reported_witness:
  "(\<exists>g' S'. open_all (\<lambda>e. ascii ''No such file'') [0] [ex_start 3 7 11, ex_start 4 8 12] (ex_logger, starts_new) = Some (g', S') \<and>
      st_called S' = [Started_info 3 7, Started_info 4 8] \<and> find_target g' 1 = Some (ex_target TtyTarget) \<and>
      find_target g' 4 = Some ((ex_target FileTarget)\<lparr>myId := 4\<rparr>)) \<and>
   open_all (\<lambda>e. ascii ''No such file'') [0] [ex_start 3 7 11, ex_start 4 8 (-2)] (ex_logger, starts_new) = None"
  using lib_starts_reported [of "[ex_start 3 7 11, ex_start 4 8 12]" "\<lambda>e. ascii ''No such file''" "[0]" ex_logger starts_new]
    lib_starts_reported [of "[ex_start 3 7 11, ex_start 4 8 (-2)]" "\<lambda>e. ascii ''No such file''" "[0]" ex_logger starts_new]
    ex_logger_parts(5)
  by (auto simp: ex_start_def opened_report_def starts_new_def target_start_info_new_def)

end
