(* ===== verification/Circ_Wait.thy ===== *)
theory Circ_Wait
  imports Tw_Circular
begin

text \<open>
  The calls of \<open>tw_safeCircular\<close> that the logger does not make: indexed writes, iterators, copies of a
  queue, and the removers that wait for an element. A waiting remover gives the mutex up inside
  \<open>waitForAcquirersKeepLock\<close>, so it is two steps, before and after the wait; the steps of several
  threads are interleaved by the relation \<open>qstep\<close>, in which a waiting thread may also wake up without
  reason. The queue is shown to keep the order of its elements whatever the threads do.
\<close>

section \<open>Calls that do not wait\<close>

text \<open>\<open>cloneFrom\<close>. As in \<open>transferFrom\<close>, the elements are copied for a queue of objects only.\<close>

definition circ_cloneFrom :: "'a list \<Rightarrow> 'a circ \<Rightarrow> 'a circ \<Rightarrow> 'a circ" where
  "circ_cloneFrom raw this other =
     this\<lparr>sema := sema other, nextIn := nextIn other, nextOut := nextOut other,
        csize := csize other, isObjects := isObjects other, rev_flag := rev_flag other,
        enabled := enabled other,
        cdata := (if isObjects other then cdata other else raw)\<rparr>"

definition circ_enable :: "'a circ \<Rightarrow> 'a circ" where "circ_enable c = c\<lparr>enabled := True\<rparr>"
definition circ_disable :: "'a circ \<Rightarrow> 'a circ" where "circ_disable c = c\<lparr>enabled := False\<rparr>"

text \<open>\<open>set\<close> and \<open>setMv\<close>, with the walk of \<open>get\<close>; a store behind the array is \<open>None\<close>.\<close>

definition circ_set :: "'a circ \<Rightarrow> int \<Rightarrow> 'a \<Rightarrow> (bool \<times> 'a circ) option" where
  "circ_set c n x =
     (if n \<ge> 0 \<and> n < circ_remain c then
        let p0 = (if rev_flag c then (if nextIn c - 2 < 0 then csize c - 1 else nextIn c - 2)
                  else nextOut c - 1) + 1;
            p = get_walk (csize c) (nat n) p0
        in if 0 \<le> p \<and> p < int (length (cdata c)) then Some (True, c\<lparr>cdata := (cdata c)[nat p := x]\<rparr>) else None
      else Some (False, c))"

text \<open>Iterators; they hold the lock of the queue until \<open>release\<close>.\<close>

record circ_iter =
  it_valid :: bool
  it_n :: int
  it_p :: int

definition getIter :: "'a circ \<Rightarrow> circ_iter" where
  "getIter c = \<lparr>it_valid = (circ_remain c > 0), it_n = 0, it_p = nextOut c\<rparr>"

definition iter_next :: "'a circ \<Rightarrow> circ_iter \<Rightarrow> bool \<times> circ_iter" where
  "iter_next c it =
     (let it1 = it\<lparr>it_n := it_n it + 1\<rparr> in
      if it_n it1 < circ_remain c
      then (True, it1\<lparr>it_p := (if it_p it1 + 1 \<ge> csize c then 0 else it_p it1 + 1)\<rparr>)
      else (False, it1\<lparr>it_valid := False\<rparr>))"

definition iter_data :: "'a circ \<Rightarrow> circ_iter \<Rightarrow> 'a option option" where
  "iter_data c it =
     (if it_valid it \<and> it_n it < circ_remain c
      then (if 0 \<le> it_p it \<and> it_p it < int (length (cdata c)) then Some (Some (cdata c ! nat (it_p it))) else None)
      else Some None)"

definition iter_atEnd :: "'a circ \<Rightarrow> circ_iter \<Rightarrow> bool" where
  "iter_atEnd c it \<longleftrightarrow> \<not> (it_valid it \<and> it_n it < circ_remain c)"

definition iter_release :: "circ_iter \<Rightarrow> circ_iter" where "iter_release it = it\<lparr>it_valid := False\<rparr>"

text \<open>\<^verbatim>\<open>while(it.data(x)) it.next();\<close> for at most \<open>k\<close> rounds.\<close>

fun iter_collect :: "nat \<Rightarrow> 'a circ \<Rightarrow> circ_iter \<Rightarrow> 'a list option" where
  "iter_collect 0 c it = Some []"
| "iter_collect (Suc k) c it =
     Option.bind (iter_data c it) (\<lambda>d.
       case d of None \<Rightarrow> Some [] | Some x \<Rightarrow> map_option ((#) x) (iter_collect k c (snd (iter_next c it))))"

text \<open>\<open>unblockAll\<close>, which is also the first step of the destructor: the count goes up by one.\<close>

definition sema_releaseAll :: "sema \<Rightarrow> sema" where
  "sema_releaseAll s = s\<lparr>sema_cnt := sema_cnt s + 1\<rparr>"

definition circ_unblockAll :: "'a circ \<Rightarrow> 'a circ" where
  "circ_unblockAll c = c\<lparr>sema := sema_releaseAll (sema c)\<rparr>"

section \<open>Removers that wait\<close>

text \<open>
  \<open>waitForAcquirersKeepLock\<close> when the wait is over: \<open>r\<close> is the result of \<open>pthread_cond_wait\<close>. The form
  with a timeout waits without one.
\<close>

definition waitForAcquirers_woken :: "int \<Rightarrow> sema \<Rightarrow> int" where
  "waitForAcquirers_woken r s = (if sema_cnt s \<ge> sema_size s then -1 else r)"

text \<open>
  The four \<open>removeOrBlock\<close> calls. With an element in the queue they do what \<open>remove\<close> does;
  \<open>None\<close> is the start of a wait. \<open>removeOrBlock_woken\<close> is the rest after the wait.
\<close>

definition removeOrBlock :: "'a circ \<Rightarrow> ('a \<times> 'a circ) option" where
  "removeOrBlock c =
     (let rm = circ_remain c in
      if rm > 0 then
        let fill = cdata c ! nat (nextOut c);
            c1 = c\<lparr>sema := releaseWithoutLock (sema c), nextOut := nextNextOut c\<rparr>
        in Some (fill,
             if rm = 1 then c1\<lparr>nextIn := -1, nextOut := 0, rev_flag := False\<rparr> else c1)
      else None)"

definition removeOrBlock_woken :: "int \<Rightarrow> 'a circ \<Rightarrow> 'a option \<times> 'a circ" where
  "removeOrBlock_woken r c =
     (if waitForAcquirers_woken r (sema c) = 0 then
        let fill = cdata c ! nat (nextOut c);
            c1 = (if circ_remain c = 0 then c\<lparr>nextIn := -1, nextOut := 0, rev_flag := False\<rparr> else c);
            c2 = c1\<lparr>nextOut := nextNextOut c1\<rparr>
        in (Some fill, c2\<lparr>sema := releaseWithoutLock (sema c2)\<rparr>)
      else (None, c))"

text \<open>The calls of the semaphore that the queue does not use: they give the lock back, or keep it.\<close>

definition sema_acquire :: "sema \<Rightarrow> sema option" where
  "sema_acquire s = (if sema_cnt s < 1 then None else Some (s\<lparr>sema_cnt := sema_cnt s - 1\<rparr>))"

definition sema_release :: "sema \<Rightarrow> sema" where "sema_release s = s\<lparr>sema_cnt := sema_cnt s + 1\<rparr>"

definition sema_count :: "sema \<Rightarrow> int" where "sema_count s = sema_cnt s"

lemma sema_release_acquire: "0 \<le> sema_count s \<Longrightarrow> sema_acquire (sema_release s) = Some s"
  by (simp add: sema_acquire_def sema_release_def sema_count_def)

section \<open>Threads at the queue\<close>

record 'a qsys =
  qs_circ :: "'a circ"
  qs_adders :: "'a list"          \<comment> \<open>what the threads that wait in \<open>add\<close> want to add\<close>
  qs_removers :: nat              \<comment> \<open>threads that wait in \<open>removeOrBlock\<close>\<close>
  qs_added :: "'a list"
  qs_taken :: "'a list"

definition qsys_new :: "'a \<Rightarrow> int \<Rightarrow> bool \<Rightarrow> 'a qsys" where
  "qsys_new d n b = \<lparr>qs_circ = circ_new d n b, qs_adders = [], qs_removers = 0, qs_added = [], qs_taken = []\<rparr>"

inductive qstep :: "'a qsys \<Rightarrow> 'a qsys \<Rightarrow> bool" where
  q_add: "circ_add (qs_circ s) x = Some c \<Longrightarrow>
     qstep s (s\<lparr>qs_circ := c, qs_added := qs_added s @ [x]\<rparr>)"
| q_addIfRoom: "circ_addIfRoom (qs_circ s) x = (b, c) \<Longrightarrow>
     qstep s (s\<lparr>qs_circ := c, qs_added := qs_added s @ (if b then [x] else [])\<rparr>)"
| q_add_waits: "circ_add (qs_circ s) x = None \<Longrightarrow> qstep s (s\<lparr>qs_adders := x # qs_adders s\<rparr>)"
| q_add_woken: "x \<in> set (qs_adders s) \<Longrightarrow> circ_add (qs_circ s) x = Some c \<Longrightarrow>
     qstep s (s\<lparr>qs_circ := c, qs_adders := remove1 x (qs_adders s), qs_added := qs_added s @ [x]\<rparr>)"
| q_add_gives_up: "x \<in> set (qs_adders s) \<Longrightarrow> qstep s (s\<lparr>qs_adders := remove1 x (qs_adders s)\<rparr>)"
| q_remove: "circ_remove (qs_circ s) = Some (x, c) \<Longrightarrow>
     qstep s (s\<lparr>qs_circ := c, qs_taken := qs_taken s @ [x]\<rparr>)"
| q_removeOrBlock: "removeOrBlock (qs_circ s) = Some (x, c) \<Longrightarrow>
     qstep s (s\<lparr>qs_circ := c, qs_taken := qs_taken s @ [x]\<rparr>)"
| q_remove_waits: "removeOrBlock (qs_circ s) = None \<Longrightarrow> qstep s (s\<lparr>qs_removers := Suc (qs_removers s)\<rparr>)"
| q_remove_woken: "qs_removers s = Suc k \<Longrightarrow> removeOrBlock_woken r (qs_circ s) = (Some x, c) \<Longrightarrow>
     qstep s (s\<lparr>qs_circ := c, qs_removers := k, qs_taken := qs_taken s @ [x]\<rparr>)"
| q_remove_fails: "qs_removers s = Suc k \<Longrightarrow> removeOrBlock_woken r (qs_circ s) = (None, c) \<Longrightarrow>
     qstep s (s\<lparr>qs_circ := c, qs_removers := k\<rparr>)"

inductive_cases qstepE: "qstep s t"

section \<open>Invariant\<close>

text \<open>
  A remover that waited does not reset the positions of the queue when it takes the last element,
  so an empty queue may stand anywhere in its array.
\<close>

definition circ_winv :: "'a circ \<Rightarrow> bool" where
  "circ_winv c \<longleftrightarrow> circ_inv c \<or>
     (sema_size (sema c) = csize c \<and> sema_cnt (sema c) = csize c \<and> 0 < csize c \<and>
      int (length (cdata c)) = csize c \<and> 0 \<le> nextOut c \<and> nextOut c < csize c \<and> nextNextIn c = nextOut c)"

lemma winv_nonempty: "circ_winv c \<Longrightarrow> circ_remain c \<noteq> 0 \<Longrightarrow> circ_inv c"
  by (auto simp: circ_winv_def circ_remain_def)

lemma winv_add:
  assumes "circ_winv c" "circ_add c x = Some c'"
  shows "circ_inv c' \<and> circ_list c' = circ_list c @ [x] \<and> csize c' = csize c"
proof (cases "circ_inv c")
  case True
  then show ?thesis using circ_add_abs [OF True assms(2)] by simp
next
  case False
  then have w: "sema_size (sema c) = csize c" "sema_cnt (sema c) = csize c" "0 < csize c"
      "int (length (cdata c)) = csize c" "0 \<le> nextOut c" "nextOut c < csize c" "nextNextIn c = nextOut c"
    using assms(1) by (auto simp: circ_winv_def)
  let ?c = "c\<lparr>sema := (sema c)\<lparr>sema_cnt := sema_cnt (sema c) - 1\<rparr>\<rparr>"
  have "nextNextIn ?c = nextOut c" using w(7) by (auto simp: nextNextIn_def)
  then have c': "c' = ?c\<lparr>nextIn := nextOut c, cdata := (cdata c)[nat (nextOut c) := x]\<rparr>"
    using circ_add_Some [OF assms(2)] by (simp add: circ_store_def Let_def)
  have "circ_remain c' = 1" "slot c' 0 = nextOut c" "circ_remain c = 0"
    using w c' by (simp_all add: circ_remain_def slot_def)
  moreover have "cdata c' ! nat (nextOut c) = x" using c' w by (simp add: nat_less_iff)
  ultimately show ?thesis using w c' by (simp add: circ_inv_def circ_list_def)
qed

lemma removeOrBlock_remove: "removeOrBlock c = circ_remove c"
  by (simp add: removeOrBlock_def circ_remove_def)

lemma circ_remove_remains: "circ_remove c = Some (x, c') \<Longrightarrow> circ_remain c \<noteq> 0"
  by (auto simp: circ_remove_def Let_def split: if_splits)

lemma winv_remove:
  assumes "circ_winv c" "circ_remove c = Some (x, c')"
  shows "circ_inv c' \<and> circ_list c = x # circ_list c' \<and> csize c' = csize c"
  using circ_remove_abs [OF winv_nonempty [OF assms(1) circ_remove_remains [OF assms(2)]] assms(2)] by simp

lemma winv_woken:
  assumes "circ_winv c" "removeOrBlock_woken r c = (Some x, c')"
  shows "circ_winv c' \<and> circ_list c = x # circ_list c' \<and> csize c' = csize c"
proof -
  have pos: "sema_cnt (sema c) < sema_size (sema c)"
    using assms(2) by (auto simp: removeOrBlock_woken_def waitForAcquirers_woken_def split: if_splits)
  then have i: "circ_inv c" using assms(1) by (auto simp: circ_winv_def)
  have rm: "0 < circ_remain c" using i pos by (simp add: circ_inv_def circ_remain_def)
  have x: "x = cdata c ! nat (nextOut c)"
    and c': "c' = c\<lparr>nextOut := nextNextOut c, sema := releaseWithoutLock (sema c)\<rparr>"
    using assms(2) rm by (auto simp: removeOrBlock_woken_def Let_def split: if_splits)
  show ?thesis
  proof (cases "circ_remain c = 1")
    case False
    then have "circ_remove c = Some (x, c')" using rm x c' by (simp add: circ_remove_def Let_def)
    then show ?thesis using circ_remove_abs [OF i] by (auto simp: circ_winv_def)
  next
    case True
    have b: "0 \<le> nextOut c" "nextOut c < csize c" "nextIn c = slot c 0" "0 < csize c"
      using i True by (auto simp: circ_inv_def)
    then have "nextIn c = nextOut c" by (simp add: slot_def)
    then have "nextNextIn c' = nextOut c'" using c' by (simp add: nextNextIn_def nextNextOut_def)
    moreover have "nextOut c' = slot c 1" using nextNextOut_slot [OF i rm] c' by simp
    moreover have "circ_list c = [x]" using True x b by (simp add: circ_list_def slot_def)
    moreover have "circ_remain c' = 0" "sema_cnt (sema c') = csize c'"
      using True c' by (simp_all add: circ_remain_def releaseWithoutLock_def)
    moreover have "sema_size (sema c') = csize c'" "int (length (cdata c')) = csize c'"
      using i c' by (simp_all add: circ_inv_def releaseWithoutLock_def)
    ultimately show ?thesis
      using b slot_bounds [OF b(4), of 1] c' by (simp add: circ_winv_def circ_list_def)
  qed
qed

lemma woken_fails: "removeOrBlock_woken r c = (None, c') \<Longrightarrow> c' = c"
  by (auto simp: removeOrBlock_woken_def Let_def split: if_splits)

definition qs_inv :: "int \<Rightarrow> 'a qsys \<Rightarrow> bool" where
  "qs_inv n s \<longleftrightarrow> circ_winv (qs_circ s) \<and> csize (qs_circ s) = n \<and> qs_taken s @ circ_list (qs_circ s) = qs_added s"

lemma qs_inv_add: "circ_add (qs_circ s) x = Some c \<Longrightarrow> qs_inv n s \<Longrightarrow>
    qs_inv n (s\<lparr>qs_circ := c, qs_adders := as, qs_added := qs_added s @ [x]\<rparr>)"
  using winv_add [of "qs_circ s" x c] by (auto simp: qs_inv_def circ_winv_def)

lemma qs_inv_take: "circ_winv c \<and> circ_list (qs_circ s) = x # circ_list c \<and> csize c = csize (qs_circ s) \<Longrightarrow>
    qs_inv n s \<Longrightarrow> qs_inv n (s\<lparr>qs_circ := c, qs_removers := k, qs_taken := qs_taken s @ [x]\<rparr>)"
  by (auto simp: qs_inv_def)

lemma qstep_inv: "qstep s t \<Longrightarrow> qs_inv n s \<Longrightarrow> qs_inv n t"
proof (induction rule: qstep.induct)
  case (q_add s x c)
  then show ?case using qs_inv_add [of s x c n "qs_adders s"] by simp
next
  case (q_addIfRoom s x b c)
  then show ?case using qs_inv_add [of s x c n "qs_adders s"]
    by (auto simp: circ_addIfRoom_add split: option.splits)
next
  case (q_add_woken x s c)
  then show ?case using qs_inv_add [of s x c n "remove1 x (qs_adders s)"] by simp
next
  case (q_remove s x c)
  then have "circ_winv (qs_circ s)" by (simp add: qs_inv_def)
  with q_remove show ?case
    using winv_remove [of "qs_circ s" x c] qs_inv_take [of c s x n "qs_removers s"] by (simp add: circ_winv_def)
next
  case (q_removeOrBlock s x c)
  then have "circ_winv (qs_circ s)" by (simp add: qs_inv_def)
  with q_removeOrBlock show ?case
    using winv_remove [of "qs_circ s" x c] qs_inv_take [of c s x n "qs_removers s"]
    by (simp add: circ_winv_def removeOrBlock_remove)
next
  case (q_remove_woken s k r x c)
  then show ?case using winv_woken [of "qs_circ s" r x c] qs_inv_take [of c s x n k] by (simp add: qs_inv_def)
next
  case (q_remove_fails s k r c)
  then show ?case using woken_fails [of r "qs_circ s" c] by (simp add: qs_inv_def)
qed (simp_all add: qs_inv_def)

lemma qsys_new_inv: "0 \<le> n \<Longrightarrow> qs_inv n (qsys_new d n b)"
  using circ_new_abs [of n d b] by (simp add: qs_inv_def qsys_new_def circ_winv_def) (simp add: circ_new_def)

lemma qs_reachable: "qstep\<^sup>*\<^sup>* (qsys_new d n b) s \<Longrightarrow> 0 \<le> n \<Longrightarrow> qs_inv n s"
  by (induction rule: rtranclp_induct) (auto intro: qsys_new_inv qstep_inv)

text \<open>C36: Threads at a queue. However the calls of any number of threads are interleaved (adders and
  removers that wait, that wake up with or without reason, that find an element another thread took
  first, that give up), the elements that were taken followed by the elements in the queue are the
  elements that were added, in their order; the queue never holds more than its size, and a call
  that does not wait succeeds exactly when there is room, or an element.\<close>

theorem blocking_fifo:
  assumes "qstep\<^sup>*\<^sup>* (qsys_new d n b) s" "0 \<le> n"
  shows "qs_taken s @ circ_list (qs_circ s) = qs_added s \<and> length (circ_list (qs_circ s)) \<le> nat n \<and>
    (circ_add (qs_circ s) x = None \<longleftrightarrow> length (circ_list (qs_circ s)) = nat n) \<and>
    (removeOrBlock (qs_circ s) = None \<longleftrightarrow> circ_list (qs_circ s) = [])"
proof -
  have i: "qs_inv n s" by (rule qs_reachable [OF assms])
  then have c: "0 \<le> sema_cnt (sema (qs_circ s))" "sema_cnt (sema (qs_circ s)) \<le> n" "csize (qs_circ s) = n"
    by (auto simp: qs_inv_def circ_winv_def circ_inv_def)
  then show ?thesis using i
    by (auto simp: qs_inv_def circ_list_def circ_remain_def circ_add_def acquireAndKeepLock_def removeOrBlock_def Let_def
        split: if_splits)
qed

theorem blocking_fifo_witness:
  "let c = circ_new (0 :: nat) 1 False in
   \<exists>c1 c2. circ_add c 5 = Some c1 \<and> removeOrBlock_woken 0 c1 = (Some 5, c2) \<and>
     [5] @ circ_list c2 = [5] \<and> circ_add c2 6 \<noteq> None \<and> removeOrBlock c2 = None"
proof -
  let ?c = "circ_new (0 :: nat) 1 False"
  define c1 where "c1 = the (circ_add ?c 5)"
  define c2 where "c2 = snd (removeOrBlock_woken 0 c1)"
  have e: "circ_add ?c 5 = Some c1" "removeOrBlock_woken 0 c1 = (Some 5, c2)" "removeOrBlock ?c = None"
    unfolding c1_def c2_def by code_simp+
  let ?s0 = "qsys_new (0 :: nat) 1 False" let ?s1 = "?s0\<lparr>qs_removers := Suc 0\<rparr>"
  let ?s2 = "?s1\<lparr>qs_circ := c1, qs_added := [5]\<rparr>" let ?s3 = "?s2\<lparr>qs_circ := c2, qs_removers := 0, qs_taken := [5]\<rparr>"
  have a: "qstep ?s0 ?s1" using q_remove_waits [of ?s0] e(3) by (simp add: qsys_new_def)
  have b: "qstep ?s1 ?s2" using q_add [of ?s1 5 c1] e(1) by (simp add: qsys_new_def)
  have c: "qstep ?s2 ?s3" using q_remove_woken [of ?s2 0 0 5 c2] e(2) by (simp add: qsys_new_def)
  have "qstep\<^sup>*\<^sup>* ?s0 ?s3"
    by (rule converse_rtranclp_into_rtranclp, rule a, rule converse_rtranclp_into_rtranclp, rule b, rule r_into_rtranclp, rule c)
  then have f: "qs_taken ?s3 @ circ_list (qs_circ ?s3) = qs_added ?s3 \<and> length (circ_list (qs_circ ?s3)) \<le> nat 1 \<and>
      (circ_add (qs_circ ?s3) 6 = None \<longleftrightarrow> length (circ_list (qs_circ ?s3)) = nat 1) \<and>
      (removeOrBlock (qs_circ ?s3) = None \<longleftrightarrow> circ_list (qs_circ ?s3) = [])" by (rule blocking_fifo) simp
  show ?thesis unfolding Let_def
    by (rule exI [of _ c1], rule exI [of _ c2]) (use e(1,2) f in simp)
qed

section \<open>Iterators and indexed writes\<close>

lemma iter_data_slot:
  assumes "circ_inv c" "\<not> rev_flag c" "k < length (circ_list c)"
    "it = \<lparr>it_valid = True, it_n = int k, it_p = slot c (int k)\<rparr>"
  shows "iter_data c it = Some (Some (circ_list c ! k))"
proof -
  have "int k < circ_remain c" using assms(3) by (simp add: length_circ_list)
  moreover have "0 < csize c" using calculation assms(1) by (auto simp: circ_inv_def circ_remain_def)
  moreover have "int (length (cdata c)) = csize c" using assms(1) by (simp add: circ_inv_def)
  ultimately show ?thesis using slot_bounds [of c "int k"] assms(3,4)
    by (simp add: iter_data_def circ_list_def)
qed

lemma iter_next_slot:
  assumes "circ_inv c" "\<not> rev_flag c" "Suc k < length (circ_list c)"
    "it = \<lparr>it_valid = True, it_n = int k, it_p = slot c (int k)\<rparr>"
  shows "iter_next c it = (True, \<lparr>it_valid = True, it_n = int (Suc k), it_p = slot c (int (Suc k))\<rparr>)"
proof -
  have r: "int (Suc k) < circ_remain c" using assms(3) by (simp add: length_circ_list)
  then have n: "0 < csize c" using assms(1) by (auto simp: circ_inv_def circ_remain_def)
  have "(if slot c (int k) + 1 \<ge> csize c then 0 else slot c (int k) + 1) = (slot c (int k) + 1) mod csize c"
    using ring_up [of "slot c (int k)" "csize c"] slot_bounds [OF n, of "int k"] by simp
  also have "\<dots> = slot c (int (Suc k))"
    using assms(2) mod_add_left_eq [of "nextOut c + int k" "csize c" 1] by (simp add: slot_def algebra_simps)
  finally show ?thesis using r assms(4) by (auto simp: iter_next_def split: if_splits)
qed

lemma iter_collect_from:
  assumes "circ_inv c" "\<not> rev_flag c" "k < length (circ_list c)" "length (circ_list c) - k \<le> m"
    "it = \<lparr>it_valid = True, it_n = int k, it_p = slot c (int k)\<rparr>"
  shows "iter_collect m c it = Some (drop k (circ_list c))"
  using assms(3-5)
proof (induction m arbitrary: k it)
  case (Suc m)
  have d: "iter_data c it = Some (Some (circ_list c ! k))" by (rule iter_data_slot [OF assms(1,2) Suc.prems(1,3)])
  have h: "drop k (circ_list c) = circ_list c ! k # drop (Suc k) (circ_list c)"
    using Suc.prems(1) by (simp add: Cons_nth_drop_Suc)
  show ?case
  proof (cases "Suc k < length (circ_list c)")
    case True
    then show ?thesis
      using d h iter_next_slot [OF assms(1,2) True Suc.prems(3)] Suc.IH [OF True] Suc.prems(2) by simp
  next
    case False
    then have "circ_remain c \<le> int (Suc k)" by (simp add: length_circ_list)
    then have "\<not> it_valid (snd (iter_next c it))" using Suc.prems(3) by (simp add: iter_next_def)
    then have "iter_collect m c (snd (iter_next c it)) = Some []" by (cases m) (simp_all add: iter_data_def)
    then show ?thesis using d h False by simp
  qed
qed simp

text \<open>An iterator over a queue that is not reversed returns its elements in order.\<close>

lemma iter_collects:
  assumes "circ_inv c" "\<not> rev_flag c" "length (circ_list c) \<le> m"
  shows "iter_collect m c (getIter c) = Some (circ_list c)"
proof (cases "circ_list c = []")
  case True
  then have "circ_remain c \<le> 0" by (metis length_circ_list list.size(3) nat_0_iff)
  then show ?thesis using True by (cases m) (simp_all add: getIter_def iter_data_def)
next
  case False
  then have "0 < length (circ_list c)" by simp
  moreover from this have "0 < circ_remain c" by (simp add: length_circ_list)
  moreover have "slot c 0 = nextOut c" using assms(1) calculation(2) by (auto simp: circ_inv_def slot_def)
  ultimately show ?thesis
    using iter_collect_from [OF assms(1,2), of 0 m "getIter c"] assms(3) by (simp add: getIter_def)
qed

text \<open>It ignores the flag of a reversed queue, and leaves the elements.\<close>

lemma iter_ignores_reverse:
  "let c = circ_reverse (the (put_all circ_add [1, 2, 3] (circ_new (0 :: nat) 4 False))) in
   circ_list c = [3, 2, 1] \<and> iter_collect 4 c (getIter c) = Some [3, 0, 1]"
  by code_simp

text \<open>What \<open>set\<close> writes, \<open>get\<close> reads at the same index.\<close>

lemma set_get:
  assumes "circ_set c n x = Some (True, c')"
  shows "circ_get c' n = Some (Some x)"
  using assms by (auto simp: circ_set_def circ_get_def Let_def circ_remain_def nat_less_iff split: if_splits)

text \<open>A disabled queue still takes elements; \<open>unblockAll\<close> lets one element too many in.\<close>

lemma disable_no_effect: "map_option circ_list (circ_add (circ_disable c) x) = map_option circ_list (circ_add c x)"
  by (auto simp: circ_disable_def circ_add_def circ_list_def circ_store_def nextNextIn_def slot_def circ_remain_def Let_def
      split: option.splits)

lemma unblockAll_overfills:
  "let c = the (put_all circ_add [1, 2] (circ_new (0 :: nat) 2 False)) in
   circ_add c 3 = None \<and> map_option circ_list (circ_add (circ_unblockAll c) 3) = Some [3, 2]"
  by code_simp

text \<open>\<open>cloneFrom\<close> copies a queue of objects; of other queues it copies the positions only.\<close>

lemma circ_cloneFrom_abs:
  assumes "circ_inv src" "isObjects src"
  shows "circ_inv (circ_cloneFrom raw t src) \<and> circ_list (circ_cloneFrom raw t src) = circ_list src"
  using assms by (simp add: circ_cloneFrom_def circ_inv_def circ_list_def slot_def circ_remain_def)

end
