(* ===== verification/Delivery.thy ===== *)
theory Delivery
  imports Grease_Lib
begin

text \<open>
  From a source to a target: what a redirected process prints, and what the kernel logs, reaches the
  stream of the target that its filters name. The sources put entries into pool buffers and queue them
  without sifting them first; the logger thread sifts them when it takes the command.
\<close>

section \<open>What the sources leave alone\<close>

definition same_routing :: "grease \<Rightarrow> grease \<Rightarrow> bool" where
  "same_routing g g' \<longleftrightarrow> filters g' = filters g \<and> targets g' = targets g \<and> defaultTarget g' = defaultTarget g \<and>
     defaultFilter g' = defaultFilter g \<and> bufferSize g' = bufferSize g \<and>
     callerLogCallbacks (env g') = callerLogCallbacks (env g) \<and> needGreaseThread (env g') = needGreaseThread (env g) \<and>
     levelLabels (env g') = levelLabels (env g) \<and> tagLabels (env g') = tagLabels (env g) \<and>
     originLabels (env g') = originLabels (env g) \<and> header_buffer (env g') = header_buffer (env g) \<and>
     footer_buffer (env g') = footer_buffer (env g) \<and>
     csize (internalCmdQueue (env g')) = csize (internalCmdQueue (env g))"

lemma same_routing_refl [simp]: "same_routing g g"
  by (simp add: same_routing_def)

lemma same_routing_trans: "same_routing g g1 \<Longrightarrow> same_routing g1 g2 \<Longrightarrow> same_routing g g2"
  by (simp add: same_routing_def)

lemma put_entry_routing: "same_routing g (put_entry g a l)"
  by (simp add: same_routing_def put_entry_def)

lemma addIfRoom_csize: "circ_inv q \<Longrightarrow> circ_addIfRoom q x = (ok, q') \<Longrightarrow> csize q' = csize q"
  using circ_add_abs(3) [of q x] by (auto simp: circ_addIfRoom_add split: option.splits)

lemma returnBuffer_routing: "returnBuffer_master g a = Some g' \<Longrightarrow> same_routing g g'"
  by (auto simp: returnBuffer_master_def same_routing_def split: option.splits)

lemma enqueue_routing:
  assumes "enqueue_buffer g a l = Some g'" "circ_inv (internalCmdQueue (env g))"
  shows "same_routing g g'"
proof -
  obtain ok q where q: "circ_addIfRoom (internalCmdQueue (env g)) (new_log_cmd a) = (ok, q)" by force
  from addIfRoom_csize [OF assms(2) q] q assms(1) show ?thesis
    by (auto simp: enqueue_buffer_def same_routing_def split: if_splits)
qed

lemma submit_entry_routing:
  assumes "submit_entry g a = Some g'" "circ_inv (internalCmdQueue (env g))"
  shows "same_routing g g'"
proof -
  obtain hp where hp: "submitBuffer (g\<lparr>env := (env g)\<lparr>logs := hp\<rparr>\<rparr>) a = Some g'" (is "submitBuffer ?g a = _")
    using assms(1) by (auto simp: submit_entry_def bind_eq_Some_conv)
  have "same_routing ?g g'" using hp returnBuffer_routing [of ?g a g'] enqueue_routing [of ?g a _ g'] assms(2)
    by (auto simp: submitBuffer_def split: option.splits if_splits)
  moreover have "same_routing g ?g" by (simp add: same_routing_def)
  ultimately show ?thesis by (rule same_routing_trans [rotated])
qed

lemma pool_round_routing:
  assumes "pool_round fill s g = Some (ok, s', g')" "circ_inv (internalCmdQueue (env g))"
  shows "same_routing g g'"
proof (cases "circ_remove (masterBufferAvail g)")
  case None
  then show ?thesis using assms(1) by (simp add: pool_round_def grabInLogBuffer_def)
next
  case (Some ap)
  obtain a p where ap: "ap = (a, p)" by force
  let ?g = "g\<lparr>masterBufferAvail := p\<rparr>"
  obtain l l' where l: "((if ok then submit_entry else returnBuffer_master) (put_entry ?g a l') a) = Some g'"
    using assms(1) Some ap by (auto simp: pool_round_def grabInLogBuffer_def bind_eq_Some_conv split: option.splits)
  have "circ_inv (internalCmdQueue (env (put_entry ?g a l')))" using assms(2) by (simp add: put_entry_def)
  then have "same_routing (put_entry ?g a l') g'"
    using l submit_entry_routing returnBuffer_routing by (auto split: if_splits)
  moreover have "same_routing g ?g" by (simp add: same_routing_def)
  ultimately show ?thesis using same_routing_trans put_entry_routing by blast
qed

lemma routed_same:
  assumes "same_routing g g'"
  shows "find_target g' i = find_target g i" "target_inv (env g') t = target_inv (env g) t" "ref_inv k (env g') t = ref_inv k (env g) t"
    "framed render tm (env g') t m flt hdr hn ftr fn = framed render tm (env g) t m flt hdr hn ftr fn"
    "filters g' = filters g" "recipients g' em fs = recipients g em fs"
  using assms target_inv_env [of "env g'" "env g" t] framed_env [of "env g'" "env g"] recipients_cong [of em em g' g]
  by (simp_all add: same_routing_def find_target_def ref_inv_def)

section \<open>An entry that waits alone\<close>

text \<open>What stands between a queued entry and its target: the entry \<open>l\<close> with the metadata \<open>m0\<close>, not
  sifted yet, whose filters name the one target \<open>i\<close>, and that target ready to take the text.\<close>

definition target_ready ::
  "renderer \<Rightarrow> int \<times> int \<Rightarrow> nat \<Rightarrow> grease \<Rightarrow> logMeta \<Rightarrow> logMeta \<Rightarrow> TargetId \<Rightarrow> Filter \<Rightarrow> logTarget \<Rightarrow>
   nat \<Rightarrow> bytes \<Rightarrow> nat \<Rightarrow> bytes \<Rightarrow> nat \<Rightarrow> bool" where
  "target_ready render tm k g m0 m i flt t len hdr hn ftr fn \<longleftrightarrow>
     filter_inv (filters g) \<and> fresh m0 \<and> length (chosen (filters g) m0) < MAX_IDENTICAL_FILTERS \<and>
     sift (filters g) m0 = (True, m) \<and> m_extras m = 0 \<and>
     recipients g (fresh_extra m) (chosen (filters g) m0) = [(i, flt)] \<and>
     find_target g i = Some t \<and> target_inv (env g) t \<and> ref_inv k (env g) t \<and> \<not> t_disabled t \<and>
     t_flags t AND GREASE_JSON_ESCAPE_STRINGS = 0 \<and> len + GREASE_MAX_PREFIX_HEADER \<le> bankSize t \<and>
     framed render tm (env g) t m flt hdr hn ftr fn \<and>
     (int (len + hn + fn) \<le> lb_remain (cur t) \<or> circ_list (availBuffers t) \<noteq> [])"

lemma target_ready_routing:
  "same_routing g g' \<Longrightarrow> target_ready render tm k g' m0 m i flt t len hdr hn ftr fn = target_ready render tm k g m0 m i flt t len hdr hn ftr fn"
  by (simp add: target_ready_def routed_same)

lemma queued_delivered:
  assumes queue: "circ_list (internalCmdQueue (env g)) = [new_log_cmd a]" "1 < csize (internalCmdQueue (env g))"
    and pool: "pool_inv n gr g"
    and entry: "logs (env g) a = Some l" "em_m (sl_meta l) = m0" "hb_base (sl_buf l) = Some b" "hb_used (sl_buf l) = len"
      "len \<le> length b" "0 < len"
    and ready: "target_ready render tm k g m0 m i flt t len hdr hn ftr fn"
  shows "\<exists>g2 t'. handleInternalCmd render tm 1 g = Some g2 \<and> find_target g2 i = Some t' \<and>
    stream t' = stream t @ line t hdr hn b len ftr fn \<and> target_inv (env g2) t' \<and> pool_inv n gr g2"
proof -
  have c: "circ_inv (internalCmdQueue (env g))" using pool by (simp add: pool_inv_def)
  have "dispatch (write_action render tm b len) (sl_meta l) g' = write_action render tm b len m i flt g'"
    if g': "g' = g\<lparr>env := (env g)\<lparr>internalCmdQueue := internalCmdQueue (env g')\<rparr>\<rparr>" "circ_inv (internalCmdQueue (env g'))" for g'
  proof -
    have same: "filters g' = filters g" "targets g' = targets g" "defaultTarget g' = defaultTarget g"
        "defaultFilter g' = defaultFilter g" by (subst g'(1), simp)+
    have "dispatch (write_action render tm b len) (sl_meta l) g' =
        run_acts (write_action render tm b len m) (recipients g' ((sl_meta l)\<lparr>em_m := m\<rparr>) (chosen (filters g) m0)) g'"
      using dispatch_chosen [OF write_frame_act g'(2), of m0 m "sl_meta l"] ready entry(2) same(1) by (simp add: target_ready_def)
    moreover have "ignored ((sl_meta l)\<lparr>em_m := m\<rparr>) = ignored (fresh_extra m)"
      using ready by (auto simp: target_ready_def ignored_def META_HAS_IGNORES_def fresh_extra_def)
    then have "recipients g' ((sl_meta l)\<lparr>em_m := m\<rparr>) (chosen (filters g) m0) = [(i, flt)]"
      using recipients_cong [of "(sl_meta l)\<lparr>em_m := m\<rparr>" "fresh_extra m" g' g] same ready
      by (simp add: target_ready_def fresh_extra_def)
    ultimately show ?thesis by (simp add: run_acts_one del: run_acts.simps)
  qed
  from handle_one [OF queue(1) c queue(2) entry(1,3-6) _ this, of t k hdr hn ftr fn n gr] show ?thesis
    using ready pool unfolding target_ready_def by blast
qed

section \<open>The output of a process\<close>

text \<open>A buffer that comes back to the pool has no metadata, so what the next entry finds there is its own.\<close>

lemma returned_clean:
  "returnBuffer_master g a = Some g' \<Longrightarrow> \<exists>l. logs (env g') a = Some l \<and> em_m (sl_meta l) = noMetaData"
  by (auto simp: returnBuffer_master_def singleLog_clear_def split: option.splits)

lemma fd_one_chunk:
  assumes "pool_inv n gr g" "circ_list (masterBufferAvail g) = a # b # as" "logs (env g) a = Some l0" "cmd_room g 1"
    "d \<noteq> []" "length d \<le> bufferSize g" "x = None \<or> x = Some []"
  shows "\<exists>g' l base. fd_loop 3 s r ([Some d, x], False) g = Some (([], x \<noteq> None), g') \<and> pool_inv n gr g' \<and> same_routing g g' \<and>
    circ_list (internalCmdQueue (env g')) = circ_list (internalCmdQueue (env g)) @ [new_log_cmd a] \<and>
    logs (env g') a = Some l \<and> em_m (sl_meta l) = fd_meta s r (em_m (sl_meta l0)) \<and>
    hb_used (sl_buf l) = length d \<and> hb_base (sl_buf l) = Some base \<and> take (length d) base = d \<and> length d \<le> length base"
proof -
  have q: "circ_inv (internalCmdQueue (env g))" using assms(1) by (simp add: pool_inv_def)
  have room: "cmd_room g (Suc 0)" using assms(4) by simp
  from fd_round_data [OF assms(1,2,5,6) room, of s r "[x]" False] obtain g1 l where
    r1: "pool_round (fd_fill s r) ([Some d, x], False) g = Some (True, ([x], False), g1)" "pool_inv n gr g1"
      "circ_list (internalCmdQueue (env g1)) = circ_list (internalCmdQueue (env g)) @ [new_log_cmd a]"
      "logs (env g1) = (logs (env g))(a \<mapsto> l)" "chunk_in s r d (Some l)" "circ_list (masterBufferAvail g1) = b # as"
      "a \<notin> set (b # as)" "sl_meta l = (sl_meta l0)\<lparr>em_m := fd_meta s r (em_m (sl_meta l0))\<rparr>"
    using assms(3) by auto
  have q1: "circ_inv (internalCmdQueue (env g1))" using r1(2) by (simp add: pool_inv_def)
  from fd_round_end [OF r1(2,6) assms(7), of s r "[]" False] obtain g2 where
    r2: "pool_round (fd_fill s r) ([x], False) g1 = Some (False, ([], x \<noteq> None), g2)" "pool_inv n gr g2"
      "internalCmdQueue (env g2) = internalCmdQueue (env g1)" "\<forall>c. c \<noteq> b \<longrightarrow> logs (env g2) c = logs (env g1) c" by auto
  have "fd_loop 3 s r ([Some d, x], False) g = Some (([], x \<noteq> None), g2)"
    using r1(1) r2(1) by (simp add: eval_nat_numeral)
  moreover have "same_routing g g2"
    using pool_round_routing [OF r1(1) q] pool_round_routing [OF r2(1) q1] same_routing_trans by blast
  moreover have "logs (env g2) a = Some l" using r2(4) r1(4,7) by simp
  moreover obtain base where "hb_used (sl_buf l) = length d" "hb_base (sl_buf l) = Some base" "take (length d) base = d"
    using r1(5) by (auto simp: chunk_in_def)
  moreover from this(3) have "length d \<le> length base" by (metis length_take min.cobounded1)
  ultimately show ?thesis using r1(3,8) r2(2,3) by auto
qed

text \<open>C6: What a process prints reaches its target. A descriptor that is logged for a process delivers a
  piece of output; the entry that the library queues has the process's origin and the tag and level of
  its ticket, and when the logger thread has handled the one command, the output stands, with
  header, footer and delimiter, at the end of the stream of the one target that the filters name for
  it. Stated for an empty command queue and a free buffer that carries no metadata, as every
  buffer that came back to the pool.\<close>

theorem process_output_to_target:
  assumes pool: "pool_inv n gr g" "circ_list (masterBufferAvail g) = a # b # as" "logs (env g) a = Some l0"
      "em_m (sl_meta l0) = noMetaData"
    and queue: "circ_list (internalCmdQueue (env g)) = []" "1 < csize (internalCmdQueue (env g))"
    and printed: "table s rs fd = Some r" "d \<noteq> []" "length d \<le> bufferSize g" "x = None \<or> x = Some []"
    and ready: "target_ready render tm k g (fd_meta s r noMetaData) m i flt t (length d) hdr hn ftr fn"
  shows "\<exists>rs' g1 g2 t'. handle_fd s fd 0 UV_READABLE [Some d, x] (rs, g) = Some ([], rs', g1) \<and>
    handleInternalCmd render tm 1 g1 = Some g2 \<and> find_target g2 i = Some t' \<and>
    stream t' = stream t @ line t hdr hn d (length d) ftr fn \<and> target_inv (env g2) t' \<and> pool_inv n gr g2"
proof -
  have room: "cmd_room g 1" using queue by (simp add: cmd_room_def)
  from fd_one_chunk [OF pool(1-3) room printed(2-4), of s r] obtain g1 l base where
    f: "fd_loop 3 s r ([Some d, x], False) g = Some (([], x \<noteq> None), g1)" "pool_inv n gr g1" "same_routing g g1"
      "circ_list (internalCmdQueue (env g1)) = [new_log_cmd a]" "logs (env g1) a = Some l"
      "em_m (sl_meta l) = fd_meta s r noMetaData" "hb_used (sl_buf l) = length d" "hb_base (sl_buf l) = Some base"
      "take (length d) base = d" "length d \<le> length base"
    using queue(1) pool(4) by auto
  have c: "1 < csize (internalCmdQueue (env g1))" using f(3) queue(2) by (simp add: same_routing_def)
  have "target_ready render tm k g1 (fd_meta s r noMetaData) m i flt t (length d) hdr hn ftr fn"
    using ready target_ready_routing [OF f(3)] by simp
  from queued_delivered [OF f(4) c f(2,5,6,8,7,10) _ this] obtain g2 t' where
    g2: "handleInternalCmd render tm 1 g1 = Some g2" "find_target g2 i = Some t'"
      "stream t' = stream t @ line t hdr hn base (length d) ftr fn" "target_inv (env g2) t'" "pool_inv n gr g2"
    using printed(2) by auto
  have ln: "line t hdr hn base (length d) ftr fn = line t hdr hn d (length d) ftr fn"
    by (rule line_take) (use f(9) in simp)
  have "UV_READABLE AND UV_READABLE \<noteq> 0" by (simp add: UV_READABLE_def)
  then have "\<exists>rs'. handle_fd s fd 0 UV_READABLE [Some d, x] (rs, g) = Some ([], rs', g1)"
    using f(1) printed(1) by (auto simp: handle_fd_def Let_def eval_nat_numeral simp del: fd_loop.simps split: prod.split)
  then show ?thesis using g2 ln by auto
qed

text \<open>The example logger, with an entry that its one filter sends to the terminal.\<close>

lemma ex_target_ready:
  "target_ready ex_render (0, 0) 0 ex_logger ex_meta (snd (sift ex_filters ex_meta)) 1 (Filter_new 1 4 1) (ex_target TtyTarget)
     3 (header_buffer env_new) 0 (footer_buffer env_new) 0"
  using ex_logger_parts(4,5) ex_filters_inv ex_sift ex_sifted ex_ready ex_ready_env
    ex_recipients [of "fresh_extra (snd (sift ex_filters ex_meta))"]
  by (simp add: target_ready_def fresh_extra_def META_HAS_IGNORES_def MAX_IDENTICAL_FILTERS_def)

lemma ex_free_entry: "\<exists>l0. logs (env ex_logger) 0 = Some l0 \<and> em_m (sl_meta l0) = noMetaData"
proof -
  have "map_option (\<lambda>l. em_m (sl_meta l)) (logs (env ex_logger) 0) = Some noMetaData" by code_simp
  then show ?thesis by auto
qed

theorem process_output_to_target_witness:
  "\<exists>rs' g1 g2 t'. handle_fd GREASE_PROCESS_STDOUT 7 0 UV_READABLE [Some [0x61, 0x62, 0x63], None]
       (set_table GREASE_PROCESS_STDOUT [7 \<mapsto> (fdRedirectorTicket_new True 2 7 True)\<lparr>tk_tag := 3, tk_level := 4\<rparr>] redirects_new,
        ex_logger) = Some ([], rs', g1) \<and>
     handleInternalCmd ex_render (0, 0) 1 g1 = Some g2 \<and> find_target g2 1 = Some t' \<and>
     stream t' = stream (ex_target TtyTarget) @ [0x61, 0x62, 0x63, 0x0A]"
proof -
  let ?r = "(fdRedirectorTicket_new True 2 7 True)\<lparr>tk_tag := 3, tk_level := 4\<rparr>"
  let ?rs = "set_table GREASE_PROCESS_STDOUT [7 \<mapsto> ?r] redirects_new"
  have t: "table GREASE_PROCESS_STDOUT ?rs 7 = Some ?r" by (simp add: table_def set_table_def)
  have m: "fd_meta GREASE_PROCESS_STDOUT ?r noMetaData = ex_meta"
    by (simp add: fd_meta_def fdRedirectorTicket_new_def noMetaData_def ex_meta_def DECL_LOG_META_def)
  obtain l0 where l0: "logs (env ex_logger) 0 = Some l0" "em_m (sl_meta l0) = noMetaData" using ex_free_entry by blast
  show ?thesis
    using process_output_to_target [OF ex_logger_parts(1,2) l0 ex_logger_parts(3) _ t, of "[0x61, 0x62, 0x63]" None ex_render "(0, 0)"
        0 "snd (sift ex_filters ex_meta)" 1 "Filter_new 1 4 1" "ex_target TtyTarget" "header_buffer env_new" 0 "footer_buffer env_new" 0]
      ex_target_ready ex_ready(1-3) m by (auto simp: eval_nat_numeral)
qed

section \<open>A line of the kernel log\<close>

lemma klog_drain_routing:
  assumes "pool_inv n gr g" "pos + rest \<le> length mem" "klog_drain k g mem pos rest LEVEL_BEGIN = Some (g', mem')"
  shows "same_routing g g'"
  using assms
proof (induction k arbitrary: g mem pos rest)
  case (Suc k)
  have "pos_ok (mem, pos, rest, LEVEL_BEGIN)" using Suc.prems(2) by (simp add: pos_ok_def)
  from klog.source.round_keeps [OF Suc.prems(1) this] obtain ok s1 g1 where
    r: "pool_round (parse_fill klog_switch) (mem, pos, rest, LEVEL_BEGIN) g = Some (ok, s1, g1)" "pool_inv n gr g1"
    by blast
  obtain m1 p1 r1 st1 where s1: "s1 = (m1, p1, r1, st1)" by (cases s1)
  have c: "circ_inv (internalCmdQueue (env g))" using Suc.prems(1) by (simp add: pool_inv_def)
  note same = pool_round_routing [OF r(1) c]
  show ?case
  proof (cases ok)
    case True
    have "st1 = LEVEL_BEGIN \<and> r1 < rest \<and> p1 + r1 \<le> length m1"
      by (rule klog_round_moves [OF Suc.prems(1) _ Suc.prems(2)]) (use r(1) True s1 in simp)
    then have "same_routing g1 g'" using Suc.IH [OF r(2), of p1 r1 m1] Suc.prems(3) r(1) s1 True
      by (simp add: klog_drain_round del: klog_drain.simps)
    then show ?thesis using same same_routing_trans by blast
  next
    case False
    then show ?thesis using Suc.prems(3) r s1 same by (simp add: klog_drain_round del: klog_drain.simps)
  qed
qed simp

lemma parse_klog_meta:
  assumes "parse_klog sw mem pos rest st l = Some r" "kr_ok r"
  shows "\<exists>v. em_m (sl_meta (kr_entry r)) = (em_m (sl_meta l))\<lparr>m_level := v, m_tag := GREASE_TAG_KERNEL, m_origin := 0\<rparr>"
  using assms by (auto simp: parse_klog_def Let_def bind_eq_Some_conv split: option.splits if_splits prod.splits)

definition kernel_meta :: "nat \<Rightarrow> logMeta \<Rightarrow> logMeta" where
  "kernel_meta d m = m\<lparr>m_level := GREASE_KLOGLEVEL_TO_LEVEL_MAP ! d, m_tag := GREASE_TAG_KERNEL, m_origin := 0\<rparr>"

lemma kernel_entry_meta:
  assumes "parse_single_klog_to_singleLog mem i rest st l = Some r" "kr_ok r" "entry_of d body l (kr_entry r)"
  shows "em_m (sl_meta (kr_entry r)) = kernel_meta d (em_m (sl_meta l))"
  using parse_klog_meta [OF assms(1) [unfolded parse_single_klog_to_singleLog_def] assms(2)] assms(3)
  by (auto simp: kernel_meta_def entry_of_def)

lemma klog_one_line:
  assumes "pool_inv n gr g" "circ_list (masterBufferAvail g) = a # as" "logs (env g) a = Some l0" "cmd_room g 1"
    "msg_ok (d, ts, x, body)" "length body \<le> bufferSize g" "length (klog_line d ts x body) + 1 < length mem"
  shows "\<exists>g' mem' l base. klog_read g mem (klog_line d ts x body) = Some (g', mem') \<and> pool_inv n gr g' \<and> same_routing g g' \<and>
    circ_list (internalCmdQueue (env g')) = circ_list (internalCmdQueue (env g)) @ [new_log_cmd a] \<and>
    logs (env g') a = Some l \<and> em_m (sl_meta l) = kernel_meta d (em_m (sl_meta l0)) \<and>
    hb_used (sl_buf l) = length body \<and> hb_base (sl_buf l) = Some base \<and> take (length body) base = body \<and> length body \<le> length base"
proof -
  let ?t = "klog_line d ts x body" let ?m = "?t @ [0] @ drop (Suc (length ?t)) mem" let ?n = "length ?t"
  have ok: "d < 8" "\<forall>c \<in> set ts. stamp_char c" "x \<noteq> 0x0A" "0x0A \<notin> set body" "body \<noteq> []"
    using assms(5) by (auto simp: msg_ok_def list_all_iff)
  have w: "klog_read g mem ?t = klog_drain (length mem) g ?m 0 (length mem - 1) LEVEL_BEGIN"
    using assms(7) by (simp add: klog_read_def buf_write_def)
  have tx: "at ?m 0 ?t" "at ?m (0 + ?n) [0]" by (simp_all add: at_def)
  from grab_some [OF assms(1,2)] obtain p l where
    g: "grabInLogBuffer g = (GREASE_OK, Some a, g\<lparr>masterBufferAvail := p\<rparr>)" "circ_list p = as"
      "pool_inv n (a # gr) (g\<lparr>masterBufferAvail := p\<rparr>)" "logs (env g) a = Some l" "pool_log (bufferSize g) (Some l)" "a \<notin> set as" by blast
  have l: "l = l0" using g(4) assms(3) by simp
  have pl: "hb_ok (sl_buf l)" "hb_base (sl_buf l) \<noteq> None" "hb_len (sl_buf l) = bufferSize g" using g(5) by (auto simp: pool_log_def)
  have rem: "?n \<le> length mem - 1" using assms(7) by simp
  from parse_line [OF ok(1) tx(1) ok(2-4) pl(1,2) rem] obtain l' where
    ps: "parse_single_klog_to_singleLog ?m 0 (length mem - 1) LEVEL_BEGIN l =
      Some \<lparr>kr_ok = True, kr_remain = length mem - 1 - ?n, kr_state = LEVEL_BEGIN, kr_entry = l',
            kr_moved = 0 + ?n, kr_mem = ?m[0 + 2 := 0]\<rparr>" and l': "entry_of d body l l'" by blast
  have pl': "pool_log (bufferSize g) (Some l')" "0 < hb_used (sl_buf l')"
    using l' pl(3) ok(5) assms(6) by (auto simp: entry_of_def pool_log_def)
  have "cmd_room (g\<lparr>masterBufferAvail := p\<rparr>) (Suc 0)" using assms(4) by (simp add: cmd_room_def)
  from submit_parsed [OF g(3) _ pl'(2) this] pl'(1) obtain g2 l2 where
    g2: "submit_entry (put_entry (g\<lparr>masterBufferAvail := p\<rparr>) a l') a = Some g2" "pool_inv n gr g2"
      "circ_list (internalCmdQueue (env g2)) = circ_list (internalCmdQueue (env g)) @ [new_log_cmd a]"
      "logs (env g2) = (logs (env g))(a \<mapsto> l2)" "sl_buf l2 = sl_buf l'" "sl_meta l2 = sl_meta l'" "masterBufferAvail g2 = p"
    by auto
  have z: "at (?m[0 + 2 := 0]) (0 + ?n) [0]" using tx(2) by (subst at_update) (simp_all add: klog_line_def)
  obtain k' where k: "length mem = Suc k'" "0 < k'" using assms(7) by (cases "length mem") auto
  from drain_end [OF g2(2) z, of "length mem - 1 - ?n" k'] obtain g' m' where
    g': "klog_drain k' g2 (?m[0 + 2 := 0]) (0 + ?n) (length mem - 1 - ?n) LEVEL_BEGIN = Some (g', m')" "pool_inv n gr g'"
      "internalCmdQueue (env g') = internalCmdQueue (env g2)" "\<forall>b. b \<notin> set as \<longrightarrow> logs (env g') b = logs (env g2) b"
    using assms(7) k g2(7) g(2) by auto
  have kd: "klog_drain (length mem) g ?m 0 (length mem - 1) LEVEL_BEGIN = Some (g', m')"
    using k(1) g(1,4) ps g2(1) g'(1) by simp
  have "same_routing g g'" by (rule klog_drain_routing [OF assms(1) _ kd]) (use assms(7) in simp)
  moreover have "logs (env g') a = Some l2" using g'(4) g(6) g2(4) by simp
  moreover have "em_m (sl_meta l2) = kernel_meta d (em_m (sl_meta l0))"
    using kernel_entry_meta [OF ps] l' g2(6) l by simp
  moreover obtain base where b: "hb_used (sl_buf l2) = length body" "hb_base (sl_buf l2) = Some base" "take (length body) base = body"
    using l' g2(5) pl(3) assms(6) by (auto simp: entry_of_def min_def)
  moreover from b(3) have "length body \<le> length base" by (metis length_take min.cobounded1)
  ultimately show ?thesis using w kd g'(2,3) g2(3) by auto
qed

text \<open>C7: What the kernel logs reaches its target. The thread of the kernel sink reads a line of the ring
  buffer; the entry it queues has the level of the line's number and the tag of the kernel, and when
  the logger thread has handled the one command, the text of the line, without level and time
  stamp, stands with header, footer and delimiter at the end of the stream of the one target that
  the filters name for it. Stated as for the output of a process.\<close>

theorem kernel_line_to_target:
  assumes pool: "pool_inv n gr g" "circ_list (masterBufferAvail g) = a # as" "logs (env g) a = Some l0" "em_m (sl_meta l0) = noMetaData"
    and queue: "circ_list (internalCmdQueue (env g)) = []" "1 < csize (internalCmdQueue (env g))"
    and line: "msg_ok (d, ts, x, body)" "length body \<le> bufferSize g" "length (klog_line d ts x body) + 1 < length mem"
    and ready: "target_ready render tm k g (kernel_meta d noMetaData) m i flt t (length body) hdr hn ftr fn"
  shows "\<exists>g1 u mem' g2 t'. klog_step (KlogTimeout [Some (klog_line d ts x body)]) (v, mem, g) = Some (u, mem', g1) \<and>
    handleInternalCmd render tm 1 g1 = Some g2 \<and> find_target g2 i = Some t' \<and>
    stream t' = stream t @ line t hdr hn body (length body) ftr fn \<and> target_inv (env g2) t' \<and> pool_inv n gr g2"
proof -
  have room: "cmd_room g 1" using queue by (simp add: cmd_room_def)
  from klog_one_line [OF pool(1-3) room line] obtain g1 mem' l base where
    f: "klog_read g mem (klog_line d ts x body) = Some (g1, mem')" "pool_inv n gr g1" "same_routing g g1"
      "circ_list (internalCmdQueue (env g1)) = [new_log_cmd a]" "logs (env g1) a = Some l"
      "em_m (sl_meta l) = kernel_meta d noMetaData" "hb_used (sl_buf l) = length body" "hb_base (sl_buf l) = Some base"
      "take (length body) base = body" "length body \<le> length base"
    using queue(1) pool(4) by auto
  have c: "1 < csize (internalCmdQueue (env g1))" using f(3) queue(2) by (simp add: same_routing_def)
  have "target_ready render tm k g1 (kernel_meta d noMetaData) m i flt t (length body) hdr hn ftr fn"
    using ready target_ready_routing [OF f(3)] by simp
  moreover have "0 < length body" using line(1) by (simp add: msg_ok_def)
  ultimately obtain g2 t' where
    g2: "handleInternalCmd render tm 1 g1 = Some g2" "find_target g2 i = Some t'"
      "stream t' = stream t @ line t hdr hn base (length body) ftr fn" "target_inv (env g2) t'" "pool_inv n gr g2"
    using queued_delivered [OF f(4) c f(2,5,6,8,7,10)] by blast
  have ln: "line t hdr hn base (length body) ftr fn = line t hdr hn body (length body) ftr fn"
    by (rule line_take) (use f(9) in simp)
  have "\<exists>u. klog_step (KlogTimeout [Some (klog_line d ts x body)]) (v, mem, g) = Some (u, mem', g1)"
    using f(1) by (simp add: klog_step_def)
  then show ?thesis using g2 ln by auto
qed

text \<open>The example logger with its terminal as the default target: no filter is for the kernel's entries.\<close>

definition ex_klogger :: grease where
  "ex_klogger = ex_logger\<lparr>defaultTarget := Some (ex_target TtyTarget)\<rparr>"

lemma ex_klogger_pool: "pool_inv 2 [] ex_klogger"
proof -
  have "t_overflow (ex_target TtyTarget) = []" by code_simp
  then have "targets_clear 2 ex_klogger"
    using ex_logger_parts(1) by (auto simp: pool_inv_def targets_clear_def t_clear_def ex_klogger_def find_target_def split: if_splits)
  then show ?thesis using ex_logger_parts(1) by (simp add: pool_inv_def ex_klogger_def queued_def)
qed

lemma ex_kernel_ready:
  "target_ready ex_render (0, 0) 0 ex_klogger (kernel_meta 4 noMetaData) (snd (sift ex_filters (kernel_meta 4 noMetaData))) 0
     Filter_empty (ex_target TtyTarget) 3 (header_buffer env_new) 0 (footer_buffer env_new) 0"
proof -
  let ?a = "kernel_meta 4 noMetaData" let ?m = "snd (sift ex_filters ?a)"
  have s1: "fst (sift ex_filters ?a)" by code_simp
  have s2: "chosen ex_filters ?a = []" by code_simp
  have s3: "m_extras ?m = 0" by code_simp
  have s4: "fresh ?a" by (simp add: fresh_def kernel_meta_def noMetaData_def DECL_LOG_META_def META_HAS_CACHE_def)
  have s5: "defaultFilter ex_logger = Filter_empty" by code_simp
  note s = s1 s2 s3 s4 s5
  have k: "env ex_klogger = env ex_logger" "filters ex_klogger = ex_filters" "defaultFilter ex_klogger = Filter_empty"
      "find_target ex_klogger 0 = Some (ex_target TtyTarget)" "defaultTarget ex_klogger \<noteq> None"
    using ex_logger_parts(4) s(5) by (simp_all add: ex_klogger_def find_target_def)
  have "framed ex_render (0, 0) (env ex_logger) (ex_target TtyTarget) ?m Filter_empty (header_buffer env_new) 0 (footer_buffer env_new) 0"
    using arg_cong [OF ex_logger_env, of header_buffer] arg_cong [OF ex_logger_env, of footer_buffer]
      arg_cong [OF ex_logger_env, of levelLabels] arg_cong [OF ex_logger_env, of tagLabels] arg_cong [OF ex_logger_env, of originLabels]
      framed_env [of "env ex_logger" env_new] plain_framed [of Filter_empty TtyTarget ?m] by (simp add: Filter_empty_def)
  moreover have "sift ex_filters ?a = (True, ?m)" using s(1) by (cases "sift ex_filters ?a") simp
  ultimately show ?thesis using s k ex_filters_inv ex_ready ex_ready_env
    by (simp add: target_ready_def recipients_def MAX_IDENTICAL_FILTERS_def)
qed

theorem kernel_line_to_target_witness:
  "\<exists>g1 u mem' g2 t'. klog_step (KlogTimeout [Some (klog_line 4 [0x31, 0x2E, 0x30] 0x20 [0x61, 0x62, 0x63])]) (250000, LMALLOC 32, ex_klogger) =
       Some (u, mem', g1) \<and>
     handleInternalCmd ex_render (0, 0) 1 g1 = Some g2 \<and> find_target g2 0 = Some t' \<and>
     stream t' = stream (ex_target TtyTarget) @ [0x61, 0x62, 0x63, 0x0A]"
proof -
  have ok: "msg_ok (4, [0x31, 0x2E, 0x30], 0x20, [0x61, 0x62, 0x63])" by (simp add: msg_ok_def stamp_char_def isdigit_def)
  have l: "length (klog_line 4 [0x31, 0x2E, 0x30] 0x20 [0x61, 0x62, 0x63]) + 1 < length (LMALLOC 32)"
    by (simp add: klog_line_def LMALLOC_def)
  have k: "env ex_klogger = env ex_logger" "circ_list (masterBufferAvail ex_klogger) = [0, 1]" "bufferSize ex_klogger = bufferSize ex_logger"
    using ex_logger_parts(2) by (simp_all add: ex_klogger_def)
  obtain l0 where l0: "logs (env ex_klogger) 0 = Some l0" "em_m (sl_meta l0) = noMetaData" using ex_free_entry k(1) by auto
  have q: "circ_list (internalCmdQueue (env ex_klogger)) = []" "1 < csize (internalCmdQueue (env ex_klogger))"
    using ex_logger_parts(3) ex_ready(2) k(1) by simp_all
  have r: "target_ready ex_render (0, 0) 0 ex_klogger (kernel_meta 4 noMetaData) (snd (sift ex_filters (kernel_meta 4 noMetaData))) 0
     Filter_empty (ex_target TtyTarget) (length [0x61, 0x62, 0x63 :: u8]) (header_buffer env_new) 0 (footer_buffer env_new) 0"
    using ex_kernel_ready by (simp add: eval_nat_numeral)
  show ?thesis
    using kernel_line_to_target [OF ex_klogger_pool k(2) l0 q ok _ l r, of 250000] ex_ready(1,3) k(3)
    by (auto simp: numeral_3_eq_3 simp del: handleInternalCmd.simps)
qed

section \<open>An entry with a forged cache\<close>

text \<open>Metadata that says that its filters were looked up is passed by every sift as it is, and the
  logger thread follows its pointers.\<close>

lemma forged_dispatch:
  assumes "META_HAS_CACHE (em_m em)" "levelFilterOutMask (filters g) AND m_level (em_m em) = 0"
    "cached_lists (em_m em) = p # ps" "p \<noteq> 0" "fl_heap (filters g) p = None"
  shows "dispatch act em g = None"
  using assms by (simp add: dispatch_def sift_def)

text \<open>C38: A forged datagram. The sink takes the metadata of an entry from the datagram as it is, the cache of
  filter lists included. When a process sends one whose cache is marked as filled and has an
  address that is no filter list, the sink logs the entry, and the logger thread, when it handles the
  command, reads a filter list from that address.\<close>

theorem forged_datagram_undefined:
  assumes meta: "wf_meta m" "m_extras m = 0" "META_HAS_CACHE m" "cached_lists m = p # ps" "p \<noteq> 0"
    and filters: "levelFilterOutMask (filters g) AND m_level m = 0" "fl_heap (filters g) p = None"
    and entry: "txt \<noteq> []" "length txt \<le> bufferSize g" "length txt + 88 \<le> GREASE_MAX_MESSAGE_SIZE"
    and sink: "length temp = GREASE_MAX_MESSAGE_SIZE" "length txt + 88 \<le> rcv"
    and pool: "pool_inv n gr g" "circ_list (masterBufferAvail g) \<noteq> []"
    and queue: "circ_list (internalCmdQueue (env g)) = []" "1 < csize (internalCmdQueue (env g))"
  shows "\<exists>w g1. dgram_receive nfds rcv temp (entry_frame m txt) g = Some (w, g1) \<and> handleInternalCmd render tm 1 g1 = None"
proof -
  have room: "length (circ_list (internalCmdQueue (env g))) < nat (csize (internalCmdQueue (env g)))" using queue by simp
  from log_pooled_puts [OF pool(1) entry(2) order.refl pool(2) room, of "fresh_extra m"] obtain a pl q l old b where
    lp: "log_pooled g (fresh_extra m) txt (length txt) = Some (GREASE_OK, g\<lparr>masterBufferAvail := pl,
         env := (env g)\<lparr>internalCmdQueue := q, logs := (logs (env g))(a \<mapsto> l)\<rparr>\<rparr>)" (is "_ = Some (_, ?g)")
      "circ_inv q" "circ_list q = [new_log_cmd a]" "sl_meta l = stored_meta old (fresh_extra m)"
    using queue(1) by (metis append_Nil)
  have si: "sift (filters g) m = (True, m)" using meta(3) filters(1) by (simp add: sift_def)
  have "logP g (fresh_extra m) txt (length txt) = Some (GREASE_OK, fresh_extra m, ?g)"
    using lp(1) si entry(2,3) by (simp add: logP_def log_internal_def fresh_extra_def)
  moreover have "map_option snd (dgram_receive nfds rcv temp (entry_frame m txt) g) = log_all [(m, txt)] g"
  proof (rule frames_receive [OF sink(1)])
    have "length (entry_frame m txt) = 88 + length txt"
      using length_meta_bytes [OF meta(1)] by (simp add: entry_frame_def sizeof_logMeta_def)
    then show "length (entry_frame m txt) \<le> GREASE_MAX_MESSAGE_SIZE" "length (entry_frame m txt) \<le> rcv" using entry(3) sink(2) by simp_all
  qed (use meta entry(1) in \<open>simp_all add: sendable_def\<close>)
  ultimately obtain w where w: "dgram_receive nfds rcv temp (entry_frame m txt) g = Some (w, ?g)" by auto
  obtain q' where q': "circ_remove q = Some (new_log_cmd a, q')"
    using circ_remove_None_iff [OF lp(2)] circ_remove_abs(2) [OF lp(2)] lp(3) by fastforce
  have em: "em_m (sl_meta l) = m" using lp(4) by (simp add: stored_meta_def fresh_extra_def)
  have "dispatch act (sl_meta l) (?g\<lparr>env := (env ?g)\<lparr>internalCmdQueue := q'\<rparr>\<rparr>) = None" for act
    by (rule forged_dispatch) (use em meta filters in simp_all)
  then have "handleInternalCmd render tm 1 ?g = None"
    using q' by (simp add: handle_cmd_def handle_new_log_def cmdReq_def)
  then show ?thesis using w by blast
qed

theorem forged_datagram_undefined_witness:
  "\<exists>w g1. dgram_receive 5 131072 (replicate GREASE_MAX_MESSAGE_SIZE 0)
       (entry_frame (ex_meta\<lparr>cached_hash := [7, 0, 0], cached_lists := [0xDEAD, 0, 0, 0]\<rparr>) [0x61]) ex_logger = Some (w, g1) \<and>
     handleInternalCmd ex_render (0, 0) 1 g1 = None"
proof (rule forged_datagram_undefined)
  let ?m = "ex_meta\<lparr>cached_hash := [7, 0, 0], cached_lists := [0xDEAD, 0, 0, 0]\<rparr>"
  show "fl_heap (filters ex_logger) 0xDEAD = None" unfolding ex_logger_parts(4) by code_simp
  show "levelFilterOutMask (filters ex_logger) AND m_level ?m = 0" using ex_sift(4) ex_logger_parts(4) by simp
  show "META_HAS_CACHE ?m" by (simp add: META_HAS_CACHE_def no_hash_def)
  show "wf_meta ?m" "m_extras ?m = 0" by (simp_all add: wf_meta_def ex_meta_def DECL_LOG_META_def)
  show "pool_inv 2 [] ex_logger" by (rule ex_logger_parts(1))
qed (use ex_logger_parts(2,3) ex_ready(2,3) in \<open>simp_all add: GREASE_MAX_MESSAGE_SIZE_def\<close>)

end
