(* ===== verification/Khash_Refine.thy ===== *)
theory Khash_Refine
  imports Tw_Khash
begin

text \<open>
  The hash table of \<open>Tw_Khash\<close> implements a finite map. The invariant \<open>kh_ok\<close> says that the bucket
  count is a power of two, that the counters count the flags, that some bucket was never used,
  and that every live entry can be reached: the buckets its key probes before its own have all
  been used. Under the invariant every loop ends, lookup is map lookup, insertion and deletion
  are map update, and the rehash in place keeps the map.
\<close>

unbundle bit_operations_syntax

section \<open>Used and live buckets\<close>

definition occ :: "u32 list \<Rightarrow> u32 \<Rightarrow> nat set" where
  "occ fl n = {i. i < unat n \<and> \<not> fl_empty fl i}"

definition liv :: "u32 list \<Rightarrow> u32 \<Rightarrow> nat set" where
  "liv fl n = {i. i < unat n \<and> \<not> fl_empty fl i \<and> \<not> fl_del fl i}"

lemma liv_occ: "liv fl n \<subseteq> occ fl n"
  by (auto simp: liv_def occ_def)

lemma finite_occ [simp]: "finite (occ fl n)" "finite (liv fl n)"
  by (auto simp: liv_def occ_def)

lemma flag_index:
  assumes "pow_buckets n" "i < unat n"
  shows "i div 16 < unat (ac_fsize n)"
proof -
  from assms(1) obtain p where p: "2 \<le> p" "p < 32" "unat n = 2 ^ p" by (elim pow_bucketsE)
  show ?thesis
  proof (cases "n < 16")
    case True
    then have "i < 16" using assms(2) by (simp add: word_less_nat_alt)
    then show ?thesis using True by (simp add: ac_fsize_def)
  next
    case False
    then have n16: "unat n \<ge> 16" by (simp add: word_less_nat_alt)
    have "4 \<le> p"
    proof (rule ccontr)
      assume "\<not> 4 \<le> p"
      then have "(2 :: nat) ^ p < 2 ^ 4" by (intro power_strict_increasing) simp_all
      then show False using n16 p(3) by simp
    qed
    then have "(2 :: nat) ^ 4 dvd unat n" unfolding p(3) by (rule le_imp_power_dvd)
    then have "i div 16 < unat n div 16" using assms(2) by (auto simp: less_mult_imp_div_less elim!: dvdE)
    moreover have "unat (ac_fsize n) = unat n div 16"
      using False by (simp add: ac_fsize_def drop_bit_eq_div unat_div)
    ultimately show ?thesis by simp
  qed
qed

lemma memset_bits:
  "j < 16 \<Longrightarrow> bit (0xAAAAAAAA :: u32) (2 * j + 1)" "j < 16 \<Longrightarrow> \<not> bit (0xAAAAAAAA :: u32) (2 * j)"
proof -
  have "\<forall>j \<in> set [0..<16]. bit (0xAAAAAAAA :: u32) (2 * j + 1) \<and> \<not> bit (0xAAAAAAAA :: u32) (2 * j)"
    by code_simp
  then show "j < 16 \<Longrightarrow> bit (0xAAAAAAAA :: u32) (2 * j + 1)"
    "j < 16 \<Longrightarrow> \<not> bit (0xAAAAAAAA :: u32) (2 * j)" by auto
qed

lemma memset_flags:
  assumes "pow_buckets n" "i < unat n"
  shows "fl_empty (memset_empty n) i" "\<not> fl_del (memset_empty n) i"
  using flag_index[OF assms] memset_bits[of "i mod 16"]
  by (simp_all add: fl_empty_def fl_del_def memset_empty_def)

lemma memset_occ [simp]:
  assumes "pow_buckets n"
  shows "occ (memset_empty n) n = {}" "liv (memset_empty n) n = {}"
  using memset_flags[OF assms] by (auto simp: occ_def liv_def)

lemma memset_length [simp]: "length (memset_empty n) = unat (ac_fsize n)"
  by (simp add: memset_empty_def)

text \<open>What the three writes of flags do to these sets.\<close>

lemma occ_set:
  assumes "pow_buckets n" "length fl = unat (ac_fsize n)" "unat i < unat n"
  shows "occ (ac_set_isempty_false fl i) n = insert (unat i) (occ fl n)"
    "occ (ac_set_isboth_false fl i) n = insert (unat i) (occ fl n)"
    "occ (ac_set_isdel_true fl i) n = occ fl n"
    "liv (ac_set_isboth_false fl i) n = insert (unat i) (liv fl n)"
    "liv (ac_set_isdel_true fl i) n = liv fl n - {unat i}"
  using flag_index[OF assms(1,3)] assms(2,3)
  by (auto simp: occ_def liv_def flag_simps)

section \<open>What the arrays hold\<close>

text \<open>
  \<open>stores ks vs I hand M\<close>: the buckets \<open>I\<close> of the key and value arrays, together with the element
  in the hand of a running rehash, hold exactly the entries of the map \<open>M\<close>, each once.
\<close>

definition stores ::
  "'k option list \<Rightarrow> 'v option list \<Rightarrow> nat set \<Rightarrow> ('k \<times> 'v option) option \<Rightarrow>
   ('k \<rightharpoonup> 'v option) \<Rightarrow> bool" where
  "stores ks vs I hand M \<longleftrightarrow>
     (\<forall>i\<in>I. ks ! i \<noteq> None) \<and> inj_on ((!) ks) I \<and>
     (\<forall>k c. hand = Some (k, c) \<longrightarrow> (\<forall>i\<in>I. ks ! i \<noteq> Some k)) \<and>
     (\<forall>k c. M k = Some c \<longleftrightarrow> (\<exists>i\<in>I. ks ! i = Some k \<and> vs ! i = c) \<or> hand = Some (k, c))"

lemma storesD:
  assumes "stores ks vs I hand M"
  shows "i \<in> I \<Longrightarrow> ks ! i \<noteq> None" "inj_on ((!) ks) I"
    "hand = Some (k, c) \<Longrightarrow> i \<in> I \<Longrightarrow> ks ! i \<noteq> Some k"
    "M k = Some c \<longleftrightarrow> (\<exists>i\<in>I. ks ! i = Some k \<and> vs ! i = c) \<or> hand = Some (k, c)"
  using assms unfolding stores_def by blast+

lemma stores_unique:
  assumes "stores ks vs I hand M" "stores ks vs I hand M'"
  shows "M = M'"
proof
  fix k
  have "M k = Some c \<longleftrightarrow> M' k = Some c" for c
    using storesD(4)[OF assms(1)] storesD(4)[OF assms(2)] by simp
  then show "M k = M' k" by (metis not_Some_eq)
qed

lemma stores_None:
  assumes "stores ks vs I None M"
  shows "M k = None \<longleftrightarrow> (\<forall>i\<in>I. ks ! i \<noteq> Some k)"
  using storesD(4)[OF assms, of k] by (metis not_Some_eq option.distinct(1))

lemma stores_entry:
  assumes "stores ks vs I None M" "i \<in> I" "ks ! i = Some k"
  shows "M k = Some (vs ! i)"
  using assms(2,3) storesD(4)[OF assms(1), of k "vs ! i"] by auto

text \<open>Taking an element out of a bucket, putting the one in hand down, and exchanging the two.\<close>

lemma stores_take:
  assumes "stores ks vs I None M" "j \<in> I"
  shows "stores ks vs (I - {j}) (Some (the (ks ! j), vs ! j)) M"
proof -
  obtain k where k: "ks ! j = Some k" using storesD(1)[OF assms] by blast
  have o: "ks ! i \<noteq> Some k" if "i \<in> I - {j}" for i
    using that storesD(2)[OF assms(1)] assms(2) k by (metis DiffE inj_onD insertI1)
  have "M l = Some c \<longleftrightarrow> (\<exists>i\<in>I - {j}. ks ! i = Some l \<and> vs ! i = c) \<or> (l = k \<and> vs ! j = c)" for l c
    using storesD(4)[OF assms(1), of l c] assms(2) k by (auto)
  then show ?thesis
    using o storesD(1,2)[OF assms(1)] unfolding stores_def by (auto simp: k inj_on_diff)
qed

lemma stores_put:
  assumes "stores ks vs I (Some (k, c)) M" "i \<notin> I" "i < length ks" "length vs = length ks"
  shows "stores (ks[i := Some k]) (vs[i := c]) (insert i I) None M"
proof -
  have nth: "ks[i := Some k] ! j = ks ! j" "vs[i := c] ! j = vs ! j" if "j \<in> I" for j
    using that assms(2) by (metis nth_list_update_neq)+
  have "inj_on ((!) (ks[i := Some k])) I"
    using storesD(2)[OF assms(1)] nth(1) by (simp add: inj_on_def)
  moreover have "Some k \<notin> (!) (ks[i := Some k]) ` (I - {i})"
    using storesD(3)[OF assms(1) refl] nth(1) by fastforce
  ultimately have "inj_on ((!) (ks[i := Some k])) (insert i I)" using assms(3) by simp
  moreover have "M l = Some d \<longleftrightarrow>
      (\<exists>j\<in>insert i I. ks[i := Some k] ! j = Some l \<and> vs[i := c] ! j = d)" for l d
    using storesD(4)[OF assms(1), of l d] nth assms(3,4) by auto
  ultimately show ?thesis
    using storesD(1)[OF assms(1)] nth assms(3) unfolding stores_def by auto
qed

lemma stores_swap:
  assumes "stores ks vs I (Some (k, c)) M" "i \<in> I" "i < length ks" "length vs = length ks"
  shows "stores (ks[i := Some k]) (vs[i := c]) I (Some (the (ks ! i), vs ! i)) M"
proof -
  obtain l where l: "ks ! i = Some l" using storesD(1)[OF assms(1,2)] by blast
  have lk: "l \<noteq> k" using storesD(3)[OF assms(1) refl assms(2)] l by auto
  have o: "ks ! j \<noteq> Some l" if "j \<in> I" "j \<noteq> i" for j
    using that storesD(2)[OF assms(1)] assms(2) l by (metis inj_onD)
  have "stores ks vs (I - {i}) (Some (k, c)) (M(l := None))"
  proof -
    have "(M(l := None)) m = Some d \<longleftrightarrow>
        (\<exists>j\<in>I - {i}. ks ! j = Some m \<and> vs ! j = d) \<or> Some (k, c) = Some (m, d)" for m d
      using storesD(4)[OF assms(1), of m d] assms(2) l lk o by auto
    then show ?thesis
      using storesD(1-3)[OF assms(1)] unfolding stores_def by (auto simp: inj_on_diff)
  qed
  from stores_put[OF this _ assms(3,4)]
  have h: "stores (ks[i := Some k]) (vs[i := c]) I None (M(l := None))"
    using assms(2) by (simp add: insert_absorb)
  have "M m = Some d \<longleftrightarrow> (M(l := None)) m = Some d \<or> (m = l \<and> d = vs ! i)" for m d
    using storesD(4)[OF assms(1), of m d] assms(2) l lk o by auto
  moreover have "ks[i := Some k] ! j \<noteq> Some l" if "j \<in> I" for j
    using that o lk assms(3) by (cases "j = i") auto
  ultimately show ?thesis
    using storesD[OF h] unfolding stores_def by (auto simp: l)
qed

section \<open>The invariant and the map\<close>

text \<open>Each bucket of \<open>V\<close> is reached by its key over used buckets only.\<close>

definition placed :: "('k \<Rightarrow> u32) \<Rightarrow> u32 \<Rightarrow> nat set \<Rightarrow> nat set \<Rightarrow> 'k option list \<Rightarrow> bool" where
  "placed hf n U V ks \<longleftrightarrow>
     (\<forall>i\<in>V. \<exists>k t. ks ! i = Some k \<and> t < unat n \<and> probe hf n k t = i \<and>
                (\<forall>s<t. probe hf n k s \<in> U))"

lemma placed_mono:
  assumes "placed hf n U V ks" "U \<subseteq> U'" "V' \<subseteq> V"
  shows "placed hf n U' V' ks"
  using assms unfolding placed_def by (meson subsetD)

lemma placed_insert:
  assumes "placed hf n U V ks" "i \<notin> V" "i < length ks" "t < unat n" "probe hf n k t = i"
    "\<forall>s<t. probe hf n k s \<in> U"
  shows "placed hf n (insert i U) (insert i V) (ks[i := Some k])"
proof -
  have "placed hf n (insert i U) V (ks[i := Some k])"
    unfolding placed_def
  proof
    fix j assume j: "j \<in> V"
    then have "ks[i := Some k] ! j = ks ! j" using assms(2) by (metis nth_list_update_neq)
    then show "\<exists>k' t. ks[i := Some k] ! j = Some k' \<and> t < unat n \<and> probe hf n k' t = j \<and>
        (\<forall>s<t. probe hf n k' s \<in> insert i U)"
      using assms(1) j unfolding placed_def by (metis insertCI)
  qed
  then show ?thesis using assms(3-6) unfolding placed_def by auto
qed

definition kh_entries :: "('k, 'v) kh_A_t \<Rightarrow> ('k \<times> 'v option) list" where
  "kh_entries h =
     map (\<lambda>i. (the (kh_keys h ! i), kh_vals h ! i))
       (filter (\<lambda>i. \<not> fl_empty (kh_flags h) i \<and> \<not> fl_del (kh_flags h) i) [0..<unat (n_buckets h)])"

definition kh_map :: "('k, 'v) kh_A_t \<Rightarrow> 'k \<rightharpoonup> 'v option" where
  "kh_map h = map_of (kh_entries h)"

abbreviation kh_used :: "('k, 'v) kh_A_t \<Rightarrow> nat set" where
  "kh_used h \<equiv> occ (kh_flags h) (n_buckets h)"

abbreviation kh_live :: "('k, 'v) kh_A_t \<Rightarrow> nat set" where
  "kh_live h \<equiv> liv (kh_flags h) (n_buckets h)"

definition kh_table :: "('k \<Rightarrow> u32) \<Rightarrow> ('k, 'v) kh_A_t \<Rightarrow> bool" where
  "kh_table hf h \<longleftrightarrow>
     pow_buckets (n_buckets h) \<and>
     length (kh_flags h) = unat (ac_fsize (n_buckets h)) \<and>
     length (kh_keys h) = unat (n_buckets h) \<and> length (kh_vals h) = unat (n_buckets h) \<and>
     upper_bound h = hash_upper (n_buckets h) \<and> n_occupied h \<le> upper_bound h \<and>
     unat (n_occupied h) = card (kh_used h) \<and> unat (kh_size h) = card (kh_live h) \<and>
     placed hf (n_buckets h) (kh_used h) (kh_live h) (kh_keys h) \<and>
     inj_on ((!) (kh_keys h)) (kh_live h)"

definition kh_ok :: "('k \<Rightarrow> u32) \<Rightarrow> ('k, 'v) kh_A_t \<Rightarrow> bool" where
  "kh_ok hf h \<longleftrightarrow> h = kh_init_A \<or> kh_table hf h"

lemma kh_tableD:
  assumes "kh_table hf h"
  shows "pow_buckets (n_buckets h)" "length (kh_flags h) = unat (ac_fsize (n_buckets h))"
    "length (kh_keys h) = unat (n_buckets h)" "length (kh_vals h) = unat (n_buckets h)"
    "upper_bound h = hash_upper (n_buckets h)" "n_occupied h \<le> upper_bound h"
    "unat (n_occupied h) = card (kh_used h)" "unat (kh_size h) = card (kh_live h)"
    "placed hf (n_buckets h) (kh_used h) (kh_live h) (kh_keys h)"
    "inj_on ((!) (kh_keys h)) (kh_live h)"
  using assms unfolding kh_table_def by blast+

lemma kh_map_stores:
  assumes "\<forall>i\<in>kh_live h. kh_keys h ! i \<noteq> None" "inj_on ((!) (kh_keys h)) (kh_live h)"
  shows "stores (kh_keys h) (kh_vals h) (kh_live h) None (kh_map h)"
proof -
  let ?is = "filter (\<lambda>i. \<not> fl_empty (kh_flags h) i \<and> \<not> fl_del (kh_flags h) i) [0..<unat (n_buckets h)]"
  have set: "set ?is = kh_live h" by (auto simp: liv_def)
  have "inj_on (\<lambda>i. the (kh_keys h ! i)) (kh_live h)"
    using assms unfolding inj_on_def by (metis option.exhaust_sel)
  then have d: "distinct (map fst (kh_entries h))"
    unfolding kh_entries_def map_map o_def fst_conv distinct_map set by simp
  have "kh_map h k = Some c \<longleftrightarrow> (k, c) \<in> set (kh_entries h)" for k c
    unfolding kh_map_def by (rule map_of_eq_Some_iff[OF d])
  moreover have "(k, c) \<in> set (kh_entries h) \<longleftrightarrow>
      (\<exists>i\<in>kh_live h. kh_keys h ! i = Some k \<and> kh_vals h ! i = c)" for k c
    using assms(1) unfolding kh_entries_def set_map set image_iff by force
  ultimately show ?thesis using assms unfolding stores_def by simp
qed

lemma kh_table_stores:
  assumes "kh_table hf h"
  shows "stores (kh_keys h) (kh_vals h) (kh_live h) None (kh_map h)"
  using kh_tableD(9,10)[OF assms] by (intro kh_map_stores) (auto simp: placed_def)

lemma kh_map_eqI:
  assumes "stores (kh_keys h) (kh_vals h) (kh_live h) None M"
  shows "kh_map h = M"
  using kh_map_stores[of h] storesD(1,2)[OF assms] stores_unique[OF _ assms] by blast

lemma kh_map_init [simp]: "kh_map kh_init_A = Map.empty"
  by (simp add: kh_map_def kh_entries_def kh_init_A_def)

lemma kh_ok_init [simp]: "kh_ok hf kh_init_A"
  by (simp add: kh_ok_def)

lemma kh_table_unused:
  assumes "kh_table hf h"
  obtains i where "i < unat (n_buckets h)" "i \<notin> kh_used h"
proof -
  have "card (kh_used h) < unat (n_buckets h)"
    using kh_tableD(5-7)[OF assms] unat_hash_upper(2)[OF kh_tableD(1)[OF assms]]
    by (simp add: word_le_nat_alt)
  moreover have "kh_used h \<subseteq> {..<unat (n_buckets h)}" by (auto simp: occ_def)
  ultimately have "kh_used h \<noteq> {..<unat (n_buckets h)}" by auto
  then show ?thesis using that \<open>kh_used h \<subseteq> _\<close> by (auto simp: subset_iff)
qed

section \<open>Probing\<close>

lemma first_probe:
  assumes "pow_buckets n" "i < unat n" "P i"
  obtains t where "t < unat n" "P (probe hf n key t)" "\<And>s. s < t \<Longrightarrow> \<not> P (probe hf n key s)"
proof -
  obtain t where t: "t < unat n" "probe hf n key t = i"
    using probe_surj[OF assms(1), of hf key] assms(2) by (metis imageE lessThan_iff)
  let ?t = "LEAST t. P (probe hf n key t)"
  have "P (probe hf n key ?t)" using assms(3) t(2) by (rule_tac LeastI[of "\<lambda>t. P (probe hf n key t)" t]) simp
  moreover have "?t \<le> t" using assms(3) t(2) by (rule_tac Least_le) simp
  ultimately show ?thesis using that t(1) not_less_Least le_less_trans by blast
qed

text \<open>Where a search for a key stops.\<close>

definition kh_stop :: "('k, 'v) kh_A_t \<Rightarrow> 'k \<Rightarrow> nat \<Rightarrow> bool" where
  "kh_stop h key i \<longleftrightarrow> i \<notin> kh_used h \<or> (i \<in> kh_live h \<and> kh_keys h ! i = Some key)"

lemma kh_stop_test:
  "unat i < unat (n_buckets h) \<Longrightarrow>
   (\<not> ac_isempty (kh_flags h) i \<and> (ac_isdel (kh_flags h) i \<or> kh_keys h ! unat i \<noteq> Some key)) =
   (\<not> kh_stop h key (unat i))"
  by (auto simp: kh_stop_def flag_simps occ_def liv_def)

lemma kh_get_loop_run:
  assumes n: "pow_buckets n" "n = n_buckets h"
    and t: "t < unat n" "kh_stop h key (probe hf n key t)"
    and before: "\<And>s. s < t \<Longrightarrow> \<not> kh_stop h key (probe hf n key s)"
    and last: "unat lst = probe hf n key 0"
  shows "s \<le> t \<Longrightarrow> unat i = probe hf n key s \<Longrightarrow>
    kh_get_loop h key (n - 1) (ac_inc (hf key) (n - 1)) lst i =
    Some (if probe hf n key t \<in> kh_live h then word_of_nat (probe hf n key t) else n)"
proof (induction "t - s" arbitrary: s i)
  case 0
  then have st: "s = t" "unat i < unat n" using probe_less[OF n(1)] by simp_all
  have "word_of_nat (unat i) = i" by simp
  then have "i = word_of_nat (probe hf n key t)" using 0(3) st(1) by simp
  moreover have "\<not> ac_iseither (kh_flags h) i \<longleftrightarrow> probe hf n key t \<in> kh_live h"
    using st 0(3) n(2) by (auto simp: flag_simps liv_def)
  ultimately show ?case
    using st t(2) 0(3) kh_stop_test[of i h key] n(2) by (subst kh_get_loop.simps) auto
next
  case (Suc m)
  let ?i = "(i + ac_inc (hf key) (n - 1)) AND (n - 1)"
  have s: "s < t" using Suc(2) by simp
  have i: "unat ?i = probe hf n key (Suc s)" using probe_next[OF n(1) Suc(4)] .
  have "unat ?i \<noteq> unat lst"
    unfolding i last using probe_inj[OF n(1), of hf key] s t(1) by (auto dest!: inj_onD)
  then have "?i \<noteq> lst" by auto
  moreover have "\<not> kh_stop h key (unat i)" "unat i < unat n"
    using before[OF s] Suc(4) probe_less[OF n(1)] by simp_all
  ultimately show ?case
    using Suc(1)[of "Suc s" ?i] Suc(2) s i kh_stop_test[of i h key] n(2)
    by (subst kh_get_loop.simps) (simp add: Let_def)
qed

text \<open>\<open>kh_at h key x c\<close>: the live bucket \<open>x\<close> holds the key with the value cell \<open>c\<close>.\<close>

definition kh_at :: "('k, 'v) kh_A_t \<Rightarrow> 'k \<Rightarrow> u32 \<Rightarrow> 'v option \<Rightarrow> bool" where
  "kh_at h key x c \<longleftrightarrow>
     unat x \<in> kh_live h \<and> kh_keys h ! unat x = Some key \<and> kh_vals h ! unat x = c"

lemma kh_at_not_end: "kh_at h key x c \<Longrightarrow> x \<noteq> n_buckets h"
  by (auto simp: kh_at_def liv_def)

lemma kh_stop_found:
  assumes ok: "kh_table hf h" and t: "t < unat (n_buckets h)"
    and stop: "kh_stop h key (probe hf (n_buckets h) key t)"
    and before: "\<And>s. s < t \<Longrightarrow> \<not> kh_stop h key (probe hf (n_buckets h) key s)"
  shows "kh_map h key = Some c \<Longrightarrow>
      kh_at h key (word_of_nat (probe hf (n_buckets h) key t)) c"
    and "kh_map h key = None \<Longrightarrow> probe hf (n_buckets h) key t \<notin> kh_used h"
proof -
  let ?p = "probe hf (n_buckets h) key"
  note stores = kh_table_stores[OF ok]
  have unat: "unat (word_of_nat (?p t) :: u32) = ?p t"
    using probe_less[OF kh_tableD(1)[OF ok], of hf key t] unsigned_less[of "n_buckets h", where 'a = nat]
    unfolding unsigned_of_nat take_bit_eq_mod by simp
  show "kh_map h key = None \<Longrightarrow> ?p t \<notin> kh_used h"
    using stop stores_None[OF stores, of key] unfolding kh_stop_def by blast
  assume "kh_map h key = Some c"
  then obtain i where i: "i \<in> kh_live h" "kh_keys h ! i = Some key" "kh_vals h ! i = c"
    using storesD(4)[OF stores, of key c] by auto
  then obtain t' where t': "?p t' = i" "\<forall>s<t'. ?p s \<in> kh_used h"
    using kh_tableD(9)[OF ok] unfolding placed_def by fastforce
  have "t \<le> t'" using before[of t'] t'(1) i(1,2) unfolding kh_stop_def by (meson not_le)
  moreover have "t = t'" if "\<not> (?p t \<in> kh_live h \<and> kh_keys h ! ?p t = Some key)"
    using that stop t'(2) \<open>t \<le> t'\<close> unfolding kh_stop_def by (meson le_neq_implies_less)
  ultimately have "?p t = i"
    using t'(1) i(1,2) kh_tableD(10)[OF ok] by (metis inj_onD)
  then show "kh_at h key (word_of_nat (?p t)) c" using i unat by (simp add: kh_at_def)
qed

lemma kh_first_stop:
  assumes "kh_table hf h"
  obtains t where "t < unat (n_buckets h)" "kh_stop h key (probe hf (n_buckets h) key t)"
    "\<And>s. s < t \<Longrightarrow> \<not> kh_stop h key (probe hf (n_buckets h) key s)"
proof -
  obtain i where "i < unat (n_buckets h)" "i \<notin> kh_used h" using kh_table_unused[OF assms] .
  then show ?thesis
    using first_probe[OF kh_tableD(1)[OF assms], of i "kh_stop h key" hf key] that
    by (auto simp: kh_stop_def)
qed

lemma kh_get_table:
  assumes "kh_table hf h"
  shows "\<exists>x. kh_get_A hf h key = Some x \<and>
    (case kh_map h key of None \<Rightarrow> x = n_buckets h | Some c \<Rightarrow> kh_at h key x c)"
proof -
  let ?n = "n_buckets h"
  obtain t where t: "t < unat ?n" "kh_stop h key (probe hf ?n key t)"
    "\<And>s. s < t \<Longrightarrow> \<not> kh_stop h key (probe hf ?n key s)"
    using kh_first_stop[OF assms, of key] by blast
  note n = kh_tableD(1)[OF assms]
  have "?n \<noteq> 0" using n by (elim pow_bucketsE) auto
  then have get: "kh_get_A hf h key =
      Some (if probe hf ?n key t \<in> kh_live h then word_of_nat (probe hf ?n key t) else ?n)"
    using kh_get_loop_run[OF n refl t probe_start[OF n] le0 probe_start[OF n]]
    by (simp add: kh_get_A_def Let_def)
  show ?thesis
  proof (cases "kh_map h key")
    case None
    then have "probe hf ?n key t \<notin> kh_live h"
      using kh_stop_found(2)[OF assms t] liv_occ by blast
    then show ?thesis using get None by simp
  next
    case (Some c)
    then have at: "kh_at h key (word_of_nat (probe hf ?n key t)) c"
      using kh_stop_found(1)[OF assms t] by blast
    have "probe hf ?n key t \<in> kh_live h"
      using t(2) stores_None[OF kh_table_stores[OF assms], of key] at Some probe_less[OF n, of hf key t]
        unsigned_less[of ?n, where 'a = nat]
      unfolding kh_at_def unsigned_of_nat take_bit_eq_mod by simp
    then show ?thesis using get Some at by simp
  qed
qed

lemma kh_get_A_spec:
  assumes "kh_ok hf h"
  obtains x where "kh_get_A hf h key = Some x"
    "kh_map h key = None \<Longrightarrow> x = n_buckets h" "\<And>c. kh_map h key = Some c \<Longrightarrow> kh_at h key x c"
proof (cases "h = kh_init_A")
  case True
  then show ?thesis using that[of 0] by (simp add: kh_get_A_def kh_init_A_def kh_map_def kh_entries_def)
next
  case False
  then have "kh_table hf h" using assms by (simp add: kh_ok_def)
  from kh_get_table[OF this, of key] show ?thesis using that by (auto split: option.splits)
qed

section \<open>Insertion without a resize\<close>

lemma unat_probe_word:
  assumes "pow_buckets n"
  shows "unat (word_of_nat (probe hf n key t) :: u32) = probe hf n key t"
  using probe_less[OF assms, of hf key t] unsigned_less[of n, where 'a = nat]
  unfolding unsigned_of_nat take_bit_eq_mod by simp

lemma kh_put_loop_run:
  assumes n: "pow_buckets n" "n = n_buckets h"
    and t: "t < unat n" "kh_stop h key (probe hf n key t)"
    and before: "\<And>s. s < t \<Longrightarrow> \<not> kh_stop h key (probe hf n key s)"
    and last: "unat lst = probe hf n key 0"
  shows "s \<le> t \<Longrightarrow> unat i = probe hf n key s \<Longrightarrow>
    \<exists>site'. kh_put_loop h key (n - 1) (ac_inc (hf key) (n - 1)) lst i site x =
      Some (word_of_nat (probe hf n key t), site', x) \<and>
      (site' = site \<or>
       (\<exists>q<t. site' = word_of_nat (probe hf n key q) \<and> probe hf n key q \<notin> kh_live h))"
proof (induction "t - s" arbitrary: s i site)
  case 0
  then have st: "s = t" "unat i < unat n" using probe_less[OF n(1)] by simp_all
  have "word_of_nat (unat i) = i" by simp
  then have "i = word_of_nat (probe hf n key t)" using 0(3) st(1) by simp
  then show ?case
    using st t(2) 0(3) kh_stop_test[of i h key] n(2) by (subst kh_put_loop.simps) auto
next
  case (Suc m)
  let ?i = "(i + ac_inc (hf key) (n - 1)) AND (n - 1)"
  let ?site = "if ac_isdel (kh_flags h) i then i else site"
  have s: "s < t" using Suc(2) by simp
  have i: "unat ?i = probe hf n key (Suc s)" using probe_next[OF n(1) Suc(4)] .
  have "unat ?i \<noteq> unat lst"
    unfolding i last using probe_inj[OF n(1), of hf key] s t(1) by (auto dest!: inj_onD)
  then have "?i \<noteq> lst" by auto
  moreover have "\<not> kh_stop h key (unat i)" "unat i < unat n"
    using before[OF s] Suc(4) probe_less[OF n(1)] by simp_all
  ultimately have step: "kh_put_loop h key (n - 1) (ac_inc (hf key) (n - 1)) lst i site x =
      kh_put_loop h key (n - 1) (ac_inc (hf key) (n - 1)) lst ?i ?site x"
    using kh_stop_test[of i h key] n(2) by (subst kh_put_loop.simps) (simp add: Let_def)
  have "word_of_nat (unat i) = i" by simp
  then have "?site = site \<or> (?site = word_of_nat (probe hf n key s) \<and> probe hf n key s \<notin> kh_live h)"
    using Suc(4) by (auto simp: flag_simps liv_def)
  moreover have "m = t - Suc s" "Suc s \<le> t" using Suc(2) s by simp_all
  ultimately show ?case
    unfolding step using Suc(1)[OF _ _ i, of ?site] s by metis
qed

text \<open>A bucket where a missing key can go: not live, and reached over used buckets.\<close>

definition kh_site :: "('k \<Rightarrow> u32) \<Rightarrow> ('k, 'v) kh_A_t \<Rightarrow> 'k \<Rightarrow> u32 \<Rightarrow> bool" where
  "kh_site hf h key x \<longleftrightarrow>
     unat x \<notin> kh_live h \<and>
     (\<exists>t<unat (n_buckets h). probe hf (n_buckets h) key t = unat x \<and>
        (\<forall>s<t. probe hf (n_buckets h) key s \<in> kh_used h))"

lemma kh_empty_test: "unat w < unat (n_buckets h) \<Longrightarrow> ac_isempty (kh_flags h) w \<longleftrightarrow> unat w \<notin> kh_used h"
  by (simp add: flag_simps occ_def)

text \<open>The bucket \<^verbatim>\<open>kh_put_A\<close> takes: where the probe stops, or a deleted one it passed before.\<close>

lemma kh_put_site_run:
  fixes hf :: "'k \<Rightarrow> u32" and h :: "('k, 'v) kh_A_t" and key
  defines "p \<equiv> probe hf (n_buckets h) key"
  assumes ok: "kh_table hf h" and t: "t < unat (n_buckets h)" "kh_stop h key (p t)"
    "\<And>s. s < t \<Longrightarrow> \<not> kh_stop h key (p s)"
  obtains q where "kh_put_site hf h key = Some (word_of_nat (p q))"
    "q = t \<or> q < t \<and> p t \<notin> kh_used h \<and> p q \<notin> kh_live h"
proof -
  let ?n = "n_buckets h"
  note n = kh_tableD(1)[OF ok]
  let ?i = "hf key AND (?n - 1)"
  have i: "unat ?i = p 0" unfolding p_def by (rule probe_start[OF n])
  note less = probe_less[OF n, of hf key, folded p_def] and uw = unat_probe_word[OF n, of hf key, folded p_def]
  have "word_of_nat (unat ?i) = ?i" by simp
  then have wi: "?i = word_of_nat (p 0)" using i by simp
  show thesis
  proof (cases "p 0 \<in> kh_used h")
    case False
    then have "kh_stop h key (p 0)" by (simp add: kh_stop_def)
    then have "t = 0" using t(3)[of 0] by auto
    moreover have "kh_put_site hf h key = Some ?i"
      using False kh_empty_test[of ?i h] i less[of 0] by (simp add: kh_put_site_def Let_def)
    ultimately show thesis using that[of 0] wi by simp
  next
    case True
    obtain site where run: "kh_put_loop h key (?n - 1) (ac_inc (hf key) (?n - 1)) ?i ?i ?n ?n =
        Some (word_of_nat (p t), site, ?n)"
      and site: "site = ?n \<or> (\<exists>q<t. site = word_of_nat (p q) \<and> p q \<notin> kh_live h)"
      using kh_put_loop_run[OF n refl t(1) t(2)[unfolded p_def] _ i[unfolded p_def] le0 i[unfolded p_def], of ?n ?n]
        t(3) unfolding p_def by blast
    have "kh_put_site hf h key =
        Some (if p t \<notin> kh_used h \<and> site \<noteq> ?n then site else word_of_nat (p t))"
      using True run kh_empty_test[of ?i h] kh_empty_test[of "word_of_nat (p t)" h] uw[of t] i
        less[of 0] less[of t]
      by (simp add: kh_put_site_def Let_def)
    then show thesis using that site by (auto split: if_splits)
  qed
qed

lemma kh_put_site_spec:
  assumes "kh_table hf h"
  obtains x where "kh_put_site hf h key = Some x"
    "kh_map h key = None \<Longrightarrow> kh_site hf h key x" "\<And>c. kh_map h key = Some c \<Longrightarrow> kh_at h key x c"
proof -
  let ?p = "probe hf (n_buckets h) key"
  note uw = unat_probe_word[OF kh_tableD(1)[OF assms], of hf key]
  obtain t where t: "t < unat (n_buckets h)" "kh_stop h key (?p t)"
    "\<And>s. s < t \<Longrightarrow> \<not> kh_stop h key (?p s)"
    using kh_first_stop[OF assms, of key] by blast
  have used: "\<forall>s<t. ?p s \<in> kh_used h" using t(3) unfolding kh_stop_def by blast
  obtain q where q: "kh_put_site hf h key = Some (word_of_nat (?p q))"
    "q = t \<or> q < t \<and> ?p t \<notin> kh_used h \<and> ?p q \<notin> kh_live h"
    using kh_put_site_run[OF assms t(1,2)] t(3) by blast
  have "kh_site hf h key (word_of_nat (?p q))" if "kh_map h key = None"
  proof -
    have "?p t \<notin> kh_used h" using kh_stop_found(2)[OF assms t(1,2) _ that] t(3) by blast
    then have "?p q \<notin> kh_live h" using q(2) liv_occ by blast
    moreover have "q < unat (n_buckets h)" "\<forall>s<q. ?p s \<in> kh_used h" using q(2) t(1) used by auto
    ultimately show ?thesis unfolding kh_site_def uw by blast
  qed
  moreover have "kh_at h key (word_of_nat (?p q)) c" if "kh_map h key = Some c" for c
  proof -
    have at: "kh_at h key (word_of_nat (?p t)) c"
      using kh_stop_found(1)[OF assms t(1,2) _ that] t(3) by blast
    then have "?p t \<in> kh_used h" using uw liv_occ unfolding kh_at_def by auto
    then show ?thesis using q(2) at by auto
  qed
  ultimately show thesis using q(1) by (rule_tac that) auto
qed

lemma stores_hand:
  assumes "stores ks vs I None M" "M k = None"
  shows "stores ks vs I (Some (k, c)) (M(k \<mapsto> c))"
proof -
  have "ks ! i \<noteq> Some k" if "i \<in> I" for i using stores_None[OF assms(1)] assms(2) that by blast
  then show ?thesis using storesD[OF assms(1)] unfolding stores_def by auto
qed

lemma stores_delete:
  assumes "stores ks vs I None M" "i \<in> I" "ks ! i = Some k"
  shows "stores ks vs (I - {i}) None (M(k := None))"
proof -
  have o: "ks ! j \<noteq> Some k" if "j \<in> I - {i}" for j
    using that storesD(2)[OF assms(1)] assms(2,3) by (metis DiffE inj_onD insertI1)
  have "(M(k := None)) l = Some c \<longleftrightarrow> (\<exists>j\<in>I - {i}. ks ! j = Some l \<and> vs ! j = c)" for l c
    using storesD(4)[OF assms(1), of l c] assms(2,3) o by auto
  then show ?thesis using storesD(1,2)[OF assms(1)] unfolding stores_def by (auto simp: inj_on_diff)
qed

lemma stores_value:
  assumes "stores ks vs I None M" "i \<in> I" "ks ! i = Some k" "i < length vs"
  shows "stores ks (vs[i := c]) I None (M(k \<mapsto> c))"
proof -
  have o: "j = i" if "j \<in> I" "ks ! j = Some k" for j
    using that storesD(2)[OF assms(1)] assms(2,3) by (metis inj_onD)
  have "(M(k \<mapsto> c)) l = Some d \<longleftrightarrow> (\<exists>j\<in>I. ks ! j = Some l \<and> vs[i := c] ! j = d)" for l d
  proof (cases "l = k")
    case True
    have "(\<exists>j\<in>I. ks ! j = Some k \<and> vs[i := c] ! j = d) \<longleftrightarrow> vs[i := c] ! i = d"
      using o assms(2,3) by blast
    then show ?thesis using True assms(4) by simp
  next
    case False
    then have "vs[i := c] ! j = vs ! j" if "ks ! j = Some l" for j
      using that assms(3) by (cases "j = i") auto
    then show ?thesis using False storesD(4)[OF assms(1), of l d] by auto
  qed
  then show ?thesis using storesD(1,2)[OF assms(1)] unfolding stores_def by auto
qed

lemma kh_put_at_present:
  assumes "kh_at h key x c"
  shows "kh_put_at h key x = (0, h)"
  using assms by (auto simp: kh_put_at_def kh_at_def liv_def flag_simps)

text \<open>\<^verbatim>\<open>kh_put_A\<close> on a missing key, where the counters say that there is room.\<close>

lemma kh_put_at_new:
  assumes ok: "kh_table hf h" and none: "kh_map h key = None" and site: "kh_site hf h key x"
    and room: "n_occupied h < upper_bound h"
  obtains r h' where "kh_put_at h key x = (r, h')" "r \<noteq> 0" "kh_table hf h'"
    "kh_at h' key x (kh_vals h ! unat x)" "kh_map h' = (kh_map h)(key \<mapsto> kh_vals h ! unat x)"
    "kh_size h' = kh_size h + 1"
proof -
  let ?n = "n_buckets h"
  let ?r = "if unat x \<in> kh_used h then 2 else 1 :: int"
  let ?h = "h\<lparr>kh_keys := (kh_keys h)[unat x := Some key],
              kh_flags := ac_set_isboth_false (kh_flags h) x, kh_size := kh_size h + 1,
              n_occupied := n_occupied h + (if unat x \<in> kh_used h then 0 else 1)\<rparr>"
  note n = kh_tableD(1)[OF ok]
  obtain t where t: "t < unat ?n" "probe hf ?n key t = unat x" "\<forall>s<t. probe hf ?n key s \<in> kh_used h"
    and dead: "unat x \<notin> kh_live h"
    using site unfolding kh_site_def by blast
  have x: "unat x < unat ?n" using probe_less[OF n] t(2) by metis
  have flags: "ac_isempty (kh_flags h) x \<longleftrightarrow> unat x \<notin> kh_used h"
    "unat x \<in> kh_used h \<Longrightarrow> ac_isdel (kh_flags h) x"
    using x dead by (auto simp: flag_simps occ_def liv_def)
  have put: "kh_put_at h key x = (?r, ?h)" using flags by (simp add: kh_put_at_def)
  have sets: "kh_used ?h = insert (unat x) (kh_used h)" "kh_live ?h = insert (unat x) (kh_live h)"
    using occ_set(2,4)[OF n kh_tableD(2)[OF ok] x] by simp_all
  have "stores ((kh_keys h)[unat x := Some key]) ((kh_vals h)[unat x := kh_vals h ! unat x])
      (insert (unat x) (kh_live h)) None ((kh_map h)(key \<mapsto> kh_vals h ! unat x))"
    using stores_hand[OF kh_table_stores[OF ok] none] dead x kh_tableD(3,4)[OF ok]
    by (intro stores_put) auto
  then have stores: "stores (kh_keys ?h) (kh_vals ?h) (kh_live ?h) None
      ((kh_map h)(key \<mapsto> kh_vals h ! unat x))"
    unfolding sets by simp
  have card: "card (insert (unat x) (kh_live h)) = Suc (card (kh_live h))" using dead by simp
  have "card (kh_live ?h) \<le> card {..<unat ?n}" unfolding sets using x
    by (intro card_mono) (auto simp: liv_def)
  then have "unat (kh_size h) < unat ?n" using card kh_tableD(8)[OF ok] sets(2) by simp
  then have size: "unat (kh_size h + 1) = Suc (unat (kh_size h))"
    using unsigned_less[of ?n, where 'a = nat] by (simp add: unat_word_ariths)
  have occup: "unat (n_occupied ?h) = card (kh_used ?h)" "n_occupied ?h \<le> upper_bound ?h"
    using room kh_tableD(7)[OF ok] unsigned_less[of "upper_bound h", where 'a = nat] unfolding sets
    by (auto simp: word_less_nat_alt word_le_nat_alt unat_word_ariths insert_absorb)
  have "placed hf ?n (insert (unat x) (kh_used h)) (insert (unat x) (kh_live h))
      ((kh_keys h)[unat x := Some key])"
    using dead x t kh_tableD(3,9)[OF ok] by (intro placed_insert) auto
  then have "kh_table hf ?h"
    using kh_tableD[OF ok] occup storesD(2)[OF stores] card size sets unfolding kh_table_def by simp
  moreover have "kh_at ?h key x (kh_vals h ! unat x)"
    using sets x kh_tableD(3)[OF ok] unfolding kh_at_def by simp
  ultimately show ?thesis using that[OF put] kh_map_eqI[OF stores] by simp
qed

section \<open>Deletion and clearing\<close>

lemma kh_del_A_spec:
  assumes ok: "kh_table hf h" and at: "kh_at h key x c"
  shows "kh_table hf (kh_del_A h x)" "kh_map (kh_del_A h x) = (kh_map h)(key := None)"
    "unat (kh_size (kh_del_A h x)) = unat (kh_size h) - 1"
proof -
  let ?n = "n_buckets h"
  let ?h = "h\<lparr>kh_flags := ac_set_isdel_true (kh_flags h) x, kh_size := kh_size h - 1\<rparr>"
  note n = kh_tableD(1)[OF ok]
  have x: "unat x \<in> kh_live h" "kh_keys h ! unat x = Some key" "unat x < unat ?n"
    using at by (auto simp: kh_at_def liv_def)
  have del: "kh_del_A h x = ?h"
    using x(1,3) by (auto simp: kh_del_A_def flag_simps liv_def)
  have sets: "kh_used ?h = kh_used h" "kh_live ?h = kh_live h - {unat x}"
    using occ_set(3,5)[OF n kh_tableD(2)[OF ok] x(3)] by simp_all
  have stores: "stores (kh_keys ?h) (kh_vals ?h) (kh_live ?h) None ((kh_map h)(key := None))"
    unfolding sets using stores_delete[OF kh_table_stores[OF ok] x(1,2)] by simp
  have card: "card (kh_live h - {unat x}) = card (kh_live h) - 1" "card (kh_live h) \<noteq> 0"
    using x(1) by (auto simp: card_gt_0_iff)
  then have "Suc 0 \<le> card (kh_live h)" by linarith
  then have size: "unat (kh_size h - 1) = unat (kh_size h) - 1"
    using kh_tableD(8)[OF ok] unat_sub[of 1 "kh_size h"] by (simp add: word_le_nat_alt)
  have "placed hf ?n (kh_used h) (kh_live h - {unat x}) (kh_keys h)"
    using kh_tableD(9)[OF ok] by (rule placed_mono) auto
  then show "kh_table hf (kh_del_A h x)"
    using kh_tableD[OF ok] storesD(2)[OF stores] card size sets unfolding kh_table_def del by simp
  show "kh_map (kh_del_A h x) = (kh_map h)(key := None)"
    unfolding del by (rule kh_map_eqI[OF stores])
  show "unat (kh_size (kh_del_A h x)) = unat (kh_size h) - 1"
    using size by (simp add: del)
qed

lemma kh_clear_A_spec:
  assumes "kh_ok hf h"
  shows "kh_ok hf (kh_clear_A h)" "kh_map (kh_clear_A h) = Map.empty" "kh_size (kh_clear_A h) = 0"
proof -
  have "kh_ok hf (kh_clear_A h) \<and> kh_map (kh_clear_A h) = Map.empty \<and> kh_size (kh_clear_A h) = 0"
  proof (cases "h = kh_init_A")
    case True
    have "kh_clear_A h = kh_init_A" unfolding True by (simp add: kh_clear_A_def kh_init_A_def)
    moreover have "kh_size kh_init_A = 0" by (simp add: kh_init_A_def)
    ultimately show ?thesis by simp
  next
    case False
    then have ok: "kh_table hf h" using assms by (simp add: kh_ok_def)
    note n = kh_tableD(1)[OF ok]
    let ?h = "h\<lparr>kh_flags := memset_empty (n_buckets h), kh_size := 0, n_occupied := 0\<rparr>"
    have "4 \<le> unat (n_buckets h)" using n by (rule pow_bucketsE)
    then have "kh_flags h \<noteq> []" using kh_tableD(2)[OF ok] flag_index[OF n, of 0] by auto
    then have clear: "kh_clear_A h = ?h" by (simp add: kh_clear_A_def)
    have sets: "kh_used ?h = {}" "kh_live ?h = {}" using memset_occ[OF n] by simp_all
    have "stores (kh_keys ?h) (kh_vals ?h) (kh_live ?h) None Map.empty"
      unfolding sets by (simp add: stores_def)
    then have "kh_map ?h = Map.empty" by (rule kh_map_eqI)
    moreover have "kh_table hf ?h"
      using kh_tableD(1-5)[OF ok] sets by (simp add: kh_table_def placed_def word_le_nat_alt)
    ultimately show ?thesis using clear by (simp add: kh_ok_def)
  qed
  then show "kh_ok hf (kh_clear_A h)" "kh_map (kh_clear_A h) = Map.empty"
    "kh_size (kh_clear_A h) = 0" by blast+
qed

end
