(* ===== verification/Khash_Resize.thy ===== *)
theory Khash_Resize
  imports Khash_Refine
begin

text \<open>
  The rehash of \<^verbatim>\<open>kh_resize_A\<close>, done in place: the elements of the old layout that are not moved yet
  and those of the new layout share the key and value arrays, told apart by two flag arrays. The
  kick-out loop takes one element in hand, puts it where the new layout wants it and goes on with
  the element it displaced, if any. The invariant says that the two layouts never overlap and
  that nothing is lost; the number of elements not moved yet bounds the loop.
\<close>

unbundle bit_operations_syntax

section \<open>One element\<close>

lemma kh_free_loop_run:
  assumes n: "pow_buckets n" and t: "t < unat n" "probe hf n key t \<notin> occ G n"
    and before: "\<And>s. s < t \<Longrightarrow> probe hf n key s \<in> occ G n"
  shows "s \<le> t \<Longrightarrow> unat i = probe hf n key s \<Longrightarrow>
    kh_free_loop G (n - 1) (ac_inc (hf key) (n - 1)) i = Some (word_of_nat (probe hf n key t))"
proof (induction "t - s" arbitrary: s i)
  case 0
  then have st: "s = t" "unat i < unat n" using probe_less[OF n] by simp_all
  have "word_of_nat (unat i) = i" by simp
  then have "i = word_of_nat (probe hf n key t)" using 0(3) st(1) by simp
  moreover have "ac_isempty G i" using st t(2) 0(3) by (simp add: flag_simps occ_def)
  ultimately show ?case by (subst kh_free_loop.simps) simp
next
  case (Suc m)
  let ?i = "(i + ac_inc (hf key) (n - 1)) AND (n - 1)"
  have s: "s < t" using Suc(2) by simp
  have i: "unat ?i = probe hf n key (Suc s)" using probe_next[OF n Suc(4)] .
  have "\<not> ac_isempty G i" using before[OF s] Suc(4) by (simp add: flag_simps occ_def)
  then show ?case
    using Suc(1)[of "Suc s" ?i] Suc(2) s i by (subst kh_free_loop.simps) simp
qed

text \<open>The search of a free bucket ends when the new layout is not full.\<close>

lemma kh_free_loop_spec:
  assumes n: "pow_buckets n" and room: "card (occ G n) < unat n"
  obtains i t where
    "kh_free_loop G (n - 1) (ac_inc (hf key) (n - 1)) (hf key AND (n - 1)) = Some i"
    "unat i < unat n" "unat i \<notin> occ G n" "t < unat n" "probe hf n key t = unat i"
    "\<forall>s<t. probe hf n key s \<in> occ G n"
proof -
  have "occ G n \<subseteq> {..<unat n}" by (auto simp: occ_def)
  moreover have "occ G n \<noteq> {..<unat n}" using room by (metis card_lessThan less_irrefl)
  ultimately have "\<exists>e. e < unat n \<and> e \<notin> occ G n" by (auto simp: subset_iff)
  then obtain e where e: "e < unat n" "e \<notin> occ G n" by blast
  obtain t where t: "t < unat n" "probe hf n key t \<notin> occ G n"
    and before: "\<And>s. s < t \<Longrightarrow> \<not> probe hf n key s \<notin> occ G n"
    by (rule first_probe[where P = "\<lambda>i. i \<notin> occ G n" and hf = hf and key = key, OF n e])
      (rule that, assumption, assumption, simp)
  have "kh_free_loop G (n - 1) (ac_inc (hf key) (n - 1)) (hf key AND (n - 1)) =
      Some (word_of_nat (probe hf n key t))"
    using kh_free_loop_run[OF n t _ le0 probe_start[OF n]] before by blast
  then show ?thesis
    using that[of "word_of_nat (probe hf n key t)" t] t before unat_probe_word[OF n, of hf key t] probe_less[OF n, of hf key t]
    by simp
qed

section \<open>The kick-out loop\<close>

text \<open>\<open>F\<close> and \<open>G\<close> are the flags of the old layout of \<open>nb\<close> and the new layout of \<open>nn\<close> buckets.\<close>

definition rehash_inv ::
  "('k \<Rightarrow> u32) \<Rightarrow> u32 \<Rightarrow> u32 \<Rightarrow> nat \<Rightarrow> ('k \<rightharpoonup> 'v option) \<Rightarrow> u32 list \<Rightarrow> u32 list \<Rightarrow>
   'k option list \<Rightarrow> 'v option list \<Rightarrow> ('k \<times> 'v option) option \<Rightarrow> bool" where
  "rehash_inv hf nb nn sz M F G ks vs hand \<longleftrightarrow>
     length F = unat (ac_fsize nb) \<and> length G = unat (ac_fsize nn) \<and>
     length ks = max (unat nb) (unat nn) \<and> length vs = length ks \<and>
     (\<forall>i<unat nn. \<not> fl_del G i) \<and> liv F nb \<inter> occ G nn = {} \<and>
     stores ks vs (liv F nb \<union> occ G nn) hand M \<and>
     placed hf nn (occ G nn) (occ G nn) ks \<and>
     card (liv F nb \<union> occ G nn) + (if hand = None then 0 else 1) = sz"

lemma rehash_invD:
  assumes "rehash_inv hf nb nn sz M F G ks vs hand"
  shows "length F = unat (ac_fsize nb)" "length G = unat (ac_fsize nn)"
    "length ks = max (unat nb) (unat nn)" "length vs = length ks"
    "i < unat nn \<Longrightarrow> \<not> fl_del G i" "liv F nb \<inter> occ G nn = {}"
    "stores ks vs (liv F nb \<union> occ G nn) hand M" "placed hf nn (occ G nn) (occ G nn) ks"
    "card (liv F nb \<union> occ G nn) + (if hand = None then 0 else 1) = sz"
  using assms unfolding rehash_inv_def by blast+

text \<open>The element in hand goes to a bucket of the old layout whose element is not moved yet.\<close>

lemma rehash_kick:
  assumes pow: "pow_buckets nb" "pow_buckets nn"
    and inv: "rehash_inv hf nb nn sz M F G ks vs (Some (k, c))"
    and i: "unat i < unat nn" "unat i \<notin> occ G nn" "unat i \<in> liv F nb"
    and t: "t < unat nn" "probe hf nn k t = unat i" "\<forall>s<t. probe hf nn k s \<in> occ G nn"
  shows "rehash_inv hf nb nn sz M (ac_set_isdel_true F i) (ac_set_isempty_false G i)
    (ks[unat i := Some k]) (vs[unat i := c]) (Some (the (ks ! unat i), vs ! unat i))"
proof -
  note D = rehash_invD[OF inv]
  have nb: "unat i < unat nb" using i(3) by (simp add: liv_def)
  have sets: "liv (ac_set_isdel_true F i) nb = liv F nb - {unat i}"
    "occ (ac_set_isempty_false G i) nn = insert (unat i) (occ G nn)"
    using occ_set(5)[OF pow(1) D(1) nb] occ_set(1)[OF pow(2) D(2) i(1)] .
  have union: "(liv F nb - {unat i}) \<union> insert (unat i) (occ G nn) = liv F nb \<union> occ G nn"
    using i(3) by auto
  have "stores (ks[unat i := Some k]) (vs[unat i := c]) (liv F nb \<union> occ G nn)
      (Some (the (ks ! unat i), vs ! unat i)) M"
    using D(3,4,7) i by (intro stores_swap) auto
  moreover have "placed hf nn (insert (unat i) (occ G nn)) (insert (unat i) (occ G nn))
      (ks[unat i := Some k])"
    using D(3,8) i t by (intro placed_insert) auto
  moreover have "fl_del (ac_set_isempty_false G i) j = fl_del G j" for j
    using fl_set(2) flag_index[OF pow(2) i(1)] D(2) by simp
  ultimately show ?thesis
    using D i(3) unfolding rehash_inv_def sets union by auto
qed

text \<open>The element in hand goes to a bucket that holds nothing to be kept.\<close>

lemma rehash_drop:
  assumes pow: "pow_buckets nn"
    and inv: "rehash_inv hf nb nn sz M F G ks vs (Some (k, c))"
    and i: "unat i < unat nn" "unat i \<notin> occ G nn" "unat i \<notin> liv F nb"
    and t: "t < unat nn" "probe hf nn k t = unat i" "\<forall>s<t. probe hf nn k s \<in> occ G nn"
  shows "rehash_inv hf nb nn sz M F (ac_set_isempty_false G i)
    (ks[unat i := Some k]) (vs[unat i := c]) None"
proof -
  note D = rehash_invD[OF inv]
  have sets: "occ (ac_set_isempty_false G i) nn = insert (unat i) (occ G nn)"
    using occ_set(1)[OF pow D(2) i(1)] .
  have "stores (ks[unat i := Some k]) (vs[unat i := c])
      (insert (unat i) (liv F nb \<union> occ G nn)) None M"
    using D(3,4,7) i by (intro stores_put) auto
  moreover have "placed hf nn (insert (unat i) (occ G nn)) (insert (unat i) (occ G nn))
      (ks[unat i := Some k])"
    using D(3,8) i t by (intro placed_insert) auto
  moreover have "fl_del (ac_set_isempty_false G i) j = fl_del G j" for j
    using fl_set(2) flag_index[OF pow i(1)] D(2) by simp
  ultimately show ?thesis
    using D i(2,3) unfolding rehash_inv_def sets by auto
qed

lemma kh_kick_loop_spec:
  assumes pow: "pow_buckets nb" "pow_buckets nn" and room: "sz < unat nn"
  shows "rehash_inv hf nb nn sz M F G ks vs (Some (k, c)) \<Longrightarrow>
    \<exists>F' G' ks' vs'. kh_kick_loop hf nb (nn - 1) F G ks vs (Some k) c = Some (F', G', ks', vs') \<and>
      rehash_inv hf nb nn sz M F' G' ks' vs' None \<and> liv F' nb \<subseteq> liv F nb"
proof (induction "card (liv F nb)" arbitrary: F G ks vs k c rule: less_induct)
  case less
  note D = rehash_invD[OF less(2)]
  have "card (occ G nn) \<le> card (liv F nb \<union> occ G nn)" by (intro card_mono) auto
  then have "card (occ G nn) < unat nn" using D(9) room by simp
  then obtain i t where
    free: "kh_free_loop G (nn - 1) (ac_inc (hf k) (nn - 1)) (hf k AND (nn - 1)) = Some i"
    and i: "unat i < unat nn" "unat i \<notin> occ G nn"
    and t: "t < unat nn" "probe hf nn k t = unat i" "\<forall>s<t. probe hf nn k s \<in> occ G nn"
    by (rule kh_free_loop_spec[OF pow(2)])
  let ?G = "ac_set_isempty_false G i"
  have test: "i < nb \<and> \<not> ac_iseither F i \<longleftrightarrow> unat i \<in> liv F nb"
    by (auto simp: word_less_nat_alt flag_simps liv_def)
  show ?case
  proof (cases "unat i \<in> liv F nb")
    case True
    let ?F = "ac_set_isdel_true F i"
    obtain l where l: "ks ! unat i = Some l" using storesD(1)[OF D(7)] True by blast
    have inv: "rehash_inv hf nb nn sz M ?F ?G (ks[unat i := Some k]) (vs[unat i := c])
        (Some (l, vs ! unat i))"
      using rehash_kick[OF pow less(2) i True t] l by simp
    have sub: "liv ?F nb = liv F nb - {unat i}"
      using True occ_set(5)[OF pow(1) D(1)] by (simp add: liv_def)
    then have "card (liv ?F nb) < card (liv F nb)" using True by (metis card_Diff1_less finite_occ(2))
    from less(1)[OF this inv] sub
    show ?thesis using free test True l by (subst kh_kick_loop.simps) (auto simp: Let_def)
  next
    case False
    then show ?thesis
      using rehash_drop[OF pow(2) less(2) i False t] free test
      by (subst kh_kick_loop.simps) (auto simp: Let_def)
  qed
qed

section \<open>All elements\<close>

lemma kh_rehash_spec:
  assumes pow: "pow_buckets nb" "pow_buckets nn" and room: "sz < unat nn"
  shows "rehash_inv hf nb nn sz M F G ks vs None \<Longrightarrow> liv F nb \<subseteq> unat ` set js \<Longrightarrow>
    \<forall>j\<in>set js. unat j < unat nb \<Longrightarrow>
    \<exists>F' G' ks' vs'. kh_rehash hf nb (nn - 1) js (F, G, ks, vs) = Some (F', G', ks', vs') \<and>
      rehash_inv hf nb nn sz M F' G' ks' vs' None \<and> liv F' nb = {}"
proof (induction js arbitrary: F G ks vs)
  case Nil
  then show ?case by simp
next
  case (Cons j js)
  note D = rehash_invD[OF Cons(2)]
  have j: "unat j < unat nb" using Cons(4) by simp
  show ?case
  proof (cases "unat j \<in> liv F nb")
    case True
    let ?F = "ac_set_isdel_true F j"
    have sub: "liv ?F nb = liv F nb - {unat j}" using occ_set(5)[OF pow(1) D(1) j] .
    have notin: "unat j \<notin> occ G nn" using True D(6) by blast
    then have diff: "(liv F nb - {unat j}) \<union> occ G nn = (liv F nb \<union> occ G nn) - {unat j}" by auto
    obtain l where l: "ks ! unat j = Some l" using storesD(1)[OF D(7)] True by blast
    have "stores ks vs ((liv F nb \<union> occ G nn) - {unat j}) (Some (l, vs ! unat j)) M"
      using stores_take[OF D(7), of "unat j"] True l by simp
    moreover have "card (liv F nb \<union> occ G nn - {unat j}) + 1 = sz"
      using D(9) True card_Suc_Diff1[of "liv F nb \<union> occ G nn" "unat j"] by simp
    ultimately have "rehash_inv hf nb nn sz M ?F G ks vs (Some (l, vs ! unat j))"
      using D unfolding rehash_inv_def sub diff by auto
    from kh_kick_loop_spec[OF pow room this]
    obtain F' G' ks' vs' where
      kick: "kh_kick_loop hf nb (nn - 1) ?F G ks vs (Some l) (vs ! unat j) = Some (F', G', ks', vs')"
      and inv: "rehash_inv hf nb nn sz M F' G' ks' vs' None" and less: "liv F' nb \<subseteq> liv ?F nb"
      by blast
    have "liv F' nb \<subseteq> unat ` set js" using less sub Cons(3) by auto
    from Cons(1)[OF inv this] show ?thesis
      using Cons(4) True kick l by (auto simp: flag_simps liv_def)
  next
    case False
    then have "liv F nb \<subseteq> unat ` set js" using Cons(3) by auto
    from Cons(1)[OF Cons(2) this] show ?thesis
      using Cons(4) False j by (auto simp: flag_simps liv_def)
  qed
qed

lemma rehash_inv_start:
  assumes ok: "kh_table hf h" and pow: "pow_buckets nn"
    and ks: "length ks = max (unat (n_buckets h)) (unat nn)" "length vs = length ks"
    and same: "\<And>i. i < unat (n_buckets h) \<Longrightarrow> ks ! i = kh_keys h ! i \<and> vs ! i = kh_vals h ! i"
  shows "rehash_inv hf (n_buckets h) nn (unat (kh_size h)) (kh_map h) (kh_flags h)
    (memset_empty nn) ks vs None"
proof -
  have "i < unat (n_buckets h)" if "i \<in> kh_live h" for i using that by (simp add: liv_def)
  then have "stores ks vs (kh_live h) None (kh_map h)"
    using kh_table_stores[OF ok] same unfolding stores_def by (simp add: inj_on_def cong: bex_cong ball_cong)
  then show ?thesis
    using kh_tableD[OF ok] ks memset_occ[OF pow] memset_flags(2)[OF pow]
    unfolding rehash_inv_def by (simp add: placed_def)
qed

text \<open>When every element has moved, the new layout is a well-formed table with the same map.\<close>

lemma rehash_inv_done:
  assumes pow: "pow_buckets nn" and inv: "rehash_inv hf nb nn sz M F G ks vs None"
    and all: "liv F nb = {}" and sz: "unat cnt = sz" "cnt < hash_upper nn"
    and h: "h = \<lparr>n_buckets = nn, kh_size = cnt, n_occupied = cnt, upper_bound = hash_upper nn,
                kh_flags = G, kh_keys = take (unat nn) ks, kh_vals = take (unat nn) vs\<rparr>"
  shows "kh_table hf h" "kh_map h = M"
proof -
  note D = rehash_invD[OF inv]
  have occ: "liv G nn = occ G nn" using D(5) by (auto simp: liv_def occ_def)
  have less: "i < unat nn" if "i \<in> occ G nn" for i using that by (simp add: occ_def)
  have stores: "stores (take (unat nn) ks) (take (unat nn) vs) (occ G nn) None M"
    using D(7) less unfolding stores_def all by (simp add: inj_on_def cong: bex_cong ball_cong)
  have "placed hf nn (occ G nn) (occ G nn) (take (unat nn) ks)"
    using D(8) less unfolding placed_def by simp
  then show "kh_table hf h"
    using pow D(2,3,4,9) occ all storesD(2)[OF stores] sz unfolding h kh_table_def by simp
  show "kh_map h = M" using stores occ by (intro kh_map_eqI) (simp add: h)
qed

section \<open>kh\_resize\_A\<close>

lemma kh_realloc_length: "length (kh_realloc xs n) = n"
  by (simp add: kh_realloc_def)

lemma realloc_cut:
  "length zs = max (unat nb) (unat nn) \<Longrightarrow>
   (if nn < nb then kh_realloc zs (unat nn) else zs) = take (unat nn) zs"
  by (simp add: kh_realloc_def word_less_nat_alt max_def)

lemma kh_resize_refused:
  "kh_size h \<ge> hash_upper (new_buckets x) \<Longrightarrow> kh_resize_A hf h x = Some h"
  by (simp add: kh_resize_A_def Let_def)

lemma kh_resize_init:
  "\<exists>h'. kh_resize_A hf kh_init_A x = Some h' \<and> kh_table hf h' \<and> kh_map h' = Map.empty \<and>
    kh_size h' = 0 \<and> n_occupied h' = 0 \<and> n_buckets h' = new_buckets x"
proof -
  define nn where "nn = new_buckets x"
  have pow: "pow_buckets nn" unfolding nn_def by (rule pow_new_buckets)
  let ?h = "\<lparr>n_buckets = nn, kh_size = 0, n_occupied = 0, upper_bound = hash_upper nn,
    kh_flags = memset_empty nn, kh_keys = replicate (unat nn) None,
    kh_vals = replicate (unat nn) None\<rparr>"
  have up: "hash_upper nn \<noteq> 0" using unat_hash_upper(3)[OF pow] by auto
  have nn: "0 < nn" using pow by (elim pow_bucketsE) (simp add: word_less_nat_alt)
  have "kh_resize_A hf kh_init_A x = Some ?h"
    unfolding kh_resize_A_def Let_def nn_def[symmetric]
    using up nn by (simp add: kh_init_A_def kh_realloc_def not_le)
  moreover have sets: "kh_live ?h = {}" "kh_used ?h = {}" using memset_occ[OF pow] by simp_all
  moreover have "kh_table hf ?h" using pow sets by (simp add: kh_table_def placed_def)
  moreover have "kh_map ?h = Map.empty"
    using sets by (intro kh_map_eqI) (simp add: stores_def)
  ultimately show ?thesis unfolding nn_def by auto
qed

lemma kh_resize_table:
  assumes ok: "kh_table hf h" and fits: "kh_size h < hash_upper (new_buckets x)"
  shows "\<exists>h'. kh_resize_A hf h x = Some h' \<and> kh_table hf h' \<and> kh_map h' = kh_map h \<and>
    kh_size h' = kh_size h \<and> n_occupied h' = kh_size h \<and> n_buckets h' = new_buckets x"
proof -
  define nn where "nn = new_buckets x"
  let ?nb = "n_buckets h"
  have pow: "pow_buckets ?nb" "pow_buckets nn"
    using kh_tableD(1)[OF ok] pow_new_buckets unfolding nn_def .
  define ks where "ks = (if ?nb < nn then kh_realloc (kh_keys h) (unat nn) else kh_keys h)"
  define vs where "vs = (if ?nb < nn then kh_realloc (kh_vals h) (unat nn) else kh_vals h)"
  have len: "length ks = max (unat ?nb) (unat nn)" "length vs = length ks"
    using kh_tableD(3,4)[OF ok]
    by (auto simp: ks_def vs_def kh_realloc_length word_less_nat_alt max_def)
  have same: "ks ! i = kh_keys h ! i \<and> vs ! i = kh_vals h ! i" if "i < unat ?nb" for i
    using that kh_tableD(3,4)[OF ok]
    by (auto simp: ks_def vs_def kh_realloc_def nth_append word_less_nat_alt)
  have inv: "rehash_inv hf ?nb nn (unat (kh_size h)) (kh_map h) (kh_flags h)
      (memset_empty nn) ks vs None"
    by (rule rehash_inv_start[OF ok pow(2) len same])
  let ?js = "map word_of_nat [0..<unat ?nb] :: u32 list"
  have js: "unat (word_of_nat i :: u32) = i" if "i < unat ?nb" for i
    using that unsigned_less[of ?nb, where 'a = nat] unfolding unsigned_of_nat take_bit_eq_mod by simp
  have "unat (kh_size h) < unat nn"
    using fits unat_hash_upper(2)[OF pow(2)] by (simp add: nn_def word_less_nat_alt)
  moreover have "kh_live h \<subseteq> unat ` set ?js"
    using js by (force simp: liv_def)
  moreover have "\<forall>j\<in>set ?js. unat j < unat ?nb" using js by auto
  ultimately obtain F G ks' vs' where
    run: "kh_rehash hf ?nb (nn - 1) ?js (kh_flags h, memset_empty nn, ks, vs) = Some (F, G, ks', vs')"
    and fin: "rehash_inv hf ?nb nn (unat (kh_size h)) (kh_map h) F G ks' vs' None" "liv F ?nb = {}"
    using kh_rehash_spec[OF pow _ inv, of ?js] by blast
  let ?h = "\<lparr>n_buckets = nn, kh_size = kh_size h, n_occupied = kh_size h,
    upper_bound = hash_upper nn, kh_flags = G, kh_keys = take (unat nn) ks',
    kh_vals = take (unat nn) vs'\<rparr>"
  have "kh_resize_A hf h x = Some ?h"
    using run fits realloc_cut[of ks' ?nb nn] realloc_cut[of vs' ?nb nn] rehash_invD(3,4)[OF fin(1)]
    unfolding kh_resize_A_def Let_def nn_def[symmetric] ks_def vs_def by (simp add: not_le)
  then show ?thesis
    using rehash_inv_done[OF pow(2) fin refl _ refl] fits unfolding nn_def by simp
qed

section \<open>kh\_put\_A\<close>

text \<open>
  The table grows by doubling and only when it is at least half full, so with at most
  \<open>2 ^ 29\<close> entries the bucket count stays below the 32-bit limit.
\<close>

lemma kh_live_used: "kh_table hf h \<Longrightarrow> unat (kh_size h) \<le> unat (n_occupied h)"
  using kh_tableD(7,8)[of hf h] liv_occ by (metis card_mono finite_occ(1))

text \<open>The two resizes that \<^verbatim>\<open>kh_put_A\<close> asks for are never refused.\<close>

lemma put_resize_fits:
  assumes ok: "kh_table hf h" and lim: "unat (kh_size h) \<le> 2 ^ 29"
  shows "push_bit 1 (kh_size h) < n_buckets h \<Longrightarrow>
      kh_size h < hash_upper (new_buckets (n_buckets h - 1))"
    and "n_buckets h \<le> push_bit 1 (kh_size h) \<Longrightarrow>
      kh_size h < hash_upper (new_buckets (n_buckets h + 1))"
proof -
  note pow = kh_tableD(1)[OF ok]
  have n: "4 \<le> unat (n_buckets h)" using pow by (rule pow_bucketsE)
  have dbl: "unat (push_bit 1 (kh_size h)) = 2 * unat (kh_size h)"
    using lim by (simp add: push_bit_eq_mult unat_word_ariths)
  show "kh_size h < hash_upper (new_buckets (n_buckets h - 1))"
    if "push_bit 1 (kh_size h) < n_buckets h"
  proof -
    have "2 * unat (kh_size h) < unat (n_buckets h)" using that dbl by (simp add: word_less_nat_alt)
    then have "unat (kh_size h) < unat (hash_upper (n_buckets h))"
      using n unfolding unat_hash_upper(1)[OF pow] by linarith
    then show ?thesis unfolding new_buckets_same[OF pow] by (simp only: word_less_nat_alt)
  qed
  show "kh_size h < hash_upper (new_buckets (n_buckets h + 1))"
    if "n_buckets h \<le> push_bit 1 (kh_size h)"
  proof -
    have "unat (n_buckets h) \<le> 2 * unat (kh_size h)" using that dbl by (simp add: word_le_nat_alt)
    then have "unat (n_buckets h) < 2 ^ 31" using lim by simp
    note two = new_buckets_double[OF pow this]
    have "pow_buckets (2 * n_buckets h)" using pow_new_buckets[of "n_buckets h + 1"] unfolding two(1) .
    note up = unat_hash_upper(1)[OF this]
    have "unat (kh_size h) < unat (n_buckets h)"
      using kh_live_used[OF ok] kh_tableD(5,6)[OF ok] unat_hash_upper(2)[OF pow]
      by (simp add: word_le_nat_alt)
    then have "unat (kh_size h) < unat (hash_upper (2 * n_buckets h))"
      unfolding up two(2) by linarith
    then show ?thesis unfolding two(1) by (simp only: word_less_nat_alt)
  qed
qed

lemma put_resize_init:
  "\<exists>h'. kh_put_resize hf (kh_init_A :: ('k, 'v) kh_A_t) = Some h' \<and> kh_table hf h' \<and>
    kh_map h' = Map.empty \<and> kh_size h' = 0 \<and> n_occupied h' < upper_bound h'"
proof -
  obtain h' :: "('k, 'v) kh_A_t" where h': "kh_resize_A hf kh_init_A 1 = Some h'" "kh_table hf h'"
    "kh_map h' = Map.empty" "kh_size h' = 0" "n_occupied h' = 0"
    using kh_resize_init by blast
  moreover have "n_occupied h' < upper_bound h'"
    using h'(5) kh_tableD(1,5)[OF h'(2)] unat_hash_upper(3)[of "n_buckets h'"]
    by (simp add: word_less_nat_alt)
  moreover have "kh_put_resize hf kh_init_A = kh_resize_A hf (kh_init_A :: ('k, 'v) kh_A_t) 1"
    by (simp add: kh_put_resize_def kh_init_A_def)
  ultimately show ?thesis by simp
qed

lemma kh_put_resize_spec:
  assumes ok: "kh_ok hf h" and lim: "unat (kh_size h) \<le> 2 ^ 29"
  obtains h' where "kh_put_resize hf h = Some h'" "kh_table hf h'" "kh_map h' = kh_map h"
    "kh_size h' = kh_size h" "n_occupied h' < upper_bound h'"
proof -
  note result = that
  consider (init) "h = kh_init_A" | (room) "kh_table hf h" "n_occupied h < upper_bound h"
    | (full) "kh_table hf h" "upper_bound h \<le> n_occupied h"
    using ok unfolding kh_ok_def by (meson not_le)
  then show thesis
  proof cases
    case init
    obtain h' where "kh_put_resize hf h = Some h'" "kh_table hf h'" "kh_map h' = Map.empty"
      "kh_size h' = 0" "n_occupied h' < upper_bound h'"
      unfolding init using put_resize_init by blast
    moreover have "kh_size h = 0" unfolding init by (simp add: kh_init_A_def)
    moreover have "kh_map h = Map.empty" unfolding init by simp
    ultimately show thesis using result by simp
  next
    case room
    then show thesis by (intro result[of h]) (auto simp: kh_put_resize_def)
  next
    case full
    let ?x = "if push_bit 1 (kh_size h) < n_buckets h then n_buckets h - 1 else n_buckets h + 1"
    have "kh_put_resize hf h = kh_resize_A hf h ?x" using full(2) by (simp add: kh_put_resize_def)
    moreover have "kh_size h < hash_upper (new_buckets ?x)"
      using put_resize_fits[OF full(1) lim] by (cases "push_bit 1 (kh_size h) < n_buckets h") auto
    ultimately obtain x where x: "kh_put_resize hf h = kh_resize_A hf h x"
        "kh_size h < hash_upper (new_buckets x)" by blast
    from kh_resize_table[OF full(1) x(2)] obtain h' where h': "kh_resize_A hf h x = Some h'"
      "kh_table hf h'" "kh_map h' = kh_map h" "kh_size h' = kh_size h" "n_occupied h' = kh_size h"
      "n_buckets h' = new_buckets x" by blast
    then have "n_occupied h' < upper_bound h'" using x(2) kh_tableD(5)[OF h'(2)] by simp
    then show thesis using result x(1) h' by simp
  qed
qed

lemma kh_put_A_spec:
  assumes ok: "kh_ok hf h" and lim: "unat (kh_size h) \<le> 2 ^ 29"
  obtains x r h' c where "kh_put_A hf h key = Some (x, r, h')" "kh_table hf h'" "kh_at h' key x c"
    "kh_map h key = None \<Longrightarrow>
       r \<noteq> 0 \<and> kh_map h' = (kh_map h)(key \<mapsto> c) \<and> kh_size h' = kh_size h + 1"
    "kh_map h key \<noteq> None \<Longrightarrow> r = 0 \<and> kh_map h' = kh_map h \<and> kh_size h' = kh_size h"
proof -
  obtain g where g: "kh_put_resize hf h = Some g" "kh_table hf g" "kh_map g = kh_map h"
    "kh_size g = kh_size h" "n_occupied g < upper_bound g"
    by (rule kh_put_resize_spec[OF ok lim])
  obtain x where x: "kh_put_site hf g key = Some x"
    "kh_map g key = None \<Longrightarrow> kh_site hf g key x" "\<And>c. kh_map g key = Some c \<Longrightarrow> kh_at g key x c"
    using kh_put_site_spec[OF g(2), of key] by blast
  show thesis
  proof (cases "kh_map g key")
    case None
    obtain r h' where "kh_put_at g key x = (r, h')" "r \<noteq> 0" "kh_table hf h'"
      "kh_at h' key x (kh_vals g ! unat x)" "kh_map h' = (kh_map g)(key \<mapsto> kh_vals g ! unat x)"
      "kh_size h' = kh_size g + 1"
      by (rule kh_put_at_new[OF g(2) None x(2)[OF None] g(5)])
    then show thesis using that None g x(1) by (simp add: kh_put_A_def)
  next
    case (Some c)
    then show thesis
      using that[of x 0 g c] kh_put_at_present[OF x(3)[OF Some]] x(3)[OF Some] g x(1)
      by (simp add: kh_put_A_def)
  qed
qed

end
