(* ===== verification/Table_Contract.thy ===== *)
theory Table_Contract
  imports Grease_Prelude
begin

text \<open>
  What the logger expects of its tables of targets, filters, sinks, labels and redirections: a
  finite map with the calls \<^verbatim>\<open>addReplace\<close>, \<^verbatim>\<open>addNoreplace\<close>, \<^verbatim>\<open>remove\<close>, \<^verbatim>\<open>find\<close>, \<^verbatim>\<open>removeAll\<close> and
  \<^verbatim>\<open>size\<close>. The contract is a locale; its client theorem says that any history of calls gets the
  answers a map gives. The table may refuse to work past \<open>lim\<close> entries, and a call that would
  not return is \<open>None\<close>.
\<close>

datatype ('k, 'd) table_call =
    AddReplace 'k 'd
  | AddNoreplace 'k 'd
  | Remove 'k
  | Find 'k
  | RemoveAll
  | Size

datatype 'd table_answer =
    Answer bool
  | Found "'d option"
  | Count int

fun map_step :: "('k \<rightharpoonup> 'd) \<Rightarrow> ('k, 'd) table_call \<Rightarrow> 'd table_answer \<times> ('k \<rightharpoonup> 'd)" where
  "map_step m (AddReplace k d) = (Answer True, m(k \<mapsto> d))"
| "map_step m (AddNoreplace k d) =
     (if m k = None then (Answer True, m(k \<mapsto> d)) else (Answer False, m))"
| "map_step m (Remove k) = (Answer (m k \<noteq> None), m(k := None))"
| "map_step m (Find k) = (Found (m k), m)"
| "map_step m RemoveAll = (Answer True, Map.empty)"
| "map_step m Size = (Count (int (card (dom m))), m)"

section \<open>Histories of calls\<close>

text \<open>A history on the specification, which always answers, and on an implementation, which may not.\<close>

primrec spec_run :: "('m \<Rightarrow> 'c \<Rightarrow> 'a \<times> 'm) \<Rightarrow> 'm \<Rightarrow> 'c list \<Rightarrow> 'a list \<times> 'm" where
  "spec_run spec m [] = ([], m)"
| "spec_run spec m (c # cs) =
     (case spec m c of (a, m) \<Rightarrow> case spec_run spec m cs of (as, m) \<Rightarrow> (a # as, m))"

primrec call_run ::
  "('t \<Rightarrow> 'c \<Rightarrow> ('a \<times> 't) option) \<Rightarrow> 't \<Rightarrow> 'c list \<Rightarrow> ('a list \<times> 't) option" where
  "call_run step t [] = Some ([], t)"
| "call_run step t (c # cs) =
     Option.bind (step t c) (\<lambda>(a, t). Option.bind (call_run step t cs) (\<lambda>(as, t). Some (a # as, t)))"

text \<open>
  A simulation with a budget: while \<open>R (Suc n)\<close> relates the two states, a call returns, gives the
  answer of the specification and leaves states that \<open>R n\<close> relates.
\<close>

locale simulation =
  fixes R :: "nat \<Rightarrow> 't \<Rightarrow> 'm \<Rightarrow> bool"
    and step :: "'t \<Rightarrow> 'c \<Rightarrow> ('a \<times> 't) option"
    and spec :: "'m \<Rightarrow> 'c \<Rightarrow> 'a \<times> 'm"
  assumes sim: "R (Suc n) t m \<Longrightarrow>
    \<exists>t'. step t c = Some (fst (spec m c), t') \<and> R n t' (snd (spec m c))"
begin

lemma run_simulated:
  "R (n + length cs) t m \<Longrightarrow>
   \<exists>t'. call_run step t cs = Some (fst (spec_run spec m cs), t') \<and> R n t' (snd (spec_run spec m cs))"
proof (induction cs arbitrary: t m)
  case (Cons c cs)
  then have "R (Suc (n + length cs)) t m" by simp
  from sim[OF this, of c] obtain t1 where t1: "step t c = Some (fst (spec m c), t1)"
    "R (n + length cs) t1 (snd (spec m c))" by blast
  from Cons(1)[OF t1(2)] show ?case using t1(1) by (auto simp: case_prod_beta)
qed simp

end

section \<open>The contract of a table\<close>

definition map_run ::
  "('k \<rightharpoonup> 'd) \<Rightarrow> ('k, 'd) table_call list \<Rightarrow> 'd table_answer list \<times> ('k \<rightharpoonup> 'd)" where
  "map_run = spec_run map_step"

definition table_step ::
  "('t \<Rightarrow> 'k \<Rightarrow> 'd \<Rightarrow> (bool \<times> 't) option) \<Rightarrow> ('t \<Rightarrow> 'k \<Rightarrow> 'd \<Rightarrow> (bool \<times> 't) option) \<Rightarrow>
   ('t \<Rightarrow> 'k \<Rightarrow> (bool \<times> 't) option) \<Rightarrow> ('t \<Rightarrow> 'k \<Rightarrow> 'd option option) \<Rightarrow> ('t \<Rightarrow> bool \<times> 't) \<Rightarrow>
   ('t \<Rightarrow> int) \<Rightarrow> 't \<Rightarrow> ('k, 'd) table_call \<Rightarrow> ('d table_answer \<times> 't) option" where
  "table_step add addno del get clear cnt t c =
     (case c of
        AddReplace k d \<Rightarrow> map_option (\<lambda>(r, t). (Answer r, t)) (add t k d)
      | AddNoreplace k d \<Rightarrow> map_option (\<lambda>(r, t). (Answer r, t)) (addno t k d)
      | Remove k \<Rightarrow> map_option (\<lambda>(r, t). (Answer r, t)) (del t k)
      | Find k \<Rightarrow> map_option (\<lambda>r. (Found r, t)) (get t k)
      | RemoveAll \<Rightarrow> (case clear t of (r, t) \<Rightarrow> Some (Answer r, t))
      | Size \<Rightarrow> Some (Count (cnt t), t))"

locale map_table =
  fixes inv :: "'t \<Rightarrow> bool"
    and abs :: "'t \<Rightarrow> 'k \<rightharpoonup> 'd"
    and add :: "'t \<Rightarrow> 'k \<Rightarrow> 'd \<Rightarrow> (bool \<times> 't) option"
    and addno :: "'t \<Rightarrow> 'k \<Rightarrow> 'd \<Rightarrow> (bool \<times> 't) option"
    and del :: "'t \<Rightarrow> 'k \<Rightarrow> (bool \<times> 't) option"
    and get :: "'t \<Rightarrow> 'k \<Rightarrow> 'd option option"
    and clear :: "'t \<Rightarrow> bool \<times> 't"
    and cnt :: "'t \<Rightarrow> int"
    and lim :: nat
  assumes finite_dom: "inv t \<Longrightarrow> finite (dom (abs t))"
    and add_law: "inv t \<Longrightarrow> card (dom (abs t)) \<le> lim \<Longrightarrow>
      \<exists>t'. add t k d = Some (True, t') \<and> inv t' \<and> abs t' = (abs t)(k \<mapsto> d)"
    and addno_law: "inv t \<Longrightarrow> card (dom (abs t)) \<le> lim \<Longrightarrow>
      \<exists>t'. addno t k d = Some (abs t k = None, t') \<and> inv t' \<and>
        abs t' = (if abs t k = None then (abs t)(k \<mapsto> d) else abs t)"
    and del_law: "inv t \<Longrightarrow>
      \<exists>t'. del t k = Some (abs t k \<noteq> None, t') \<and> inv t' \<and> abs t' = (abs t)(k := None)"
    and get_law: "inv t \<Longrightarrow> get t k = Some (abs t k)"
    and clear_law: "inv t \<Longrightarrow> \<exists>t'. clear t = (True, t') \<and> inv t' \<and> abs t' = Map.empty"
    and cnt_law: "inv t \<Longrightarrow> cnt t = int (card (dom (abs t)))"
begin

abbreviation step :: "'t \<Rightarrow> ('k, 'd) table_call \<Rightarrow> ('d table_answer \<times> 't) option" where
  "step \<equiv> table_step add addno del get clear cnt"

lemma step_refines:
  assumes "inv t" "card (dom (abs t)) \<le> lim"
  shows "\<exists>a t'. step t c = Some (a, t') \<and> inv t' \<and> map_step (abs t) c = (a, abs t') \<and>
    card (dom (abs t')) \<le> Suc (card (dom (abs t)))"
proof (cases c)
  case (AddReplace k d)
  then show ?thesis
    using add_law[OF assms, of k d] finite_dom[OF assms(1)] by (auto simp: table_step_def card_insert_if)
next
  case (AddNoreplace k d)
  then show ?thesis
    using addno_law[OF assms, of k d] finite_dom[OF assms(1)]
    by (cases "abs t k") (auto simp: table_step_def card_insert_if)
next
  case (Remove k)
  then show ?thesis
    using del_law[OF assms(1), of k] finite_dom[OF assms(1)] card_Diff1_le[of "dom (abs t)" k]
    by (auto simp: table_step_def intro: le_SucI)
next
  case (Find k)
  then show ?thesis using get_law[OF assms(1), of k] assms by (auto simp: table_step_def)
next
  case RemoveAll
  then show ?thesis using clear_law[OF assms(1)] by (auto simp: table_step_def)
next
  case Size
  then show ?thesis using cnt_law[OF assms(1)] assms by (auto simp: table_step_def)
qed

end

sublocale map_table \<subseteq> calls: simulation
  "\<lambda>n t m. inv t \<and> m = abs t \<and> card (dom m) + n \<le> lim"
  "table_step add addno del get clear cnt" map_step
proof (unfold_locales, elim conjE)
  fix n t m c
  assume t: "inv t" "m = abs t" "card (dom m) + Suc n \<le> lim"
  obtain a t' where s: "table_step add addno del get clear cnt t c = Some (a, t')" "inv t'"
    "map_step (abs t) c = (a, abs t')" "card (dom (abs t')) \<le> Suc (card (dom (abs t)))"
    using step_refines[OF t(1), of c] t(2,3) by auto
  then have "card (dom (abs t')) + n \<le> lim" using s(4) t(3) unfolding t(2) by linarith
  then show "\<exists>t'. table_step add addno del get clear cnt t c = Some (fst (map_step m c), t') \<and>
      inv t' \<and> snd (map_step m c) = abs t' \<and> card (dom (snd (map_step m c))) + n \<le> lim"
    using s t(2) by auto
qed

end
