(* ===== verification/Khash_Map.thy ===== *)
theory Khash_Map
  imports Khash_Resize Table_Contract
begin

text \<open>
  The class \<^verbatim>\<open>TW_KHash_32\<close> over the table of \<open>Tw_Khash\<close>: the table stores pointers to data objects
  that the class allocates and frees. The theory gives every operation and the iterator, proves
  that each is the operation of a finite map, that the objects allocated are exactly those of
  the entries (nothing leaks, nothing is freed twice), and states the contract as a locale whose
  client theorem says that a whole history of calls answers like a map.
\<close>

section \<open>The class\<close>

text \<open>
  \<open>dheap\<close> is the memory of data objects, \<open>dnext\<close> an address that was never used. The lock, which
  every operation holds from its first to its last statement, and failing allocations are left
  out.
\<close>

record ('k, 'd) TW_KHash_32 =
  KHASHMAP :: "('k, nat) kh_A_t"
  iterators_out :: int
  dheap :: "nat \<rightharpoonup> 'd"
  dnext :: nat

definition TW_NEW_WALLOC :: "'d \<Rightarrow> ('k, 'd) TW_KHash_32 \<Rightarrow> nat \<times> ('k, 'd) TW_KHash_32" where
  "TW_NEW_WALLOC d t =
     (dnext t, t\<lparr>dheap := (dheap t)(dnext t \<mapsto> d), dnext := Suc (dnext t)\<rparr>)"

definition TW_DELETE_WALLOC :: "nat option \<Rightarrow> ('k, 'd) TW_KHash_32 \<Rightarrow> ('k, 'd) TW_KHash_32" where
  "TW_DELETE_WALLOC p t =
     (case p of None \<Rightarrow> t | Some a \<Rightarrow> t\<lparr>dheap := (dheap t)(a := None)\<rparr>)"

definition kh_value :: "('k, 'd) TW_KHash_32 \<Rightarrow> u32 \<Rightarrow> nat option" where
  "kh_value t k = kh_vals (KHASHMAP t) ! unat k"

definition set_kh_value :: "('k, 'd) TW_KHash_32 \<Rightarrow> u32 \<Rightarrow> nat option \<Rightarrow> ('k, 'd) TW_KHash_32" where
  "set_kh_value t k p =
     t\<lparr>KHASHMAP := (KHASHMAP t)\<lparr>kh_vals := (kh_vals (KHASHMAP t))[unat k := p]\<rparr>\<rparr>"

abbreviation kh_end :: "('k, 'd) TW_KHash_32 \<Rightarrow> u32" where
  "kh_end t \<equiv> n_buckets (KHASHMAP t)"

definition kh_exist :: "('k, 'd) TW_KHash_32 \<Rightarrow> u32 \<Rightarrow> bool" where
  "kh_exist t k \<longleftrightarrow> \<not> ac_iseither (kh_flags (KHASHMAP t)) k"

text \<open>The constructor with \<open>items\<close> and the one without are the same \<^verbatim>\<open>init\<close>.\<close>

definition TW_KHash_init :: "('k \<Rightarrow> u32) \<Rightarrow> int \<Rightarrow> ('k, 'd) TW_KHash_32 option" where
  "TW_KHash_init hf items =
     Option.bind (if items > 0 then kh_resize_A hf kh_init_A (word_of_int items) else Some kh_init_A)
       (\<lambda>h. Some \<lparr>KHASHMAP = h, iterators_out = 0, dheap = Map.empty, dnext = 1\<rparr>)"

text \<open>
  The two branches that the adding operations share: a new object in place of the old one, and
  a new object in a bucket that \<^verbatim>\<open>kh_put_A\<close> found. Both return the address of the object.
\<close>

definition khash_exchange ::
  "('k, 'd) TW_KHash_32 \<Rightarrow> u32 \<Rightarrow> 'd \<Rightarrow> nat \<times> ('k, 'd) TW_KHash_32" where
  "khash_exchange t k d =
     (case TW_NEW_WALLOC d (TW_DELETE_WALLOC (kh_value t k) t) of
        (a, t) \<Rightarrow> (a, set_kh_value t k (Some a)))"

definition khash_insert ::
  "('k \<Rightarrow> u32) \<Rightarrow> ('k, 'd) TW_KHash_32 \<Rightarrow> 'k \<Rightarrow> 'd \<Rightarrow> (nat \<times> ('k, 'd) TW_KHash_32) option" where
  "khash_insert hf t key d =
     Option.bind (kh_put_A hf (KHASHMAP t) key) (\<lambda>(k, r, h).
       case TW_NEW_WALLOC d (t\<lparr>KHASHMAP := h\<rparr>) of
         (a, t) \<Rightarrow> Some (a, set_kh_value t k (Some a)))"

definition addReplace_old ::
  "('k \<Rightarrow> u32) \<Rightarrow> ('k, 'd) TW_KHash_32 \<Rightarrow> 'k \<Rightarrow> 'd \<Rightarrow> (bool \<times> 'd option \<times> ('k, 'd) TW_KHash_32) option" where
  "addReplace_old hf t key dat =
     Option.bind (kh_get_A hf (KHASHMAP t) key) (\<lambda>k.
       if k \<noteq> kh_end t
       then Some (True, Option.bind (kh_value t k) (dheap t), snd (khash_exchange t k dat))
       else Option.bind (khash_insert hf t key dat) (\<lambda>(a, t). Some (True, None, t)))"

definition addReplace ::
  "('k \<Rightarrow> u32) \<Rightarrow> ('k, 'd) TW_KHash_32 \<Rightarrow> 'k \<Rightarrow> 'd \<Rightarrow> (bool \<times> ('k, 'd) TW_KHash_32) option" where
  "addReplace hf t key dat =
     Option.bind (kh_get_A hf (KHASHMAP t) key) (\<lambda>k.
       if k \<noteq> kh_end t then Some (True, snd (khash_exchange t k dat))
       else Option.bind (khash_insert hf t key dat) (\<lambda>(a, t). Some (True, t)))"

text \<open>\<open>dflt\<close> is the object that the default constructor of the data type makes.\<close>

definition addReplaceNew ::
  "('k \<Rightarrow> u32) \<Rightarrow> 'd \<Rightarrow> ('k, 'd) TW_KHash_32 \<Rightarrow> 'k \<Rightarrow> (nat option \<times> ('k, 'd) TW_KHash_32) option" where
  "addReplaceNew hf dflt t key =
     Option.bind (kh_get_A hf (KHASHMAP t) key) (\<lambda>k.
       if k \<noteq> kh_end t then Some (case khash_exchange t k dflt of (a, t) \<Rightarrow> (Some a, t))
       else Option.bind (khash_insert hf t key dflt) (\<lambda>(a, t). Some (Some a, t)))"

definition addNoreplaceNew ::
  "('k \<Rightarrow> u32) \<Rightarrow> 'd \<Rightarrow> ('k, 'd) TW_KHash_32 \<Rightarrow> 'k \<Rightarrow> (nat option \<times> ('k, 'd) TW_KHash_32) option" where
  "addNoreplaceNew hf dflt t key =
     Option.bind (kh_get_A hf (KHASHMAP t) key) (\<lambda>k.
       if k = kh_end t
       then Option.bind (khash_insert hf t key dflt) (\<lambda>(a, t). Some (Some a, t))
       else Some (None, t))"

definition findOrNew ::
  "('k \<Rightarrow> u32) \<Rightarrow> 'd \<Rightarrow> ('k, 'd) TW_KHash_32 \<Rightarrow> 'k \<Rightarrow> (nat option \<times> ('k, 'd) TW_KHash_32) option" where
  "findOrNew hf dflt t key =
     Option.bind (kh_get_A hf (KHASHMAP t) key) (\<lambda>k.
       if k \<noteq> kh_end t then Some (kh_value t k, t)
       else Option.bind (khash_insert hf t key dflt) (\<lambda>(a, t). Some (Some a, t)))"

definition addNoreplace ::
  "('k \<Rightarrow> u32) \<Rightarrow> ('k, 'd) TW_KHash_32 \<Rightarrow> 'k \<Rightarrow> 'd \<Rightarrow> (bool \<times> ('k, 'd) TW_KHash_32) option" where
  "addNoreplace hf t key dat =
     Option.bind (kh_get_A hf (KHASHMAP t) key) (\<lambda>k.
       if k = kh_end t
       then Option.bind (khash_insert hf t key dat) (\<lambda>(a, t). Some (True, t))
       else Some (False, t))"

definition khash_drop :: "('k, 'd) TW_KHash_32 \<Rightarrow> u32 \<Rightarrow> ('k, 'd) TW_KHash_32" where
  "khash_drop t k =
     (let t = TW_DELETE_WALLOC (kh_value t k) t in t\<lparr>KHASHMAP := kh_del_A (KHASHMAP t) k\<rparr>)"

definition remove_fill ::
  "('k \<Rightarrow> u32) \<Rightarrow> ('k, 'd) TW_KHash_32 \<Rightarrow> 'k \<Rightarrow> (bool \<times> 'd option \<times> ('k, 'd) TW_KHash_32) option" where
  "remove_fill hf t key =
     Option.bind (kh_get_A hf (KHASHMAP t) key) (\<lambda>k.
       if k \<noteq> kh_end t
       then Some (True, Option.bind (kh_value t k) (dheap t), khash_drop t k)
       else Some (False, None, t))"

definition khash_remove ::
  "('k \<Rightarrow> u32) \<Rightarrow> ('k, 'd) TW_KHash_32 \<Rightarrow> 'k \<Rightarrow> (bool \<times> ('k, 'd) TW_KHash_32) option" where
  "khash_remove hf t key =
     Option.bind (kh_get_A hf (KHASHMAP t) key) (\<lambda>k.
       if k \<noteq> kh_end t then Some (True, khash_drop t k) else Some (False, t))"

text \<open>\<^verbatim>\<open>find\<close> with a reference to fill answers the object, or \<open>None\<close> where it returns false.\<close>

definition find_fill :: "('k \<Rightarrow> u32) \<Rightarrow> ('k, 'd) TW_KHash_32 \<Rightarrow> 'k \<Rightarrow> 'd option option" where
  "find_fill hf t key =
     Option.bind (kh_get_A hf (KHASHMAP t) key) (\<lambda>k.
       Some (if k \<noteq> kh_end t then Option.bind (kh_value t k) (dheap t) else None))"

definition khash_find :: "('k \<Rightarrow> u32) \<Rightarrow> ('k, 'd) TW_KHash_32 \<Rightarrow> 'k \<Rightarrow> nat option option" where
  "khash_find hf t key =
     Option.bind (kh_get_A hf (KHASHMAP t) key) (\<lambda>k.
       Some (if k \<noteq> kh_end t then kh_value t k else None))"

primrec removeAll_loop :: "u32 list \<Rightarrow> ('k, 'd) TW_KHash_32 \<Rightarrow> ('k, 'd) TW_KHash_32" where
  "removeAll_loop [] t = t"
| "removeAll_loop (k # ks) t =
     removeAll_loop ks (if kh_exist t k then TW_DELETE_WALLOC (kh_value t k) t else t)"

definition khash_removeAll :: "('k, 'd) TW_KHash_32 \<Rightarrow> bool \<times> ('k, 'd) TW_KHash_32" where
  "khash_removeAll t =
     (let t = removeAll_loop (map word_of_nat [0..<unat (kh_end t)]) t
      in (True, t\<lparr>KHASHMAP := kh_clear_A (KHASHMAP t)\<rparr>))"

text \<open>The destructor: \<^verbatim>\<open>kh_destroy_A\<close> frees the three arrays and the table itself.\<close>

definition kh_destroy_A :: "('k, 'v) kh_A_t \<Rightarrow> ('k, 'v) kh_A_t" where
  "kh_destroy_A h = h\<lparr>kh_keys := [], kh_flags := [], kh_vals := []\<rparr>"

definition TW_KHash_destroy :: "('k, 'd) TW_KHash_32 \<Rightarrow> ('k, 'd) TW_KHash_32" where
  "TW_KHash_destroy t =
     (let t = snd (khash_removeAll t) in t\<lparr>KHASHMAP := kh_destroy_A (KHASHMAP t)\<rparr>)"

definition khash_size :: "('k, 'd) TW_KHash_32 \<Rightarrow> int" where
  "khash_size t = sint (kh_size (KHASHMAP t))"

section \<open>The iterator\<close>

function kh_skip :: "('k, 'd) TW_KHash_32 \<Rightarrow> u32 \<Rightarrow> u32" where
  "kh_skip t it = (if it \<noteq> kh_end t \<and> \<not> kh_exist t it then kh_skip t (it + 1) else it)"
  by pat_completeness auto
termination
proof (relation "measure (\<lambda>(t, it). unat (kh_end t - it))")
  fix t :: "('k, 'd) TW_KHash_32" and it
  assume "it \<noteq> kh_end t \<and> \<not> kh_exist t it"
  then show "((t, it + 1), t, it) \<in> measure (\<lambda>(t, it). unat (kh_end t - it))"
    using measure_unat[of "kh_end t - it"] by (auto simp: diff_diff_eq)
qed simp

definition gotoStart :: "('k, 'd) TW_KHash_32 \<Rightarrow> u32 \<times> ('k, 'd) TW_KHash_32" where
  "gotoStart t = (kh_skip t 0, t\<lparr>iterators_out := iterators_out t + 1\<rparr>)"

definition releaseIter :: "('k, 'd) TW_KHash_32 \<Rightarrow> ('k, 'd) TW_KHash_32" where
  "releaseIter t =
     (if iterators_out t > 0 then t\<lparr>iterators_out := iterators_out t - 1\<rparr> else t)"

definition khiter_data :: "('k, 'd) TW_KHash_32 \<Rightarrow> u32 \<Rightarrow> nat option" where
  "khiter_data t it = (if it \<noteq> kh_end t then kh_value t it else None)"

definition khiter_setData :: "('k, 'd) TW_KHash_32 \<Rightarrow> u32 \<Rightarrow> nat option \<Rightarrow> ('k, 'd) TW_KHash_32" where
  "khiter_setData t it d = (if it \<noteq> kh_end t then set_kh_value t it d else t)"

definition khiter_key :: "('k, 'd) TW_KHash_32 \<Rightarrow> u32 \<Rightarrow> 'k option" where
  "khiter_key t it = (if it \<noteq> kh_end t then kh_keys (KHASHMAP t) ! unat it else None)"

definition khiter_getNext :: "('k, 'd) TW_KHash_32 \<Rightarrow> u32 \<Rightarrow> bool \<times> u32" where
  "khiter_getNext t it =
     (if it = kh_end t then (False, it)
      else let it' = kh_skip t (it + 1) in (it' \<noteq> kh_end t, it'))"

definition khiter_atEnd :: "('k, 'd) TW_KHash_32 \<Rightarrow> u32 \<Rightarrow> bool" where
  "khiter_atEnd t it \<longleftrightarrow> it = kh_end t"

text \<open>
  The hash function of the tables of the logger: \<^verbatim>\<open>tw_hash\<close> is not specialised for pointers to
  integers, so the general template answers 0 for every key.
\<close>

definition tw_hash :: "'k \<Rightarrow> u64" where
  "tw_hash x = 0"

definition hash_func :: "'k \<Rightarrow> u32" where
  "hash_func key = kh_int64_hash_func (tw_hash key)"

declare kh_skip.simps [simp del]

section \<open>Pointers and objects\<close>

text \<open>
  \<open>owns P H\<close>: the entries of the pointer map \<open>P\<close> and the allocated objects \<open>H\<close> correspond one to
  one. \<open>deref P H\<close> is the map from keys to objects.
\<close>

definition owns :: "('k \<rightharpoonup> nat option) \<Rightarrow> (nat \<rightharpoonup> 'd) \<Rightarrow> bool" where
  "owns P H \<longleftrightarrow>
     (\<forall>k c. P k = Some c \<longrightarrow> (\<exists>a. c = Some a \<and> a \<in> dom H)) \<and>
     (\<forall>k l c. P k = Some c \<and> P l = Some c \<longrightarrow> k = l) \<and>
     (\<forall>a\<in>dom H. \<exists>k. P k = Some (Some a))"

definition deref :: "('k \<rightharpoonup> nat option) \<Rightarrow> (nat \<rightharpoonup> 'd) \<Rightarrow> 'k \<rightharpoonup> 'd" where
  "deref P H k = (case P k of Some (Some a) \<Rightarrow> H a | _ \<Rightarrow> None)"

lemma ownsD:
  assumes "owns P H"
  shows "P k = Some c \<Longrightarrow> \<exists>a. c = Some a \<and> a \<in> dom H"
    "P k = Some c \<Longrightarrow> P l = Some c \<Longrightarrow> k = l" "a \<in> dom H \<Longrightarrow> \<exists>k. P k = Some (Some a)"
  using assms unfolding owns_def by blast+

lemma deref_None:
  assumes "owns P H"
  shows "deref P H k = None \<longleftrightarrow> P k = None"
  using ownsD(1)[OF assms, of k] by (auto simp: deref_def split: option.splits)

lemma owns_new:
  assumes "owns P H" "P k = None" "a \<notin> dom H"
  shows "owns (P(k \<mapsto> Some a)) (H(a \<mapsto> d))"
    "deref (P(k \<mapsto> Some a)) (H(a \<mapsto> d)) = (deref P H)(k \<mapsto> d)"
proof -
  have o: "P l \<noteq> Some (Some a)" for l using ownsD(1)[OF assms(1), of l] assms(3) by auto
  show "owns (P(k \<mapsto> Some a)) (H(a \<mapsto> d))"
    unfolding owns_def
  proof (intro conjI allI impI ballI)
    fix l c assume "(P(k \<mapsto> Some a)) l = Some c"
    then show "\<exists>x. c = Some x \<and> x \<in> dom (H(a \<mapsto> d))"
      using ownsD(1)[OF assms(1), of l c] by (cases "l = k") auto
  next
    fix l m c assume "(P(k \<mapsto> Some a)) l = Some c \<and> (P(k \<mapsto> Some a)) m = Some c"
    then show "l = m" using ownsD(2)[OF assms(1), of l c m] o by (auto split: if_splits)
  next
    fix x assume x: "x \<in> dom (H(a \<mapsto> d))"
    show "\<exists>l. (P(k \<mapsto> Some a)) l = Some (Some x)"
    proof (cases "x = a")
      case False
      then obtain l where l: "P l = Some (Some x)" using ownsD(3)[OF assms(1), of x] x by auto
      then have "l \<noteq> k" using assms(2) by auto
      then show ?thesis using l by auto
    qed auto
  qed
  show "deref (P(k \<mapsto> Some a)) (H(a \<mapsto> d)) = (deref P H)(k \<mapsto> d)"
    using o by (auto simp: deref_def fun_eq_iff split: option.splits)
qed

lemma owns_delete:
  assumes "owns P H" "P k = Some (Some b)"
  shows "owns (P(k := None)) (H(b := None))"
    "deref (P(k := None)) (H(b := None)) = (deref P H)(k := None)"
proof -
  have o: "P l \<noteq> Some (Some b)" if "l \<noteq> k" for l using ownsD(2)[OF assms(1), of l _ k] assms(2) that by auto
  show "owns (P(k := None)) (H(b := None))"
    unfolding owns_def
  proof (intro conjI allI impI ballI)
    fix l c assume "(P(k := None)) l = Some c"
    then show "\<exists>x. c = Some x \<and> x \<in> dom (H(b := None))"
      using ownsD(1)[OF assms(1), of l c] o[of l] by (cases "l = k") auto
  next
    fix l m c assume "(P(k := None)) l = Some c \<and> (P(k := None)) m = Some c"
    then show "l = m" using ownsD(2)[OF assms(1), of l c m] by (auto split: if_splits)
  next
    fix x assume x: "x \<in> dom (H(b := None))"
    then have "x \<noteq> b" by auto
    obtain l where l: "P l = Some (Some x)" using ownsD(3)[OF assms(1), of x] x \<open>x \<noteq> b\<close> by auto
    then have "l \<noteq> k" using assms(2) \<open>x \<noteq> b\<close> by auto
    then show "\<exists>l. (P(k := None)) l = Some (Some x)" using l by auto
  qed
  show "deref (P(k := None)) (H(b := None)) = (deref P H)(k := None)"
    using o by (auto simp: deref_def fun_eq_iff split: option.splits)
qed

lemma owns_exchange:
  assumes "owns P H" "P k = Some (Some b)" "a \<notin> dom H"
  shows "owns (P(k \<mapsto> Some a)) ((H(b := None))(a \<mapsto> d))"
    "deref (P(k \<mapsto> Some a)) ((H(b := None))(a \<mapsto> d)) = (deref P H)(k \<mapsto> d)"
  using owns_new[OF owns_delete(1)[OF assms(1,2)], of k a d] owns_delete(2)[OF assms(1,2)] assms(3)
  by auto

section \<open>The invariant of the class\<close>

abbreviation khash_ptrs :: "('k, 'd) TW_KHash_32 \<Rightarrow> 'k \<rightharpoonup> nat option" where
  "khash_ptrs t \<equiv> kh_map (KHASHMAP t)"

definition khash_map :: "('k, 'd) TW_KHash_32 \<Rightarrow> 'k \<rightharpoonup> 'd" where
  "khash_map t = deref (khash_ptrs t) (dheap t)"

definition khash_inv :: "('k \<Rightarrow> u32) \<Rightarrow> ('k, 'd) TW_KHash_32 \<Rightarrow> bool" where
  "khash_inv hf t \<longleftrightarrow>
     kh_ok hf (KHASHMAP t) \<and> owns (khash_ptrs t) (dheap t) \<and> (\<forall>a\<in>dom (dheap t). a < dnext t)"

lemma khash_invD:
  assumes "khash_inv hf t"
  shows "kh_ok hf (KHASHMAP t)" "owns (khash_ptrs t) (dheap t)" "dnext t \<notin> dom (dheap t)"
    "a \<in> dom (dheap t) \<Longrightarrow> a < dnext t"
  using assms unfolding khash_inv_def by blast+

lemma kh_ok_table: "kh_ok hf h \<Longrightarrow> kh_at h key x c \<Longrightarrow> kh_table hf h"
  by (auto simp: kh_ok_def kh_at_def kh_init_A_def liv_def)

lemma kh_at_map: "kh_table hf h \<Longrightarrow> kh_at h key x c \<Longrightarrow> kh_map h key = Some c"
  using stores_entry[OF kh_table_stores] unfolding kh_at_def by metis

lemma kh_store_spec:
  assumes ok: "kh_table hf h" and at: "kh_at h key x c"
  shows "kh_table hf (h\<lparr>kh_vals := (kh_vals h)[unat x := p]\<rparr>)"
    "kh_map (h\<lparr>kh_vals := (kh_vals h)[unat x := p]\<rparr>) = (kh_map h)(key \<mapsto> p)"
proof -
  show "kh_table hf (h\<lparr>kh_vals := (kh_vals h)[unat x := p]\<rparr>)"
    using ok by (auto simp: kh_table_def)
  have "unat x < length (kh_vals h)" using at kh_tableD(4)[OF ok] by (simp add: kh_at_def liv_def)
  then have "stores (kh_keys h) ((kh_vals h)[unat x := p]) (kh_live h) None ((kh_map h)(key \<mapsto> p))"
    using stores_value[OF kh_table_stores[OF ok]] at unfolding kh_at_def by blast
  then show "kh_map (h\<lparr>kh_vals := (kh_vals h)[unat x := p]\<rparr>) = (kh_map h)(key \<mapsto> p)"
    by (intro kh_map_eqI) simp
qed

text \<open>The lookup, as every operation begins.\<close>

lemma khash_get_None:
  assumes "khash_inv hf t" "khash_map t key = None"
  shows "kh_get_A hf (KHASHMAP t) key = Some (kh_end t)"
proof -
  have "khash_ptrs t key = None"
    using assms(2) deref_None[OF khash_invD(2)[OF assms(1)]] by (simp add: khash_map_def)
  then show ?thesis using kh_get_A_spec[OF khash_invD(1)[OF assms(1)], of key] by blast
qed

lemma khash_get_Some:
  assumes "khash_inv hf t" "khash_map t key = Some d"
  obtains k a where "kh_get_A hf (KHASHMAP t) key = Some k" "k \<noteq> kh_end t"
    "kh_table hf (KHASHMAP t)" "kh_at (KHASHMAP t) key k (Some a)"
    "kh_value t k = Some a" "dheap t a = Some d"
proof -
  obtain a where a: "khash_ptrs t key = Some (Some a)" "dheap t a = Some d"
    using assms(2) unfolding khash_map_def deref_def by (auto split: option.splits)
  obtain k where k: "kh_get_A hf (KHASHMAP t) key = Some k" "kh_at (KHASHMAP t) key k (Some a)"
    using kh_get_A_spec[OF khash_invD(1)[OF assms(1)], of key] a(1) by blast
  moreover have "kh_value t k = Some a" using k(2) by (simp add: kh_value_def kh_at_def)
  ultimately show thesis
    using that kh_at_not_end[OF k(2)] kh_ok_table[OF khash_invD(1)[OF assms(1)] k(2)] a(2) by blast
qed

lemma stores_card:
  assumes "stores ks vs I None M"
  shows "bij_betw (\<lambda>i. the (ks ! i)) I (dom M)"
proof (rule bij_betwI')
  fix i j assume "i \<in> I" "j \<in> I"
  then show "(the (ks ! i) = the (ks ! j)) = (i = j)"
    using storesD(1,2)[OF assms] by (metis inj_onD option.exhaust_sel)
next
  fix i assume i: "i \<in> I"
  then obtain k where "ks ! i = Some k" using storesD(1)[OF assms] by blast
  then show "the (ks ! i) \<in> dom M" using stores_entry[OF assms i] by auto
next
  fix k assume "k \<in> dom M"
  then obtain i where "i \<in> I" "ks ! i = Some k" using stores_None[OF assms, of k] by auto
  then show "\<exists>i\<in>I. k = the (ks ! i)" by force
qed

text \<open>The size counter is the number of entries of the map.\<close>

lemma khash_card:
  assumes "khash_inv hf t"
  shows "card (dom (khash_map t)) = unat (kh_size (KHASHMAP t))" "finite (dom (khash_map t))"
proof -
  let ?h = "KHASHMAP t"
  have dom: "dom (khash_map t) = dom (khash_ptrs t)"
    using deref_None[OF khash_invD(2)[OF assms]] by (auto simp: khash_map_def dom_def)
  have "card (dom (khash_ptrs t)) = unat (kh_size ?h) \<and> finite (dom (khash_ptrs t))"
  proof (cases "?h = kh_init_A")
    case True
    then show ?thesis by (simp add: kh_init_A_def kh_map_def kh_entries_def)
  next
    case False
    then have ok: "kh_table hf ?h" using khash_invD(1)[OF assms] by (simp add: kh_ok_def)
    show ?thesis
      using bij_betw_same_card[OF stores_card[OF kh_table_stores[OF ok]]] kh_tableD(8)[OF ok]
        bij_betw_finite[OF stores_card[OF kh_table_stores[OF ok]]] by simp
  qed
  then show "card (dom (khash_map t)) = unat (kh_size ?h)" "finite (dom (khash_map t))"
    by (simp_all add: dom)
qed

section \<open>What the operations do\<close>

lemma khash_exchange_spec:
  assumes inv: "khash_inv hf t" and ok: "kh_table hf (KHASHMAP t)"
    and at: "kh_at (KHASHMAP t) key k (Some b)"
  obtains t' where "khash_exchange t k d = (dnext t, t')" "khash_inv hf t'"
    "khash_map t' = (khash_map t)(key \<mapsto> d)" "khash_ptrs t' key = Some (Some (dnext t))"
proof -
  let ?h = "(KHASHMAP t)\<lparr>kh_vals := (kh_vals (KHASHMAP t))[unat k := Some (dnext t)]\<rparr>"
  let ?H = "((dheap t)(b := None))(dnext t \<mapsto> d)"
  let ?t = "t\<lparr>KHASHMAP := ?h, dheap := ?H, dnext := Suc (dnext t)\<rparr>"
  have "kh_value t k = Some b" using at by (simp add: kh_at_def kh_value_def)
  then have run: "khash_exchange t k d = (dnext t, ?t)"
    by (simp add: khash_exchange_def TW_NEW_WALLOC_def TW_DELETE_WALLOC_def set_kh_value_def)
  have P: "khash_ptrs t key = Some (Some b)" by (rule kh_at_map[OF ok at])
  note own = owns_exchange[OF khash_invD(2)[OF inv] P khash_invD(3)[OF inv], of d]
  note st = kh_store_spec[OF ok at, of "Some (dnext t)"]
  have "khash_inv hf ?t"
    using st own(1) khash_invD(4)[OF inv] unfolding khash_inv_def
    by (auto simp: kh_ok_def split: if_splits intro: less_SucI)
  moreover have "khash_map ?t = (khash_map t)(key \<mapsto> d)"
    using own(2) st(2) by (simp add: khash_map_def)
  moreover have "khash_ptrs ?t key = Some (Some (dnext t))" using st(2) by simp
  ultimately show thesis using that[OF run] by blast
qed

lemma khash_insert_spec:
  assumes inv: "khash_inv hf t" and new: "khash_map t key = None"
    and lim: "card (dom (khash_map t)) \<le> 2 ^ 29"
  obtains t' where "khash_insert hf t key d = Some (dnext t, t')" "khash_inv hf t'"
    "khash_map t' = (khash_map t)(key \<mapsto> d)" "khash_ptrs t' key = Some (Some (dnext t))"
proof -
  have P: "khash_ptrs t key = None"
    using new deref_None[OF khash_invD(2)[OF inv]] by (simp add: khash_map_def)
  obtain k r h c where put: "kh_put_A hf (KHASHMAP t) key = Some (k, r, h)" and ok: "kh_table hf h"
    and at: "kh_at h key k c" and map: "kh_map h = (khash_ptrs t)(key \<mapsto> c)"
    using kh_put_A_spec[OF khash_invD(1)[OF inv], of key] lim khash_card(1)[OF inv] P by metis
  let ?h = "h\<lparr>kh_vals := (kh_vals h)[unat k := Some (dnext t)]\<rparr>"
  let ?t = "t\<lparr>KHASHMAP := ?h, dheap := (dheap t)(dnext t \<mapsto> d), dnext := Suc (dnext t)\<rparr>"
  have run: "khash_insert hf t key d = Some (dnext t, ?t)"
    by (simp add: khash_insert_def put TW_NEW_WALLOC_def set_kh_value_def)
  note own = owns_new[OF khash_invD(2)[OF inv] P khash_invD(3)[OF inv], of d]
  note st = kh_store_spec[OF ok at, of "Some (dnext t)"]
  have m: "kh_map ?h = (khash_ptrs t)(key \<mapsto> Some (dnext t))" using st(2) map by simp
  have "khash_inv hf ?t"
    using st(1) m own(1) khash_invD(4)[OF inv] unfolding khash_inv_def
    by (auto simp: kh_ok_def split: if_splits intro: less_SucI)
  moreover have "khash_map ?t = (khash_map t)(key \<mapsto> d)"
    using own(2) m by (simp add: khash_map_def)
  moreover have "khash_ptrs ?t key = Some (Some (dnext t))" using m by simp
  ultimately show thesis using that[OF run] by blast
qed

lemma khash_drop_spec:
  assumes inv: "khash_inv hf t" and ok: "kh_table hf (KHASHMAP t)"
    and at: "kh_at (KHASHMAP t) key k (Some b)"
  shows "khash_inv hf (khash_drop t k)" "khash_map (khash_drop t k) = (khash_map t)(key := None)"
proof -
  let ?t = "t\<lparr>dheap := (dheap t)(b := None), KHASHMAP := kh_del_A (KHASHMAP t) k\<rparr>"
  have "kh_value t k = Some b" using at by (simp add: kh_at_def kh_value_def)
  then have run: "khash_drop t k = ?t"
    by (simp add: khash_drop_def TW_DELETE_WALLOC_def Let_def)
  note own = owns_delete[OF khash_invD(2)[OF inv] kh_at_map[OF ok at]]
  note del = kh_del_A_spec[OF ok at]
  show "khash_inv hf (khash_drop t k)"
    using own(1) del(1,2) khash_invD(4)[OF inv] unfolding khash_inv_def run
    by (auto simp: kh_ok_def split: if_splits)
  show "khash_map (khash_drop t k) = (khash_map t)(key := None)"
    using own(2) del(2) by (simp add: khash_map_def run)
qed

text \<open>Lookups: the object, or a pointer to it.\<close>

lemma find_fill_spec:
  assumes "khash_inv hf t"
  shows "find_fill hf t key = Some (khash_map t key)"
proof (cases "khash_map t key")
  case None
  then show ?thesis by (simp add: find_fill_def khash_get_None[OF assms])
next
  case (Some d)
  show ?thesis by (rule khash_get_Some[OF assms Some]) (simp add: find_fill_def Some)
qed

lemma khash_find_spec:
  assumes "khash_inv hf t"
  shows "\<exists>p. khash_find hf t key = Some p \<and> khash_map t key = Option.bind p (dheap t)"
proof (cases "khash_map t key")
  case None
  then show ?thesis by (simp add: khash_find_def khash_get_None[OF assms])
next
  case (Some d)
  show ?thesis by (rule khash_get_Some[OF assms Some]) (simp add: khash_find_def Some)
qed

text \<open>Adding, in its six variants.\<close>

lemma addReplace_old_spec:
  assumes inv: "khash_inv hf t" and lim: "card (dom (khash_map t)) \<le> 2 ^ 29"
  shows "\<exists>t'. addReplace_old hf t key d = Some (True, khash_map t key, t') \<and> khash_inv hf t' \<and>
    khash_map t' = (khash_map t)(key \<mapsto> d)"
proof (cases "khash_map t key")
  case None
  show ?thesis
    by (rule khash_insert_spec[OF inv None lim, of d])
      (simp add: addReplace_old_def khash_get_None[OF inv None] None)
next
  case (Some old)
  obtain k b where k: "kh_get_A hf (KHASHMAP t) key = Some k" "k \<noteq> kh_end t"
    "kh_table hf (KHASHMAP t)" "kh_at (KHASHMAP t) key k (Some b)"
    "kh_value t k = Some b" "dheap t b = Some old"
    by (rule khash_get_Some[OF inv Some])
  show ?thesis
    by (rule khash_exchange_spec[OF inv k(3,4), of d]) (simp add: addReplace_old_def k Some)
qed

lemma addReplace_old_conv:
  "addReplace hf t key d =
   Option.bind (addReplace_old hf t key d) (\<lambda>(r, old, t). Some (r, t))"
  by (auto simp: addReplace_def addReplace_old_def split: bind_split prod.splits)

lemma addReplace_spec:
  assumes "khash_inv hf t" "card (dom (khash_map t)) \<le> 2 ^ 29"
  shows "\<exists>t'. addReplace hf t key d = Some (True, t') \<and> khash_inv hf t' \<and>
    khash_map t' = (khash_map t)(key \<mapsto> d)"
  using addReplace_old_spec[OF assms, of key d] by (auto simp: addReplace_old_conv)

lemma addReplaceNew_spec:
  assumes inv: "khash_inv hf t" and lim: "card (dom (khash_map t)) \<le> 2 ^ 29"
  shows "\<exists>a t'. addReplaceNew hf dflt t key = Some (Some a, t') \<and> khash_inv hf t' \<and>
    khash_map t' = (khash_map t)(key \<mapsto> dflt) \<and> khash_ptrs t' key = Some (Some a)"
proof (cases "khash_map t key")
  case None
  show ?thesis
    by (rule khash_insert_spec[OF inv None lim, of dflt])
      (simp add: addReplaceNew_def khash_get_None[OF inv None])
next
  case (Some old)
  obtain k b where k: "kh_get_A hf (KHASHMAP t) key = Some k" "k \<noteq> kh_end t"
    "kh_table hf (KHASHMAP t)" "kh_at (KHASHMAP t) key k (Some b)"
    by (rule khash_get_Some[OF inv Some])
  show ?thesis
    by (rule khash_exchange_spec[OF inv k(3,4), of dflt]) (simp add: addReplaceNew_def k)
qed

lemma addNoreplaceNew_spec:
  assumes inv: "khash_inv hf t" and lim: "card (dom (khash_map t)) \<le> 2 ^ 29"
  shows "\<exists>p t'. addNoreplaceNew hf dflt t key = Some (p, t') \<and> khash_inv hf t' \<and>
    (case khash_map t key of
       None \<Rightarrow> khash_map t' = (khash_map t)(key \<mapsto> dflt) \<and> khash_ptrs t' key = Some p \<and> p \<noteq> None
     | Some d \<Rightarrow> p = None \<and> t' = t)"
proof (cases "khash_map t key")
  case None
  show ?thesis
    by (rule khash_insert_spec[OF inv None lim, of dflt])
      (simp add: addNoreplaceNew_def khash_get_None[OF inv None] None)
next
  case (Some d)
  show ?thesis
    by (rule khash_get_Some[OF inv Some]) (simp add: addNoreplaceNew_def Some inv)
qed

lemma findOrNew_spec:
  assumes inv: "khash_inv hf t" and lim: "card (dom (khash_map t)) \<le> 2 ^ 29"
  shows "\<exists>a t'. findOrNew hf dflt t key = Some (Some a, t') \<and> khash_inv hf t' \<and>
    khash_ptrs t' key = Some (Some a) \<and>
    khash_map t' = (if khash_map t key = None then (khash_map t)(key \<mapsto> dflt) else khash_map t)"
proof (cases "khash_map t key")
  case None
  show ?thesis
    by (rule khash_insert_spec[OF inv None lim, of dflt])
      (simp add: findOrNew_def khash_get_None[OF inv None] None)
next
  case (Some d)
  obtain k b where k: "kh_get_A hf (KHASHMAP t) key = Some k" "k \<noteq> kh_end t"
    "kh_table hf (KHASHMAP t)" "kh_at (KHASHMAP t) key k (Some b)" "kh_value t k = Some b"
    by (rule khash_get_Some[OF inv Some])
  then show ?thesis using kh_at_map[OF k(3,4)] by (simp add: findOrNew_def Some inv)
qed

lemma addNoreplace_spec:
  assumes inv: "khash_inv hf t" and lim: "card (dom (khash_map t)) \<le> 2 ^ 29"
  shows "\<exists>t'. addNoreplace hf t key d = Some (khash_map t key = None, t') \<and> khash_inv hf t' \<and>
    khash_map t' = (if khash_map t key = None then (khash_map t)(key \<mapsto> d) else khash_map t)"
proof (cases "khash_map t key")
  case None
  show ?thesis
    by (rule khash_insert_spec[OF inv None lim, of d])
      (simp add: addNoreplace_def khash_get_None[OF inv None] None)
next
  case (Some d')
  show ?thesis
    by (rule khash_get_Some[OF inv Some]) (simp add: addNoreplace_def Some inv)
qed

text \<open>Removing.\<close>

lemma remove_fill_spec:
  assumes inv: "khash_inv hf t"
  shows "\<exists>t'. remove_fill hf t key = Some (khash_map t key \<noteq> None, khash_map t key, t') \<and>
    khash_inv hf t' \<and> khash_map t' = (khash_map t)(key := None)"
proof (cases "khash_map t key")
  case None
  then show ?thesis
    by (simp add: remove_fill_def khash_get_None[OF inv] inv fun_upd_idem)
next
  case (Some d)
  obtain k b where k: "kh_get_A hf (KHASHMAP t) key = Some k" "k \<noteq> kh_end t"
    "kh_table hf (KHASHMAP t)" "kh_at (KHASHMAP t) key k (Some b)"
    "kh_value t k = Some b" "dheap t b = Some d"
    by (rule khash_get_Some[OF inv Some])
  then show ?thesis using khash_drop_spec[OF inv k(3,4)] by (simp add: remove_fill_def Some)
qed

lemma khash_remove_spec:
  assumes inv: "khash_inv hf t"
  shows "\<exists>t'. khash_remove hf t key = Some (khash_map t key \<noteq> None, t') \<and>
    khash_inv hf t' \<and> khash_map t' = (khash_map t)(key := None)"
proof -
  have "khash_remove hf t key = Option.bind (remove_fill hf t key) (\<lambda>(r, d, t). Some (r, t))"
    by (auto simp: khash_remove_def remove_fill_def split: bind_split)
  then show ?thesis using remove_fill_spec[OF inv, of key] by auto
qed

text \<open>The constructor and \<^verbatim>\<open>removeAll\<close>.\<close>

lemma khash_inv_empty:
  assumes "kh_ok hf h" "kh_map h = Map.empty"
  shows "khash_inv hf \<lparr>KHASHMAP = h, iterators_out = n, dheap = Map.empty, dnext = a\<rparr>"
  using assms by (simp add: khash_inv_def owns_def)

lemma TW_KHash_init_spec:
  obtains t where "TW_KHash_init hf items = Some t" "khash_inv hf t" "khash_map t = Map.empty"
proof -
  let ?r = "if items > 0 then kh_resize_A hf kh_init_A (word_of_int items) else Some kh_init_A"
  have "\<exists>h. ?r = Some h \<and> kh_ok hf h \<and> kh_map h = (Map.empty :: 'a \<rightharpoonup> nat option)"
  proof (cases "items > 0")
    case True
    then show ?thesis using kh_resize_init[of hf "word_of_int items"] by (auto simp: kh_ok_def)
  next
    case False
    then show ?thesis by simp
  qed
  then obtain h where h: "?r = Some h" "kh_ok hf h" "kh_map h = (Map.empty :: 'a \<rightharpoonup> nat option)" by blast
  let ?t = "\<lparr>KHASHMAP = h, iterators_out = 0, dheap = Map.empty, dnext = 1\<rparr>"
  have "TW_KHash_init hf items = Some ?t" unfolding TW_KHash_init_def h(1) by simp
  moreover have "khash_map ?t = Map.empty" using h(3) by (simp add: khash_map_def deref_def fun_eq_iff)
  ultimately show thesis using that khash_inv_empty[OF h(2,3)] by blast
qed

lemma TW_DELETE_simps [simp]:
  "KHASHMAP (TW_DELETE_WALLOC p t) = KHASHMAP t" "dnext (TW_DELETE_WALLOC p t) = dnext t"
  by (simp_all add: TW_DELETE_WALLOC_def split: option.splits)

lemma removeAll_loop_frees:
  "KHASHMAP (removeAll_loop ks t) = KHASHMAP t \<and> dnext (removeAll_loop ks t) = dnext t \<and>
   dheap (removeAll_loop ks t) a =
     (if \<exists>k\<in>set ks. kh_exist t k \<and> kh_value t k = Some a then None else dheap t a)"
proof (induction ks arbitrary: t)
  case (Cons k ks)
  let ?t = "if kh_exist t k then TW_DELETE_WALLOC (kh_value t k) t else t"
  have same: "kh_exist ?t l = kh_exist t l" "kh_value ?t l = kh_value t l" for l
    by (simp_all add: kh_exist_def kh_value_def)
  have "dheap ?t a = (if kh_exist t k \<and> kh_value t k = Some a then None else dheap t a)"
    by (auto simp: TW_DELETE_WALLOC_def split: option.splits)
  then show ?case using Cons[of ?t] unfolding same by auto
qed simp

lemma khash_live_exist:
  assumes "kh_table hf (KHASHMAP t)" "khash_ptrs t key = Some c"
  obtains k where "k \<in> set (map word_of_nat [0..<unat (kh_end t)])" "kh_exist t k" "kh_value t k = c"
proof -
  obtain i where i: "i \<in> kh_live (KHASHMAP t)" "kh_vals (KHASHMAP t) ! i = c"
    using storesD(4)[OF kh_table_stores[OF assms(1)], of key c] assms(2) by auto
  have less: "i < unat (kh_end t)" using i(1) by (simp add: liv_def)
  then have "unat (word_of_nat i :: u32) = i"
    using unsigned_less[of "kh_end t", where 'a = nat] unfolding unsigned_of_nat take_bit_eq_mod by simp
  then show thesis
    using that[of "word_of_nat i"] i less by (simp add: kh_exist_def kh_value_def flag_simps liv_def)
qed

lemma khash_removeAll_spec:
  assumes inv: "khash_inv hf t"
  obtains t' where "khash_removeAll t = (True, t')" "khash_inv hf t'" "khash_map t' = Map.empty"
    "dheap t' = Map.empty"
proof -
  let ?ks = "map word_of_nat [0..<unat (kh_end t)] :: u32 list"
  let ?t = "removeAll_loop ?ks t"
  have heap: "dheap ?t a = None" for a
  proof (cases "dheap t a")
    case (Some d)
    then obtain key where key: "khash_ptrs t key = Some (Some a)"
      using ownsD(3)[OF khash_invD(2)[OF inv], of a] by auto
    then have "kh_table hf (KHASHMAP t)"
      using khash_invD(1)[OF inv] by (auto simp: kh_ok_def)
    then obtain k where "k \<in> set ?ks" "kh_exist t k" "kh_value t k = Some a"
      using key by (rule khash_live_exist)
    then show ?thesis using removeAll_loop_frees[of ?ks t a] by auto
  qed (use removeAll_loop_frees[of ?ks t a] in simp)
  have K: "KHASHMAP ?t = KHASHMAP t" using removeAll_loop_frees[of ?ks t] by blast
  let ?t' = "?t\<lparr>KHASHMAP := kh_clear_A (KHASHMAP t)\<rparr>"
  note clear = kh_clear_A_spec[OF khash_invD(1)[OF inv]]
  have "khash_removeAll t = (True, ?t')" by (simp add: khash_removeAll_def Let_def K)
  moreover have "khash_inv hf ?t'" using clear heap by (auto simp: khash_inv_def owns_def)
  moreover have "khash_map ?t' = Map.empty" using clear by (simp add: khash_map_def deref_def fun_eq_iff)
  ultimately show thesis using that heap by (simp add: fun_eq_iff)
qed

section \<open>Iteration\<close>

lemma kh_skip_le: "unat (kh_end t - kh_skip t it) \<le> unat (kh_end t - it)"
proof (induction t it rule: kh_skip.induct)
  case (1 t it)
  show ?case
  proof (cases "it \<noteq> kh_end t \<and> \<not> kh_exist t it")
    case True
    then have "unat (kh_end t - (it + 1)) < unat (kh_end t - it)"
      using measure_unat[of "kh_end t - it"] by (auto simp: diff_diff_eq)
    then show ?thesis using 1[OF True] True by (subst kh_skip.simps) simp
  next
    case False
    then show ?thesis by (subst kh_skip.simps) auto
  qed
qed

text \<open>The loop with which the logger walks over a table: key and data pointer of each stop.\<close>

function iter_list :: "('k, 'd) TW_KHash_32 \<Rightarrow> u32 \<Rightarrow> ('k \<times> nat option) list" where
  "iter_list t it =
     (if khiter_atEnd t it then []
      else (the (khiter_key t it), khiter_data t it) # iter_list t (snd (khiter_getNext t it)))"
  by pat_completeness auto
termination
proof (relation "measure (\<lambda>(t, it). unat (kh_end t - it))")
  fix t :: "('k, 'd) TW_KHash_32" and it
  assume "\<not> khiter_atEnd t it"
  then have "it \<noteq> kh_end t" by (simp add: khiter_atEnd_def)
  then have "unat (kh_end t - (it + 1)) < unat (kh_end t - it)"
    using measure_unat[of "kh_end t - it"] by (auto simp: diff_diff_eq)
  then show "((t, snd (khiter_getNext t it)), t, it) \<in> measure (\<lambda>(t, it). unat (kh_end t - it))"
    using kh_skip_le[of t "it + 1"] \<open>it \<noteq> kh_end t\<close> by (simp add: khiter_getNext_def Let_def)
qed simp

declare iter_list.simps [simp del]

lemma iter_list_from:
  "unat it \<le> unat (kh_end t) \<Longrightarrow>
   iter_list t (kh_skip t it) =
     map (\<lambda>i. (the (kh_keys (KHASHMAP t) ! i), kh_vals (KHASHMAP t) ! i))
       (filter (\<lambda>i. \<not> fl_empty (kh_flags (KHASHMAP t)) i \<and> \<not> fl_del (kh_flags (KHASHMAP t)) i)
          [unat it..<unat (kh_end t)])"
proof (induction "unat (kh_end t) - unat it" arbitrary: it)
  case 0
  then have "it = kh_end t" by (simp add: word_unat_eq_iff)
  then show ?case by (simp add: kh_skip.simps iter_list.simps khiter_atEnd_def)
next
  case (Suc n)
  then have less: "unat it < unat (kh_end t)" by simp
  then have next1: "unat (it + 1) = Suc (unat it)"
    using unsigned_less[of "kh_end t", where 'a = nat] by (simp add: unat_word_ariths)
  have ne: "it \<noteq> kh_end t" using less by auto
  have IH: "iter_list t (kh_skip t (it + 1)) =
     map (\<lambda>i. (the (kh_keys (KHASHMAP t) ! i), kh_vals (KHASHMAP t) ! i))
       (filter (\<lambda>i. \<not> fl_empty (kh_flags (KHASHMAP t)) i \<and> \<not> fl_del (kh_flags (KHASHMAP t)) i)
          [Suc (unat it)..<unat (kh_end t)])"
    using Suc(1)[of "it + 1"] Suc(2) less next1 by simp
  have ex: "kh_exist t it \<longleftrightarrow> \<not> fl_empty (kh_flags (KHASHMAP t)) (unat it) \<and>
      \<not> fl_del (kh_flags (KHASHMAP t)) (unat it)"
    by (auto simp: kh_exist_def flag_simps)
  show ?case
  proof (cases "kh_exist t it")
    case True
    then have "kh_skip t it = it" by (subst kh_skip.simps) simp
    moreover have "iter_list t it = (the (kh_keys (KHASHMAP t) ! unat it), kh_vals (KHASHMAP t) ! unat it)
        # iter_list t (kh_skip t (it + 1))"
      using ne by (subst iter_list.simps)
        (simp add: khiter_atEnd_def khiter_key_def khiter_data_def khiter_getNext_def kh_value_def Let_def)
    ultimately show ?thesis using True ex less by (simp add: IH upt_conv_Cons)
  next
    case False
    then have "kh_skip t it = kh_skip t (it + 1)" using ne by (subst kh_skip.simps) simp
    then show ?thesis using False ex less by (simp add: IH upt_conv_Cons)
  qed
qed

lemma iter_list_entries: "iter_list t (fst (gotoStart t)) = kh_entries (KHASHMAP t)"
  using iter_list_from[of 0 t] by (simp add: gotoStart_def kh_entries_def)

lemma kh_entries_distinct:
  assumes "kh_ok hf h"
  shows "distinct (map fst (kh_entries h))"
proof (cases "h = kh_init_A")
  case True
  then show ?thesis by (simp add: kh_entries_def kh_init_A_def)
next
  case False
  then have ok: "kh_table hf h" using assms by (simp add: kh_ok_def)
  let ?is = "filter (\<lambda>i. \<not> fl_empty (kh_flags h) i \<and> \<not> fl_del (kh_flags h) i) [0..<unat (n_buckets h)]"
  have "set ?is = kh_live h" by (auto simp: liv_def)
  then show ?thesis
    using bij_betw_imp_inj_on[OF stores_card[OF kh_table_stores[OF ok]]]
    unfolding kh_entries_def map_map o_def fst_conv distinct_map by simp
qed

section \<open>The contract\<close>

lemma khash_size_card:
  assumes "khash_inv hf t"
  shows "khash_size t = int (card (dom (khash_map t)))"
proof -
  let ?h = "KHASHMAP t"
  have "unat (kh_size ?h) < 2 ^ 31"
  proof (cases "?h = kh_init_A")
    case False
    then have ok: "kh_table hf ?h" using khash_invD(1)[OF assms] by (simp add: kh_ok_def)
    have "unat (kh_size ?h) \<le> unat (hash_upper (n_buckets ?h))"
      using kh_live_used[OF ok] kh_tableD(5,6)[OF ok] by (simp add: word_le_nat_alt)
    moreover have "unat (n_buckets ?h) \<le> 2 ^ 31"
    proof -
      from kh_tableD(1)[OF ok] obtain p where "p < 32" "unat (n_buckets ?h) = 2 ^ p"
        by (rule pow_bucketsE)
      then show ?thesis using power_increasing[of p 31 "2 :: nat"] by simp
    qed
    ultimately show ?thesis using unat_hash_upper(2)[OF kh_tableD(1)[OF ok]] by simp
  qed (simp add: kh_init_A_def)
  then have "int (unat (kh_size ?h)) < int (2 ^ 31)" by (simp only: of_nat_less_iff)
  then have u: "uint (kh_size ?h) < 2 ^ 31" by simp
  have "sint (kh_size ?h) = uint (kh_size ?h)"
    using signed_take_bit_int_eq_self[of 31 "uint (kh_size ?h)"] u
      uint_ge_0[of "kh_size ?h"] by (simp add: sint_uint del: uint_ge_0)
  then show ?thesis using khash_card(1)[OF assms] by (simp add: khash_size_def)
qed

interpretation khash: map_table "khash_inv hf" khash_map "addReplace hf" "addNoreplace hf"
  "khash_remove hf" "find_fill hf" khash_removeAll khash_size "2 ^ 29" for hf :: "'k \<Rightarrow> u32"
proof (unfold_locales, goal_cases)
  case 1 then show ?case by (rule khash_card(2))
next
  case (2 t k d) then show ?case by (rule addReplace_spec)
next
  case (3 t k d) then show ?case by (rule addNoreplace_spec)
next
  case (4 t k) then show ?case by (rule khash_remove_spec)
next
  case (5 t k) then show ?case by (rule find_fill_spec)
next
  case (6 t) show ?case by (rule khash_removeAll_spec[OF 6]) blast
next
  case (7 t) then show ?case by (rule khash_size_card)
qed

section \<open>Histories of a table\<close>

definition khash_step ::
  "('k \<Rightarrow> u32) \<Rightarrow> ('k, 'd) TW_KHash_32 \<Rightarrow> ('k, 'd) table_call \<Rightarrow>
   ('d table_answer \<times> ('k, 'd) TW_KHash_32) option" where
  "khash_step hf = table_step (addReplace hf) (addNoreplace hf) (khash_remove hf) (find_fill hf)
     khash_removeAll khash_size"

definition khash_run ::
  "('k \<Rightarrow> u32) \<Rightarrow> int \<Rightarrow> ('k, 'd) table_call list \<Rightarrow>
   ('d table_answer list \<times> ('k, 'd) TW_KHash_32) option" where
  "khash_run hf items cs =
     Option.bind (TW_KHash_init hf items) (\<lambda>t. call_run (khash_step hf) t cs)"

lemma khash_run_map:
  fixes cs :: "('k, 'd) table_call list"
  assumes "length cs \<le> 2 ^ 29"
  obtains t where "khash_run hf items cs = Some (fst (map_run Map.empty cs), t)"
    "khash_inv hf t" "khash_map t = snd (map_run Map.empty cs)"
proof -
  obtain s :: "('k, 'd) TW_KHash_32" where s: "TW_KHash_init hf items = Some s" "khash_inv hf s" "khash_map s = Map.empty"
    by (rule TW_KHash_init_spec)
  have "khash_inv hf s \<and> Map.empty = khash_map s \<and> card (dom (Map.empty :: 'k \<rightharpoonup> 'd)) + (0 + length cs) \<le> 2 ^ 29"
    using assms s by simp
  from khash.calls.run_simulated[OF this] show thesis
    using that s(1) by (auto simp: khash_run_def khash_step_def map_run_def)
qed

lemma iter_entries:
  assumes "khash_inv hf t"
  shows "khash_map t k = Some d \<longleftrightarrow>
    (\<exists>a. (k, Some a) \<in> set (iter_list t (fst (gotoStart t))) \<and> dheap t a = Some d)"
proof -
  have "khash_ptrs t k = Some c \<longleftrightarrow> (k, c) \<in> set (kh_entries (KHASHMAP t))" for c
    unfolding kh_map_def
    by (rule map_of_eq_Some_iff[OF kh_entries_distinct[OF khash_invD(1)[OF assms]]])
  moreover have "khash_map t k = Some d \<longleftrightarrow>
      (\<exists>a. khash_ptrs t k = Some (Some a) \<and> dheap t a = Some d)"
    unfolding khash_map_def deref_def by (auto split: option.splits)
  ultimately show ?thesis unfolding iter_list_entries by simp
qed

text \<open>Every key of the logger's tables has the hash value 0: the probes walk the buckets in order.\<close>

lemma all_keys_collide: "hash_func key = 0" "probe hash_func n key t = (t * unat ((1 :: u32) AND (n - 1))) mod unat n"
  by (simp_all add: hash_func_def tw_hash_def kh_int64_hash_func_def probe_def ac_inc_def)

text \<open>C8: Any history of up to \<open>2 ^ 29\<close> calls of \<^verbatim>\<open>addReplace\<close>, \<^verbatim>\<open>addNoreplace\<close>, \<^verbatim>\<open>remove\<close>, \<^verbatim>\<open>find\<close>,
  \<^verbatim>\<open>removeAll\<close> and \<^verbatim>\<open>size\<close> on a new table of any initial size, with any hash function, returns from
  every call, gives the answers that a map gives, and leaves a well-formed table that holds the
  entries of the map.
\<close>

theorem khash_history:
  assumes "length cs \<le> 2 ^ 29"
  shows "\<exists>t. khash_run hf items cs = Some (fst (map_run Map.empty cs), t) \<and>
    khash_inv hf t \<and> khash_map t = snd (map_run Map.empty cs)"
  using khash_run_map[OF assms, of hf items] by metis

theorem khash_history_witness:
  "length [AddReplace (1 :: u32) ''a'', AddReplace 2 ''b'', Remove 1, AddNoreplace 2 ''c'', Find 2, Size]
     \<le> 2 ^ 29 \<and>
   (\<exists>t. khash_run hash_func 0
      [AddReplace (1 :: u32) ''a'', AddReplace 2 ''b'', Remove 1, AddNoreplace 2 ''c'', Find 2, Size] =
      Some ([Answer True, Answer True, Answer True, Answer False, Found (Some ''b''), Count 1], t))"
  using khash_history[of "[AddReplace (1 :: u32) ''a'', AddReplace 2 ''b'', Remove 1,
      AddNoreplace 2 ''c'', Find 2, Size]" hash_func 0]
  by (auto simp: map_run_def)

text \<open>C14: The rehash of \<^verbatim>\<open>kh_resize_A\<close>, asked for any number of buckets, returns with a well-formed
  table that holds the same entries: the elements that the kick-out loop moves in place are
  neither lost nor duplicated, and each is where a later lookup finds it.
\<close>

theorem resize_keeps_entries:
  assumes "kh_ok hf h"
  shows "\<exists>h'. kh_resize_A hf h x = Some h' \<and> kh_ok hf h' \<and> kh_map h' = kh_map h \<and>
    kh_size h' = kh_size h"
proof (cases "h = kh_init_A")
  case True
  have "\<exists>h'. kh_resize_A hf h x = Some h' \<and> kh_table hf h' \<and> kh_map h' = Map.empty \<and> kh_size h' = 0"
    unfolding True using kh_resize_init by blast
  moreover have "kh_size h = 0" unfolding True by (simp add: kh_init_A_def)
  ultimately show ?thesis using True by (auto simp: kh_ok_def)
next
  case False
  then have ok: "kh_table hf h" using assms by (simp add: kh_ok_def)
  show ?thesis
  proof (cases "kh_size h < hash_upper (new_buckets x)")
    case True
    from kh_resize_table[OF ok True] show ?thesis by (auto simp: kh_ok_def)
  next
    case no: False
    then show ?thesis using kh_resize_refused[of x h hf] assms by (simp only: not_less) blast
  qed
qed

theorem resize_keeps_entries_witness:
  "kh_ok hash_func (kh_init_A :: (u32, nat) kh_A_t) \<and>
   (\<exists>h'. kh_resize_A hash_func (kh_init_A :: (u32, nat) kh_A_t) 100 = Some h' \<and>
      kh_ok hash_func h' \<and> kh_map h' = Map.empty)"
  using resize_keeps_entries[of hash_func "kh_init_A :: (u32, nat) kh_A_t" 100] by auto

text \<open>C24: After any history of up to \<open>2 ^ 29\<close> calls the data objects in memory are those of the
  entries, one for each, and the destructor, through \<^verbatim>\<open>removeAll\<close>, frees them all.
\<close>

theorem khash_memory:
  assumes "length cs \<le> 2 ^ 29"
  shows "\<exists>as t t'. khash_run hf items cs = Some (as, t) \<and>
    (\<forall>a. a \<in> dom (dheap t) \<longleftrightarrow> (\<exists>k. kh_map (KHASHMAP t) k = Some (Some a))) \<and>
    (\<forall>k l c. kh_map (KHASHMAP t) k = Some c \<and> kh_map (KHASHMAP t) l = Some c \<longrightarrow> k = l) \<and>
    khash_removeAll t = (True, t') \<and> dheap t' = Map.empty \<and> dheap (TW_KHash_destroy t) = Map.empty"
proof -
  obtain t where t: "khash_run hf items cs = Some (fst (map_run Map.empty cs), t)" "khash_inv hf t"
    using khash_run_map[OF assms] .
  note own = khash_invD(2)[OF t(2)]
  obtain t' where "khash_removeAll t = (True, t')" "dheap t' = Map.empty"
    by (rule khash_removeAll_spec[OF t(2)])
  moreover from this have "dheap (TW_KHash_destroy t) = Map.empty"
    by (simp add: TW_KHash_destroy_def Let_def)
  ultimately show ?thesis
    using t(1) ownsD[OF own] by (intro exI[of _ t] exI[of _ t'] exI conjI) (assumption | blast)+
qed

theorem khash_memory_witness:
  "length [AddReplace (1 :: u32) ''a'', AddReplace 1 ''b'', Remove 1, AddNoreplace 2 ''c''] \<le> 2 ^ 29 \<and>
   (\<exists>as t t'. khash_run hash_func 0
      [AddReplace (1 :: u32) ''a'', AddReplace 1 ''b'', Remove 1, AddNoreplace 2 ''c''] = Some (as, t) \<and>
      khash_removeAll t = (True, t') \<and> dheap t' = Map.empty)"
proof -
  have len: "length [AddReplace (1 :: u32) ''a'', AddReplace 1 ''b'', Remove 1, AddNoreplace 2 ''c''] \<le> 2 ^ 29"
    by simp
  then show ?thesis using khash_memory[OF len, of hash_func 0] by blast
qed

text \<open>C29: After any history of up to \<open>2 ^ 29\<close> calls a walk with the iterator visits every entry
  once: no key comes twice, and a key comes with a pointer to an object exactly when the map has
  that object for it.
\<close>

theorem iteration_complete:
  assumes "length cs \<le> 2 ^ 29"
  shows "\<exists>t. khash_run hf items cs = Some (fst (map_run Map.empty cs), t) \<and>
    distinct (map fst (iter_list t (fst (gotoStart t)))) \<and>
    (\<forall>k d. snd (map_run Map.empty cs) k = Some d \<longleftrightarrow>
       (\<exists>a. (k, Some a) \<in> set (iter_list t (fst (gotoStart t))) \<and> dheap t a = Some d))"
proof -
  obtain t where t: "khash_run hf items cs = Some (fst (map_run Map.empty cs), t)" "khash_inv hf t"
    "khash_map t = snd (map_run Map.empty cs)"
    using khash_run_map[OF assms] .
  have "distinct (map fst (iter_list t (fst (gotoStart t))))"
    unfolding iter_list_entries by (rule kh_entries_distinct[OF khash_invD(1)[OF t(2)]])
  then show ?thesis using t(1) iter_entries[OF t(2)] unfolding t(3) by auto
qed

theorem iteration_complete_witness:
  "length [AddReplace (1 :: u32) ''a'', AddReplace 2 ''b'', Remove 1] \<le> 2 ^ 29 \<and>
   (\<exists>as t a. khash_run hash_func 0 [AddReplace (1 :: u32) ''a'', AddReplace 2 ''b'', Remove 1] = Some (as, t) \<and>
      (2, Some a) \<in> set (iter_list t (fst (gotoStart t))) \<and> dheap t a = Some ''b'')"
proof -
  have len: "length [AddReplace (1 :: u32) ''a'', AddReplace 2 ''b'', Remove 1] \<le> 2 ^ 29" by simp
  moreover have "snd (map_run Map.empty [AddReplace (1 :: u32) ''a'', AddReplace 2 ''b'', Remove 1]) 2 = Some ''b''"
    by (simp add: map_run_def)
  ultimately show ?thesis using iteration_complete[OF len, of hash_func 0] by blast
qed

end
