(* ===== verification/Logger_Tables.thy ===== *)
theory Logger_Tables
  imports Khash_Map Routing
begin

text \<open>
  The tables of the logger are maps in \<open>Filters\<close> and \<open>Dispatch\<close>, with the field \<open>target_order\<close> for
  the order in which the targets are visited. This theory runs the same calls on the hash table:
  the targets' table, whose only writer is \<^verbatim>\<open>addReplace\<close> in \<^verbatim>\<open>targetReady\<close>, and the filters' table,
  which \<^verbatim>\<open>sift\<close> searches and \<^verbatim>\<open>_addFilter\<close> extends, and shows that the maps and the order are right.

  As every key hashes to 0, a table that is only added to is filled from bucket 0 on, and a
  rehash leaves every entry where it is.
\<close>

unbundle bit_operations_syntax

section \<open>Tables filled in order\<close>

lemma probe_linear:
  assumes "pow_buckets n" "t < unat n"
  shows "probe hash_func n key t = t"
proof -
  from assms(1) obtain p where p: "4 \<le> unat n" "n = 2 ^ p" "unat n = 2 ^ p" by (elim pow_bucketsE)
  have "unat ((1 :: u32) AND (n - 1)) = 1 mod 2 ^ p" unfolding p(2) by (simp only: unat_and_mask unsigned_1)
  also have "\<dots> = (1 :: nat)" using p(1) unfolding p(3) by (intro mod_less) linarith
  finally show ?thesis using assms(2) by (simp add: all_keys_collide(2))
qed

text \<open>The buckets in use are the first ones, with the keys in the order of the list.\<close>

definition filled :: "'k list \<Rightarrow> ('k, 'v) kh_A_t \<Rightarrow> bool" where
  "filled ks h \<longleftrightarrow> kh_ok hash_func h \<and> kh_used h = {..<length ks} \<and> kh_live h = {..<length ks} \<and>
     length ks \<le> length (kh_keys h) \<and> (\<forall>i<length ks. kh_keys h ! i = Some (ks ! i))"

lemma filled_init: "filled [] kh_init_A"
  by (auto simp: filled_def kh_init_A_def occ_def liv_def) (simp add: kh_ok_def kh_init_A_def)

lemma filled_table:
  fixes h :: "('k, 'v) kh_A_t"
  assumes "filled ks h" "ks \<noteq> []"
  shows "kh_table hash_func h"
proof -
  have "kh_used (kh_init_A :: ('k, 'v) kh_A_t) = {}" by (simp add: kh_init_A_def occ_def)
  moreover have "kh_used h \<noteq> {}" using assms by (auto simp: filled_def)
  ultimately have "h \<noteq> kh_init_A" by auto
  then show ?thesis using assms by (simp add: filled_def kh_ok_def)
qed

lemma filled_entries:
  assumes "filled ks h"
  shows "map fst (kh_entries h) = ks"
proof -
  let ?f = "\<lambda>i. \<not> fl_empty (kh_flags h) i \<and> \<not> fl_del (kh_flags h) i"
  have live: "i < unat (n_buckets h) \<and> ?f i \<longleftrightarrow> i < length ks" for i
    using assms unfolding filled_def liv_def by blast
  have le: "length ks \<le> unat (n_buckets h)"
    using live[of "unat (n_buckets h)"] by (simp add: not_less)
  then have "[0..<unat (n_buckets h)] = [0..<length ks] @ [length ks..<unat (n_buckets h)]"
    using upt_add_eq_append[of 0 "length ks" "unat (n_buckets h) - length ks"] by simp
  moreover have "filter ?f [0..<length ks] = [0..<length ks]" using live by (intro filter_True ballI) (metis atLeastLessThan_iff set_upt)
  moreover have "filter ?f [length ks..<unat (n_buckets h)] = []" using live by (intro filter_False ballI) (metis atLeastLessThan_iff not_le set_upt)
  ultimately have "filter ?f [0..<unat (n_buckets h)] = [0..<length ks]" by simp
  then have "map fst (kh_entries h) = map (\<lambda>i. the (kh_keys h ! i)) [0..<length ks]"
    by (simp add: kh_entries_def)
  also have "\<dots> = ks" using assms unfolding filled_def by (intro nth_equalityI) auto
  finally show ?thesis .
qed

text \<open>The free bucket that a rehash finds for the \<open>j\<close>-th element is the \<open>j\<close>-th.\<close>

lemma free_loop_linear:
  assumes n: "pow_buckets nn" and G: "occ G nn = {..<j}" "j < unat nn"
  shows "kh_free_loop G (nn - 1) (ac_inc (hash_func key) (nn - 1)) (hash_func key AND (nn - 1)) =
    Some (word_of_nat j)"
proof -
  have "card (occ G nn) < unat nn" using G by simp
  then obtain i t where i: "kh_free_loop G (nn - 1) (ac_inc (hash_func key) (nn - 1))
        (hash_func key AND (nn - 1)) = Some i" "unat i \<notin> occ G nn"
    and t: "t < unat nn" "probe hash_func nn key t = unat i"
      "\<forall>s<t. probe hash_func nn key s \<in> occ G nn"
    by (rule kh_free_loop_spec[OF n, of G hash_func key])
  have "unat i = t" using t(2) probe_linear[OF n t(1), of key] by simp
  moreover have "t \<le> j"
  proof (rule ccontr)
    assume "\<not> t \<le> j"
    then have "probe hash_func nn key j \<in> occ G nn" using t(3) by simp
    then show False using probe_linear[OF n G(2), of key] G(1) by simp
  qed
  ultimately have "unat i = j" using i(2) G(1) by auto
  moreover have "word_of_nat (unat i) = i" by simp
  ultimately show ?thesis using i(1) by simp
qed

lemma rehash_linear:
  assumes pow: "pow_buckets nb" "pow_buckets nn" and m: "m < unat nn"
  shows "length F = unat (ac_fsize nb) \<Longrightarrow> length G = unat (ac_fsize nn) \<Longrightarrow>
    liv F nb = {j..<m} \<Longrightarrow> occ G nn = {..<min j m} \<Longrightarrow> j \<le> unat nb \<Longrightarrow>
    \<exists>F' G'. kh_rehash hash_func nb (nn - 1) (map word_of_nat [j..<unat nb]) (F, G, ks, vs) =
      Some (F', G', ks, vs) \<and> length G' = unat (ac_fsize nn) \<and> occ G' nn = {..<m}"
proof (induction "unat nb - j" arbitrary: j F G)
  case 0
  have "{j..<m} \<subseteq> {..<unat nb}" unfolding 0(4)[symmetric] by (auto simp: liv_def)
  then have "m \<le> j" using 0(1) 0(6) by (auto simp: subset_iff)
  then show ?case using 0 by (auto simp: min_def)
next
  case (Suc d)
  then have j: "j < unat nb" by simp
  let ?w = "word_of_nat j :: u32"
  have w: "unat ?w = j"
    using j unsigned_less[of nb, where 'a = nat] unfolding unsigned_of_nat take_bit_eq_mod by simp
  have upt: "map word_of_nat [j..<unat nb] = ?w # map word_of_nat [Suc j..<unat nb]"
    using j by (simp add: upt_conv_Cons)
  show ?case
  proof (cases "j < m")
    case True
    let ?F = "ac_set_isdel_true F ?w" and ?G = "ac_set_isempty_false G ?w"
    have "j \<in> liv F nb" using True by (simp add: Suc(5))
    then have live: "\<not> ac_iseither F ?w" unfolding ac_flags w by (simp add: liv_def)
    have "liv ?F nb = liv F nb - {unat ?w}" by (rule occ_set(5)[OF pow(1) Suc(3)]) (simp only: w j)
    moreover have "{j..<m} - {j} = {Suc j..<m}" by fastforce
    ultimately have F: "liv ?F nb = {Suc j..<m}" by (simp only: w Suc(5))
    have "occ ?G nn = insert (unat ?w) (occ G nn)" using True m by (intro occ_set(1)[OF pow(2) Suc(4)]) (simp only: w)
    moreover have "insert j {..<min j m} = {..<min (Suc j) m}" using True by (auto simp: min_def)
    ultimately have G: "occ ?G nn = {..<min (Suc j) m}" by (simp only: w Suc(6))
    have dead: "ac_iseither ?F ?w"
      using fl_set(6)[of ?w F j] flag_index[OF pow(1) j] unfolding ac_flags w Suc(3) by simp
    have "kh_free_loop G (nn - 1) (ac_inc (hash_func (the (ks ! j))) (nn - 1))
        (hash_func (the (ks ! j)) AND (nn - 1)) = Some ?w"
      using free_loop_linear[OF pow(2), of G j "the (ks ! j)"] Suc(6) True m by (simp add: min_def)
    then have "kh_kick_loop hash_func nb (nn - 1) ?F G ks vs (ks ! j) (vs ! j) = Some (?F, ?G, ks, vs)"
      using dead w by (subst kh_kick_loop.simps) (simp add: Let_def)
    then show ?thesis
      using Suc(1)[of "Suc j" ?F ?G] Suc(2-4) F G live w j by (simp add: upt)
  next
    case False
    then have "j \<notin> liv F nb" by (simp add: Suc(5))
    then have "ac_iseither F ?w" unfolding ac_flags w using j by (simp add: liv_def)
    moreover have "{j..<m} = {Suc j..<m}" "min j m = min (Suc j) m" using False by auto
    ultimately show ?thesis using Suc(1)[of "Suc j" F G] Suc(2-6) j by (simp add: upt)
  qed
qed

lemma filledI:
  assumes "kh_table hash_func h" "kh_used h = {..<length ks}" "unat (kh_size h) = length ks"
    "\<And>i. i < length ks \<Longrightarrow> kh_keys h ! i = Some (ks ! i)"
  shows "filled ks h"
proof -
  have live: "kh_live h = kh_used h"
    using liv_occ assms(2,3) kh_tableD(8)[OF assms(1)] by (intro card_subset_eq) auto
  have "{..<length ks} \<subseteq> {..<unat (n_buckets h)}" unfolding assms(2)[symmetric] by (auto simp: occ_def)
  then have "length ks \<le> unat (n_buckets h)" by simp
  then show ?thesis
    using assms live kh_tableD(3)[OF assms(1)] by (simp add: filled_def kh_ok_def)
qed

lemma filledD:
  assumes "filled ks h" "kh_table hash_func h"
  shows "kh_used h = {..<length ks}" "kh_live h = {..<length ks}" "unat (kh_size h) = length ks"
    "i < length ks \<Longrightarrow> kh_keys h ! i = Some (ks ! i)" "length ks < unat (n_buckets h)"
proof -
  show "kh_used h = {..<length ks}" "kh_live h = {..<length ks}"
    "i < length ks \<Longrightarrow> kh_keys h ! i = Some (ks ! i)" using assms(1) by (simp_all add: filled_def)
  then show "unat (kh_size h) = length ks" using kh_tableD(8)[OF assms(2)] by simp
  show "length ks < unat (n_buckets h)"
    using kh_tableD(5-7)[OF assms(2)] unat_hash_upper(2)[OF kh_tableD(1)[OF assms(2)]] \<open>kh_used h = _\<close>
    by (simp add: word_le_nat_alt)
qed

lemma realloc_nth: "i < length xs \<Longrightarrow> i < n \<Longrightarrow> kh_realloc xs n ! i = xs ! i"
  by (simp add: kh_realloc_def nth_append)

lemma filled_resize:
  assumes fill: "filled ks h" and ok: "kh_table hash_func h"
    and fits: "kh_size h < hash_upper (new_buckets x)" and run: "kh_resize_A hash_func h x = Some h'"
  shows "filled ks h'"
proof -
  define nn where "nn = new_buckets x"
  let ?nb = "n_buckets h" and ?m = "length ks"
  note D = filledD[OF fill ok]
  have pow: "pow_buckets ?nb" "pow_buckets nn"
    using kh_tableD(1)[OF ok] pow_new_buckets unfolding nn_def .
  have h': "kh_table hash_func h'" "kh_size h' = kh_size h"
    using kh_resize_table[OF ok fits] run by auto
  have m: "?m < unat nn"
    using fits unat_hash_upper(2)[OF pow(2)] D(3) unfolding nn_def[symmetric] by (simp add: word_less_nat_alt)
  define K where "K = (if ?nb < nn then kh_realloc (kh_keys h) (unat nn) else kh_keys h)"
  define V where "V = (if ?nb < nn then kh_realloc (kh_vals h) (unat nn) else kh_vals h)"
  have nf: "\<not> hash_upper nn \<le> kh_size h" using fits unfolding nn_def[symmetric] by simp
  have "liv (kh_flags h) ?nb = {0..<?m}" unfolding D(2) by (rule lessThan_atLeast0)
  then obtain F G where r: "kh_rehash hash_func ?nb (nn - 1) (map word_of_nat [0..<unat ?nb])
      (kh_flags h, memset_empty nn, K, V) = Some (F, G, K, V)" "occ G nn = {..<?m}"
    using rehash_linear[OF pow m, of "kh_flags h" "memset_empty nn" 0 K V] kh_tableD(2)[OF ok]
      memset_occ(1)[OF pow(2)] by auto
  have "kh_resize_A hash_func h x = Some \<lparr>n_buckets = nn, kh_size = kh_size h, n_occupied = kh_size h,
      upper_bound = hash_upper nn, kh_flags = G, kh_keys = (if ?nb > nn then kh_realloc K (unat nn) else K),
      kh_vals = (if ?nb > nn then kh_realloc V (unat nn) else V)\<rparr>"
    unfolding kh_resize_A_def Let_def nn_def[symmetric] K_def[symmetric] V_def[symmetric]
    by (simp only: nf if_False r(1) Option.bind.bind_lunit prod.case)
  then have "kh_flags h' = G" "n_buckets h' = nn"
      "kh_keys h' = (if ?nb > nn then kh_realloc K (unat nn) else K)"
    unfolding run by simp_all
  moreover have "K ! i = Some (ks ! i)" "i < length K" if "i < ?m" for i
    using that D(4,5) m kh_tableD(3)[OF ok]
    by (auto simp: K_def realloc_nth kh_realloc_length)
  ultimately show ?thesis using h' r(2) D(3) m by (intro filledI) (auto simp: realloc_nth)
qed

lemma filled_put_resize:
  assumes fill: "filled ks h" and lim: "unat (kh_size h) \<le> 2 ^ 29"
    and run: "kh_put_resize hash_func h = Some h'"
  shows "filled ks h'"
proof -
  have ok: "kh_ok hash_func h" using fill by (simp add: filled_def)
  obtain h2 where "kh_put_resize hash_func h = Some h2" "kh_table hash_func h2" "kh_size h2 = kh_size h"
    by (rule kh_put_resize_spec[OF ok lim])
  then have h': "kh_table hash_func h'" "kh_size h' = kh_size h" using run by auto
  show ?thesis
  proof (cases "h = kh_init_A")
    case True
    then have "ks = []" "kh_size h = 0"
      using fill filled_table[OF fill] by (auto simp: kh_init_A_def filled_def occ_def)
    moreover have "kh_used h' = {}"
    proof -
      have "kh_resize_A hash_func h 1 = Some h'"
        using run unfolding True by (simp add: kh_put_resize_def kh_init_A_def)
      moreover obtain h2 where "kh_resize_A hash_func h 1 = Some h2" "n_occupied h2 = 0"
        unfolding True using kh_resize_init by blast
      ultimately have "n_occupied h' = 0" by simp
      then show ?thesis using kh_tableD(7)[OF h'(1)] by simp
    qed
    ultimately show ?thesis using h' by (intro filledI) auto
  next
    case False
    then have t: "kh_table hash_func h" using ok by (simp add: kh_ok_def)
    let ?x = "if push_bit 1 (kh_size h) < n_buckets h then n_buckets h - 1 else n_buckets h + 1"
    have "h' = h \<or> kh_resize_A hash_func h ?x = Some h'"
      using run by (auto simp: kh_put_resize_def split: if_splits)
    moreover have "kh_size h < hash_upper (new_buckets ?x)"
      using put_resize_fits[OF t lim] by (cases "push_bit 1 (kh_size h) < n_buckets h") auto
    ultimately show ?thesis using filled_resize[OF fill t] fill by blast
  qed
qed

lemma filled_map: "filled ks h \<Longrightarrow> kh_map h key = None \<longleftrightarrow> key \<notin> set ks"
  unfolding kh_map_def map_of_eq_None_iff using filled_entries[of ks h] by (metis list.set_map)

lemma filled_site:
  assumes fill: "filled ks h" and ok: "kh_table hash_func h" and new: "key \<notin> set ks"
  shows "kh_put_site hash_func h key = Some (word_of_nat (length ks))"
proof -
  let ?p = "probe hash_func (n_buckets h) key"
  note D = filledD[OF fill ok]
  have lin: "?p s = s" if "s < unat (n_buckets h)" for s by (rule probe_linear[OF kh_tableD(1)[OF ok] that])
  have none: "kh_map h key = None" using filled_map[OF fill] new by simp
  obtain t where t: "t < unat (n_buckets h)" "kh_stop h key (?p t)"
    and before: "\<And>s. s < t \<Longrightarrow> \<not> kh_stop h key (?p s)"
    using kh_first_stop[OF ok, of key] by blast
  have "?p t \<notin> kh_used h" using kh_stop_found(2)[OF ok t _ none] before by blast
  then have "length ks \<le> t" using lin[OF t(1)] D(1) by simp
  moreover have "t \<le> length ks"
  proof (rule ccontr)
    assume "\<not> t \<le> length ks"
    then have "?p (length ks) \<in> kh_used h" using before[of "length ks"] unfolding kh_stop_def by auto
    then show False using lin[OF D(5)] D(1) by simp
  qed
  ultimately have tm: "t = length ks" by simp
  obtain q where q: "kh_put_site hash_func h key = Some (word_of_nat (?p q))"
    "q = t \<or> q < t \<and> ?p t \<notin> kh_used h \<and> ?p q \<notin> kh_live h"
    using kh_put_site_run[OF ok t] before by blast
  have "q = t"
  proof (rule ccontr)
    assume "q \<noteq> t"
    then have "q < length ks" "?p q \<notin> kh_live h" using q(2) tm by auto
    then show False using lin[of q] D(2,5) by simp
  qed
  then show ?thesis using q(1) lin[OF t(1)] tm by simp
qed

lemma filled_put:
  assumes fill: "filled ks h" and new: "key \<notin> set ks" and lim: "length ks \<le> 2 ^ 29"
    and run: "kh_put_A hash_func h key = Some (x, r, h')"
  shows "filled (ks @ [key]) h'" "kh_table hash_func h'"
proof -
  let ?m = "length ks"
  have ok: "kh_ok hash_func h" using fill by (simp add: filled_def)
  have size: "unat (kh_size h) = ?m"
  proof (cases "h = kh_init_A")
    case True
    then show ?thesis using fill by (auto simp: filled_def kh_init_A_def occ_def)
  next
    case False
    then show ?thesis using filledD(3)[OF fill] ok by (simp add: kh_ok_def)
  qed
  then have lim': "unat (kh_size h) \<le> 2 ^ 29" using lim by simp
  obtain g where g: "kh_put_resize hash_func h = Some g" "kh_table hash_func g" "kh_size g = kh_size h"
    by (rule kh_put_resize_spec[OF ok lim'])
  have fg: "filled ks g" by (rule filled_put_resize[OF fill lim' g(1)])
  note D = filledD[OF fg g(2)]
  have w: "unat (word_of_nat ?m :: u32) = ?m"
    using D(5) unsigned_less[of "n_buckets g", where 'a = nat] unfolding unsigned_of_nat take_bit_eq_mod by simp
  have x: "x = word_of_nat ?m" and h': "kh_put_at g key x = (r, h')"
    using run g(1) filled_site[OF fg g(2) new] by (auto simp: kh_put_A_def split: prod.splits)
  have "ac_isempty (kh_flags g) x" using kh_empty_test[of x g] x w D(1,5) by simp
  then have e: "h' = g\<lparr>kh_keys := (kh_keys g)[?m := Some key], kh_flags := ac_set_isboth_false (kh_flags g) x,
      kh_size := kh_size g + 1, n_occupied := n_occupied g + 1\<rparr>"
    using h' x w by (simp add: kh_put_at_def)
  show ok': "kh_table hash_func h'" using kh_put_A_spec[OF ok lim', of key] run by auto
  have "kh_used h' = insert ?m (kh_used g)"
    using occ_set(2)[OF kh_tableD(1,2)[OF g(2)], of x] D(5) w unfolding e x by simp
  then have "kh_used h' = {..<Suc ?m}" unfolding D(1) by (simp add: lessThan_Suc)
  moreover have "unat (kh_size h') = Suc ?m" using lim size g(3) unfolding e by (simp add: unat_word_ariths)
  moreover have "?m < length (kh_keys g)" using D(5) kh_tableD(3)[OF g(2)] by simp
  ultimately show "filled (ks @ [key]) h'"
    using ok' D(4) by (intro filledI) (auto simp: e nth_append nth_list_update)
qed

lemma filled_store:
  assumes "filled ks h" "kh_table hash_func h"
  shows "filled ks (h\<lparr>kh_vals := (kh_vals h)[i := c]\<rparr>)"
proof -
  have "kh_table hash_func (h\<lparr>kh_vals := (kh_vals h)[i := c]\<rparr>)" using assms(2) by (auto simp: kh_table_def)
  then show ?thesis using filledD[OF assms] by (intro filledI) auto
qed

text \<open>\<^verbatim>\<open>addReplace\<close> keeps the place of a key that is there and puts a new one behind the others.\<close>

definition add_order :: "'k list \<Rightarrow> 'k \<Rightarrow> 'k list" where
  "add_order ks k = (if k \<in> set ks then ks else ks @ [k])"

lemma addReplace_order:
  assumes inv: "khash_inv hash_func t" and fill: "filled ks (KHASHMAP t)" and lim: "length ks \<le> 2 ^ 29"
    and run: "addReplace hash_func t key d = Some (r, t')"
  shows "filled (add_order ks key) (KHASHMAP t')"
proof (cases "key \<in> set ks")
  case True
  then have "khash_map t key \<noteq> None"
    using filled_map[OF fill, of key] deref_None[OF khash_invD(2)[OF inv]] by (simp add: khash_map_def)
  then obtain d' where "khash_map t key = Some d'" by blast
  then obtain k a where k: "kh_get_A hash_func (KHASHMAP t) key = Some k" "k \<noteq> kh_end t"
      "kh_table hash_func (KHASHMAP t)" "kh_value t k = Some a"
    by (rule khash_get_Some[OF inv])
  have "KHASHMAP t' = (KHASHMAP t)\<lparr>kh_vals := (kh_vals (KHASHMAP t))[unat k := Some (dnext t)]\<rparr>"
    using run k by (auto simp: addReplace_def khash_exchange_def TW_NEW_WALLOC_def TW_DELETE_WALLOC_def
        set_kh_value_def split: prod.splits)
  then show ?thesis using filled_store[OF fill k(3)] True by (simp add: add_order_def)
next
  case False
  then have "khash_map t key = None"
    using filled_map[OF fill, of key] deref_None[OF khash_invD(2)[OF inv]] by (simp add: khash_map_def)
  note get = khash_get_None[OF inv this]
  obtain k r' h where put: "kh_put_A hash_func (KHASHMAP t) key = Some (k, r', h)"
    and t': "KHASHMAP t' = h\<lparr>kh_vals := (kh_vals h)[unat k := Some (dnext t)]\<rparr>"
    using run by (auto simp: addReplace_def get khash_insert_def TW_NEW_WALLOC_def set_kh_value_def
        bind_eq_Some_conv split: prod.splits)
  show ?thesis
    unfolding t' using filled_store[OF filled_put[OF fill False lim put]] False by (simp add: add_order_def)
qed

section \<open>The table of targets\<close>

text \<open>
  \<^verbatim>\<open>targetReady\<close> for a target that came up: registered in the hash table, or as the default target.
  \<open>target_spec\<close> is the same call on the logger of \<open>Dispatch\<close>.
\<close>

definition targetReady_table ::
  "(TargetId, logTarget) TW_KHash_32 \<times> logTarget option \<Rightarrow> logTarget \<Rightarrow>
   (unit \<times> (TargetId, logTarget) TW_KHash_32 \<times> logTarget option) option" where
  "targetReady_table s t =
     (case s of (tab, dflt) \<Rightarrow>
        if myId t = 0 then Some ((), tab, Some t)
        else map_option (\<lambda>(r, tab). ((), tab, dflt)) (addReplace hash_func tab (myId t) t))"

definition target_spec :: "grease \<Rightarrow> logTarget \<Rightarrow> unit \<times> grease" where
  "target_spec g t = ((), the (targetReady True True t g))"

definition targets_as ::
  "nat \<Rightarrow> (TargetId, logTarget) TW_KHash_32 \<times> logTarget option \<Rightarrow> grease \<Rightarrow> bool" where
  "targets_as n s g \<longleftrightarrow>
     (case s of (tab, dflt) \<Rightarrow>
        khash_inv hash_func tab \<and> khash_map tab = targets g \<and> dflt = defaultTarget g \<and>
        filled (target_order g) (KHASHMAP tab) \<and> length (target_order g) + n \<le> 2 ^ 29)"

lemma filled_card:
  assumes "khash_inv hf tab" "filled ks (KHASHMAP tab)"
  shows "card (dom (khash_map tab)) = length ks"
proof -
  have "card (dom (khash_map tab)) = unat (kh_size (KHASHMAP tab))" by (rule khash_card(1)[OF assms(1)])
  also have "\<dots> = length ks"
  proof (cases "KHASHMAP tab = kh_init_A")
    case True
    then show ?thesis using assms(2) by (auto simp: filled_def kh_init_A_def occ_def)
  next
    case False
    then show ?thesis using filledD(3)[OF assms(2)] assms(2) by (simp add: filled_def kh_ok_def)
  qed
  finally show ?thesis .
qed

interpretation target_calls: simulation targets_as targetReady_table target_spec
proof
  fix n s g t
  assume R: "targets_as (Suc n) s g"
  obtain tab dflt where s: "s = (tab, dflt)" by force
  have inv: "khash_inv hash_func tab" and map: "khash_map tab = targets g" and d: "dflt = defaultTarget g"
    and fill: "filled (target_order g) (KHASHMAP tab)" and len: "length (target_order g) + Suc n \<le> 2 ^ 29"
    using R by (auto simp: targets_as_def s)
  have lim: "length (target_order g) \<le> 2 ^ 29" using len by linarith
  show "\<exists>s'. targetReady_table s t = Some (fst (target_spec g t), s') \<and> targets_as n s' (snd (target_spec g t))"
  proof (cases "myId t = 0")
    case True
    then show ?thesis
      using inv map fill len by (auto simp: targetReady_table_def target_spec_def targetReady_def targets_as_def s)
  next
    case False
    obtain tab' where tab': "addReplace hash_func tab (myId t) t = Some (True, tab')"
      "khash_inv hash_func tab'" "khash_map tab' = (khash_map tab)(myId t \<mapsto> t)"
      using addReplace_spec[OF inv, of "myId t" t] filled_card[OF inv fill] lim by auto
    have "filled (add_order (target_order g) (myId t)) (KHASHMAP tab')"
      by (rule addReplace_order[OF inv fill lim tab'(1)])
    then show ?thesis
      using False tab' map d len
      by (auto simp: targetReady_table_def target_spec_def targetReady_def targets_as_def s add_order_def)
  qed
qed

text \<open>C9: The table of targets. Up to \<open>2 ^ 29\<close> targets that come up one after the other are
  registered in the hash table as they are in the map of the logger's model, replaced ones
  included, and the loops over the table, as in \<^verbatim>\<open>flushAll\<close>, visit them in the order in which their
  ids came up first, which is the field \<open>target_order\<close> of the model.\<close>

theorem targets_in_order:
  assumes "length ts \<le> 2 ^ 29" "targets g = Map.empty" "target_order g = []"
  shows "\<exists>tab tab' dflt. TW_KHash_init hash_func 0 = Some tab \<and>
    call_run targetReady_table (tab, defaultTarget g) ts = Some (replicate (length ts) (), tab', dflt) \<and>
    (let g' = snd (spec_run target_spec g ts) in
       khash_map tab' = targets g' \<and> dflt = defaultTarget g' \<and>
       map fst (iter_list tab' (fst (gotoStart tab'))) = target_order g')"
proof -
  let ?tab = "\<lparr>KHASHMAP = kh_init_A, iterators_out = 0, dheap = Map.empty, dnext = 1\<rparr> :: (TargetId, logTarget) TW_KHash_32"
  have init: "TW_KHash_init hash_func 0 = Some ?tab" by (simp add: TW_KHash_init_def)
  have "khash_inv hash_func ?tab" by (rule khash_inv_empty) simp_all
  moreover have "khash_map ?tab = Map.empty" by (simp add: khash_map_def deref_def fun_eq_iff)
  ultimately have "targets_as (0 + length ts) (?tab, defaultTarget g) g"
    using assms filled_init by (simp add: targets_as_def)
  from target_calls.run_simulated[OF this] obtain tab' dflt where
    run: "call_run targetReady_table (?tab, defaultTarget g) ts =
      Some (fst (spec_run target_spec g ts), tab', dflt)"
    and R: "targets_as 0 (tab', dflt) (snd (spec_run target_spec g ts))" by force
  have "length (fst (spec_run target_spec g ts)) = length ts" for g
    by (induction ts arbitrary: g) (auto simp: case_prod_beta)
  then have "fst (spec_run target_spec g ts) = replicate (length ts) ()"
    by (intro nth_equalityI) auto
  then show ?thesis
    using init run R filled_entries[of "target_order (snd (spec_run target_spec g ts))" "KHASHMAP tab'"]
    by (auto simp: targets_as_def Let_def iter_list_entries)
qed

theorem targets_in_order_witness:
  "\<exists>tab tab' dflt. TW_KHash_init hash_func 0 = Some tab \<and>
     call_run targetReady_table (tab, defaultTarget (ex_logger\<lparr>targets := Map.empty, target_order := []\<rparr>))
       [(ex_target TtyTarget)\<lparr>myId := 7\<rparr>, (ex_target TtyTarget)\<lparr>myId := 3\<rparr>, (ex_target TtyTarget)\<lparr>myId := 7\<rparr>] =
       Some ([(), (), ()], tab', dflt) \<and>
     map fst (iter_list tab' (fst (gotoStart tab'))) = [7, 3]"
  using targets_in_order[of "[(ex_target TtyTarget)\<lparr>myId := 7\<rparr>, (ex_target TtyTarget)\<lparr>myId := 3\<rparr>,
      (ex_target TtyTarget)\<lparr>myId := 7\<rparr>]" "ex_logger\<lparr>targets := Map.empty, target_order := []\<rparr>"]
  by (auto simp: target_spec_def targetReady_def)

section \<open>The table of filters\<close>

text \<open>
  The calls on filters with the lookups and insertions made in the hash table. The other fields
  of the state, among them the memory of the lists, are those of \<open>Filters\<close>; its map is not used.
\<close>

definition find_list_table ::
  "(FilterHash, u64) TW_KHash_32 \<Rightarrow> FilterHash list \<Rightarrow> (nat \<times> u64) option option" where
  "find_list_table tab hs =
     Option.bind (find_fill hash_func tab (hs ! 0)) (\<lambda>r0. case r0 of Some p \<Rightarrow> Some (Some (0, p)) | None \<Rightarrow>
     Option.bind (find_fill hash_func tab (hs ! 1)) (\<lambda>r1. case r1 of Some p \<Rightarrow> Some (Some (1, p)) | None \<Rightarrow>
     Option.bind (find_fill hash_func tab (hs ! 2)) (\<lambda>r2. case r2 of Some p \<Rightarrow> Some (Some (2, p)) | None \<Rightarrow>
     Option.bind (find_fill hash_func tab 0) (\<lambda>r3. case r3 of Some p \<Rightarrow> Some (Some (3, p)) | None \<Rightarrow>
     Some None))))"

definition sift_table ::
  "(FilterHash, u64) TW_KHash_32 \<Rightarrow> filter_state \<Rightarrow> logMeta \<Rightarrow> (bool \<times> logMeta) option" where
  "sift_table tab st f =
     (if (levelFilterOutMask st AND m_level f) \<noteq> 0 then Some (False, f)
      else if \<not> META_HAS_CACHE f then
        (let f1 = f\<lparr>cached_hash := getHashes (m_tag f) (m_origin f)\<rparr>
         in map_option (\<lambda>r. case r of
                Some (n, p) \<Rightarrow> (True, META_SET_LIST f1 n p)
              | None \<Rightarrow> (\<not> defaultFilterOut st, f1))
              (find_list_table tab (cached_hash f1)))
      else Some (True, f))"

definition addFilter_table ::
  "u64 \<Rightarrow> (FilterHash, u64) TW_KHash_32 \<Rightarrow> filter_state \<Rightarrow> TargetId \<Rightarrow> OriginId \<Rightarrow> TagId \<Rightarrow> LevelMask \<Rightarrow>
   logLabel option \<Rightarrow> logLabel option \<Rightarrow> logLabel option \<Rightarrow>
   (bool \<times> FilterId \<times> (FilterHash, u64) TW_KHash_32 \<times> filter_state) option" where
  "addFilter_table a tab st t origin tag level preformat postformatpremsg postformat =
     (let hash = filterhash tag origin;
          i = nextFilterId st;
          st1 = st\<lparr>nextFilterId := nextFilterId st + 1\<rparr>
      in Option.bind (find_fill hash_func tab hash) (\<lambda>r.
         Option.bind (case r of
             Some p \<Rightarrow> Some (p, tab, st1)
           | None \<Rightarrow> map_option (\<lambda>(ok, tab). (a, tab, st1\<lparr>fl_heap := (fl_heap st1)(a \<mapsto> FilterList_new)\<rparr>))
                       (addNoreplace hash_func tab hash a)) (\<lambda>(p, tab, st2).
           let f0 = Filter_new i level t;
               f = f0\<lparr>f_preFormat := set_label preformat (f_preFormat f0),
                      f_postFormatPreMsg := set_label postformatpremsg (f_postFormatPreMsg f0),
                      f_postFormat := set_label postformat (f_postFormat f0)\<rparr>
           in case fl_heap st2 p of
                None \<Rightarrow> Some (False, i, tab, st2)
              | Some l \<Rightarrow>
                  (let (ret, l') = FilterList_add l f
                   in Some (ret, i, tab, st2\<lparr>fl_heap := (fl_heap st2)(p \<mapsto> l')\<rparr>)))))"

definition lookupFilter_table ::
  "(FilterHash, u64) TW_KHash_32 \<Rightarrow> filter_state \<Rightarrow> OriginId \<Rightarrow> TagId \<Rightarrow> FilterId \<Rightarrow> (u64 \<times> nat) option option" where
  "lookupFilter_table tab st origin tag i =
     map_option (\<lambda>r. case r of
        None \<Rightarrow> None
      | Some p \<Rightarrow> (case fl_heap st p of
           None \<Rightarrow> None
         | Some l \<Rightarrow> map_option (Pair p) (FilterList_find l i)))
       (find_fill hash_func tab (filterhash tag origin))"

lemma find_list_table_spec:
  assumes "khash_inv hash_func tab" "khash_map tab = filterHashTable st"
  shows "find_list_table tab hs = Some (find_list st hs)"
  using find_fill_spec[OF assms(1)]
  by (simp add: find_list_table_def find_list_def assms(2) split: option.split)

lemma sift_table_spec:
  assumes "khash_inv hash_func tab"
  shows "sift_table tab st f = Some (sift (st\<lparr>filterHashTable := khash_map tab\<rparr>) f)"
  using find_list_table_spec[OF assms, of "st\<lparr>filterHashTable := khash_map tab\<rparr>"]
  by (auto simp: sift_table_def sift_def Let_def split: option.split)

lemma lookupFilter_table_spec:
  assumes "khash_inv hash_func tab"
  shows "lookupFilter_table tab st origin tag i =
    Some (lookupFilter (st\<lparr>filterHashTable := khash_map tab\<rparr>) origin tag i)"
  by (simp add: lookupFilter_table_def lookupFilter_def find_fill_spec[OF assms] split: option.split)

lemma addFilter_table_spec:
  assumes inv: "khash_inv hash_func tab" and lim: "card (dom (khash_map tab)) \<le> 2 ^ 29"
  shows "\<exists>r i tab' st'. addFilter_table a tab st t origin tag level p1 p2 p3 = Some (r, i, tab', st') \<and>
    khash_inv hash_func tab' \<and>
    addFilter_internal a (st\<lparr>filterHashTable := khash_map tab\<rparr>) t origin tag level p1 p2 p3 =
      (r, i, st'\<lparr>filterHashTable := khash_map tab'\<rparr>) \<and>
    card (dom (khash_map tab')) \<le> Suc (card (dom (khash_map tab)))"
proof (cases "khash_map tab (filterhash tag origin)")
  case (Some p)
  then show ?thesis
    by (cases "fl_heap st p")
      (auto simp: addFilter_table_def addFilter_internal_def Let_def find_fill_spec[OF inv] inv split: prod.split)
next
  case None
  obtain tab' where tab': "addNoreplace hash_func tab (filterhash tag origin) a = Some (True, tab')"
    "khash_inv hash_func tab'" "khash_map tab' = (khash_map tab)(filterhash tag origin \<mapsto> a)"
    using addNoreplace_spec[OF inv lim, of "filterhash tag origin" a] None by auto
  have "card (dom (khash_map tab')) \<le> Suc (card (dom (khash_map tab)))"
    unfolding tab'(3) using card_insert_le_m1 khash_card(2)[OF inv] by (simp add: card_insert_if)
  then show ?thesis
    using None tab' by (auto simp: addFilter_table_def addFilter_internal_def Let_def find_fill_spec[OF inv] split: prod.split)
qed

datatype filter_call =
    FilterAdd u64 TargetId OriginId TagId LevelMask "logLabel option" "logLabel option" "logLabel option"
  | FilterSift logMeta
  | FilterLookup OriginId TagId FilterId

datatype filter_answer =
    FilterAdded bool FilterId
  | FilterSifted bool logMeta
  | FilterPlace "(u64 \<times> nat) option"

fun filter_spec :: "filter_state \<Rightarrow> filter_call \<Rightarrow> filter_answer \<times> filter_state" where
  "filter_spec st (FilterAdd a t origin tag level p1 p2 p3) =
     (case addFilter_internal a st t origin tag level p1 p2 p3 of (r, i, st) \<Rightarrow> (FilterAdded r i, st))"
| "filter_spec st (FilterSift f) = (case sift st f of (r, f) \<Rightarrow> (FilterSifted r f, st))"
| "filter_spec st (FilterLookup origin tag i) = (FilterPlace (lookupFilter st origin tag i), st)"

fun filter_table ::
  "(FilterHash, u64) TW_KHash_32 \<times> filter_state \<Rightarrow> filter_call \<Rightarrow>
   (filter_answer \<times> (FilterHash, u64) TW_KHash_32 \<times> filter_state) option" where
  "filter_table (tab, st) (FilterAdd a t origin tag level p1 p2 p3) =
     map_option (\<lambda>(r, i, tab, st). (FilterAdded r i, tab, st))
       (addFilter_table a tab st t origin tag level p1 p2 p3)"
| "filter_table (tab, st) (FilterSift f) =
     map_option (\<lambda>(r, f). (FilterSifted r f, tab, st)) (sift_table tab st f)"
| "filter_table (tab, st) (FilterLookup origin tag i) =
     map_option (\<lambda>r. (FilterPlace r, tab, st)) (lookupFilter_table tab st origin tag i)"

definition filters_as :: "nat \<Rightarrow> (FilterHash, u64) TW_KHash_32 \<times> filter_state \<Rightarrow> filter_state \<Rightarrow> bool" where
  "filters_as n s fs \<longleftrightarrow>
     (case s of (tab, st) \<Rightarrow> khash_inv hash_func tab \<and> fs = st\<lparr>filterHashTable := khash_map tab\<rparr> \<and>
        card (dom (khash_map tab)) + n \<le> 2 ^ 29)"

interpretation filter_calls: simulation filters_as filter_table filter_spec
proof
  fix n s fs c
  assume R: "filters_as (Suc n) s fs"
  obtain tab st where s: "s = (tab, st)" by force
  have inv: "khash_inv hash_func tab" and fs: "fs = st\<lparr>filterHashTable := khash_map tab\<rparr>"
    and lim: "card (dom (khash_map tab)) + Suc n \<le> 2 ^ 29"
    using R by (auto simp: filters_as_def s)
  show "\<exists>s'. filter_table s c = Some (fst (filter_spec fs c), s') \<and> filters_as n s' (snd (filter_spec fs c))"
  proof (cases c)
    case (FilterAdd a t origin tag level p1 p2 p3)
    have "card (dom (khash_map tab)) \<le> 2 ^ 29" using lim by linarith
    from addFilter_table_spec[OF inv this, of a st t origin tag level p1 p2 p3] show ?thesis
      using lim by (auto simp: FilterAdd s fs filters_as_def)
  next
    case (FilterSift f)
    then show ?thesis
      using inv lim by (auto simp: s fs filters_as_def sift_table_spec[OF inv] split: prod.split)
  next
    case (FilterLookup origin tag i)
    then show ?thesis using inv lim by (simp add: s fs filters_as_def lookupFilter_table_spec[OF inv])
  qed
qed

text \<open>C25: The table of filters. Any sequence of up to \<open>2 ^ 29\<close> calls that add filters, sift messages
  and look filters up, made with the hash table in which every key has the hash value 0, gives the
  answers that the map of filters gives: the same messages pass, with the same lists cached in them.\<close>

theorem filters_in_table:
  assumes "length cs \<le> 2 ^ 29"
  shows "\<exists>tab tab' st. TW_KHash_init hash_func 0 = Some tab \<and>
    call_run filter_table (tab, filter_state_init) cs =
      Some (fst (spec_run filter_spec filter_state_init cs), tab', st) \<and>
    snd (spec_run filter_spec filter_state_init cs) = st\<lparr>filterHashTable := khash_map tab'\<rparr>"
proof -
  obtain tab :: "(FilterHash, u64) TW_KHash_32" where tab: "TW_KHash_init hash_func 0 = Some tab"
    "khash_inv hash_func tab" "khash_map tab = Map.empty" by (rule TW_KHash_init_spec)
  then have "filters_as (0 + length cs) (tab, filter_state_init) filter_state_init"
    using assms by (simp add: filters_as_def filter_state_init_def)
  from filter_calls.run_simulated[OF this] tab(1) show ?thesis by (force simp: filters_as_def)
qed

theorem filters_in_table_witness:
  "length [FilterAdd 0x1000 1 2 3 4 None None None, FilterLookup 2 3 1] \<le> 2 ^ 29 \<and>
   (\<exists>tab tab' st. TW_KHash_init hash_func 0 = Some tab \<and>
      call_run filter_table (tab, filter_state_init)
        [FilterAdd 0x1000 1 2 3 4 None None None, FilterLookup 2 3 1] =
      Some ([FilterAdded True 1, FilterPlace (Some (0x1000, 0))], tab', st))"
proof -
  have len: "length [FilterAdd 0x1000 1 2 3 4 None None None, FilterLookup 2 3 1] \<le> 2 ^ 29" by simp
  have "fst (spec_run filter_spec filter_state_init
      [FilterAdd 0x1000 1 2 3 4 None None None, FilterLookup 2 3 1]) =
      [FilterAdded True 1, FilterPlace (Some (0x1000, 0))]" by code_simp
  then show ?thesis using len filters_in_table[OF len] by fastforce
qed

end
