(* ===== verification/Spec2Isabelle.thy ===== *)
theory Spec2Isabelle
  imports Grease_System Grease_Echo Target_Start Circ_Wait Delivery Logger_Tables
begin

text \<open>
  \<^bold>\<open>greaseLib: a logging library with a thread of its own.\<close>

  \<^bold>\<open>The program.\<close> A process that loads greaseLib has one \<open>GreaseLogger\<close> (\<open>src/logger.h\<close>,
  \<open>src/logger.cc\<close>). Entries reach it from many places: calls of the program itself, the socket other
  processes log to with the client of \<open>src/grease_client.c\<close>, the system log's socket, the two kernel
  logs, and descriptors of child processes that the library reads (\<open>src/grease_lib.cc\<close>). An entry is a
  text with a \<open>logMeta\<close> (level, tag, origin). It is sifted by the filters, copied into a buffer of the
  master pool, and queued as an internal command; the logger thread takes the command, looks the
  filters up again and writes the text with header and footer into the current bank of each target
  they name. A full bank is rotated to the queue of banks to write and is flushed to the terminal,
  the file or the program's callback; when the device is done, the bank goes back to the queue of
  available ones. Files are rotated by size and number. All queues are \<open>tw_safeCircular\<close> objects,
  all tables \<open>TW_KHash_32\<close> objects.

  \<^bold>\<open>Theories, in the order of their imports.\<close>
  \<^item> \<open>Grease_Prelude\<close>: machine types, byte buffers with checked reads and writes (\<open>None\<close> is an access
    outside a buffer or another undefined step of the C code), little-endian fields.
  \<^item> \<open>Tw_Circular\<close>: \<open>deps/twlib/include/TW/tw_circular.h\<close> and \<open>tw_sema2.h\<close>. The locale of a
    bounded queue is interpreted on the circular array with its reverse flag; the laws say that the
    array refines a list, that no operation leaves the array and that order and capacity are kept.
    \<open>Circ_Wait\<close> has the operations that wait, and a step relation for threads that share a queue.
  \<^item> \<open>Tw_Khash\<close>, \<open>Khash_Refine\<close>, \<open>Khash_Resize\<close>, \<open>Khash_Map\<close>: \<open>tw_khash.h\<close> and \<open>khash.h\<close>, the hash table of
    TWlib: flag words, double hashing, the in-place rehash, the class with its memory and its
    iterator. It implements the contract of a map (the locales of \<open>Table_Contract\<close>: calls on a table,
    and histories of calls that simulate a specification), so the theories below take
    the tables of targets, filters, sinks, labels and redirections as maps.
  \<^item> \<open>Local_Str\<close>: \<open>local_strdup.c\<close>; the copy that escapes for JSON, its bound, and that decoding undoes it.
  \<^item> \<open>Grease_Meta\<close>: \<open>logMeta\<close>, \<open>extra_logMeta\<close>, macros and byte layout (\<open>grease_client.h\<close>).
  \<^item> \<open>Heap_Buf\<close>: \<open>heapBuf\<close>, \<open>singleLog\<close> with its reference count, labels, delimiters (\<open>logger.h\<close>).
  \<^item> \<open>Filters\<close>: \<open>Filter\<close>, \<open>FilterList\<close>, the hash of tag and origin, \<open>sift\<close>, and the calls that add,
    disable and enable filters and mask levels; the tables are maps, the addresses cached in messages are kept.
  \<^item> \<open>Log_Buf\<close>, \<open>Log_Target\<close>: the banks of a target and the target with its three kinds: headers,
    writing, rotation of banks, flushing, completion of writes, large messages, callbacks.
  \<^item> \<open>Dispatch\<close>, \<open>Routing\<close>: the operations of \<open>GreaseLogger\<close> (pool, queue, \<open>handleInternalCmd\<close>,
    \<open>flushAll\<close>, shutdown) and what they guarantee: delivery to exactly the targets that the filters
    name, conservation of the pool while targets and filters come and messages go, an end of the command loop.
  \<^item> \<open>Logger_Tables\<close>: the calls on the tables of targets and filters made with the hash table. The
    calls with maps give the same answers, and the targets are visited in the order of the model.
  \<^item> \<open>Klog_Parse\<close>, \<open>Dgram_Sink\<close>, \<open>Syslog_Sink\<close>, \<open>Fd_Redirect\<close>: the sources of entries, each with
    its parser byte for byte. \<open>Entry_Source\<close> states the contract between a source and the pool as a
    locale, which is interpreted for the kernel logs and the descriptors. \<open>Kernel_Sink\<close> has the
    threads of the kernel sinks, \<open>Pipe_Sink\<close> the sink that the source marks as not complete: what
    it does with a read, and how it fails.
  \<^item> \<open>Grease_Client\<close>: \<open>grease_client.c\<close>; connecting, the datagram of an entry, giving up.
  \<^item> \<open>File_Rotation\<close>: \<open>fileTarget\<close>'s rotation over a map from paths to contents.
  \<^item> \<open>Grease_Lib\<close>: the calls of \<open>grease_lib.cc\<close> on options, labels, targets and sinks.
  \<^item> \<open>Grease_System\<close>: all sources, the logger thread and the library's calls as one step relation
    with an invariant; from every reachable state every input within the limits of its sink is taken
    without a fault. The limits are those of \<open>intake_ok\<close>; inputs outside of them that leave the
    buffers of a sink are given for each kind of sink.
    The steps are inputs, all commands of the logger thread, completed writes, callbacks, buffers
    given back, flushes, shutdown, and the calls that add and change targets, filters, sinks and labels.
  \<^item> \<open>Delivery\<close>: the way of a process's output and of a kernel line to the target, through the pool,
    the queue, the filters and the target.
  \<^item> \<open>Target_Start\<close>: \<open>error-common.cc\<close> and the callbacks after the start of a target (\<open>logger.cc\<close>):
    what \<open>addTarget\<close> of the library reports, and the queue of results that only the node.js binding uses.
  \<^item> \<open>Grease_Echo\<close>: the command \<open>grease_echo.c\<close> over its arguments, down to the sink's log call.
  \<^item> this theory: the way of a message from the client's call to a target, and the handshake.

  \<^bold>\<open>State and steps.\<close> A class or struct is a record with the fields of the source, an operation a
  function on it that returns the new state; \<open>None\<close> is undefined behaviour. Objects that are shared
  (single log entries) live in the store \<open>logs\<close> of the record \<open>env\<close>, targets in the map of the logger.
  Each locked region is one step, so the interleavings of the threads are the sequences of steps.
  Integers that are stored in a machine word and may wrap are words; lengths that callers pass to the
  logging calls are natural numbers, so a negative length is not represented.

  \<^bold>\<open>Bounds and fuel.\<close> Loops of the code that run until a queue or a buffer is used up have a fuel
  argument, and a theorem gives the fuel that is enough: \<open>handleInternalCmd\<close> needs no more than the
  number of queued commands and the work they add (\<open>command_loop_ends\<close>), \<open>flush_loop\<close> the number of
  banks to write (\<open>flushAll_delivers\<close>), the walk over a datagram twice its length
  (\<open>dgram_any\<close>), the kernel parsers the bytes of the read buffer (\<open>klog_any\<close>), the loop over a
  descriptor the number of reads (\<open>fd_output_logged\<close>), the loops of the rotation the number of files.
  The probes and the rehash of the hash table are partial functions that are shown to return on a
  well-formed table of up to \<open>2 ^ 29\<close> entries (\<open>khash_history\<close>, \<open>resize_keeps_entries\<close>).
  The loop of the pipe sink may never end (\<open>pipe_endless\<close>), so its rounds are an argument.

  \<^bold>\<open>Arguments of the model.\<close> Results of system calls, the rendering of \<open>snprintf\<close>
  (\<open>render\<close>; its truncation is modelled), the match of RE2 on a system log line, and the time.

  \<^bold>\<open>Not modelled.\<close> The event loops of libuv, \<open>select\<close> with its timeouts and wake-up pipes, creation
  and joining of threads (the steps that they run are modelled); RE2, gperftools and the rest of
  TWlib, which are third-party code; the node.js bindings, which are not part of the library's build
  and convert values of a JavaScript engine, with the table of system errors they share; the test
  programs.
\<close>

section \<open>From a client's call to a target\<close>

text \<open>C1: End to end. A client that is connected to the sink prints a text of fewer than 250
  characters; the datagram it sends makes the listener of the sink log the text with the client's
  metadata, and when the logger thread has handled the command that this queued, the text stands,
  with header, footer and delimiter, at the end of the stream of the one target its filters name.
  Stated for a logger with a free pool buffer and an empty command queue.\<close>

theorem client_to_target:
  assumes client: "cstep\<^sup>*\<^sup>* client_new c" "cl_grease_log c = LOG_TO_SINK"
    and entry: "txt \<noteq> []" "length txt < GREASE_C_MACRO_MAX_MESSAGE" "wf_meta m" "m_extras m = 0"
    and sink: "length temp = GREASE_MAX_MESSAGE_SIZE" "512 \<le> rcv"
    and pool: "pool_inv n gr g" "circ_list (masterBufferAvail g) \<noteq> []"
    and queue: "circ_list (internalCmdQueue (env g)) = []" "1 < csize (internalCmdQueue (env g))"
    and filters: "filter_inv (filters g)" "fresh m" "length (chosen (filters g) m) < MAX_IDENTICAL_FILTERS"
      "sift (filters g) m = (True, m')"
    and size: "length txt \<le> bufferSize g"
    and one: "recipients g (fresh_extra m') (chosen (filters g) m) = [(i, flt)]" "find_target g i = Some t"
    and target: "target_inv (env g) t" "ref_inv k (env g) t" "\<not> t_disabled t"
      "t_flags t AND GREASE_JSON_ESCAPE_STRINGS = 0" "length txt + GREASE_MAX_PREFIX_HEADER \<le> bankSize t"
      "framed render tm (env g) t m' flt hdr hn ftr fn"
      "lb_remain (cur t) \<ge> int (length txt + hn + fn) \<or> circ_list (availBuffers t) \<noteq> []"
  shows "\<exists>d c' w g1 g2 t'. grease_printf True m txt (c, own) = Some (Logged, Some d, c', own) \<and>
    dgram_receive nfds rcv temp d g = Some (w, g1) \<and> handleInternalCmd render tm 1 g1 = Some g2 \<and>
    find_target g2 i = Some t' \<and> stream t' = stream t @ line t hdr hn txt (length txt) ftr fn \<and>
    target_inv (env g2) t' \<and> pool_inv n gr g2"
proof -
  have lt: "logged_text txt = txt" using entry(2) by (simp add: logged_text_def)
  have "length txt < 2147483648" using entry(2) by (simp add: GREASE_C_MACRO_MAX_MESSAGE_def)
  from printf_sends [OF reachable_inv [OF client(1)] client(2) entry(3) this, of own]
  obtain c' where sent: "grease_printf True m txt (c, own) = Some (Logged, Some (entry_frame m txt), c', own)"
    using lt by auto
  have ex: "(fresh_extra m)\<lparr>em_m := m'\<rparr> = fresh_extra m'" "em_m (fresh_extra m) = m"
    by (simp_all add: fresh_extra_def)
  have sz: "0 < length txt" "length txt \<le> length txt" "length txt \<le> GREASE_MAX_MESSAGE_SIZE"
    using entry(1,2) by (simp_all add: GREASE_C_MACRO_MAX_MESSAGE_def GREASE_MAX_MESSAGE_SIZE_def)
  from delivered_spec [of n gr g "fresh_extra m" m' "length txt" "txt" i flt t k render tm hdr hn ftr fn]
  obtain g1 g2 t' where del: "logP g (fresh_extra m) txt (length txt) = Some (GREASE_OK, fresh_extra m', g1)"
      "handleInternalCmd render tm 1 g1 = Some g2" "find_target g2 i = Some t'"
      "stream t' = stream t @ line t hdr hn txt (length txt) ftr fn" "target_inv (env g2) t'" "pool_inv n gr g2"
    using pool queue filters sz size one target by (auto simp: ex)
  have "length (entry_frame m txt) = 88 + length txt"
    using length_meta_bytes [OF entry(3)] by (simp add: entry_frame_def sizeof_logMeta_def)
  then have "map_option snd (dgram_receive nfds rcv temp (entry_frame m txt) g) = log_all [(m, txt)] g"
    using frames_receive [OF sink(1), of "[(m, txt)]" "entry_frame m txt" rcv nfds g] sink(2) entry
    by (simp add: sendable_def GREASE_MAX_MESSAGE_SIZE_def GREASE_C_MACRO_MAX_MESSAGE_def)
  then obtain w where "dgram_receive nfds rcv temp (entry_frame m txt) g = Some (w, g1)"
    using del(1) by auto
  then show ?thesis using sent del by blast
qed

theorem client_to_target_witness:
  "\<exists>d c' w g1 g2 t'. grease_printf True ex_meta [0x61, 0x62, 0x63] (ex_client, ex_logger) =
       Some (Logged, Some d, c', ex_logger) \<and>
     dgram_receive 5 131072 (replicate GREASE_MAX_MESSAGE_SIZE 0) d ex_logger = Some (w, g1) \<and>
     handleInternalCmd ex_render (0, 0) 1 g1 = Some g2 \<and> find_target g2 1 = Some t' \<and>
     stream t' = stream (ex_target TtyTarget) @ [0x61, 0x62, 0x63, 0x0A]"
proof -
  have m: "wf_meta ex_meta" "m_extras ex_meta = 0"
    by (simp add: ex_meta_def, simp add: ex_meta_def DECL_LOG_META_def)
  show ?thesis
    using client_to_target [OF ex_client_reached _ _ m, of "[0x61, 0x62, 0x63]" "replicate GREASE_MAX_MESSAGE_SIZE 0" 131072
        2 "[]" ex_logger "snd (sift ex_filters ex_meta)" 1 "Filter_new 1 4 1" "ex_target TtyTarget" 0 ex_render "(0, 0)"
        "header_buffer env_new" 0 "footer_buffer env_new" 0 ex_logger 5]
      ex_logger_parts ex_ready ex_ready_env ex_filters_inv ex_sift ex_sifted
      ex_recipients [of "fresh_extra (snd (sift ex_filters ex_meta))"]
    by (auto simp: fresh_extra_def GREASE_C_MACRO_MAX_MESSAGE_def MAX_IDENTICAL_FILTERS_def
        simp flip: numeral_3_eq_3 simp del: handleInternalCmd.simps)
qed

section \<open>Connecting\<close>

text \<open>C19: Handshake. The sink's listener answers a client's ping with one datagram, for which the client's
  \<open>ping_sink\<close> returns success; a fresh client that finds no logger in its own process is then
  connected to the sink by \<open>grease_initLogger\<close>.\<close>

theorem ping_handshake:
  assumes "0 \<le> fd" "length buf = 4" "4 \<le> rcv" "100 \<le> sy_rcvbuf y" "sy_objs y = []"
  shows "\<exists>w a c. dgram_receive nfds rcv temp (le32 SINK_LOG_PING) g = Some (w, g) \<and> dg_sent w = [a] \<and>
    grease_initLogger (y\<lparr>sy_ping := ping_sink fd True True True (Some a) buf\<rparr>) client_new = Some (GREASE_OK, c) \<and>
    grease_getConnectivityMethod c = 3"
proof -
  obtain w where w: "dgram_receive nfds rcv temp (le32 SINK_LOG_PING) g = Some (w, g)"
      "dg_sent w = [le32 SINK_LOG_PING_ACK]" using dgram_ping [OF assms(3)] by blast
  have "ping_sink fd True True True (Some (le32 SINK_LOG_PING_ACK)) buf"
    using assms(1,2) by (simp add: ping_sink_def)
  moreover
  let ?y = "y\<lparr>sy_ping := ping_sink fd True True True (Some (le32 SINK_LOG_PING_ACK)) buf\<rparr>"
  let ?c = "client_new\<lparr>cl_default_origin := sy_pid y OR 0x15000000, cl_found_module := 0\<rparr>"
  have "client_inv ?c" using client_new_inv by (simp add: client_inv_def set_up_def)
  ultimately obtain c where "setup_sink_dgram_socket ?y None False ?c = Some (0, c)"
    using setup_answers [of ?c ?y False] assms(4) by auto
  then have "grease_initLogger ?y client_new = Some (GREASE_OK, c\<lparr>cl_grease_log := LOG_TO_SINK\<rparr>)"
    using assms(5) by (simp add: grease_initLogger_def check_grease_symbols_def use_sink_def client_new_def)
  then have "\<exists>c. grease_initLogger ?y client_new = Some (GREASE_OK, c) \<and> grease_getConnectivityMethod c = 3"
    by (auto simp: grease_getConnectivityMethod_def)
  then show ?thesis using w by auto
qed

theorem ping_handshake_witness:
  "\<exists>w a c. dgram_receive 5 131072 [] (le32 SINK_LOG_PING) ex_logger = Some (w, ex_logger) \<and> dg_sent w = [a] \<and>
     grease_initLogger (ex_sys\<lparr>sy_ping := ping_sink 7 True True True (Some a) [0, 0, 0, 0]\<rparr>) client_new = Some (GREASE_OK, c) \<and>
     grease_getConnectivityMethod c = 3"
  by (rule ping_handshake) (simp_all add: ex_sys_def)

end
